(* ===== verification/Prelude.thy ===== *)
theory Prelude
  imports Main "HOL-Library.Word"
begin

text \<open>
  Shared vocabulary of the development: the fixed-width integer types of
  \<^verbatim>\<open>stdint.h\<close> as words, the byte-order helpers of \<^verbatim>\<open>kernel/i686/ixkm.s\<close>,
  little-endian loads and stores on a byte-addressed buffer, and the generic facts on
  words, lists and finite loops that several components use.

  The kernel is built for \<^verbatim>\<open>i686-elf\<close>: \<^verbatim>\<open>int\<close>, \<^verbatim>\<open>long\<close>,
  \<^verbatim>\<open>size_t\<close>, \<^verbatim>\<open>uintptr_t\<close> and pointers have 32 bits.
\<close>

unbundle bit_operations_syntax

type_synonym u8 = "8 word"
type_synonym u16 = "16 word"
type_synonym u32 = "32 word"
type_synonym u64 = "64 word"

text \<open>A byte-addressed region of memory, indexed from the region's first byte.\<close>

type_synonym bytes = "nat \<Rightarrow> u8"

named_theorems word_nat \<open>facts that move a word statement to natural numbers\<close>

section \<open>Words\<close>

lemma unat_add_no_wrap [word_nat]:
  "unat (a :: 'a::len word) + unat b < 2 ^ LENGTH('a) \<Longrightarrow> unat (a + b) = unat a + unat b"
  by (simp add: unat_word_ariths)

lemma unat_sub_no_wrap [word_nat]:
  "b \<le> a \<Longrightarrow> unat ((a :: 'a::len word) - b) = unat a - unat b"
  by (rule unat_sub)

lemma unat_mult_no_wrap [word_nat]:
  "unat (a :: 'a::len word) * unat b < 2 ^ LENGTH('a) \<Longrightarrow> unat (a * b) = unat a * unat b"
  by (simp add: unat_word_ariths)

lemma word_eq_unat: "(a :: 'a::len word) = b \<longleftrightarrow> unat a = unat b"
  by (metis unsigned_word_eqI)

lemma unat_inc_no_wrap:
  "(c :: u32) < n \<Longrightarrow> unat (c + 1) = Suc (unat c)"
  by unat_arith

lemma unat_ucast_up [word_nat]:
  "LENGTH('a) \<le> LENGTH('b) \<Longrightarrow> unat (ucast (a :: 'a::len word) :: 'b::len word) = unat a"
  by (transfer, simp add: take_bit_int_eq_self_iff)

lemma and_mask_nat: "unat (w AND mask n) = unat (w :: 'a::len word) mod 2 ^ n"
  by (simp only: take_bit_eq_mask [symmetric] unsigned_take_bit_eq) (simp add: take_bit_eq_mod)

section \<open>Byte order: the assembly helpers of ixkm.s\<close>

definition ix_bswapw :: "u16 \<Rightarrow> u16" where
  "ix_bswapw v = push_bit 8 v OR drop_bit 8 v"

definition ix_bswapi :: "u32 \<Rightarrow> u32" where
  "ix_bswapi v = push_bit 24 (ucast (ucast v :: u8))
     OR push_bit 16 (ucast (ucast (drop_bit 8 v) :: u8))
     OR push_bit 8 (ucast (ucast (drop_bit 16 v) :: u8))
     OR ucast (ucast (drop_bit 24 v) :: u8)"

definition ix_ldnw :: "bytes \<Rightarrow> nat \<Rightarrow> u16" where
  "ix_ldnw m a = push_bit 8 (ucast (m a)) OR ucast (m (Suc a))"

lemma ix_bswapw_involutive [simp]: "ix_bswapw (ix_bswapw v) = v"
  by (rule bit_word_eqI) (auto simp: ix_bswapw_def bit_simps)

section \<open>Little-endian loads and stores\<close>

definition ld16 :: "bytes \<Rightarrow> nat \<Rightarrow> u16" where
  "ld16 m a = ucast (m a) OR push_bit 8 (ucast (m (Suc a)))"

definition ld32 :: "bytes \<Rightarrow> nat \<Rightarrow> u32" where
  "ld32 m a = ucast (ld16 m a) OR push_bit 16 (ucast (ld16 m (a + 2)))"

definition st16 :: "bytes \<Rightarrow> nat \<Rightarrow> u16 \<Rightarrow> bytes" where
  "st16 m a v = m(a := ucast v, Suc a := ucast (drop_bit 8 v))"

definition st32 :: "bytes \<Rightarrow> nat \<Rightarrow> u32 \<Rightarrow> bytes" where
  "st32 m a v = st16 (st16 m a (ucast v)) (a + 2) (ucast (drop_bit 16 v))"

lemma ucast_bytes16: "ucast (ucast (v :: u16) :: u8) OR push_bit 8 (ucast (ucast (drop_bit 8 v) :: u8)) = v"
  by (rule bit_word_eqI) (auto simp: bit_simps)

lemma ucast_halves32: "ucast (ucast (v :: u32) :: u16) OR push_bit 16 (ucast (ucast (drop_bit 16 v) :: u16)) = v"
  by (rule bit_word_eqI) (auto simp: bit_simps)

lemma ld16_st16 [simp]: "ld16 (st16 m a v) a = v"
  by (simp add: ld16_def st16_def ucast_bytes16)

lemma ld16_st16_other:
  "b + 1 < a \<or> a + 1 < b \<Longrightarrow> ld16 (st16 m a v) b = ld16 m b"
  by (auto simp: ld16_def st16_def)

lemma ld32_st32 [simp]: "ld32 (st32 m a v) a = v"
proof -
  have "ld16 (st32 m a v) a = ucast v"
    by (simp add: st32_def ld16_st16_other)
  moreover have "ld16 (st32 m a v) (a + 2) = ucast (drop_bit 16 v)"
    by (simp add: st32_def)
  ultimately show ?thesis
    by (simp add: ld32_def ucast_halves32)
qed

lemma st16_apply: "st16 m a v i =
  (if i = Suc a then ucast (drop_bit 8 v) else if i = a then ucast v else m i)"
  by (simp add: st16_def)

lemma ix_ldnw_is_swapped: "ix_ldnw m a = ix_bswapw (ld16 m a)"
  by (rule bit_word_eqI)
    (auto simp: ix_ldnw_def ix_bswapw_def ld16_def bit_simps dest: bit_imp_le_length)

lemma all_less_32: "(\<forall>n < 32. P n) \<longleftrightarrow> list_all P
  [0 :: nat, 1, 2, 3, 4, 5, 6, 7, 8, 9, 10, 11, 12, 13, 14, 15, 16,
   17, 18, 19, 20, 21, 22, 23, 24, 25, 26, 27, 28, 29, 30, 31]"
proof -
  have "(\<forall>n < 32. P n) \<longleftrightarrow> list_all P [0 ..< 32 :: nat]"
    by (auto simp: list_all_iff)
  moreover have "[0 ..< 32 :: nat] =
    [0, 1, 2, 3, 4, 5, 6, 7, 8, 9, 10, 11, 12, 13, 14, 15, 16,
   17, 18, 19, 20, 21, 22, 23, 24, 25, 26, 27, 28, 29, 30, 31]"
    by code_simp
  ultimately show ?thesis
    by (simp only:)
qed

lemma bit_ix_bswapi: "\<forall>n < 32. bit (ix_bswapi v) n = bit v (24 - 8 * (n div 8) + n mod 8)"
  unfolding all_less_32 by (simp add: ix_bswapi_def bit_simps) (simp add: numeral_2_eq_2)

lemma byte_reverse_index:
  "\<forall>n < 32. 24 - 8 * (n div 8) + n mod 8 < (32 :: nat)
     \<and> 24 - 8 * ((24 - 8 * (n div 8) + n mod 8) div 8) + (24 - 8 * (n div 8) + n mod 8) mod 8 = n"
  unfolding all_less_32 by simp

lemma ix_bswapi_involutive [simp]: "ix_bswapi (ix_bswapi v) = v"
proof (rule bit_word_eqI)
  fix n
  assume "n < LENGTH(32)"
  then have n: "n < 32" by simp
  note idx = byte_reverse_index [rule_format, OF n]
  show "bit (ix_bswapi (ix_bswapi v)) n = bit v n"
    by (simp only: bit_ix_bswapi [rule_format, OF n]
        bit_ix_bswapi [rule_format, OF idx [THEN conjunct1]] idx [THEN conjunct2])
qed

section \<open>Lists\<close>

lemma nth_rotate_tail: "0 < n \<Longrightarrow> map f [0..<n] = f 0 # map (\<lambda>k. f (Suc k)) [0..<n - 1]"
  by (cases n) (simp_all add: upt_conv_Cons map_Suc_upt [symmetric] del: upt_Suc)

end
