(* ===== verification/Fifo.thy ===== *)
theory Fifo
  imports Prelude
begin

text \<open>
  The interface of a bounded first-in first-out queue, as the drivers of the kernel use one:
  the descriptor rings of the network card (\<^verbatim>\<open>dev/e1000.hpp\<close>) and the key
  buffer of the keyboard (\<^verbatim>\<open>dev/keyboard.cpp\<close>) both provide it. The laws relate
  the operations to the list of stored elements, oldest first; the client lemmas (a burst of
  insertions comes out complete and in order) are proved once, from the laws.
\<close>

text \<open>Taking \<open>n\<close> elements out of a queue, in the order the queue delivers them.\<close>

fun drain :: "('q \<Rightarrow> 'a \<times> 'q) \<Rightarrow> nat \<Rightarrow> 'q \<Rightarrow> 'a list" where
  "drain deq 0 q = []"
| "drain deq (Suc n) q = (case deq q of (x, q') \<Rightarrow> x # drain deq n q')"

locale bounded_fifo =
  fixes enq :: "'a \<Rightarrow> 'q \<Rightarrow> 'q"
    and deq :: "'q \<Rightarrow> 'a \<times> 'q"
    and is_empty :: "'q \<Rightarrow> bool"
    and is_full :: "'q \<Rightarrow> bool"
    and stored :: "'q \<Rightarrow> 'a list"
    and capacity :: "'q \<Rightarrow> nat"
    and invar :: "'q \<Rightarrow> bool"
  assumes stored_enq: "invar q \<Longrightarrow> \<not> is_full q \<Longrightarrow> stored (enq x q) = stored q @ [x]"
    and invar_enq: "invar q \<Longrightarrow> \<not> is_full q \<Longrightarrow> invar (enq x q)"
    and capacity_enq: "capacity (enq x q) = capacity q"
    and stored_deq: "invar q \<Longrightarrow> \<not> is_empty q \<Longrightarrow> stored q = fst (deq q) # stored (snd (deq q))"
    and invar_deq: "invar q \<Longrightarrow> \<not> is_empty q \<Longrightarrow> invar (snd (deq q))"
    and empty_iff: "invar q \<Longrightarrow> is_empty q \<longleftrightarrow> stored q = []"
    and full_iff: "invar q \<Longrightarrow> is_full q \<longleftrightarrow> length (stored q) = capacity q"
    and within_capacity: "invar q \<Longrightarrow> length (stored q) \<le> capacity q"
begin

lemma burst:
  "invar q \<Longrightarrow> length (stored q) + length xs \<le> capacity q \<Longrightarrow>
    invar (fold enq xs q) \<and> stored (fold enq xs q) = stored q @ xs"
proof (induction xs arbitrary: q)
  case Nil
  then show ?case by simp
next
  case (Cons x xs)
  from Cons.prems have nf: "\<not> is_full q"
    by (simp add: full_iff)
  with Cons.prems have "invar (enq x q)" "stored (enq x q) = stored q @ [x]"
    by (simp_all add: invar_enq stored_enq)
  with Cons.prems Cons.IH [of "enq x q"] show ?case
    by (simp add: capacity_enq)
qed

lemma drain_stored:
  "invar q \<Longrightarrow> n \<le> length (stored q) \<Longrightarrow> drain deq n q = take n (stored q)"
proof (induction n arbitrary: q)
  case 0
  then show ?case by simp
next
  case (Suc n)
  from Suc.prems have "\<not> is_empty q"
    by (auto simp: empty_iff)
  with Suc.prems have st: "stored q = fst (deq q) # stored (snd (deq q))" and "invar (snd (deq q))"
    by (simp_all add: stored_deq invar_deq)
  with Suc.prems Suc.IH [of "snd (deq q)"] have "drain deq n (snd (deq q)) = take n (stored (snd (deq q)))"
    by (metis Suc_le_mono length_Cons)
  with st show ?case
    by (metis (mono_tags, lifting) case_prod_beta drain.simps(2) take_Suc_Cons)
qed

lemma burst_drain:
  "invar q \<Longrightarrow> stored q = [] \<Longrightarrow> length xs \<le> capacity q \<Longrightarrow>
    drain deq (length xs) (fold enq xs q) = xs"
  using burst [of q xs] by (simp add: drain_stored)

end

end
