(* ===== verification/Ring.thy ===== *)
theory Ring
  imports Fifo
begin

text \<open>
  The ring pointers of \<^verbatim>\<open>kernel/dev/e1000.hpp\<close> (\<^verbatim>\<open>struct RingPointer\<close>), which index the
  receive and transmit descriptor rings of the network driver, and the queue that a ring
  pointer makes of an array of slots. A ring of \<open>limit\<close> slots holds \<open>limit - 1\<close> elements:
  \<open>tail = head\<close> means empty.
\<close>

record ring =
  tail :: u32
  head :: u32
  limit :: u32

definition ring_next :: "ring \<Rightarrow> u32 \<times> ring" where
  "ring_next r =
     (let c = tail r;
          n = c + 1;
          n = (if n \<ge> limit r then 0 else n)
      in (c, r\<lparr>tail := n\<rparr>))"

definition ring_full :: "ring \<Rightarrow> bool" where
  "ring_full r =
     (let n = tail r + 1;
          n = (if n \<ge> limit r then 0 else n)
      in n = head r)"

definition ring_empty :: "ring \<Rightarrow> bool" where
  "ring_empty r = (tail r = head r)"

definition ring_pop :: "ring \<Rightarrow> u32 \<times> ring" where
  "ring_pop r =
     (let c = head r;
          n = c + 1;
          n = (if n \<ge> limit r then 0 else n)
      in (n, r\<lparr>head := n\<rparr>))"

text \<open>What \<^verbatim>\<open>e1000::init\<close> sets up, and every later ring state keeps.\<close>

definition ring_ok :: "ring \<Rightarrow> bool" where
  "ring_ok r \<longleftrightarrow> tail r < limit r \<and> head r < limit r"

text \<open>The slots in use, from the oldest on.\<close>

definition ring_used :: "ring \<Rightarrow> nat" where
  "ring_used r = (unat (tail r) + unat (limit r) - unat (head r)) mod unat (limit r)"

definition ring_slots :: "ring \<Rightarrow> nat list" where
  "ring_slots r = map (\<lambda>k. (unat (head r) + k) mod unat (limit r)) [0..<ring_used r]"

section \<open>Ring pointers as numbers\<close>

lemma ring_step_nat:
  assumes "(c :: u32) < l"
  shows "unat (if c + 1 \<ge> l then 0 else c + 1) = (unat c + 1) mod unat l"
proof -
  have s: "unat (c + 1) = Suc (unat c)"
    using assms by (rule unat_inc_no_wrap)
  have "unat c < unat l"
    using assms by (simp add: word_less_nat_alt)
  then show ?thesis
    by (auto simp: s word_le_nat_alt not_le mod_Suc)
qed

lemma ring_next_nat:
  "ring_ok r \<Longrightarrow> unat (tail (snd (ring_next r))) = (unat (tail r) + 1) mod unat (limit r)"
  using ring_step_nat [of "tail r" "limit r"] by (simp add: ring_next_def ring_ok_def Let_def)

lemma ring_pop_nat:
  "ring_ok r \<Longrightarrow> unat (head (snd (ring_pop r))) = (unat (head r) + 1) mod unat (limit r)"
  using ring_step_nat [of "head r" "limit r"] by (simp add: ring_pop_def ring_ok_def Let_def)

lemma ring_ok_nat:
  "ring_ok r \<longleftrightarrow> unat (tail r) < unat (limit r) \<and> unat (head r) < unat (limit r)"
  by (simp add: ring_ok_def word_less_nat_alt)

lemma ring_next_frame [simp]:
  "head (snd (ring_next r)) = head r" "limit (snd (ring_next r)) = limit r"
  "fst (ring_next r) = tail r"
  by (simp_all add: ring_next_def Let_def)

lemma ring_pop_frame [simp]:
  "tail (snd (ring_pop r)) = tail r" "limit (snd (ring_pop r)) = limit r"
  "fst (ring_pop r) = head (snd (ring_pop r))"
  by (simp_all add: ring_pop_def Let_def)

lemma ring_full_nat:
  "ring_ok r \<Longrightarrow> ring_full r \<longleftrightarrow> (unat (tail r) + 1) mod unat (limit r) = unat (head r)"
  using ring_step_nat [of "tail r" "limit r"]
  by (simp add: ring_full_def ring_ok_def Let_def word_eq_unat [where 'a = 32] cong: if_cong)

lemma ring_next_ok: "ring_ok r \<Longrightarrow> ring_ok (snd (ring_next r))"
  using ring_next_nat [of r] by (auto simp: ring_ok_nat)

lemma ring_pop_ok: "ring_ok r \<Longrightarrow> ring_ok (snd (ring_pop r))"
  using ring_pop_nat [of r] by (auto simp: ring_ok_nat)

section \<open>How many slots are in use\<close>

lemma ring_dist:
  assumes "(t :: nat) < L" "h < L"
  shows "(t + L - h) mod L = (if h \<le> t then t - h else t + L - h)"
  using assms by (auto simp: Nat.add_diff_assoc2 mod_if)

lemma ring_used_cases:
  "ring_ok r \<Longrightarrow> ring_used r =
    (if unat (head r) \<le> unat (tail r) then unat (tail r) - unat (head r)
     else unat (tail r) + unat (limit r) - unat (head r))"
  unfolding ring_used_def by (rule ring_dist) (auto simp: ring_ok_nat)

lemma ring_used_less: "ring_ok r \<Longrightarrow> ring_used r < unat (limit r)"
  by (auto simp: ring_used_cases ring_ok_nat)

lemma ring_empty_used: "ring_ok r \<Longrightarrow> ring_empty r \<longleftrightarrow> ring_used r = 0"
  by (auto simp: ring_used_cases ring_ok_nat ring_empty_def word_eq_unat)

lemma ring_full_used: "ring_ok r \<Longrightarrow> ring_full r \<longleftrightarrow> ring_used r = unat (limit r) - 1"
  by (auto simp: ring_full_nat ring_used_cases ring_ok_nat mod_if)

lemma ring_used_next:
  "ring_ok r \<Longrightarrow> \<not> ring_full r \<Longrightarrow> ring_used (snd (ring_next r)) = Suc (ring_used r)"
  using ring_next_ok [of r]
  by (auto simp: ring_full_nat ring_used_cases ring_next_nat ring_ok_nat mod_if split: if_splits)

lemma ring_used_pop:
  "ring_ok r \<Longrightarrow> \<not> ring_empty r \<Longrightarrow> Suc (ring_used (snd (ring_pop r))) = ring_used r"
  using ring_pop_ok [of r]
  by (auto simp: ring_empty_def word_eq_unat ring_used_cases ring_pop_nat ring_ok_nat mod_if
      split: if_splits)

section \<open>The slots in use\<close>

lemma ring_tail_slot:
  "ring_ok r \<Longrightarrow> (unat (head r) + ring_used r) mod unat (limit r) = unat (tail r)"
  by (auto simp: ring_used_cases ring_ok_nat)

lemma ring_slots_next:
  assumes "ring_ok r" "\<not> ring_full r"
  shows "ring_slots (snd (ring_next r)) = ring_slots r @ [unat (tail r)]"
  using assms by (simp add: ring_slots_def ring_used_next ring_tail_slot)

lemma ring_slots_pop:
  assumes "ring_ok r" "\<not> ring_empty r"
  shows "ring_slots r = unat (head r) # ring_slots (snd (ring_pop r))"
proof -
  have n: "ring_used r = Suc (ring_used (snd (ring_pop r)))"
    using assms by (simp add: ring_used_pop)
  have h: "unat (head r) mod unat (limit r) = unat (head r)"
    using assms(1) by (simp add: ring_ok_nat)
  show ?thesis
    unfolding ring_slots_def n
    by (subst nth_rotate_tail) (simp_all add: h ring_pop_nat assms mod_simps add.commute add.left_commute)
qed

lemma ring_slots_distinct: "ring_ok r \<Longrightarrow> distinct (ring_slots r)"
  unfolding ring_slots_def distinct_map inj_on_def
  using ring_used_less [of r]
  by (auto simp: mod_if ring_ok_nat split: if_splits)

lemma ring_tail_unused:
  assumes "ring_ok r" "\<not> ring_full r"
  shows "unat (tail r) \<notin> set (ring_slots r)"
  using ring_slots_distinct [OF ring_next_ok [OF assms(1)]]
  by (simp add: ring_slots_next assms)

section \<open>A ring of slots is a queue\<close>

text \<open>
  The driver stores at the index that \<open>next\<close> returns (\<^verbatim>\<open>addreceive\<close>, \<^verbatim>\<open>transmit\<close>) and
  takes from the slot at \<open>head\<close> before it calls \<open>pop\<close> (\<^verbatim>\<open>processqueues\<close>).
\<close>

type_synonym 'a ring_buf = "ring \<times> (nat \<Rightarrow> 'a)"

definition ring_push :: "'a \<Rightarrow> 'a ring_buf \<Rightarrow> 'a ring_buf" where
  "ring_push x q = (case q of (r, s) \<Rightarrow>
     (case ring_next r of (c, r') \<Rightarrow> (r', s(unat c := x))))"

definition ring_take :: "'a ring_buf \<Rightarrow> 'a \<times> 'a ring_buf" where
  "ring_take q = (case q of (r, s) \<Rightarrow> (s (unat (head r)), (snd (ring_pop r), s)))"

definition ring_stored :: "'a ring_buf \<Rightarrow> 'a list" where
  "ring_stored q = map (snd q) (ring_slots (fst q))"

lemma ring_push_alt:
  "ring_push x (r, s) = (snd (ring_next r), s(unat (tail r) := x))"
  by (simp add: ring_push_def ring_next_def Let_def)

interpretation rq: bounded_fifo
  ring_push ring_take "\<lambda>q. ring_empty (fst q)" "\<lambda>q. ring_full (fst q)"
  ring_stored "\<lambda>q. unat (limit (fst q)) - 1" "\<lambda>q. ring_ok (fst q)"
proof (unfold_locales, goal_cases)
  case (1 q x)
  then show ?case
    using ring_tail_unused [of "fst q"]
    by (cases q) (auto simp: ring_push_alt ring_stored_def ring_slots_next)
next
  case (2 q x)
  then show ?case
    by (cases q) (simp add: ring_push_alt ring_next_ok)
next
  case (3 x q)
  then show ?case
    by (cases q) (simp add: ring_push_alt)
next
  case (4 q)
  then show ?case
    by (cases q) (simp add: ring_take_def ring_stored_def ring_slots_pop)
next
  case (5 q)
  then show ?case
    by (cases q) (simp add: ring_take_def ring_pop_ok)
next
  case (6 q)
  then show ?case
    by (cases q) (simp add: ring_stored_def ring_slots_def ring_empty_used)
next
  case (7 q)
  then show ?case
    by (cases q) (simp add: ring_stored_def ring_slots_def ring_full_used)
next
  case (8 q)
  then show ?case
    using ring_used_less [of "fst q"]
    by (cases q) (simp add: ring_stored_def ring_slots_def)
qed



text \<open>A ring accepts and releases one slot at a time without corrupting it: the slot that next hands out
  is never one of the slots in use, the slots in use stay distinct, and the indices stay in range.\<close>

theorem ring_next_fresh:
  assumes "ring_ok r" "\<not> ring_full r"
  shows "unat (fst (ring_next r)) \<notin> set (ring_slots r) \<and> ring_ok (snd (ring_next r))
    \<and> distinct (ring_slots (snd (ring_next r)))
    \<and> ring_slots (snd (ring_next r)) = ring_slots r @ [unat (fst (ring_next r))]"
  using assms ring_tail_unused [OF assms] ring_next_ok [OF assms(1)]
  by (simp add: ring_slots_next ring_slots_distinct)

lemma ring_next_fresh_witness:
  "unat (fst (ring_next \<lparr>tail = 3, head = 2, limit = 4\<rparr>)) \<notin> set (ring_slots \<lparr>tail = 3, head = 2, limit = 4\<rparr>)"
  using ring_next_fresh [of "\<lparr>tail = 3, head = 2, limit = 4\<rparr>"]
  by (simp add: ring_ok_def ring_full_def)

end
