(* ===== verification/Ports.thy ===== *)
theory Ports
  imports Prelude
begin

text \<open>
  The hardware a driver talks to, as arguments of its model: reading and writing an I/O port
  (\<^verbatim>\<open>_ix_inb\<close>, \<^verbatim>\<open>_ix_outb\<close>, and the 32-bit forms) and reading the tick counter \<^verbatim>\<open>_iv_int_n\<close>,
  which interrupts advance. \<open>'s\<close> is the state of the devices; every access may change it.
\<close>

record 's ports =
  inb :: "u16 \<Rightarrow> 's \<Rightarrow> u8 \<times> 's"
  outb :: "u16 \<Rightarrow> u8 \<Rightarrow> 's \<Rightarrow> 's"
  inl :: "u16 \<Rightarrow> 's \<Rightarrow> u32 \<times> 's"
  outl :: "u16 \<Rightarrow> u32 \<Rightarrow> 's \<Rightarrow> 's"
  ticks :: "'s \<Rightarrow> u32 \<times> 's"

end
