(* ===== verification/Keys.thy ===== *)
theory Keys
  imports Fifo
begin

text \<open>
  The keyboard driver \<^verbatim>\<open>kernel/dev/keyboard.cpp\<close>: the scan-code state machine
  (\<^verbatim>\<open>port_data\<close>), the modifier bits (\<^verbatim>\<open>key_down\<close>, \<^verbatim>\<open>key_up\<close>), the buffer of 16 key codes
  (\<^verbatim>\<open>push_key\<close>, \<^verbatim>\<open>pop_key\<close>), the command exchange with the port (\<^verbatim>\<open>kbd_cmd\<close>, \<^verbatim>\<open>init\<close>) and the
  key maps of \<^verbatim>\<open>kmain.cpp\<close> (\<^verbatim>\<open>mapchar\<close>).
\<close>

section \<open>The driver\<close>

record keyboard =
  keybuf :: "u32 list"
  keyev :: u32
  kstate :: u32
  keycode :: u32
  lastkey1 :: u32
  lastkey2 :: u32
  lastscan :: u8
  mods :: u32

text \<open>\<^verbatim>\<open>PS2::system_reset\<close> does not return: the machine restarts.\<close>

datatype halted = SystemReset

definition push_key :: "u32 \<Rightarrow> keyboard \<Rightarrow> keyboard" where
  "push_key k kb =
     (let kb = kb\<lparr>keybuf := k # take 15 (keybuf kb)\<rparr>
      in if keyev kb < 16 then kb\<lparr>keyev := keyev kb + 1\<rparr> else kb)"

definition pop_key :: "keyboard \<Rightarrow> u32 \<times> keyboard" where
  "pop_key kb =
     (if keyev kb > 0
      then (let n = keyev kb - 1 in (keybuf kb ! unat n, kb\<lparr>keyev := n\<rparr>))
      else (0, kb))"

definition has_key :: "keyboard \<Rightarrow> bool" where
  "has_key kb \<longleftrightarrow> keyev kb > 0"

text \<open>The bit a key contributes to \<^verbatim>\<open>mods\<close>: the cases of the two switch statements.\<close>

definition mod_bit :: "u32 \<Rightarrow> u32" where
  "mod_bit k =
     (if k = 0x12 then 0x01
      else if k = 0x59 then 0x02
      else if k = 0x14 then 0x04
      else if k = 0x20014 then 0x08
      else if k = 0x11 then 0x10
      else if k = 0x20011 then 0x20
      else if k = 0x2001f then 0x40
      else if k = 0x20027 then 0x80
      else if k = 0x2002f then 0x100
      else if k = 0x20012 then 0x200
      else 0)"

definition key_down :: "keyboard \<Rightarrow> keyboard" where
  "key_down kb =
     (let kb = kb\<lparr>mods := mods kb OR mod_bit (keycode kb AND 0x2ffff)\<rparr>;
          kb = push_key (keycode kb) kb
      in kb\<lparr>lastkey1 := keycode kb\<rparr>)"

definition key_up :: "keyboard \<Rightarrow> halted + keyboard" where
  "key_up kb =
     (let kb = kb\<lparr>mods := mods kb XOR (mods kb AND mod_bit (keycode kb AND 0x2ffff))\<rparr>;
          kb = push_key (keycode kb) kb
      in if mods kb AND 0x30 \<noteq> 0 \<and> mods kb AND 0xC \<noteq> 0 \<and> keycode kb = 0x30071
         then Inl SystemReset
         else (let kb = kb\<lparr>lastkey2 := lastkey1 kb\<rparr>
               in Inr (kb\<lparr>lastkey1 := keycode kb\<rparr>)))"

definition kbd_remove :: "keyboard \<Rightarrow> keyboard" where
  "kbd_remove kb = kb\<lparr>mods := 0, kstate := 0, keyev := 0\<rparr>"

definition or_code :: "u32 \<Rightarrow> keyboard \<Rightarrow> keyboard" where
  "or_code v kb = kb\<lparr>keycode := keycode kb OR v\<rparr>"

definition port_data :: "u8 \<Rightarrow> keyboard \<Rightarrow> halted + keyboard" where
  "port_data c kb =
     (let kb = kb\<lparr>lastscan := c\<rparr> in
      if c > 0xF0 then Inr kb
      else if kstate kb = 0 then
        (let kb = kb\<lparr>keycode := 0\<rparr> in
         if c = 0xE0 then Inr (or_code 0x20000 (kb\<lparr>kstate := 2\<rparr>))
         else if c = 0xE1 then Inr (or_code 0x40000 (kb\<lparr>kstate := 4\<rparr>))
         else if c = 0xF0 then Inr (or_code 0x10000 (kb\<lparr>kstate := 1\<rparr>))
         else Inr (key_down (or_code (ucast c) kb)))
      else if kstate kb = 1 then key_up ((or_code (ucast c) kb)\<lparr>kstate := 0\<rparr>)
      else if kstate kb = 2 then
        (if c = 0xF0 then Inr (or_code 0x10000 (kb\<lparr>kstate := 3\<rparr>))
         else Inr (key_down ((or_code (ucast c) kb)\<lparr>kstate := 0\<rparr>)))
      else if kstate kb = 3 then key_up ((or_code (ucast c) kb)\<lparr>kstate := 0\<rparr>)
      else if kstate kb = 4 then
        (if c = 0xF0 then Inr (or_code 0x10000 (kb\<lparr>kstate := 6\<rparr>))
         else Inr ((or_code (ucast c) kb)\<lparr>kstate := 5\<rparr>))
      else if kstate kb = 5 then
        Inr (key_down ((or_code (push_bit 8 (ucast c)) kb)\<lparr>kstate := 0\<rparr>))
      else if kstate kb = 6 then Inr (or_code (ucast c) (kb\<lparr>kstate := 7\<rparr>))
      else if kstate kb = 7 then
        (if c = 0xF0 then Inr (kb\<lparr>kstate := 8\<rparr>)
         else Inr (key_down ((or_code (push_bit 8 (ucast c)) kb)\<lparr>kstate := 0\<rparr>)))
      else if kstate kb = 8 then
        key_up ((or_code (push_bit 8 (ucast c)) kb)\<lparr>kstate := 0\<rparr>)
      else Inr kb)"

text \<open>A stream of bytes from the port; a reset ends it.\<close>

fun feed :: "u8 list \<Rightarrow> keyboard \<Rightarrow> halted + keyboard" where
  "feed [] kb = Inr kb"
| "feed (c # cs) kb = (case port_data c kb of Inl h \<Rightarrow> Inl h | Inr kb' \<Rightarrow> feed cs kb')"

section \<open>Talking to the keyboard\<close>

text \<open>
  The port is reached through the virtual functions \<^verbatim>\<open>client_send\<close> and \<^verbatim>\<open>client_req\<close> of
  \<^verbatim>\<open>MultiPortService\<close>, which are arguments here; \<open>'s\<close> is the state behind them, \<open>None\<close> the
  null pointer \<^verbatim>\<open>mp_serv\<close>. The reply \<^verbatim>\<open>~0u\<close> means that nothing arrived.
\<close>

type_synonym 's mp_serv = "((u8 \<Rightarrow> 's \<Rightarrow> 's) \<times> ('s \<Rightarrow> u32 \<times> 's)) option"

definition send_data :: "'s mp_serv \<Rightarrow> u8 \<Rightarrow> 's \<Rightarrow> 's" where
  "send_data serv v s = (case serv of None \<Rightarrow> s | Some (send, req) \<Rightarrow> send v s)"

fun cmd_loop :: "(u8 \<Rightarrow> 's \<Rightarrow> 's) \<Rightarrow> ('s \<Rightarrow> u32 \<times> 's) \<Rightarrow> nat \<Rightarrow> u8 \<Rightarrow> 's \<Rightarrow> u8 \<times> 's" where
  "cmd_loop send req 0 v s = (0xFE, s)"
| "cmd_loop send req (Suc i) v s =
     (case req (send v s) of (rc, s') \<Rightarrow>
        if rc = - 1 then cmd_loop send req i v s'
        else (let rc = rc AND 0xff in
              if rc \<noteq> 0xFE then (ucast rc, s') else cmd_loop send req i v s'))"

definition kbd_cmd :: "'s mp_serv \<Rightarrow> u8 \<Rightarrow> 's \<Rightarrow> u8 \<times> 's" where
  "kbd_cmd serv v s =
     (case serv of None \<Rightarrow> (0xFE, s) | Some (send, req) \<Rightarrow> cmd_loop send req 6 v s)"

text \<open>\<^verbatim>\<open>init\<close> counts its failures in \<^verbatim>\<open>es\<close> and then ignores the count.\<close>

definition kbd_init :: "'s mp_serv \<Rightarrow> keyboard \<Rightarrow> 's \<Rightarrow> bool \<times> keyboard \<times> 's" where
  "kbd_init serv kb s =
     (let kb = kb\<lparr>mods := 0, kstate := 0, keyev := 0\<rparr> in
      if serv = None then (False, kb, s)
      else
       (let (r1, s) = kbd_cmd serv 0xff s;
            es = (if r1 \<noteq> 0xAA then 1 else 0 :: u32);
            s = send_data serv 0xed s;
            (r2, s) = kbd_cmd serv 0x07 s;
            es = (if r2 \<noteq> 0xFA then es + 1 else es);
            s = send_data serv 0xf0 s;
            (r3, s) = kbd_cmd serv 0x02 s;
            es = (if r3 \<noteq> 0xFA then es + 1 else es);
            s = send_data serv 0xf3 s;
            (r4, s) = kbd_cmd serv 0x02 s;
            es = (if r4 \<noteq> 0xFA then es + 1 else es);
            (r5, s) = kbd_cmd serv 0xf4 s;
            es = (if r5 \<noteq> 0xFA then es + 1 else es);
            s = send_data serv 0xed s;
            (r6, s) = kbd_cmd serv 0x03 s;
            es = (if r6 \<noteq> 0xFA then es + 1 else es)
        in (True, kb, s)))"

section \<open>Key maps (kmain.cpp)\<close>

definition skeymap :: "u8 list" where
  "skeymap =
   [0, 0, 0, 0, 0, 0, 0, 0, 0, 0, 0, 0, 0, 0, 96, 0,
    0, 0, 0, 0, 0, 113, 49, 0, 0, 0, 122, 115, 97, 119, 50, 0,
    0, 99, 120, 100, 101, 52, 51, 0, 0, 32, 118, 102, 116, 114, 53, 0,
    0, 110, 98, 104, 103, 121, 54, 0, 0, 0, 109, 106, 117, 55, 56, 0,
    0, 44, 107, 105, 111, 48, 57, 0, 0, 46, 47, 108, 59, 112, 45, 0,
    0, 0, 39, 0, 91, 61, 0, 0, 0, 0, 10, 93, 0, 92, 0, 0,
    0, 0, 0, 0, 0, 0, 8, 0, 0, 49, 0, 52, 55, 0, 0, 0,
    48, 46, 50, 53, 54, 56, 27, 0, 0, 43, 51, 45, 42, 57, 0, 0,
    0, 0, 0, 0, 0, 0, 0, 0, 0, 0, 0, 0, 0, 0, 0, 0,
    0, 0, 0, 0, 0, 0, 0, 0, 0, 0, 0, 0, 0, 0, 0, 0,
    0, 0, 0, 0, 0, 0, 0, 0, 0, 0, 0, 0, 0, 0, 0, 0,
    0, 0, 0, 0, 0, 0, 0, 0, 0, 0, 0, 0, 0, 0, 0, 0,
    0, 0, 0, 0, 0, 0, 0, 0, 0, 0, 0, 0, 0, 0, 0, 0,
    0, 0, 0, 0, 0, 0, 0, 0, 0, 0, 0, 0, 0, 0, 0, 0,
    0, 0, 0, 0, 0, 0, 0, 0, 0, 0, 0, 0, 0, 0, 0, 0,
    0, 0, 0, 0, 0, 0, 0, 0, 0, 0, 0, 0, 0, 0, 0, 0]"

definition sskeymap :: "u8 list" where
  "sskeymap =
   [0, 0, 0, 0, 0, 0, 0, 0, 0, 0, 0, 0, 0, 0, 126, 0,
    0, 0, 0, 0, 0, 81, 33, 0, 0, 0, 90, 83, 65, 87, 64, 0,
    0, 67, 88, 68, 69, 36, 35, 0, 0, 32, 86, 70, 84, 82, 37, 0,
    0, 78, 66, 72, 71, 89, 94, 0, 0, 0, 77, 74, 85, 38, 42, 0,
    0, 60, 75, 73, 79, 41, 40, 0, 0, 62, 63, 76, 58, 80, 95, 0,
    0, 0, 34, 0, 123, 43, 0, 0, 0, 0, 10, 125, 0, 124, 0, 0,
    0, 0, 0, 0, 0, 0, 8, 0, 0, 49, 0, 52, 55, 0, 0, 0,
    48, 46, 50, 53, 54, 56, 27, 0, 0, 43, 51, 45, 42, 57, 0, 0,
    0, 0, 0, 0, 0, 0, 0, 0, 0, 0, 0, 0, 0, 0, 0, 0,
    0, 0, 0, 0, 0, 0, 0, 0, 0, 0, 0, 0, 0, 0, 0, 0,
    0, 0, 0, 0, 0, 0, 0, 0, 0, 0, 0, 0, 0, 0, 0, 0,
    0, 0, 0, 0, 0, 0, 0, 0, 0, 0, 0, 0, 0, 0, 0, 0,
    0, 0, 0, 0, 0, 0, 0, 0, 0, 0, 0, 0, 0, 0, 0, 0,
    0, 0, 0, 0, 0, 0, 0, 0, 0, 0, 0, 0, 0, 0, 0, 0,
    0, 0, 0, 0, 0, 0, 0, 0, 0, 0, 0, 0, 0, 0, 0, 0,
    0, 0, 0, 0, 0, 0, 0, 0, 0, 0, 0, 0, 0, 0, 0, 0]"

definition mapchar :: "u32 \<Rightarrow> u32 \<Rightarrow> u8" where
  "mapchar k ms =
     (if k AND 0x10000 \<noteq> 0 then 0
      else if k AND 0x60000 \<noteq> 0 then 0
      else if k AND 0xffff < 256 then
        (if ms AND 0x3 \<noteq> 0 then sskeymap ! unat (k AND 0xff) else skeymap ! unat (k AND 0xff))
      else 0)"

section \<open>The key buffer is a queue\<close>

definition kb_ok :: "keyboard \<Rightarrow> bool" where
  "kb_ok kb \<longleftrightarrow> length (keybuf kb) = 16 \<and> keyev kb \<le> 16 \<and> kstate kb \<le> 8"

definition kb_stored :: "keyboard \<Rightarrow> u32 list" where
  "kb_stored kb = rev (take (unat (keyev kb)) (keybuf kb))"

lemma keyev_nat: "keyev kb \<le> 16 \<longleftrightarrow> unat (keyev kb) \<le> 16" "keyev kb < 16 \<longleftrightarrow> unat (keyev kb) < 16"
  by (simp_all add: word_le_nat_alt word_less_nat_alt)

lemma keyev_inc: "keyev kb < 16 \<Longrightarrow> unat (keyev kb + 1) = Suc (unat (keyev kb))"
  by (rule unat_inc_no_wrap)

lemma keyev_dec: "keyev kb > 0 \<Longrightarrow> Suc (unat (keyev kb - 1)) = unat (keyev kb)"
  by unat_arith

lemma push_key_frame [simp]:
  "kstate (push_key k kb) = kstate kb" "mods (push_key k kb) = mods kb"
  "keycode (push_key k kb) = keycode kb" "lastkey1 (push_key k kb) = lastkey1 kb"
  by (simp_all add: push_key_def Let_def)

lemma push_key_ok: "kb_ok kb \<Longrightarrow> kb_ok (push_key k kb)"
  by (auto simp: kb_ok_def push_key_def Let_def keyev_inc keyev_nat word_le_nat_alt)

lemma pop_key_ok: "kb_ok kb \<Longrightarrow> kb_ok (snd (pop_key kb))"
  using keyev_dec [of kb] by (auto simp: kb_ok_def pop_key_def Let_def keyev_nat word_le_nat_alt)

lemma length_kb_stored: "kb_ok kb \<Longrightarrow> length (kb_stored kb) = unat (keyev kb)"
  by (simp add: kb_stored_def kb_ok_def keyev_nat)

text \<open>A full buffer loses its oldest key: the push always keeps the newest 16.\<close>

lemma kb_stored_push:
  assumes "kb_ok kb"
  shows "kb_stored (push_key k kb) =
    (if keyev kb < 16 then kb_stored kb @ [k] else tl (kb_stored kb) @ [k])"
proof (cases "keyev kb < 16")
  case True
  then have "unat (keyev kb) < 16" "unat (keyev kb + 1) = Suc (unat (keyev kb))"
    by (simp_all add: keyev_nat keyev_inc)
  then show ?thesis
    using True by (simp add: kb_stored_def push_key_def Let_def)
next
  case False
  with assms have n: "unat (keyev kb) = 16" and l: "length (keybuf kb) = 16"
    by (auto simp: kb_ok_def keyev_nat)
  have "rev (take 15 (keybuf kb)) = tl (rev (keybuf kb))"
    using l by (simp add: rev_take drop_Suc)
  with False n l show ?thesis
    by (simp add: kb_stored_def push_key_def Let_def)
qed

interpretation kbq: bounded_fifo
  push_key pop_key "\<lambda>kb. \<not> has_key kb" "\<lambda>kb. \<not> keyev kb < 16" kb_stored "\<lambda>_. 16" kb_ok
proof (unfold_locales, goal_cases)
  case (1 q x)
  then show ?case by (simp add: kb_stored_push)
next
  case (2 q x)
  then show ?case by (simp add: push_key_ok)
next
  case (3 x q)
  show ?case by simp
next
  case (4 q)
  then have k: "Suc (unat (keyev q - 1)) = unat (keyev q)" and l: "length (keybuf q) = 16"
    and u: "unat (keyev q) \<le> 16"
    by (auto simp: has_key_def kb_ok_def keyev_nat intro: keyev_dec)
  from k u l have "take (unat (keyev q)) (keybuf q) =
      take (unat (keyev q - 1)) (keybuf q) @ [keybuf q ! unat (keyev q - 1)]"
    by (metis Suc_le_lessD take_Suc_conv_app_nth)
  with 4 show ?case
    by (simp add: pop_key_def has_key_def kb_stored_def Let_def)
next
  case (5 q)
  then show ?case by (simp add: pop_key_ok)
next
  case (6 q)
  then show ?case
    by (auto simp: has_key_def kb_stored_def kb_ok_def word_gt_0 unat_eq_zero)
next
  case (7 q)
  then show ?case by (auto simp: length_kb_stored kb_ok_def keyev_nat)
next
  case (8 q)
  then show ?case by (auto simp: length_kb_stored kb_ok_def keyev_nat)
qed

section \<open>Scan codes: what a key event sends, and what the driver makes of it\<close>

text \<open>
  Scan code set 2: a make code is one byte, \<open>0xF0\<close> announces a release, \<open>0xE0\<close> an extended
  key and \<open>0xE1\<close> the two-byte pause key. The code stored for the key carries the prefix as
  bits 16 (release), 17 (extended) and 18 (pause).
\<close>

datatype key_event =
    Make u8 | Break u8 | ExtMake u8 | ExtBreak u8 | PauseMake u8 u8 | PauseBreak u8 u8

fun scan_bytes :: "key_event \<Rightarrow> u8 list" where
  "scan_bytes (Make c) = [c]"
| "scan_bytes (Break c) = [0xF0, c]"
| "scan_bytes (ExtMake c) = [0xE0, c]"
| "scan_bytes (ExtBreak c) = [0xE0, 0xF0, c]"
| "scan_bytes (PauseMake a b) = [0xE1, a, b]"
| "scan_bytes (PauseBreak a b) = [0xE1, 0xF0, a, 0xF0, b]"

fun key_code :: "key_event \<Rightarrow> u32" where
  "key_code (Make c) = ucast c"
| "key_code (Break c) = 0x10000 OR ucast c"
| "key_code (ExtMake c) = 0x20000 OR ucast c"
| "key_code (ExtBreak c) = 0x30000 OR ucast c"
| "key_code (PauseMake a b) = 0x40000 OR ucast a OR push_bit 8 (ucast b)"
| "key_code (PauseBreak a b) = 0x50000 OR ucast a OR push_bit 8 (ucast b)"

fun is_release :: "key_event \<Rightarrow> bool" where
  "is_release (Break c) = True"
| "is_release (ExtBreak c) = True"
| "is_release (PauseBreak a b) = True"
| "is_release _ = False"

text \<open>Bytes above \<open>0xF0\<close> are controller replies, and a prefix is not a key.\<close>

fun valid_event :: "key_event \<Rightarrow> bool" where
  "valid_event (Make c) \<longleftrightarrow> c < 0xF0 \<and> c \<noteq> 0xE0 \<and> c \<noteq> 0xE1"
| "valid_event (Break c) \<longleftrightarrow> c \<le> 0xF0"
| "valid_event (ExtMake c) \<longleftrightarrow> c < 0xF0"
| "valid_event (ExtBreak c) \<longleftrightarrow> c \<le> 0xF0"
| "valid_event (PauseMake a b) \<longleftrightarrow> a < 0xF0 \<and> b \<le> 0xF0"
| "valid_event (PauseBreak a b) \<longleftrightarrow> a \<le> 0xF0 \<and> b \<le> 0xF0"

text \<open>The modifier word after an event: a press sets the key's bit, a release clears it.\<close>

definition mods_after :: "key_event \<Rightarrow> u32 \<Rightarrow> u32" where
  "mods_after ev m =
     (let b = mod_bit (key_code ev AND 0x2ffff)
      in if is_release ev then m AND NOT b else m OR b)"

text \<open>Ctrl and Alt are held while Del is released.\<close>

definition resets :: "key_event \<Rightarrow> u32 \<Rightarrow> bool" where
  "resets ev m \<longleftrightarrow> is_release ev \<and> key_code ev = 0x30071
     \<and> mods_after ev m AND 0x30 \<noteq> 0 \<and> mods_after ev m AND 0xC \<noteq> 0"

lemma xor_and_self: "(m :: 'a::len word) XOR (m AND b) = m AND NOT b"
  by (rule bit_word_eqI) (auto simp: bit_simps)

lemma or_code_simps [simp]:
  "kstate (or_code v kb) = kstate kb" "mods (or_code v kb) = mods kb"
  "keycode (or_code v kb) = keycode kb OR v" "kb_ok (or_code v kb) = kb_ok kb"
  "kb_stored (or_code v kb) = kb_stored kb" "keyev (or_code v kb) = keyev kb"
  by (simp_all add: or_code_def kb_ok_def kb_stored_def)

lemma kb_stored_upd [simp]:
  "kb_stored (kb\<lparr>kstate := a\<rparr>) = kb_stored kb" "kb_stored (kb\<lparr>keycode := b\<rparr>) = kb_stored kb"
  "kb_stored (kb\<lparr>lastscan := c\<rparr>) = kb_stored kb" "kb_stored (kb\<lparr>mods := d\<rparr>) = kb_stored kb"
  "kb_stored (kb\<lparr>lastkey1 := e\<rparr>) = kb_stored kb" "kb_stored (kb\<lparr>lastkey2 := f\<rparr>) = kb_stored kb"
  by (simp_all add: kb_stored_def)

lemma kb_ok_upd [simp]:
  "kb_ok (kb\<lparr>keycode := b\<rparr>) = kb_ok kb"
  "kb_ok (kb\<lparr>lastscan := c\<rparr>) = kb_ok kb" "kb_ok (kb\<lparr>mods := d\<rparr>) = kb_ok kb"
  "kb_ok (kb\<lparr>lastkey1 := e\<rparr>) = kb_ok kb" "kb_ok (kb\<lparr>lastkey2 := f\<rparr>) = kb_ok kb"
  by (simp_all add: kb_ok_def)

lemma kb_ok_state: "kb_ok kb \<Longrightarrow> v \<le> 8 \<Longrightarrow> kb_ok (kb\<lparr>kstate := v\<rparr>)"
  by (simp add: kb_ok_def)

lemma key_down_ok: "kb_ok kb \<Longrightarrow> kb_ok (key_down kb)"
  by (simp add: key_down_def Let_def push_key_ok)

lemma key_up_ok: "kb_ok kb \<Longrightarrow> key_up kb = Inr kb' \<Longrightarrow> kb_ok kb'"
  by (auto simp: key_up_def Let_def push_key_ok split: if_splits)

lemma port_data_ok:
  "kb_ok kb \<Longrightarrow> port_data c kb = Inr kb' \<Longrightarrow> kb_ok kb'"
  by (auto simp: port_data_def Let_def kb_ok_state
      intro!: key_down_ok elim!: key_up_ok [rotated] split: if_splits)

lemma feed_append:
  "feed (xs @ ys) kb = (case feed xs kb of Inl h \<Rightarrow> Inl h | Inr kb' \<Rightarrow> feed ys kb')"
  by (induction xs arbitrary: kb) (auto split: sum.splits)

lemma feed_ok: "kb_ok kb \<Longrightarrow> feed cs kb = Inr kb' \<Longrightarrow> kb_ok kb'"
  by (induction cs arbitrary: kb) (auto split: sum.splits dest: port_data_ok)

text \<open>The two ways an event can end, as one record update on the state before it.\<close>

definition key_pressed :: "u32 \<Rightarrow> u8 \<Rightarrow> keyboard \<Rightarrow> keyboard" where
  "key_pressed k c kb =
     key_down (kb\<lparr>lastscan := c, keycode := k, kstate := 0\<rparr>)"

definition key_released :: "u32 \<Rightarrow> u8 \<Rightarrow> keyboard \<Rightarrow> halted + keyboard" where
  "key_released k c kb =
     key_up (kb\<lparr>lastscan := c, keycode := k, kstate := 0\<rparr>)"

lemma kstate_idle: "kstate kb = 0 \<Longrightarrow> kb\<lparr>lastscan := c, keycode := k, kstate := 0\<rparr> = kb\<lparr>lastscan := c, keycode := k\<rparr>"
  by (cases kb) simp

lemma case_sum_id: "(case x of Inl h \<Rightarrow> Inl h | Inr y \<Rightarrow> feed [] y) = x"
  by (cases x) simp_all

lemma feed_event:
  assumes "kstate kb = 0" "valid_event ev"
  shows "feed (scan_bytes ev) kb =
    (if is_release ev then key_released (key_code ev) (last (scan_bytes ev)) kb
     else Inr (key_pressed (key_code ev) (last (scan_bytes ev)) kb))"
  using assms
  by (cases ev)
    (auto simp: port_data_def Let_def or_code_def key_pressed_def key_released_def not_less
      case_sum_id kstate_idle or.assoc)

lemma key_pressed_state:
  "kstate (key_pressed k c kb) = 0"
  "mods (key_pressed k c kb) = mods kb OR mod_bit (k AND 0x2ffff)"
  by (simp_all add: key_pressed_def key_down_def Let_def)

lemma key_pressed_stored:
  assumes "kb_ok kb" "keyev kb < 16"
  shows "kb_stored (key_pressed k c kb) = kb_stored kb @ [k]"
  using assms by (simp add: key_pressed_def key_down_def Let_def kb_stored_push kb_ok_state)

lemma key_released_state:
  assumes "key_released k c kb = Inr kb'"
  shows "kstate kb' = 0" "mods kb' = mods kb AND NOT (mod_bit (k AND 0x2ffff))"
  using assms
  by (auto simp: key_released_def key_up_def Let_def xor_and_self split: if_splits)

lemma key_released_stored:
  assumes "kb_ok kb" "keyev kb < 16" "key_released k c kb = Inr kb'"
  shows "kb_stored kb' = kb_stored kb @ [k]"
  using assms
  by (auto simp: key_released_def key_up_def Let_def kb_stored_push kb_ok_state split: if_splits)

lemma key_released_resets:
  "key_released k c kb = Inl SystemReset \<longleftrightarrow>
    k = 0x30071 \<and> mods kb AND NOT (mod_bit (k AND 0x2ffff)) AND 0x30 \<noteq> 0
      \<and> mods kb AND NOT (mod_bit (k AND 0x2ffff)) AND 0xC \<noteq> 0"
  by (auto simp: key_released_def key_up_def Let_def xor_and_self and.assoc)

text \<open>One event: the state machine is idle again, the key is queued, the modifiers follow.\<close>

lemma feed_event_effect:
  assumes "kstate kb = 0" "valid_event ev" "kb_ok kb" "keyev kb < 16"
    and "feed (scan_bytes ev) kb = Inr kb'"
  shows "kstate kb' = 0" "mods kb' = mods_after ev (mods kb)"
    "kb_stored kb' = kb_stored kb @ [key_code ev]" "kb_ok kb'"
proof -
  have f: "feed (scan_bytes ev) kb =
    (if is_release ev then key_released (key_code ev) (last (scan_bytes ev)) kb
     else Inr (key_pressed (key_code ev) (last (scan_bytes ev)) kb))"
    using assms(1,2) by (rule feed_event)
  note e = f [unfolded assms(5)]
  show "kstate kb' = 0" "mods kb' = mods_after ev (mods kb)"
    "kb_stored kb' = kb_stored kb @ [key_code ev]"
    using e assms(3,4) key_released_state [of "key_code ev" "last (scan_bytes ev)" kb kb']
      key_released_stored [of kb "key_code ev" "last (scan_bytes ev)" kb']
    by (auto simp: mods_after_def Let_def key_pressed_state key_pressed_stored split: if_splits)
  show "kb_ok kb'"
    using assms(3,5) by (rule feed_ok)
qed

lemma feed_event_resets:
  assumes "kstate kb = 0" "valid_event ev"
  shows "feed (scan_bytes ev) kb = Inl SystemReset \<longleftrightarrow> resets ev (mods kb)"
  using assms
  by (simp add: feed_event resets_def mods_after_def Let_def key_released_resets and.assoc
      del: scan_bytes.simps key_code.simps is_release.simps)

fun mods_run :: "key_event list \<Rightarrow> u32 \<Rightarrow> u32" where
  "mods_run [] m = m"
| "mods_run (ev # evs) m = mods_run evs (mods_after ev m)"

lemma feed_stream:
  assumes "kstate kb = 0" "kb_ok kb" "\<forall>ev \<in> set evs. valid_event ev"
    and "length (kb_stored kb) + length evs \<le> 16"
    and "feed (concat (map scan_bytes evs)) kb = Inr kb'"
  shows "kstate kb' = 0 \<and> mods kb' = mods_run evs (mods kb)
    \<and> kb_stored kb' = kb_stored kb @ map key_code evs"
  using assms
proof (induction evs arbitrary: kb)
  case Nil
  then show ?case by simp
next
  case (Cons ev evs)
  from Cons.prems(5) obtain kb1 where k1: "feed (scan_bytes ev) kb = Inr kb1"
    and k2: "feed (concat (map scan_bytes evs)) kb1 = Inr kb'"
    by (auto simp: feed_append split: sum.splits)
  from Cons.prems(2,4) have "keyev kb < 16"
    by (simp add: length_kb_stored keyev_nat)
  with Cons.prems k1 have "kstate kb1 = 0" "mods kb1 = mods_after ev (mods kb)"
    "kb_stored kb1 = kb_stored kb @ [key_code ev]" "kb_ok kb1"
    using feed_event_effect [of kb ev kb1] by simp_all
  with Cons.IH [of kb1] Cons.prems k2 show ?case
    by simp
qed

section \<open>Properties\<close>


definition idle_keyboard :: keyboard where
  "idle_keyboard = \<lparr>keybuf = replicate 16 0, keyev = 0, kstate = 0, keycode = 0,
     lastkey1 = 0, lastkey2 = 0xffff, lastscan = 0, mods = 0\<rparr>"

lemma kb_ok_idle: "kb_ok idle_keyboard" "kb_stored idle_keyboard = []" "kstate idle_keyboard = 0"
  by (simp_all add: kb_ok_def kb_stored_def idle_keyboard_def)


text \<open>C6 A key event restarts the machine exactly when it is the release of the extended Delete key
  while a Ctrl and an Alt bit are set in the modifier word.\<close>

theorem ctrl_alt_del_resets:
  assumes "kstate kb = 0" "valid_event ev"
  shows "feed (scan_bytes ev) kb = Inl SystemReset \<longleftrightarrow> resets ev (mods kb)"
  using assms by (rule feed_event_resets)

theorem ctrl_alt_del_resets_witness:
  "feed [0xE0, 0xF0, 0x71] (idle_keyboard\<lparr>mods := 0x14\<rparr>) = Inl SystemReset"
proof -
  have "resets (ExtBreak 0x71) (mods (idle_keyboard\<lparr>mods := 0x14\<rparr>))"
    by (simp add: resets_def mods_after_def mod_bit_def)
  then show ?thesis
    using ctrl_alt_del_resets [of "idle_keyboard\<lparr>mods := 0x14\<rparr>" "ExtBreak 0x71"]
    by (simp add: kb_ok_idle del: feed.simps)
qed

end
