(* ===== verification/Rtc.thy ===== *)
theory Rtc
  imports Ports
begin

text \<open>
  The CMOS clock \<^verbatim>\<open>kernel/dev/cmos.cpp\<close>: the register access, the initial reading of the clock
  (\<^verbatim>\<open>init\<close>, with its bounded waits and its BCD and 12-hour conversions), the interrupt handler
  \<^verbatim>\<open>irq\<close> and the software calendar \<^verbatim>\<open>add_second\<close> that it advances.
\<close>

section \<open>The clock\<close>

record cmos =
  io_base :: u16
  century_reg :: u8
  nmi_flag :: u8
  itimer :: u32
  timer :: u32
  hour :: u8
  minute :: u8
  second :: u8
  weekday :: u8
  monthday :: u8
  month :: u8
  year :: u16

definition RTC_STATUS_A :: u8 where "RTC_STATUS_A = 0xa"
definition RTC_STATUS_B :: u8 where "RTC_STATUS_B = 0xb"
definition RTC_STATUS_C :: u8 where "RTC_STATUS_C = 0xc"

definition cmos_write :: "'s ports \<Rightarrow> cmos \<Rightarrow> u8 \<Rightarrow> u8 \<Rightarrow> 's \<Rightarrow> 's" where
  "cmos_write p c reg v s =
     (let reg = (reg AND 0x7f) OR nmi_flag c;
          s = outb p (io_base c) reg s
      in outb p (io_base c + 1) v s)"

definition cmos_read :: "'s ports \<Rightarrow> cmos \<Rightarrow> u8 \<Rightarrow> 's \<Rightarrow> u8 \<times> 's" where
  "cmos_read p c reg s =
     (let reg = (reg AND 0x7f) OR nmi_flag c;
          s = outb p (io_base c) reg s
      in inb p (io_base c + 1) s)"

section \<open>The calendar\<close>

text \<open>\<^verbatim>\<open>30 + (0b1010110101010 & (1 << month))\<close>, with the February correction.\<close>

definition leap_flag :: "u16 \<Rightarrow> u8" where
  "leap_flag y =
     (let leap = (if y AND 3 = 0 then 1 else 0 :: u8);
          mod_year = y mod 100;
          div_year = y div 100
      in if mod_year = 0 \<and> div_year AND 3 = 0 then 0 else leap)"

definition days_in_month :: "u8 \<Rightarrow> u16 \<Rightarrow> u32" where
  "days_in_month m y =
     (let month_flag = push_bit (unat m) 1 :: u32;
          days = 30 + (0b1010110101010 AND month_flag)
      in if m = 2 then days - (2 - ucast (leap_flag y)) else days)"

definition add_day :: "cmos \<Rightarrow> cmos" where
  "add_day c =
     (let c = c\<lparr>monthday := monthday c + 1\<rparr> in
      if ucast (monthday c) \<le> days_in_month (month c) (year c) then c
      else
       (let c = c\<lparr>monthday := 1, month := month c + 1\<rparr> in
        if month c \<le> 12 then c
        else c\<lparr>month := 1, year := year c + 1\<rparr>))"

definition add_second :: "cmos \<Rightarrow> cmos" where
  "add_second c =
     (let c = c\<lparr>second := second c + 1\<rparr> in
      if second c < 60 then c
      else
       (let c = c\<lparr>second := 0, minute := minute c + 1\<rparr> in
        if minute c < 60 then c
        else
         (let c = c\<lparr>minute := 0, hour := hour c + 1\<rparr> in
          if hour c < 24 then c
          else
           (let c = c\<lparr>hour := 0, weekday := weekday c + 1\<rparr>;
                c = (if weekday c > 7 then c\<lparr>weekday := 1\<rparr> else c)
            in add_day c))))"

definition cmos_irq :: "'s ports \<Rightarrow> cmos \<Rightarrow> 's \<Rightarrow> cmos \<times> 's" where
  "cmos_irq p cm s =
     (let (c, s) = cmos_read p cm RTC_STATUS_C s;
          cm = (if c AND push_bit 6 1 \<noteq> 0
                then (let cm = cm\<lparr>itimer := itimer cm + 1\<rparr>
                      in if itimer cm \<ge> 0x400 then cm\<lparr>itimer := 0\<rparr> else cm)
                else cm);
          cm = (if c AND push_bit 4 1 \<noteq> 0
                then add_second (cm\<lparr>timer := timer cm + 1\<rparr>)
                else cm)
      in (cm, s))"

section \<open>Setting up\<close>

definition bcd_to_bin8 :: "u8 \<Rightarrow> u8" where
  "bcd_to_bin8 a = (a AND 0xf) + (drop_bit 4 a) * 10"

definition bcd_to_bin16 :: "u16 \<Rightarrow> u16" where
  "bcd_to_bin16 a = (a AND 0xf) + (drop_bit 4 a) * 10"

text \<open>
  The wait for an update to begin: at most \<open>n\<close> turns, while the tick counter is below
  \<open>timeout\<close>. The condition reads the counter once per turn.
\<close>

fun wait_update :: "'s ports \<Rightarrow> cmos \<Rightarrow> nat \<Rightarrow> u32 \<Rightarrow> 's \<Rightarrow> bool \<times> 's" where
  "wait_update p cm 0 timeout s = (False, s)"
| "wait_update p cm (Suc n) timeout s =
     (case ticks p s of (t, s) \<Rightarrow>
        if t < timeout
        then (case cmos_read p cm RTC_STATUS_A s of (a, s) \<Rightarrow>
                if a AND 0x80 \<noteq> 0 then (True, s) else wait_update p cm n timeout s)
        else (False, s))"

text \<open>
  The wait for the update to finish: the condition reads the status first, then compares
  the turn count, then the tick counter.
\<close>

fun wait_done :: "'s ports \<Rightarrow> cmos \<Rightarrow> nat \<Rightarrow> u32 \<Rightarrow> 's \<Rightarrow> 's" where
  "wait_done p cm 0 timeout s = snd (cmos_read p cm RTC_STATUS_A s)"
| "wait_done p cm (Suc n) timeout s =
     (case cmos_read p cm RTC_STATUS_A s of (a, s) \<Rightarrow>
        if a AND 0x80 \<noteq> 0
        then (case ticks p s of (t, s) \<Rightarrow>
                if t < timeout then wait_done p cm n timeout s else s)
        else s)"

text \<open>The conversion of the registers that were read, by the mode bits of register B.\<close>

definition decode_hour :: "u8 \<Rightarrow> u8 \<Rightarrow> u8" where
  "decode_hour b h =
     (if b AND 2 = 0 \<and> h AND 0x80 \<noteq> 0
      then (let h = h AND 0x7f in if b AND 4 \<noteq> 0 then h + 12 else h + 0x12)
      else h)"

definition decode_clock :: "u8 \<Rightarrow> u16 \<Rightarrow> cmos \<Rightarrow> cmos" where
  "decode_clock b century c =
     (let c = c\<lparr>hour := decode_hour b (hour c)\<rparr>;
          bcd = (b AND 4 = 0);
          c = (if bcd
               then c\<lparr>second := bcd_to_bin8 (second c), minute := bcd_to_bin8 (minute c),
                      hour := bcd_to_bin8 (hour c), monthday := bcd_to_bin8 (monthday c),
                      month := bcd_to_bin8 (month c), year := bcd_to_bin16 (year c)\<rparr>
               else c);
          century = (if bcd then bcd_to_bin16 century else century);
          century = (if century = 0 then 20 else century)
      in c\<lparr>year := century * 100 + year c\<rparr>)"

definition cmos_init :: "'s ports \<Rightarrow> cmos \<Rightarrow> 's \<Rightarrow> cmos \<times> 's" where
  "cmos_init p c s =
     (let c = c\<lparr>nmi_flag := 0x80, timer := 0\<rparr>;
          s = cmos_write p c RTC_STATUS_A (push_bit 4 2 OR 6) s;
          (b, s) = cmos_read p c RTC_STATUS_B s;
          b = b OR push_bit 6 1;
          b = b OR push_bit 4 1;
          s = cmos_write p c RTC_STATUS_B b s;
          s = snd (cmos_read p c RTC_STATUS_C s);
          (t, s) = ticks p s;
          (ok, s) = wait_update p c 0x100000 (t + 1200) s;
          (t, s) = ticks p s;
          s = wait_done p c 0x100000 (t + 500) s;
          (v, s) = cmos_read p c 0 s; c = c\<lparr>second := v\<rparr>;
          (v, s) = cmos_read p c 2 s; c = c\<lparr>minute := v\<rparr>;
          (v, s) = cmos_read p c 4 s; c = c\<lparr>hour := v\<rparr>;
          (v, s) = cmos_read p c 6 s; c = c\<lparr>weekday := v\<rparr>;
          (v, s) = cmos_read p c 7 s; c = c\<lparr>monthday := v\<rparr>;
          (v, s) = cmos_read p c 8 s; c = c\<lparr>month := v\<rparr>;
          (v, s) = cmos_read p c 9 s; c = c\<lparr>year := ucast v\<rparr>;
          (v, s) = cmos_read p c (century_reg c) s
      in (decode_clock b (ucast v) c, s))"

section \<open>Time of day\<close>

definition clock_ok :: "cmos \<Rightarrow> bool" where
  "clock_ok c \<longleftrightarrow> second c < 60 \<and> minute c < 60 \<and> hour c < 24"

definition second_of_day :: "cmos \<Rightarrow> nat" where
  "second_of_day c = 3600 * unat (hour c) + 60 * unat (minute c) + unat (second c)"

definition date_of :: "cmos \<Rightarrow> nat \<times> nat \<times> nat" where
  "date_of c = (unat (year c), unat (month c), unat (monthday c))"

lemma u8_inc: "(x :: u8) < k \<Longrightarrow> unat (x + 1) = Suc (unat x)"
  by unat_arith

lemma clock_ok_nat:
  "clock_ok c \<longleftrightarrow> unat (second c) < 60 \<and> unat (minute c) < 60 \<and> unat (hour c) < 24"
  by (simp add: clock_ok_def word_less_nat_alt)

lemma add_day_time [simp]:
  "second (add_day c) = second c" "minute (add_day c) = minute c" "hour (add_day c) = hour c"
  by (simp_all add: add_day_def Let_def)

lemma last_second:
  "h < 24 \<Longrightarrow> m < 60 \<Longrightarrow> s < 60 \<Longrightarrow> \<not> h < 23 \<Longrightarrow> \<not> m < 59 \<Longrightarrow> \<not> s < (59 :: nat)
    \<Longrightarrow> Suc (3600 * h + 60 * m + s) mod 86400 = 0"
proof -
  assume "h < 24" "m < 60" "s < 60" "\<not> h < 23" "\<not> m < 59" "\<not> s < (59 :: nat)"
  then have "h = 23" "m = 59" "s = 59" by simp_all
  then show ?thesis by simp
qed

lemma last_second_conv:
  "h < 24 \<Longrightarrow> m < 60 \<Longrightarrow> s < (60 :: nat) \<Longrightarrow> Suc (3600 * h + 60 * m + s) = 86400
    \<Longrightarrow> h = 23 \<and> m = 59 \<and> s = 59"
  by linarith

lemma add_second_time:
  assumes "clock_ok c"
  shows "clock_ok (add_second c)"
    "second_of_day (add_second c) = Suc (second_of_day c) mod 86400"
    "Suc (second_of_day c) < 86400 \<Longrightarrow> date_of (add_second c) = date_of c"
    "Suc (second_of_day c) = 86400 \<Longrightarrow>
       date_of (add_second c) = date_of (add_day c)"
proof -
  have s: "unat (second c + 1) = Suc (unat (second c))" "unat (minute c + 1) = Suc (unat (minute c))"
    "unat (hour c + 1) = Suc (unat (hour c))"
    using assms by (auto simp: clock_ok_def intro: u8_inc)
  note d = add_second_def Let_def clock_ok_nat second_of_day_def word_less_nat_alt s date_of_def
    add_day_def
  show "clock_ok (add_second c)"
    using assms by (auto simp: d)
  show "second_of_day (add_second c) = Suc (second_of_day c) mod 86400"
    using assms by (auto simp: d last_second)
  show "Suc (second_of_day c) < 86400 \<Longrightarrow> date_of (add_second c) = date_of c"
    using assms by (auto simp: d)
  show "date_of (add_second c) = date_of (add_day c)" if "Suc (second_of_day c) = 86400"
  proof -
    have "unat (hour c) = 23 \<and> unat (minute c) = 59 \<and> unat (second c) = 59"
      using that assms unfolding second_of_day_def clock_ok_nat by (intro last_second_conv) auto
    then show ?thesis by (simp add: d)
  qed
qed

section \<open>Date\<close>

lemma days_in_month_short:
  "m \<in> {4, 6, 9, 11} \<Longrightarrow> days_in_month m y = 30"
  by (auto simp: days_in_month_def Let_def)

text \<open>The Gregorian rule, for comparison.\<close>

definition gregorian_leap :: "nat \<Rightarrow> bool" where
  "gregorian_leap y \<longleftrightarrow> y mod 4 = 0 \<and> (y mod 100 \<noteq> 0 \<or> y mod 400 = 0)"

definition month_length :: "nat \<Rightarrow> nat \<Rightarrow> nat" where
  "month_length m y =
     (if m = 2 then (if gregorian_leap y then 29 else 28)
      else if m \<in> {4, 6, 9, 11} then 30 else 31)"

lemma and_3_mod_4: "(y :: u16) AND 3 = 0 \<longleftrightarrow> unat y mod 4 = 0"
proof -
  have "y AND 3 = take_bit 2 y"
    by (simp add: take_bit_eq_mask mask_eq_exp_minus_1)
  then have "y AND 3 = y mod 4"
    by (simp add: take_bit_eq_mod)
  then show ?thesis
    by (simp add: word_eq_unat unat_mod)
qed

lemma mod_100_word: "(y :: u16) mod 100 = 0 \<longleftrightarrow> unat y mod 100 = 0"
  by (simp add: word_eq_unat unat_mod)

lemma leap_flag_century:
  "unat y mod 100 \<noteq> 0 \<Longrightarrow> leap_flag y = (if gregorian_leap (unat y) then 1 else 0)"
  by (simp add: leap_flag_def Let_def gregorian_leap_def and_3_mod_4 mod_100_word)

lemma days_in_february:
  "unat y mod 100 \<noteq> 0 \<Longrightarrow> unat (days_in_month 2 y) = month_length 2 (unat y)"
  by (simp add: days_in_month_def Let_def month_length_def leap_flag_century)

text \<open>
  The software calendar against the Gregorian one, at midnight: the months for which the code's
  month length is right, which are the 30-day months and February outside century years.
\<close>

definition month_length_right :: "cmos \<Rightarrow> bool" where
  "month_length_right c \<longleftrightarrow>
     month c \<in> {4, 6, 9, 11} \<or> (month c = 2 \<and> unat (year c) mod 100 \<noteq> 0)"

lemma month_length_right_days:
  "month_length_right c \<Longrightarrow>
    unat (days_in_month (month c) (year c)) = month_length (unat (month c)) (unat (year c))"
  by (auto simp: month_length_right_def days_in_month_short days_in_february month_length_def)

lemma month_length_le: "month_length m y \<le> 31"
  by (simp add: month_length_def)

lemma add_day_calendar:
  assumes "month_length_right c" "unat (monthday c) \<le> month_length (unat (month c)) (unat (year c))"
  shows "date_of (add_day c) =
    (if unat (monthday c) < month_length (unat (month c)) (unat (year c))
     then (unat (year c), unat (month c), Suc (unat (monthday c)))
     else (unat (year c), Suc (unat (month c)), 1))"
proof -
  have d: "unat (days_in_month (month c) (year c)) = month_length (unat (month c)) (unat (year c))"
    using assms(1) by (rule month_length_right_days)
  have i: "unat (monthday c + 1) = Suc (unat (monthday c))"
    using assms(2) month_length_le [of "unat (month c)" "unat (year c)"]
    by (intro u8_inc [where k = 40]) (simp add: word_less_nat_alt)
  have m: "unat (month c + 1) = Suc (unat (month c))" "month c + 1 \<le> 12"
    using assms(1) by (auto simp: month_length_right_def)
  show ?thesis
    using assms(2)
    by (auto simp: add_day_def Let_def date_of_def word_le_nat_alt [where 'a = 32] d i m
        unat_ucast_up)
qed

section \<open>Reading the registers\<close>

definition to_bcd :: "nat \<Rightarrow> u8" where
  "to_bcd n = word_of_nat (16 * (n div 10) + n mod 10)"

lemma bcd_roundtrip_table: "list_all (\<lambda>n. bcd_to_bin8 (to_bcd n) = word_of_nat n) [0..<100]"
  by code_simp

lemma bcd_roundtrip: "n < 100 \<Longrightarrow> bcd_to_bin8 (to_bcd n) = word_of_nat n"
  using bcd_roundtrip_table by (simp add: list_all_iff)

section \<open>Properties\<close>

text \<open>C10 The software clock counts seconds: a valid time of day stays valid, advances by one modulo
  86400, and leaves the date alone except at midnight, where the date advances by \<^verbatim>\<open>add_day\<close>.\<close>

theorem clock_counts_seconds:
  assumes "clock_ok c"
  shows "clock_ok (add_second c) \<and>
    second_of_day (add_second c) = Suc (second_of_day c) mod 86400 \<and>
    date_of (add_second c) =
      (if Suc (second_of_day c) < 86400 then date_of c else date_of (add_day c))"
proof -
  have "second_of_day c < 86400"
    using assms by (auto simp: second_of_day_def clock_ok_nat)
  then have "\<not> Suc (second_of_day c) < 86400 \<Longrightarrow> Suc (second_of_day c) = 86400"
    by simp
  then show ?thesis
    using add_second_time [OF assms] by auto
qed

definition sample_clock :: cmos where
  "sample_clock = \<lparr>io_base = 0x70, century_reg = 0x32, nmi_flag = 0x80, itimer = 0, timer = 0,
     hour = 23, minute = 59, second = 59, weekday = 7, monthday = 28, month = 2, year = 2023\<rparr>"

theorem clock_counts_seconds_witness:
  "date_of (add_second sample_clock) = (2023, 3, 1) \<and> second_of_day (add_second sample_clock) = 0"
proof -
  have "clock_ok sample_clock"
    by (simp add: clock_ok_def sample_clock_def)
  note t = clock_counts_seconds [OF this]
  have "date_of (add_day sample_clock) = (2023, 3, 1)"
    by (simp add: add_day_def days_in_month_def leap_flag_def sample_clock_def date_of_def Let_def)
  with t show ?thesis
    by (simp add: second_of_day_def sample_clock_def)
qed

text \<open>At midnight the calendar agrees with the Gregorian one in the 30-day months and in February
  of a year that is not a century: a day before the last advances, the last day turns to the first
  of the next month, with 29 February exactly in leap years.\<close>

theorem calendar_midnight:
  assumes "month_length_right c" "unat (monthday c) \<le> month_length (unat (month c)) (unat (year c))"
    and "clock_ok c" "Suc (second_of_day c) = 86400"
  shows "date_of (add_second c) =
    (if unat (monthday c) < month_length (unat (month c)) (unat (year c))
     then (unat (year c), unat (month c), Suc (unat (monthday c)))
     else (unat (year c), Suc (unat (month c)), 1))"
  using add_second_time(4) [OF assms(3,4)] add_day_calendar [OF assms(1,2)] by simp

theorem calendar_midnight_witness:
  "date_of (add_second (sample_clock\<lparr>year := 2024\<rparr>)) = (2024, 2, 29)"
  using calendar_midnight [of "sample_clock\<lparr>year := 2024\<rparr>"]
  by (simp add: month_length_right_def sample_clock_def month_length_def gregorian_leap_def
      clock_ok_def second_of_day_def)

text \<open>In every month of 31 days the software calendar does not turn the month: the second after
  23:59:59 on the 31st is the 32nd of the same month, because the code adds the month's mask bit
  itself instead of one day.\<close>

theorem long_months_overrun:
  assumes "month c \<in> {1, 3, 5, 7, 8, 10, 12}" "monthday c = 31"
    and "clock_ok c" "Suc (second_of_day c) = 86400"
  shows "date_of (add_second c) = (unat (year c), unat (month c), 32)"
proof -
  have "(32 :: u32) \<le> days_in_month (month c) (year c)"
    using assms(1) by (auto simp: days_in_month_def Let_def)
  then have "date_of (add_day c) = (unat (year c), unat (month c), 32)"
    using assms(2) by (simp add: add_day_def Let_def date_of_def)
  then show ?thesis
    using add_second_time(4) [OF assms(3,4)] by simp
qed

theorem long_months_overrun_witness:
  "date_of (add_second (sample_clock\<lparr>month := 1, monthday := 31\<rparr>)) = (2023, 1, 32)"
  using long_months_overrun [of "sample_clock\<lparr>month := 1, monthday := 31\<rparr>"]
  by (simp add: sample_clock_def clock_ok_def second_of_day_def)

text \<open>The leap rule of the code inverts the 400-year exception.\<close>

lemma century_leap_years_swapped:
  "leap_flag 2000 = 0" "gregorian_leap 2000" "leap_flag 1900 = 1" "\<not> gregorian_leap 1900"
  by (simp_all add: leap_flag_def gregorian_leap_def)

text \<open>Noon on a 12-hour BCD clock is read as hour 24.\<close>

lemma noon_reads_24: "bcd_to_bin8 (decode_hour 0 0x92) = 24"
  by (simp add: decode_hour_def bcd_to_bin8_def)

lemma to_bcd_24h: "n < 24 \<Longrightarrow> decode_hour b (to_bcd n) = to_bcd n"
proof -
  have "list_all (\<lambda>n. to_bcd n AND 0x80 = 0) [0..<24]"
    by code_simp
  then show "n < 24 \<Longrightarrow> ?thesis"
    by (simp add: list_all_iff decode_hour_def)
qed

lemma bcd16_table:
  "list_all (\<lambda>n. bcd_to_bin16 (ucast (to_bcd n)) = word_of_nat n) [0..<100]"
  by code_simp

lemma bcd16_roundtrip: "n < 100 \<Longrightarrow> bcd_to_bin16 (ucast (to_bcd n)) = word_of_nat n"
  using bcd16_table by (simp add: list_all_iff)



end
