(* ===== verification/Entropy.thy ===== *)
theory Entropy
  imports Prelude
begin

text \<open>
  The entropy pool \<^verbatim>\<open>kernel/random.cpp\<close>: the \<^verbatim>\<open>ChaCha\<close> class (\<^verbatim>\<open>init\<close>, \<^verbatim>\<open>stir\<close>, \<^verbatim>\<open>mix\<close>) on a state of
  sixteen 32-bit words, the module's \<^verbatim>\<open>Init\<close> and \<^verbatim>\<open>Mix\<close>, and \<^verbatim>\<open>ixa4random\<close>, which hands out
  state words. The state is a list of words; the macro \<^verbatim>\<open>_ChaCha_Quart\<close> updates four of them.
\<close>

section \<open>The generator\<close>

definition rotleft :: "u32 \<Rightarrow> nat \<Rightarrow> u32" where
  "rotleft v n = push_bit n v OR drop_bit (32 - n) v"

text \<open>The three statement forms of the macro: \<^verbatim>\<open>l[i] += l[j]\<close>, \<^verbatim>\<open>l[i] ^= l[j]\<close> and
  \<^verbatim>\<open>l[i] = rotleft(l[i], n)\<close>.\<close>

definition add_at :: "nat \<Rightarrow> nat \<Rightarrow> u32 list \<Rightarrow> u32 list" where
  "add_at i j l = l[i := l ! i + l ! j]"

definition xor_at :: "nat \<Rightarrow> nat \<Rightarrow> u32 list \<Rightarrow> u32 list" where
  "xor_at i j l = l[i := l ! i XOR l ! j]"

definition rot_at :: "nat \<Rightarrow> nat \<Rightarrow> u32 list \<Rightarrow> u32 list" where
  "rot_at i n l = l[i := rotleft (l ! i) n]"

definition quart :: "nat \<Rightarrow> nat \<Rightarrow> nat \<Rightarrow> nat \<Rightarrow> u32 list \<Rightarrow> u32 list" where
  "quart a b c d l =
     (let l = add_at a b l; l = xor_at d a l;
          l = rot_at d 16 l;
          l = add_at c d l; l = xor_at b c l;
          l = rot_at b 12 l;
          l = add_at a b l; l = xor_at d a l;
          l = rot_at d 8 l;
          l = add_at c d l; l = xor_at b c l;
          l = rot_at b 7 l
      in l)"

definition double_round :: "u32 list \<Rightarrow> u32 list" where
  "double_round l =
     (let l = quart 0 4 8 12 l;
          l = quart 1 5 9 13 l;
          l = quart 2 6 10 14 l;
          l = quart 3 7 11 15 l;
          l = quart 0 5 10 15 l;
          l = quart 1 6 11 12 l;
          l = quart 2 7 8 13 l;
          l = quart 3 4 9 14 l
      in l)"

definition stir :: "u32 list \<Rightarrow> u32 list" where
  "stir st = map2 (+) st ((double_round ^^ 20) st)"

definition chacha_init :: "u32 list \<Rightarrow> u32 \<Rightarrow> u32 list \<Rightarrow> u32 list" where
  "chacha_init ukey block unonce =
     stir ([0x61707865, 0x3320646e, 0x79622d32, 0x6b206574]
       @ take 8 ukey @ [block] @ take 3 unonce)"

text \<open>
  The inner loop of \<^verbatim>\<open>mix\<close>: at most eight words, from index \<open>i\<close>, while bytes remain. The input
  is read at \<open>in[i]\<close>, and the pointer \<open>in\<close> is never advanced.
\<close>

function mix_words :: "(nat \<Rightarrow> u32) \<Rightarrow> nat \<Rightarrow> u32 \<Rightarrow> u32 list \<Rightarrow> u32 \<times> u32 list" where
  "mix_words inp i len st =
     (if i < 8 \<and> len \<noteq> 0
      then mix_words inp (Suc i) (len - 4) (st[4 + i := st ! (4 + i) XOR inp i])
      else (len, st))"
  by pat_completeness auto
termination
  by (relation "measure (\<lambda>(inp, i, len, st). 8 - i)") auto

declare mix_words.simps [simp del]

text \<open>
  The outer loop runs while \<^verbatim>\<open>len\<close> is not zero. It returns only because \<^verbatim>\<open>mix\<close> rounds the length
  down to a multiple of four first, so not returning is a value here.
\<close>

partial_function (option) mix_loop :: "(nat \<Rightarrow> u32) \<Rightarrow> u32 \<Rightarrow> u32 list \<Rightarrow> u32 list option" where
  "mix_loop inp len st =
     (if len \<noteq> 0
      then mix_loop inp (fst (mix_words inp 0 len st)) (stir (snd (mix_words inp 0 len st)))
      else Some st)"

definition mix :: "(nat \<Rightarrow> u32) \<Rightarrow> u32 \<Rightarrow> u32 list \<Rightarrow> u32 list option" where
  "mix inp len st = mix_loop inp (len AND NOT 3) st"

section \<open>The module\<close>

record pool =
  prng1 :: "u32 list"
  prng_index :: u32

definition xivix_key :: "u32 list" where
  "xivix_key = [0x76697858, 0x4f207869, 0x61726570, 0x676e6974, 0x73795320, 0x206d6574,
     0x74666f53, 0x65726177]"

definition crypto_Init :: "pool \<Rightarrow> pool" where
  "crypto_Init p = p\<lparr>prng1 := chacha_init xivix_key 2021 [0xe5908de5, 0x9d82e383, 0xa6e382ad]\<rparr>"

definition crypto_Mix :: "(nat \<Rightarrow> u32) \<Rightarrow> u32 \<Rightarrow> pool \<Rightarrow> pool option" where
  "crypto_Mix ent count p = map_option (\<lambda>st. p\<lparr>prng1 := st\<rparr>) (mix ent (count * 4) (prng1 p))"

definition ixa4random :: "pool \<Rightarrow> u32 \<times> pool" where
  "ixa4random p =
     (let index = prng_index p;
          index = index + 1;
          (index, p) = (if index \<ge> 4 then (0, p\<lparr>prng1 := stir (prng1 p)\<rparr>) else (index, p));
          p = p\<lparr>prng_index := index\<rparr>
      in (prng1 p ! unat index, p))"

section \<open>The rounds can be undone\<close>

lemma rotleft_inverse:
  assumes "0 < n" "n < 32"
  shows "rotleft (rotleft v n) (32 - n) = v"
  using assms by (intro bit_word_eqI) (auto simp: rotleft_def bit_simps)

definition qr :: "u32 \<times> u32 \<times> u32 \<times> u32 \<Rightarrow> u32 \<times> u32 \<times> u32 \<times> u32" where
  "qr = (\<lambda>(a, b, c, d).
     let a = a + b; d = rotleft (d XOR a) 16;
         c = c + d; b = rotleft (b XOR c) 12;
         a = a + b; d = rotleft (d XOR a) 8;
         c = c + d; b = rotleft (b XOR c) 7
     in (a, b, c, d))"

definition qr_inv :: "u32 \<times> u32 \<times> u32 \<times> u32 \<Rightarrow> u32 \<times> u32 \<times> u32 \<times> u32" where
  "qr_inv = (\<lambda>(a, b, c, d).
     let b = rotleft b 25 XOR c; c = c - d;
         d = rotleft d 24 XOR a; a = a - b;
         b = rotleft b 20 XOR c; c = c - d;
         d = rotleft d 16 XOR a; a = a - b
     in (a, b, c, d))"

lemma rotleft_inverse_at:
  "rotleft (rotleft v 16) 16 = v" "rotleft (rotleft v 12) 20 = v"
  "rotleft (rotleft v 8) 24 = v" "rotleft (rotleft v 7) 25 = v"
  using rotleft_inverse [of 16 v] rotleft_inverse [of 12 v] rotleft_inverse [of 8 v]
    rotleft_inverse [of 7 v] by simp_all

lemma qr_inv: "qr_inv (qr t) = t"
  by (cases t) (simp add: qr_def qr_inv_def Let_def rotleft_inverse_at xor.assoc)

text \<open>The reference vector of RFC 8439, section 2.1.1.\<close>

lemma qr_test_vector:
  "qr (0x11111111, 0x01020304, 0x9b8d6f43, 0x01234567) =
    (0xea2a92f4, 0xcb1cf8ce, 0x4581472e, 0x5881c4bb)"
  by (simp add: qr_def rotleft_def Let_def)

lemma quart_qr:
  assumes "distinct [a, b, c, d]" "\<forall>i \<in> {a, b, c, d}. i < length l"
  shows "quart a b c d l =
    (case qr (l ! a, l ! b, l ! c, l ! d) of (a', b', c', d') \<Rightarrow> l[a := a', b := b', c := c', d := d'])"
proof -
  define U where "U w x y z = l[a := w, b := x, c := y, d := z]" for w x y z
  have dist: "a \<noteq> b" "a \<noteq> c" "a \<noteq> d" "b \<noteq> c" "b \<noteq> d" "c \<noteq> d"
    and len: "a < length l" "b < length l" "c < length l" "d < length l"
    using assms by auto
  have l: "l = U (l ! a) (l ! b) (l ! c) (l ! d)"
    by (simp add: U_def)
  have at: "U w x y z ! a = w" "U w x y z ! b = x" "U w x y z ! c = y" "U w x y z ! d = z" for w x y z
    using dist len by (simp_all add: U_def)
  have upd: "(U w x y z)[a := v] = U v x y z" "(U w x y z)[b := v] = U w v y z"
    "(U w x y z)[c := v] = U w x v z" "(U w x y z)[d := v] = U w x y v" for w x y z v
    using dist by (simp_all add: U_def list_update_swap)
  note steps = add_at_def xor_at_def rot_at_def
  have "add_at a b (U w x y z) = U (w + x) x y z" "xor_at d a (U w x y z) = U w x y (z XOR w)"
    "add_at c d (U w x y z) = U w x (y + z) z" "xor_at b c (U w x y z) = U w (x XOR y) y z"
    "rot_at d n (U w x y z) = U w x y (rotleft z n)" "rot_at b n (U w x y z) = U w (rotleft x n) y z"
    for w x y z n
    by (simp_all add: steps at upd)
  then have "quart a b c d (U w x y z) = (case qr (w, x, y, z) of (a', b', c', d') \<Rightarrow> U a' b' c' d')"
    for w x y z
    by (simp add: quart_def qr_def Let_def)
  then show ?thesis
    using l unfolding U_def by metis
qed

lemma length_quart [simp]: "length (quart a b c d l) = length l"
  by (simp add: quart_def Let_def add_at_def xor_at_def rot_at_def)

lemma quart_inj:
  assumes "distinct [a, b, c, d]" "\<forall>i \<in> {a, b, c, d}. i < n"
  shows "inj_on (quart a b c d) {l. length l = n}"
proof (rule inj_onI)
  fix l l'
  assume len: "l \<in> {l. length l = n}" "l' \<in> {l. length l = n}"
    and eq: "quart a b c d l = quart a b c d l'"
  obtain w x y z where q: "qr (l ! a, l ! b, l ! c, l ! d) = (w, x, y, z)"
    by (metis prod_cases4)
  obtain w' x' y' z' where q': "qr (l' ! a, l' ! b, l' ! c, l' ! d) = (w', x', y', z')"
    by (metis prod_cases4)
  have e: "l[a := w, b := x, c := y, d := z] = l'[a := w', b := x', c := y', d := z']"
    using eq len assms quart_qr [of a b c d l] quart_qr [of a b c d l'] by (simp add: q q')
  have at: "l[a := w, b := x, c := y, d := z] ! i = l'[a := w', b := x', c := y', d := z'] ! i" for i
    by (simp only: e)
  have "w = w'" "x = x'" "y = y'" "z = z'"
    using at [of a] at [of b] at [of c] at [of d] assms len by (auto simp: nth_list_update)
  then have "qr (l ! a, l ! b, l ! c, l ! d) = qr (l' ! a, l' ! b, l' ! c, l' ! d)"
    by (simp add: q q')
  then have four: "l ! a = l' ! a" "l ! b = l' ! b" "l ! c = l' ! c" "l ! d = l' ! d"
    by (metis qr_inv prod.inject)+
  show "l = l'"
  proof (rule nth_equalityI)
    show "length l = length l'" using len by simp
    fix i
    show "l ! i = l' ! i"
      using at [of i] four len by (cases "i \<in> {a, b, c, d}") auto
  qed
qed

lemma length_double_round [simp]: "length (double_round l) = length l"
  by (simp add: double_round_def Let_def)

lemma double_round_inj: "inj_on double_round {l. length l = 16}"
proof -
  have q: "quart a b c d l = quart a b c d l' \<longleftrightarrow> l = l'"
    if "distinct [a, b, c, d]" "\<forall>i \<in> {a, b, c, d}. i < 16" "length l = 16" "length l' = 16"
    for a b c d l l'
    using quart_inj [OF that(1,2)] that(3,4) by (auto dest: inj_onD)
  show ?thesis
    by (rule inj_onI) (simp add: double_round_def Let_def q)
qed

lemma length_rounds [simp]: "length ((double_round ^^ n) l) = length l"
  by (induction n) simp_all

lemma rounds_inj: "inj_on (double_round ^^ n) {l. length l = 16}"
proof (induction n)
  case 0
  show ?case by simp
next
  case (Suc n)
  show ?case
  proof (rule inj_onI)
    fix l l'
    assume l: "l \<in> {l. length l = 16}" "l' \<in> {l. length l = 16}"
      and "(double_round ^^ Suc n) l = (double_round ^^ Suc n) l'"
    then have "double_round ((double_round ^^ n) l) = double_round ((double_round ^^ n) l')"
      by simp
    with l have "(double_round ^^ n) l = (double_round ^^ n) l'"
      using double_round_inj by (auto dest: inj_onD)
    with l Suc.IH show "l = l'"
      by (auto dest: inj_onD)
  qed
qed

lemma length_stir [simp]: "length (stir st) = length st"
  by (simp add: stir_def)

section \<open>Mixing entropy in\<close>

definition absorb :: "(nat \<Rightarrow> u32) \<Rightarrow> nat \<Rightarrow> nat \<Rightarrow> u32 list \<Rightarrow> u32 list" where
  "absorb inp i n st = map (\<lambda>j. if 4 + i \<le> j \<and> j < 4 + i + n then st ! j XOR inp (j - 4) else st ! j)
     [0..<length st]"

lemma length_absorb [simp]: "length (absorb inp i n st) = length st"
  by (simp add: absorb_def)

lemma absorb_0 [simp]: "absorb inp i 0 st = st"
  by (rule nth_equalityI) (auto simp: absorb_def)

lemma absorb_Suc:
  "absorb inp (Suc i) n (st[4 + i := st ! (4 + i) XOR inp i]) = absorb inp i (Suc n) st"
proof (rule nth_equalityI)
  fix k
  assume "k < length (absorb inp (Suc i) n (st[4 + i := st ! (4 + i) XOR inp i]))"
  then show "absorb inp (Suc i) n (st[4 + i := st ! (4 + i) XOR inp i]) ! k = absorb inp i (Suc n) st ! k"
    by (cases "k = 4 + i") (auto simp: absorb_def nth_list_update)
qed simp

lemma four_words_nonzero: "n < 2 ^ 30 \<Longrightarrow> (word_of_nat (4 * n) :: u32) = 0 \<longleftrightarrow> n = 0"
  by (simp only: word_eq_unat unat_of_nat unsigned_0) simp

lemma mix_words_spec:
  "i \<le> 8 \<Longrightarrow> n < 2 ^ 30 \<Longrightarrow> mix_words inp i (word_of_nat (4 * n)) st =
    (word_of_nat (4 * (n - min (8 - i) n)), absorb inp i (min (8 - i) n) st)"
proof (induction "8 - i" arbitrary: i n st)
  case 0
  then show ?case by (subst mix_words.simps) simp
next
  case (Suc k)
  show ?case
  proof (cases n)
    case 0
    then show ?thesis by (subst mix_words.simps) simp
  next
    case (Suc n')
    let ?st = "st[4 + i := st ! (4 + i) XOR inp i]"
    from Suc.prems Suc.hyps(2) have i: "i < 8" by simp
    have "(word_of_nat (4 * n) :: u32) \<noteq> 0"
      using four_words_nonzero [OF Suc.prems(2)] \<open>n = Suc n'\<close> by auto
    moreover have "(word_of_nat (4 * n) :: u32) - 4 = word_of_nat (4 * n')"
      by (simp add: \<open>n = Suc n'\<close>)
    ultimately have "mix_words inp i (word_of_nat (4 * n)) st =
        mix_words inp (Suc i) (word_of_nat (4 * n')) ?st"
      using i by (subst mix_words.simps) simp
    also have "\<dots> = (word_of_nat (4 * (n' - min (8 - Suc i) n')),
        absorb inp (Suc i) (min (8 - Suc i) n') ?st)"
      using Suc.prems Suc.hyps \<open>n = Suc n'\<close> i by (intro Suc.hyps(1)) auto
    also have "absorb inp (Suc i) (min (8 - Suc i) n') ?st = absorb inp i (Suc (min (8 - Suc i) n')) st"
      by (rule absorb_Suc)
    also have "Suc (min (8 - Suc i) n') = min (8 - i) n"
      using i \<open>n = Suc n'\<close> by auto
    also have "n' - min (8 - Suc i) n' = n - min (8 - i) n"
      using i \<open>n = Suc n'\<close> by auto
    finally show ?thesis .
  qed
qed

text \<open>What \<^verbatim>\<open>mix\<close> computes on a whole number of words.\<close>

function mix_spec :: "(nat \<Rightarrow> u32) \<Rightarrow> nat \<Rightarrow> u32 list \<Rightarrow> u32 list" where
  "mix_spec inp n st =
     (if n = 0 then st else mix_spec inp (n - min 8 n) (stir (absorb inp 0 (min 8 n) st)))"
  by pat_completeness auto
termination
  by (relation "measure (\<lambda>(inp, n, st). n)") auto

declare mix_spec.simps [simp del]

lemma mix_loop_spec:
  "n < 2 ^ 30 \<Longrightarrow> mix_loop inp (word_of_nat (4 * n)) st = Some (mix_spec inp n st)"
proof (induction inp n st rule: mix_spec.induct)
  case (1 inp n st)
  show ?case
  proof (cases "n = 0")
    case True
    then show ?thesis
      by (subst mix_loop.simps, subst mix_spec.simps) simp
  next
    case False
    with "1.prems" have nz: "(word_of_nat (4 * n) :: u32) \<noteq> 0"
      using four_words_nonzero [of n] by blast
    have "mix_loop inp (word_of_nat (4 * n)) st =
        mix_loop inp (word_of_nat (4 * (n - min 8 n))) (stir (absorb inp 0 (min 8 n) st))"
      using nz "1.prems" by (subst mix_loop.simps) (simp only: mix_words_spec le0 if_True not_False_eq_True
          fst_conv snd_conv diff_zero)
    also have "\<dots> = Some (mix_spec inp (n - min 8 n) (stir (absorb inp 0 (min 8 n) st)))"
      using "1.prems" False by (intro "1.IH") auto
    finally show ?thesis
      using False by (simp only: mix_spec.simps [of inp n st] if_False)
  qed
qed

lemma and_not_3: "len AND NOT 3 = (word_of_nat (4 * (unat len div 4)) :: u32)"
proof -
  have "len AND NOT 3 = len AND NOT (mask 2)"
    by (simp add: mask_eq_exp_minus_1)
  also have "\<dots> = push_bit 2 (drop_bit 2 len)"
    by (rule bit_word_eqI) (auto simp: bit_simps le_add_diff_inverse simp del: add_2_eq_Suc)
  also have "\<dots> = word_of_nat (4 * (unat len div 4))"
    by (simp add: push_bit_eq_mult drop_bit_eq_div word_eq_unat unat_word_ariths unat_of_nat
        unat_div mult.commute)
  finally show ?thesis .
qed

lemma mix_eq_spec: "mix inp len st = Some (mix_spec inp (unat len div 4) st)"
proof -
  have "unat len div 4 < 2 ^ 30"
    using unsigned_less [of len, where ?'a = nat] by simp
  then show ?thesis
    by (simp only: mix_def and_not_3 mix_loop_spec)
qed

lemma absorb_cong:
  "(\<And>j. j < 8 \<Longrightarrow> inp j = inp' j) \<Longrightarrow> n \<le> 8 \<Longrightarrow> absorb inp 0 n st = absorb inp' 0 n st"
  by (auto simp: absorb_def)

lemma mix_spec_cong:
  "(\<And>j. j < 8 \<Longrightarrow> inp j = inp' j) \<Longrightarrow> mix_spec inp n st = mix_spec inp' n st"
proof (induction inp n st rule: mix_spec.induct)
  case (1 inp n st)
  have a: "absorb inp 0 (min 8 n) st = absorb inp' 0 (min 8 n) st"
    using "1.prems" by (intro absorb_cong) auto
  show ?case
  proof (cases "n = 0")
    case True
    then show ?thesis by (simp add: mix_spec.simps)
  next
    case False
    have "mix_spec inp n st = mix_spec inp (n - min 8 n) (stir (absorb inp 0 (min 8 n) st))"
      using False by (subst mix_spec.simps) simp
    also have "\<dots> = mix_spec inp' (n - min 8 n) (stir (absorb inp 0 (min 8 n) st))"
      using False "1.prems" by (intro "1.IH") auto
    also have "\<dots> = mix_spec inp' n st"
      unfolding a using False by (subst (2) mix_spec.simps) simp
    finally show ?thesis .
  qed
qed

section \<open>Handing out words\<close>

fun randoms :: "nat \<Rightarrow> pool \<Rightarrow> u32 list \<times> pool" where
  "randoms 0 p = ([], p)"
| "randoms (Suc n) p =
     (case ixa4random p of (w, p) \<Rightarrow> (case randoms n p of (ws, p) \<Rightarrow> (w # ws, p)))"

lemma ixa4random_next:
  "prng_index p = 3 \<Longrightarrow> ixa4random p = (stir (prng1 p) ! 0, p\<lparr>prng1 := stir (prng1 p), prng_index := 0\<rparr>)"
  "prng_index p = 0 \<Longrightarrow> ixa4random p = (prng1 p ! 1, p\<lparr>prng_index := 1\<rparr>)"
  "prng_index p = 1 \<Longrightarrow> ixa4random p = (prng1 p ! 2, p\<lparr>prng_index := 2\<rparr>)"
  "prng_index p = 2 \<Longrightarrow> ixa4random p = (prng1 p ! 3, p\<lparr>prng_index := 3\<rparr>)"
  by (simp_all add: ixa4random_def Let_def word_le_nat_alt)

section \<open>Properties\<close>


text \<open>\<^verbatim>\<open>mix\<close> always returns, whatever the byte length, and what it computes is the rounding of the
  length to whole words followed by rounds of absorbing up to eight words into the key part of
  the state and stirring.\<close>

theorem mix_returns:
  assumes "length st = 16"
  shows "mix inp len st = Some (mix_spec inp (unat len div 4) st)
    \<and> length (mix_spec inp (unat len div 4) st) = 16"
proof -
  have "length (mix_spec inp n st) = length st" for n
    by (induction inp n st rule: mix_spec.induct) (subst mix_spec.simps, auto)
  then show ?thesis
    using assms by (simp add: mix_eq_spec)
qed

theorem mix_returns_witness:
  "\<exists>st. mix (\<lambda>_. 7) 5 (replicate 16 0) = Some st \<and> length st = 16"
  using mix_returns [of "replicate 16 0" "\<lambda>_. 7" 5] by auto

text \<open>Only the first eight words of an input reach the pool, however long it is: inputs that agree
  there are mixed to the same state, because the input pointer is never advanced.\<close>

theorem mix_ignores_tail:
  assumes "length (prng1 p) = 16" "\<And>j. j < 8 \<Longrightarrow> ent j = ent' j"
  shows "crypto_Mix ent count p = crypto_Mix ent' count p"
  using assms mix_spec_cong [of ent ent'] by (simp add: crypto_Mix_def mix_eq_spec)

theorem mix_ignores_tail_witness:
  "crypto_Mix (\<lambda>j. if j < 8 then 1 else 2) 73 \<lparr>prng1 = replicate 16 0, prng_index = 0\<rparr>
     = crypto_Mix (\<lambda>j. 1) 73 \<lparr>prng1 = replicate 16 0, prng_index = 0\<rparr>"
  by (rule mix_ignores_tail) simp_all

text \<open>Four calls of \<^verbatim>\<open>ixa4random\<close> from the end of a block stir the pool once and hand out the first
  four words of the new state, and leave the index at the end of the block again.\<close>

theorem random_block:
  assumes "prng_index p = 3" "length (prng1 p) = 16"
  shows "randoms 4 p = (take 4 (stir (prng1 p)), p\<lparr>prng1 := stir (prng1 p)\<rparr>)"
proof -
  have len: "length (stir (prng1 p)) = 16"
    using assms(2) by simp
  then have "take 4 (stir (prng1 p)) =
      [stir (prng1 p) ! 0, stir (prng1 p) ! 1, stir (prng1 p) ! 2, stir (prng1 p) ! 3]"
    by (simp add: list_eq_iff_nth_eq nth_Cons' less_Suc_eq numeral_eq_Suc)
  then show ?thesis
    using assms(1) by (simp add: numeral_eq_Suc ixa4random_next)
qed

theorem random_block_witness:
  "fst (randoms 4 \<lparr>prng1 = replicate 16 0, prng_index = 3\<rparr>) = take 4 (stir (replicate 16 0))"
  using random_block [of "\<lparr>prng1 = replicate 16 0, prng_index = 3\<rparr>"] by simp

end
