(* ===== verification/KLib.thy ===== *)
theory KLib
  imports Prelude
begin

text \<open>
  The support library of the kernel: \<^verbatim>\<open>memset\<close> and \<^verbatim>\<open>memeq\<close> (\<^verbatim>\<open>kmain.cpp\<close>), the registry of exit
  functions (\<^verbatim>\<open>cxxabi.cpp\<close>), two-dimensional vectors (\<^verbatim>\<open>vector2.hpp\<close>) and the counted reference
  \<^verbatim>\<open>Ref\<close> (\<^verbatim>\<open>ktypes.hpp\<close>). Addresses are natural numbers; an object does not wrap around the
  end of the address space.
\<close>

section \<open>memset and memeq\<close>

text \<open>\<^verbatim>\<open>while(p < end) *(p++) = value & 0xff;\<close>\<close>

function fill_bytes :: "bytes \<Rightarrow> nat \<Rightarrow> nat \<Rightarrow> u32 \<Rightarrow> bytes \<times> nat" where
  "fill_bytes m p e v =
     (if p < e then fill_bytes (m(p := ucast (v AND 0xff))) (Suc p) e v else (m, p))"
  by pat_completeness auto
termination
  by (relation "measure (\<lambda>(m, p, e, v). e - p)") auto

text \<open>\<^verbatim>\<open>while(dest32 < end32) *(dest32++) = value;\<close>\<close>

function fill_words :: "bytes \<Rightarrow> nat \<Rightarrow> nat \<Rightarrow> u32 \<Rightarrow> bytes \<times> nat" where
  "fill_words m p e v =
     (if p < e then fill_words (st32 m p v) (p + 4) e v else (m, p))"
  by pat_completeness auto
termination
  by (relation "measure (\<lambda>(m, p, e, v). e - p)") auto

declare fill_bytes.simps [simp del] fill_words.simps [simp del]

definition kmemset :: "bytes \<Rightarrow> nat \<Rightarrow> u32 \<Rightarrow> nat \<Rightarrow> bytes" where
  "kmemset m dst ivalue len =
     (let value = (ivalue AND 0xff) * 0x1010101;
          p = dst;
          e = p + len
      in if len < 16 then fst (fill_bytes m p e value)
         else
          (let align = p mod 16;
               (m, p) = (if align mod 4 \<noteq> 0
                         then fill_bytes m p (p + (4 - align mod 4)) value
                         else (m, p));
               e32 = e - e mod 4;
               (m, p) = fill_words m p e32 value
           in fst (fill_bytes m p e value)))"

text \<open>\<^verbatim>\<open>for(; l; l--) equ |= (*a++) ^ (*b++);\<close>\<close>

fun memeq_loop :: "bytes \<Rightarrow> nat \<Rightarrow> nat \<Rightarrow> nat \<Rightarrow> u32 \<Rightarrow> u32" where
  "memeq_loop m a b 0 equ = equ"
| "memeq_loop m a b (Suc l) equ =
     memeq_loop m (Suc a) (Suc b) l (equ OR (ucast (m a) XOR ucast (m b)))"

definition memeq :: "bytes \<Rightarrow> nat \<Rightarrow> nat \<Rightarrow> nat \<Rightarrow> u32" where
  "memeq m a b l = memeq_loop m a b l 0"

subsection \<open>memset fills its range\<close>

text \<open>The value stored: the byte, four times.\<close>

lemma splat_table: "list_all (\<lambda>n. let b = word_of_nat n :: u8; w = ucast b * 0x1010101 :: u32 in
    ucast w = b \<and> ucast (drop_bit 8 w) = b \<and> ucast (drop_bit 16 w) = b \<and> ucast (drop_bit 24 w) = b
    \<and> ucast (w AND 0xff) = b) [0..<256]"
  by code_simp

lemma low_byte: "v AND 0xff = (ucast (ucast (v :: u32) :: u8) :: u32)"
proof -
  have "v AND 0xff = v AND mask 8"
    by (simp add: mask_eq_exp_minus_1)
  also have "\<dots> = ucast (ucast v :: u8)"
    by (rule bit_word_eqI) (auto simp: bit_simps)
  finally show ?thesis .
qed

lemma splat_bytes:
  fixes v :: u32
  defines "w \<equiv> (v AND 0xff) * 0x1010101"
  shows "ucast w = (ucast v :: u8)" "ucast (drop_bit 8 w) = (ucast v :: u8)"
    "ucast (drop_bit 16 w) = (ucast v :: u8)" "ucast (drop_bit 24 w) = (ucast v :: u8)"
    "ucast (w AND 0xff) = (ucast v :: u8)"
proof -
  let ?b = "ucast v :: u8"
  have "unat ?b < 256"
    using unsigned_less [of ?b, where ?'a = nat] by simp
  with splat_table have "let b = word_of_nat (unat ?b) :: u8; w = ucast b * 0x1010101 :: u32 in
      ucast w = b \<and> ucast (drop_bit 8 w) = b \<and> ucast (drop_bit 16 w) = b
      \<and> ucast (drop_bit 24 w) = b \<and> ucast (w AND 0xff) = b"
    unfolding list_all_iff by (metis atLeastLessThan_iff le0 set_upt)
  then have "let w = ucast ?b * 0x1010101 :: u32 in
      ucast w = ?b \<and> ucast (drop_bit 8 w) = ?b \<and> ucast (drop_bit 16 w) = ?b
      \<and> ucast (drop_bit 24 w) = ?b \<and> ucast (w AND 0xff) = ?b"
    by (simp only: Let_def of_nat_unat ucast_id)
  then show "ucast w = (ucast v :: u8)" "ucast (drop_bit 8 w) = (ucast v :: u8)"
    "ucast (drop_bit 16 w) = (ucast v :: u8)" "ucast (drop_bit 24 w) = (ucast v :: u8)"
    "ucast (w AND 0xff) = (ucast v :: u8)"
    unfolding w_def low_byte [of v] Let_def by blast+
qed

text \<open>A region of memory set to one byte.\<close>

definition filled :: "nat \<Rightarrow> nat \<Rightarrow> u8 \<Rightarrow> bytes \<Rightarrow> bytes" where
  "filled p e x m = (\<lambda>a. if p \<le> a \<and> a < e then x else m a)"

lemma filled_empty [simp]: "e \<le> p \<Longrightarrow> filled p e x m = m"
  by (rule ext) (auto simp: filled_def)

lemma filled_filled: "p \<le> q \<Longrightarrow> q \<le> e \<Longrightarrow> filled q e x (filled p q x m) = filled p e x m"
  by (auto simp: filled_def)

lemma fill_bytes_step: "p < e \<Longrightarrow> filled (Suc p) e x (m(p := x)) = filled p e x m"
  by (auto simp: filled_def)

lemma fill_bytes_spec:
  "p \<le> e \<Longrightarrow> fill_bytes m p e v = (filled p e (ucast (v AND 0xff)) m, e)"
proof (induction m p e v rule: fill_bytes.induct)
  case (1 m p e v)
  show ?case
  proof (cases "p < e")
    case True
    then have "fill_bytes m p e v = fill_bytes (m(p := ucast (v AND 0xff))) (Suc p) e v"
      by (subst fill_bytes.simps) simp
    also have "\<dots> = (filled (Suc p) e (ucast (v AND 0xff)) (m(p := ucast (v AND 0xff))), e)"
      using True by (intro "1.IH") simp_all
    finally show ?thesis
      using True by (simp only: fill_bytes_step)
  next
    case False
    with "1.prems" show ?thesis
      by (subst fill_bytes.simps) simp
  qed
qed

lemma st32_bytes: "st32 m p v =
  m(p := ucast v, p + 1 := ucast (drop_bit 8 v), p + 2 := ucast (drop_bit 16 v),
    p + 3 := ucast (drop_bit 24 v))"
proof -
  have "ucast (drop_bit 8 (ucast v :: u16)) = (ucast (drop_bit 8 v) :: u8)"
    by (rule bit_word_eqI) (auto simp: bit_simps)
  moreover have "ucast (ucast v :: u16) = (ucast v :: u8)"
    by (rule bit_word_eqI) (auto simp: bit_simps)
  moreover have "ucast (drop_bit 8 (ucast (drop_bit 16 v) :: u16)) = (ucast (drop_bit 24 v) :: u8)"
    by (rule bit_word_eqI) (auto simp: bit_simps)
  moreover have "ucast (ucast (drop_bit 16 v) :: u16) = (ucast (drop_bit 16 v) :: u8)"
    by (rule bit_word_eqI) (auto simp: bit_simps)
  ultimately show ?thesis
    by (simp add: st32_def st16_def fun_eq_iff numeral_3_eq_3)
qed

lemma fill_words_step:
  assumes "ucast v = x" "ucast (drop_bit 8 v) = x" "ucast (drop_bit 16 v) = x"
    "ucast (drop_bit 24 v) = x" "p + 4 \<le> e"
  shows "filled (p + 4) e x (st32 m p v) = filled p e x m"
proof (rule ext)
  fix a
  consider "a = p" | "a = p + 1" | "a = p + 2" | "a = p + 3" | "a < p" | "p + 4 \<le> a"
    by linarith
  then show "filled (p + 4) e x (st32 m p v) a = filled p e x m a"
    using assms by cases (simp_all add: filled_def st32_bytes)
qed

lemma fill_words_spec:
  assumes "ucast v = x" "ucast (drop_bit 8 v) = x" "ucast (drop_bit 16 v) = x"
    "ucast (drop_bit 24 v) = x"
  shows "p \<le> e \<Longrightarrow> (e - p) mod 4 = 0 \<Longrightarrow> fill_words m p e v = (filled p e x m, e)"
  using assms
proof (induction m p e v rule: fill_words.induct)
  case (1 m p e v)
  show ?case
  proof (cases "p < e")
    case True
    with "1.prems"(2) have four: "p + 4 \<le> e"
      by presburger
    with "1.prems"(2) have "(e - (p + 4)) mod 4 = 0"
      by presburger
    with True four "1.prems" have "fill_words (st32 m p v) (p + 4) e v =
        (filled (p + 4) e x (st32 m p v), e)"
      by (intro "1.IH") simp_all
    moreover have "filled (p + 4) e x (st32 m p v) = filled p e x m"
      using "1.prems" four by (intro fill_words_step) simp_all
    ultimately show ?thesis
      using True by (subst fill_words.simps) simp
  next
    case False
    with "1.prems" show ?thesis
      by (subst fill_words.simps) simp
  qed
qed

lemma kmemset_filled: "kmemset m dst v len = filled dst (dst + len) (ucast v) m"
proof -
  define w :: u32 where "w = (v AND 0xff) * 0x1010101"
  define e where "e = dst + len"
  note sp = splat_bytes [of v, folded w_def]
  show ?thesis
  proof (cases "len < 16")
    case True
    then show ?thesis
      by (simp add: kmemset_def Let_def fill_bytes_spec sp w_def [symmetric])
  next
    case False
    define p where "p = (if dst mod 16 mod 4 \<noteq> 0 then dst + (4 - dst mod 16 mod 4) else dst)"
    define e32 where "e32 = e - e mod 4"
    have a: "dst mod 16 mod 4 = dst mod 4"
      by (simp add: mod_mod_cancel)
    have p: "p = (if dst mod 4 \<noteq> 0 then dst + (4 - dst mod 4) else dst)"
      by (simp add: p_def a)
    have "dst mod 4 < 4"
      by simp
    then have p1: "dst \<le> p" "p < dst + 4"
      by (auto simp: p)
    have p3: "p mod 4 = 0"
      unfolding p by presburger
    have p2: "p \<le> e"
      using p1 False unfolding e_def by linarith
    note p4 = p1(1) p2 p3
    have e4: "e32 mod 4 = 0" "e32 \<le> e" "e < e32 + 4"
      unfolding e32_def by presburger+
    have pe: "p \<le> e32" "(e32 - p) mod 4 = 0"
      using p4 e4 by presburger+
    have head: "(if dst mod 16 mod 4 \<noteq> 0
        then fill_bytes m dst (dst + (4 - dst mod 16 mod 4)) w else (m, dst))
      = (filled dst p (ucast v) m, p)"
      by (simp add: p_def fill_bytes_spec sp)
    have "kmemset m dst v len =
        fst (fill_bytes (fst (fill_words (filled dst p (ucast v) m) p e32 w)) e32 e w)"
      by (simp only: kmemset_def Let_def w_def [symmetric] e_def [symmetric] e32_def [symmetric]
          head prod.case if_False False fill_words_spec [OF sp(1-4) pe] fst_conv)
    also have "\<dots> = filled e32 e (ucast v) (filled p e32 (ucast v) (filled dst p (ucast v) m))"
      using pe e4 fill_words_spec [OF sp(1-4) pe] by (simp add: fill_bytes_spec sp)
    also have "\<dots> = filled dst e (ucast v) m"
      using pe e4 p4 by (simp add: filled_filled)
    finally show ?thesis
      by (simp add: e_def)
  qed
qed

subsection \<open>memeq compares\<close>

lemma or_eq_0: "(a :: 'a::len word) OR b = 0 \<longleftrightarrow> a = 0 \<and> b = 0"
  by (auto simp: bit_eq_iff bit_simps)

lemma xor_eq_0: "(a :: 'a::len word) XOR b = 0 \<longleftrightarrow> a = b"
  by (metis xor.right_neutral xor_self_eq xor.left_commute)

lemma ucast_u8_inj: "(ucast (x :: u8) :: u32) = ucast y \<longleftrightarrow> x = y"
  by (simp add: word_eq_unat unat_ucast_up)

lemma memeq_loop_0:
  "memeq_loop m a b l equ = 0 \<longleftrightarrow> equ = 0 \<and> (\<forall>i < l. m (a + i) = m (b + i))"
proof (induction l arbitrary: a b equ)
  case 0
  then show ?case by simp
next
  case (Suc l)
  have "(\<forall>i < Suc l. m (a + i) = m (b + i)) \<longleftrightarrow>
      m a = m b \<and> (\<forall>i < l. m (Suc a + i) = m (Suc b + i))"
    by (auto simp: less_Suc_eq_0_disj)
  then show ?case
    by (auto simp: Suc.IH or_eq_0 xor_eq_0 ucast_u8_inj)
qed

text \<open>C7 memset, with its aligned four-byte stores and its two unaligned ends, writes the given
  byte at every address of the requested range and at no other address, for every start, every
  length and every alignment.\<close>

theorem memset_fills:
  "kmemset m dst v len = (\<lambda>a. if dst \<le> a \<and> a < dst + len then ucast v else m a)"
  by (simp add: kmemset_filled filled_def)

text \<open>memeq returns zero exactly when the two ranges hold the same bytes: the accumulated
  exclusive-ors lose no difference.\<close>

theorem memeq_compares:
  "memeq m a b l = 0 \<longleftrightarrow> map m [a..<a + l] = map m [b..<b + l]"
proof -
  have "map m [c..<c + l] = map (\<lambda>i. m (c + i)) [0..<l]" for c
    by (rule nth_equalityI) simp_all
  then show ?thesis
    by (simp add: memeq_def memeq_loop_0 list_eq_iff_nth_eq)
qed

section \<open>The exit functions of cxxabi.cpp\<close>

text \<open>
  Functions, objects and handles are addresses; the null function pointer is \<open>0\<close>. A destructor call
  is recorded in a trace, as the pair of the function and its argument.
\<close>

record atexit_func_entry =
  destructor_func :: u32
  obj_ptr :: u32
  dso_handle :: u32

record atexit_table =
  atexit_funcs :: "nat \<Rightarrow> atexit_func_entry"
  atexit_func_count :: u32

definition ATEXIT_MAX_FUNCS :: u32 where
  "ATEXIT_MAX_FUNCS = 128"

definition cxa_atexit :: "u32 \<Rightarrow> u32 \<Rightarrow> u32 \<Rightarrow> atexit_table \<Rightarrow> int \<times> atexit_table" where
  "cxa_atexit f obj dso t =
     (if atexit_func_count t \<ge> ATEXIT_MAX_FUNCS then (-1, t)
      else
        (let x = atexit_func_count t;
             t = t\<lparr>atexit_func_count := x + 1\<rparr>;
             t = t\<lparr>atexit_funcs := (atexit_funcs t)(unat x :=
               \<lparr>destructor_func = f, obj_ptr = obj, dso_handle = dso\<rparr>)\<rparr>
         in (0, t)))"

type_synonym calls = "(u32 \<times> u32) list"

text \<open>The loop of \<^verbatim>\<open>__cxa_finalize(nullptr)\<close>, and the loop for one function.\<close>

fun finalize_all :: "nat \<Rightarrow> atexit_table \<Rightarrow> calls" where
  "finalize_all 0 t = []"
| "finalize_all (Suc i) t =
     (let x = atexit_funcs t i
      in (if destructor_func x \<noteq> 0 then [(destructor_func x, obj_ptr x)] else []) @ finalize_all i t)"

fun finalize_one :: "nat \<Rightarrow> u32 \<Rightarrow> atexit_table \<Rightarrow> calls \<times> atexit_table" where
  "finalize_one 0 f t = ([], t)"
| "finalize_one (Suc i) f t =
     (let x = atexit_funcs t i
      in if destructor_func x = f then
           (let t = t\<lparr>atexit_funcs := (atexit_funcs t)(i := x\<lparr>destructor_func := 0\<rparr>)\<rparr>;
                (cs, t) = finalize_one i f t
            in ((f, obj_ptr x) # cs, t))
         else finalize_one i f t)"

definition cxa_finalize :: "u32 \<Rightarrow> atexit_table \<Rightarrow> calls \<times> atexit_table" where
  "cxa_finalize f t =
     (let i = unat (atexit_func_count t)
      in if f = 0 then (finalize_all i t, t) else finalize_one i f t)"

text \<open>The registered entries, oldest first.\<close>

definition entries :: "atexit_table \<Rightarrow> (u32 \<times> u32) list" where
  "entries t = map (\<lambda>i. (destructor_func (atexit_funcs t i), obj_ptr (atexit_funcs t i)))
     [0..<unat (atexit_func_count t)]"

definition atexit_ok :: "atexit_table \<Rightarrow> bool" where
  "atexit_ok t \<longleftrightarrow> atexit_func_count t \<le> ATEXIT_MAX_FUNCS"

definition atexit_empty :: atexit_table where
  "atexit_empty = \<lparr>atexit_funcs = (\<lambda>_. \<lparr>destructor_func = 0, obj_ptr = 0, dso_handle = 0\<rparr>),
     atexit_func_count = 0\<rparr>"

fun register_all :: "(u32 \<times> u32) list \<Rightarrow> atexit_table \<Rightarrow> atexit_table" where
  "register_all [] t = t"
| "register_all ((f, obj) # xs) t = register_all xs (snd (cxa_atexit f obj 0 t))"

lemma cxa_atexit_ok: "atexit_ok t \<Longrightarrow> atexit_ok (snd (cxa_atexit f obj dso t))"
  by (simp add: cxa_atexit_def atexit_ok_def ATEXIT_MAX_FUNCS_def Let_def not_le)
    (unat_arith)

lemma cxa_atexit_room:
  assumes "atexit_func_count t < ATEXIT_MAX_FUNCS"
  shows "fst (cxa_atexit f obj dso t) = 0"
    "atexit_func_count (snd (cxa_atexit f obj dso t)) = atexit_func_count t + 1"
    "entries (snd (cxa_atexit f obj dso t)) = entries t @ [(f, obj)]"
  using assms unat_inc_no_wrap [OF assms]
  by (simp_all add: cxa_atexit_def Let_def entries_def not_le)

lemma cxa_atexit_full:
  "\<not> atexit_func_count t < ATEXIT_MAX_FUNCS \<Longrightarrow> cxa_atexit f obj dso t = (-1, t)"
  by (simp add: cxa_atexit_def not_less)

lemma register_all_entries:
  "unat (atexit_func_count t) + length xs \<le> 128 \<Longrightarrow> entries (register_all xs t) = entries t @ xs"
proof (induction xs arbitrary: t)
  case Nil
  then show ?case by simp
next
  case (Cons x xs)
  obtain f obj where x: "x = (f, obj)" by (cases x)
  from Cons.prems have room: "atexit_func_count t < ATEXIT_MAX_FUNCS"
    by (simp add: ATEXIT_MAX_FUNCS_def word_less_nat_alt)
  with Cons.IH [of "snd (cxa_atexit f obj 0 t)"] Cons.prems show ?case
    by (simp add: x cxa_atexit_room unat_inc_no_wrap)
qed

lemma finalize_all_calls:
  "finalize_all n t = filter (\<lambda>c. fst c \<noteq> 0)
     (rev (map (\<lambda>i. (destructor_func (atexit_funcs t i), obj_ptr (atexit_funcs t i))) [0..<n]))"
  by (induction n) (simp_all add: Let_def)

lemma finalize_one_above:
  "n \<le> i \<Longrightarrow> atexit_funcs (snd (finalize_one n f t)) i = atexit_funcs t i"
  by (induction n arbitrary: t) (auto simp: Let_def case_prod_unfold)

lemma finalize_one_count [simp]:
  "atexit_func_count (snd (finalize_one n f t)) = atexit_func_count t"
proof (induction n arbitrary: t)
  case 0
  then show ?case by simp
next
  case (Suc n)
  show ?case
    using Suc [of t]
      Suc [of "t\<lparr>atexit_funcs := (atexit_funcs t)(n := (atexit_funcs t n)\<lparr>destructor_func := 0\<rparr>)\<rparr>"]
    by (auto simp: Let_def split: prod.splits)
qed

lemma finalize_one_calls:
  "fst (finalize_one n f t) = filter (\<lambda>c. fst c = f)
     (rev (map (\<lambda>i. (destructor_func (atexit_funcs t i), obj_ptr (atexit_funcs t i))) [0..<n]))"
proof (induction n arbitrary: t)
  case 0
  then show ?case by simp
next
  case (Suc n)
  show ?case
    by (auto simp: Let_def Suc case_prod_unfold intro!: arg_cong [where f = "filter _"] map_cong)
qed

lemma finalize_one_clears:
  "f \<noteq> 0 \<Longrightarrow> i < n \<Longrightarrow> destructor_func (atexit_funcs (snd (finalize_one n f t)) i) \<noteq> f"
proof (induction n arbitrary: t)
  case 0
  then show ?case by simp
next
  case (Suc n)
  show ?case
    using Suc by (cases "i = n") (auto simp: Let_def case_prod_unfold finalize_one_above less_Suc_eq)
qed

text \<open>C8 As long as the table of 128 entries has room, every registration succeeds and is kept, and
  \<^verbatim>\<open>__cxa_finalize(nullptr)\<close> calls the registered (non-null) functions with their objects in the
  reverse order of their registration.\<close>

theorem finalize_reverses_registration:
  assumes "length xs \<le> 128"
  shows "fst (cxa_finalize 0 (register_all xs atexit_empty)) = filter (\<lambda>c. fst c \<noteq> 0) (rev xs)"
proof -
  have "entries (register_all xs atexit_empty) = xs"
    using assms register_all_entries [of atexit_empty xs]
    by (simp add: atexit_empty_def entries_def)
  then show ?thesis
    by (simp add: cxa_finalize_def finalize_all_calls entries_def [symmetric])
qed

lemma finalize_reverses_registration_witness:
  "fst (cxa_finalize 0 (register_all [(5, 1), (6, 2)] atexit_empty)) = [(6, 2), (5, 1)]"
  using finalize_reverses_registration [of "[(5, 1), (6, 2)]"] by simp

text \<open>\<^verbatim>\<open>__cxa_finalize(f)\<close> calls exactly the entries registered for f, last registered first, and a
  second call for the same f calls nothing: no destructor of one function runs twice.\<close>

theorem finalize_runs_once:
  assumes "f \<noteq> 0"
  shows "fst (cxa_finalize f t) = filter (\<lambda>c. fst c = f) (rev (entries t))
    \<and> fst (cxa_finalize f (snd (cxa_finalize f t))) = []"
proof -
  let ?n = "unat (atexit_func_count t)"
  have "fst (finalize_one ?n f (snd (finalize_one ?n f t))) = []"
    using finalize_one_clears [OF assms, of _ ?n t]
    by (auto simp: finalize_one_calls filter_empty_conv)
  with assms show ?thesis
    by (simp add: cxa_finalize_def finalize_one_calls entries_def)
qed

lemma finalize_runs_once_witness:
  "fst (cxa_finalize 5 (register_all [(5, 1), (6, 2), (5, 3)] atexit_empty)) =
     filter (\<lambda>c. fst c = 5) (rev (entries (register_all [(5, 1), (6, 2), (5, 3)] atexit_empty)))"
  using finalize_runs_once [of 5 "register_all [(5, 1), (6, 2), (5, 3)] atexit_empty"] by simp

end
