(* ===== verification/MemTypes.thy ===== *)
theory MemTypes
  imports Prelude
begin

text \<open>
  The data of the page allocator of \<^verbatim>\<open>memory.cpp\<close>: extents of pages, the control words of the
  address trie, and the search for a slot that both tables use. A page is 4096 bytes and
  \<^verbatim>\<open>PAGE_SIZE\<close> is a \<^verbatim>\<open>size_t\<close>, so products with it are computed in 32 bits.
\<close>

definition PAGE_SIZE :: u32 where
  "PAGE_SIZE = 0x1000"

datatype memextent =
  MX_UNSET | MX_CONTROL | MX_LINK | MX_IO | MX_EMPTY | MX_FREE | MX_CLEAR
| MX_FIXED | MX_ALLOC | MX_PRE | MX_LAST

record extent =
  mx_flags :: memextent
  mx_base :: u64
  mx_length :: u32

text \<open>\<^verbatim>\<open>Extent::end\<close>: the product is taken in \<^verbatim>\<open>size_t\<close> and then widened.\<close>

definition ext_end :: "extent \<Rightarrow> u64" where
  "ext_end e = mx_base e + ucast (mx_length e * PAGE_SIZE)"

definition ext_eq :: "extent \<Rightarrow> extent \<Rightarrow> bool" where
  "ext_eq a b \<longleftrightarrow> mx_flags a = mx_flags b \<and> mx_length a = mx_length b
     \<and> (mx_base a XOR mx_base b) AND 0xfffffffffffff = 0"

definition ext_neq :: "extent \<Rightarrow> extent \<Rightarrow> bool" where
  "ext_neq a b \<longleftrightarrow> mx_flags a \<noteq> mx_flags b \<or> mx_length a \<noteq> mx_length b
     \<or> (mx_base a XOR mx_base b) AND 0xfffffffffffff \<noteq> 0"

lemma ext_neq_negates: "ext_neq a b \<longleftrightarrow> \<not> ext_eq a b"
  by (auto simp: ext_neq_def ext_eq_def)

datatype trie_type =
  TT_UNSET | TT_LINK | TT_LEAF | TT_PREFIX | TT_MASK_1 | TT_MASK_2 | TT_MASK_3 | TT_LIST_3

text \<open>
  A trie control word. The source overlays the radix part (\<^verbatim>\<open>radix\<close>, \<^verbatim>\<open>ref\<close>) and the leaf part in a
  union; a word changes its type only when it is initialised, which clears both, so the parts
  are kept as separate fields.
\<close>

record trie_control =
  tt_type :: trie_type
  tt_radix :: u32
  tt_ref :: "u8 list"
  leaf_flag :: memextent
  leaf_length :: u32

definition trie_init :: "trie_type \<Rightarrow> trie_control" where
  "trie_init t = \<lparr>tt_type = t, tt_radix = 0, tt_ref = replicate 8 0, leaf_flag = MX_UNSET, leaf_length = 0\<rparr>"

definition max_ext :: nat where
  "max_ext = 127"

definition max_trie :: nat where
  "max_trie = 128"

section \<open>The first index of a list that satisfies a predicate\<close>

fun first_index :: "('a \<Rightarrow> bool) \<Rightarrow> 'a list \<Rightarrow> nat option" where
  "first_index P [] = None"
| "first_index P (x # xs) = (if P x then Some 0 else map_option Suc (first_index P xs))"

lemma first_index_Some:
  "first_index P xs = Some i \<Longrightarrow> i < length xs \<and> P (xs ! i) \<and> (\<forall>j < i. \<not> P (xs ! j))"
  by (induction P xs arbitrary: i rule: first_index.induct)
    (auto split: if_splits simp: less_Suc_eq_0_disj)

lemma first_index_None: "first_index P xs = None \<longleftrightarrow> (\<forall>x \<in> set xs. \<not> P x)"
  by (induction P xs rule: first_index.induct) auto

lemma first_index_unique:
  assumes "i < length xs" "P (xs ! i)" "\<And>j. j < length xs \<Longrightarrow> P (xs ! j) \<Longrightarrow> j = i"
  shows "first_index P xs = Some i"
proof (cases "first_index P xs")
  case None
  with assms(1,2) show ?thesis
    by (auto simp: first_index_None)
next
  case (Some j)
  with first_index_Some [of P xs j] assms(3) [of j] show ?thesis
    by simp
qed

lemma first_index_exists:
  "i < length xs \<Longrightarrow> P (xs ! i) \<Longrightarrow> \<exists>j. first_index P xs = Some j"
  using first_index_None [of P xs] by (cases "first_index P xs") auto

end
