(* ===== verification/Trie.thy ===== *)
theory Trie
  imports MemTypes
begin

text \<open>
  The address trie of the page allocator (\<^verbatim>\<open>PageAllocator::set_trie_extent\<close> in \<^verbatim>\<open>memory.cpp\<close>): a table
  of 128 control words that maps the base of an extent, a few address bits at a time, to a leaf.
  A reference is stored relative to the index of the word that holds it, modulo the table size.
\<close>

definition free_trie :: "trie_control list \<Rightarrow> nat option" where
  "free_trie t = first_index (\<lambda>c. tt_type c = TT_UNSET) t"

definition follow :: "u8 \<Rightarrow> nat \<Rightarrow> nat" where
  "follow r index = (unat r + index) mod max_trie"

text \<open>\<^verbatim>\<open>(k - index) % max_trie\<close>, computed in \<^verbatim>\<open>size_t\<close> and stored in a byte.\<close>

definition rel_ref :: "nat \<Rightarrow> nat \<Rightarrow> u8" where
  "rel_ref k index = of_nat ((k + max_trie - index) mod max_trie)"

definition set_ref :: "nat \<Rightarrow> nat \<Rightarrow> nat \<Rightarrow> trie_control list \<Rightarrow> trie_control list" where
  "set_ref index v k t = t[index := (t ! index)\<lparr>tt_ref := (tt_ref (t ! index))[v := rel_ref k index]\<rparr>]"

definition addr_bits :: "u64 \<Rightarrow> nat \<Rightarrow> nat \<Rightarrow> nat" where
  "addr_bits b s n = unat (drop_bit s b AND mask n)"

text \<open>
  One arm of the switch: the remaining scan position, the index and the table after it; \<open>Inl\<close> is
  the early return on a full list word.
\<close>

type_synonym trie_state = "nat \<times> nat \<times> trie_control list"

definition mask_arm ::
  "nat \<Rightarrow> (nat \<Rightarrow> trie_type) \<Rightarrow> (nat \<Rightarrow> bool) \<Rightarrow> extent \<Rightarrow> nat \<Rightarrow> nat \<Rightarrow> trie_control list \<Rightarrow> trie_state"
  where
  "mask_arm n child moves ext s index t =
     (let s = s - n;
          v = addr_bits (mx_base ext) s n;
          r = tt_ref (t ! index) ! v
      in if r \<noteq> 0 then (s, follow r index, t)
         else (case free_trie t of
             Some k \<Rightarrow> (s, if moves s then k else index, set_ref index v k (t[k := trie_init (child s)]))
           | None \<Rightarrow> (0, index, t)))"

definition mask1_arm :: "extent \<Rightarrow> nat \<Rightarrow> nat \<Rightarrow> trie_control list \<Rightarrow> trie_state" where
  "mask1_arm = mask_arm 1 (\<lambda>s. if s > 12 then TT_LIST_3 else TT_LEAF) (\<lambda>s. s > 12)"

definition mask2_arm :: "extent \<Rightarrow> nat \<Rightarrow> nat \<Rightarrow> trie_control list \<Rightarrow> trie_state" where
  "mask2_arm = mask_arm 2 (\<lambda>s. if s > 12 then TT_MASK_3 else TT_LEAF) (\<lambda>s. s > 12)"

definition mask3_arm :: "extent \<Rightarrow> nat \<Rightarrow> nat \<Rightarrow> trie_control list \<Rightarrow> trie_state" where
  "mask3_arm = mask_arm 3
     (\<lambda>s. if s > 20 then TT_MASK_3 else if s > 12 then TT_MASK_1 else TT_LEAF) (\<lambda>s. True)"

text \<open>
  The scan of a list word: eight four-bit keys and their references. The result is the index
  of the matching entry (8 when there is none) and the first free entry (8 when there is none).
\<close>

function list3_scan :: "u8 list \<Rightarrow> u32 \<Rightarrow> u32 \<Rightarrow> nat \<Rightarrow> nat \<Rightarrow> nat \<times> nat" where
  "list3_scan refs radix v i free =
     (if i < 8 then
        if refs ! i = 0 then list3_scan refs (drop_bit 4 radix) v (Suc i) (if i < free then i else free)
        else if radix AND 0xf = v then (i, free)
        else list3_scan refs (drop_bit 4 radix) v (Suc i) free
      else (i, free))"
  by pat_completeness auto
termination
  by (relation "measure (\<lambda>(refs, radix, v, i, free). 8 - i)") auto

declare list3_scan.simps [simp del]

definition set_key :: "nat \<Rightarrow> nat \<Rightarrow> nat \<Rightarrow> trie_control list \<Rightarrow> trie_control list" where
  "set_key index i v t = t[index := (t ! index)\<lparr>tt_radix :=
     (tt_radix (t ! index) AND NOT (push_bit (i * 4) 0xf)) OR push_bit (i * 4) (of_nat v)\<rparr>]"

definition list3_arm ::
  "extent \<Rightarrow> nat \<Rightarrow> nat \<Rightarrow> trie_control list \<Rightarrow> trie_control list + trie_state" where
  "list3_arm ext s index t =
     (let s = s - 4;
          v = addr_bits (mx_base ext) s 4;
          item = t ! index;
          (i, free) = list3_scan (tt_ref item) (tt_radix item) (of_nat v) 0 8
      in if i \<noteq> 8 then Inr (s, follow (tt_ref item ! i) index, t)
         else if free = 8 then Inl t
         else
           (let t = set_key index free v t
            in case free_trie t of
                 Some k \<Rightarrow>
                   if s > 12 then
                     Inr (s, k, set_ref index free k
                       (t[k := trie_init (if s = 24 then TT_MASK_3 else TT_LIST_3)]))
                   else
                     Inr (s, index, set_ref index free k
                       (t[k := (trie_init TT_LEAF)\<lparr>leaf_flag := mx_flags ext, leaf_length := mx_length ext\<rparr>]))
               | None \<Rightarrow> Inr (0, index, t)))"

definition trie_step :: "extent \<Rightarrow> nat \<Rightarrow> nat \<Rightarrow> trie_control list \<Rightarrow> trie_control list + trie_state" where
  "trie_step ext s index t =
     (case tt_type (t ! index) of
        TT_MASK_1 \<Rightarrow> Inr (mask1_arm ext s index t)
      | TT_MASK_2 \<Rightarrow> Inr (mask2_arm ext s index t)
      | TT_MASK_3 \<Rightarrow> Inr (mask3_arm ext s index t)
      | TT_LIST_3 \<Rightarrow> list3_arm ext s index t
      | _ \<Rightarrow> Inr (0, index, t))"

lemma mask_arm_less: "0 < n \<Longrightarrow> 0 < s \<Longrightarrow> fst (mask_arm n child moves ext s index t) < s"
  by (auto simp: mask_arm_def Let_def split: option.splits)

lemma trie_step_less: "0 < s \<Longrightarrow> trie_step ext s index t = Inr (s', index', t') \<Longrightarrow> s' < s"
  using mask_arm_less [of 1 s _ _ ext index t] mask_arm_less [of 2 s _ _ ext index t]
    mask_arm_less [of 3 s _ _ ext index t]
  by (auto simp: trie_step_def mask1_arm_def mask2_arm_def mask3_arm_def list3_arm_def Let_def
      split: trie_type.splits prod.splits option.splits if_splits)
    (metis fst_conv)+

function trie_loop :: "extent \<Rightarrow> nat \<Rightarrow> nat \<Rightarrow> trie_control list \<Rightarrow> trie_control list" where
  "trie_loop ext s index t =
     (if s > 12 then
        (case trie_step ext s index t of
           Inl t' \<Rightarrow> t'
         | Inr (s', index', t') \<Rightarrow> trie_loop ext s' index' t')
      else t)"
  by pat_completeness auto
termination
  by (relation "measure (\<lambda>(ext, s, index, t). s)") (auto dest: trie_step_less [rotated])

declare trie_loop.simps [simp del]

definition set_trie_extent :: "extent \<Rightarrow> trie_control list \<Rightarrow> trie_control list" where
  "set_trie_extent ext t = trie_loop ext 32 0 t"

section \<open>Reading the trie\<close>

text \<open>
  The walk that the insertion follows: the entry of a word that an address selects, the word it
  refers to, and the leaf at the end.
\<close>

definition width :: "trie_type \<Rightarrow> nat" where
  "width ty = (case ty of TT_MASK_1 \<Rightarrow> 1 | TT_MASK_2 \<Rightarrow> 2 | TT_MASK_3 \<Rightarrow> 3 | TT_LIST_3 \<Rightarrow> 4 | _ \<Rightarrow> 0)"

definition entry_of :: "trie_control \<Rightarrow> u64 \<Rightarrow> nat \<Rightarrow> nat option" where
  "entry_of c b s =
     (case tt_type c of
        TT_LIST_3 \<Rightarrow>
          (let i = fst (list3_scan (tt_ref c) (tt_radix c) (of_nat (addr_bits b (s - 4) 4)) 0 8)
           in if i = 8 then None else Some i)
      | TT_MASK_1 \<Rightarrow> Some (addr_bits b (s - 1) 1)
      | TT_MASK_2 \<Rightarrow> Some (addr_bits b (s - 2) 2)
      | TT_MASK_3 \<Rightarrow> Some (addr_bits b (s - 3) 3)
      | _ \<Rightarrow> None)"

definition descend :: "trie_control list \<Rightarrow> u64 \<Rightarrow> nat \<Rightarrow> nat \<Rightarrow> (nat \<times> nat) option" where
  "descend t b s i =
     (case entry_of (t ! i) b s of
        None \<Rightarrow> None
      | Some v \<Rightarrow> if tt_ref (t ! i) ! v = 0 then None
          else Some (s - width (tt_type (t ! i)), follow (tt_ref (t ! i) ! v) i))"

fun trie_walk :: "nat \<Rightarrow> trie_control list \<Rightarrow> u64 \<Rightarrow> nat \<Rightarrow> nat \<Rightarrow> nat option" where
  "trie_walk 0 t b s i = (if s > 12 then None else Some i)"
| "trie_walk (Suc n) t b s i =
     (if s > 12 then (case descend t b s i of None \<Rightarrow> None | Some (s', i') \<Rightarrow> trie_walk n t b s' i')
      else Some i)"

text \<open>A walk takes at most 20 steps, since every step consumes an address bit.\<close>

definition trie_find :: "trie_control list \<Rightarrow> u64 \<Rightarrow> (memextent \<times> u32) option" where
  "trie_find t b =
     (case trie_walk 20 t b 32 0 of
        None \<Rightarrow> None
      | Some k \<Rightarrow> if tt_type (t ! k) = TT_LEAF then Some (leaf_flag (t ! k), leaf_length (t ! k)) else None)"

text \<open>The type of the words at each scan position, as the insertion creates them.\<close>

definition level_type :: "nat \<Rightarrow> trie_type" where
  "level_type s =
     (if s = 32 then TT_MASK_2 else if s \<in> {30, 27, 24, 21} then TT_MASK_3
      else if s = 18 then TT_MASK_1 else if s \<in> {17, 13} then TT_LIST_3
      else if s = 9 then TT_LEAF else TT_UNSET)"

inductive reach :: "trie_control list \<Rightarrow> nat \<Rightarrow> nat \<Rightarrow> bool" for t where
  root: "reach t 32 0"
| step: "reach t s i \<Longrightarrow> descend t b s i = Some (s', i') \<Longrightarrow> reach t s' i'"

definition trie_ok :: "trie_control list \<Rightarrow> bool" where
  "trie_ok t \<longleftrightarrow> length t = max_trie
     \<and> (\<forall>c \<in> set t. length (tt_ref c) = 8)
     \<and> (\<forall>s i. reach t s i \<longrightarrow> i < max_trie \<and> tt_type (t ! i) = level_type s \<and> level_type s \<noteq> TT_UNSET)
     \<and> (\<forall>s s' i. reach t s i \<longrightarrow> reach t s' i \<longrightarrow> s = s')"

definition trie_empty :: "trie_control list" where
  "trie_empty = trie_init TT_MASK_2 # replicate 127 (trie_init TT_UNSET)"

subsection \<open>References\<close>

lemma addr_bits_less: "addr_bits b s n < 2 ^ n"
proof -
  have "unat (drop_bit s b AND mask n) = take_bit n (unat (drop_bit s b))"
    by (simp add: take_bit_eq_mask [symmetric] unsigned_take_bit_eq)
  then show ?thesis
    by (simp add: addr_bits_def)
qed

lemma addr_bits_8: "n \<le> 3 \<Longrightarrow> addr_bits b s n < 8"
  using addr_bits_less [of b s n] power_increasing [of n 3 "2 :: nat"] by simp

lemma rel_ref_unat: "k < 128 \<Longrightarrow> i < 128 \<Longrightarrow> unat (rel_ref k i) = (k + 128 - i) mod 128"
proof -
  have "(k + 128 - i) mod 128 < 256"
    by (rule less_trans [of _ 128]) simp_all
  then show ?thesis
    by (simp add: rel_ref_def max_trie_def unat_of_nat)
qed

lemma follow_rel_ref: "k < 128 \<Longrightarrow> i < 128 \<Longrightarrow> follow (rel_ref k i) i = k"
  by (simp add: follow_def rel_ref_unat max_trie_def) (simp add: mod_add_left_eq)

lemma rel_ref_nonzero:
  assumes "k < 128" "i < 128" "k \<noteq> i"
  shows "rel_ref k i \<noteq> 0"
proof -
  have "(k + 128 - i) mod 128 \<noteq> 0"
    using assms by (auto simp: mod_if)
  then show ?thesis
    using rel_ref_unat [OF assms(1,2)] by (metis unsigned_0)
qed

lemma follow_less: "follow r i < max_trie"
  by (simp add: follow_def max_trie_def)

subsection \<open>The list words\<close>

definition key_at :: "u32 \<Rightarrow> nat \<Rightarrow> u32" where
  "key_at radix j = drop_bit (4 * j) radix AND 0xf"

definition matches :: "u8 list \<Rightarrow> u32 \<Rightarrow> u32 \<Rightarrow> nat \<Rightarrow> bool" where
  "matches refs radix v j \<longleftrightarrow> refs ! j \<noteq> 0 \<and> key_at radix j = v"

lemma list3_scan_unfold:
  "list3_scan refs (drop_bit (4 * i) radix) v i free =
     (if i < 8 then
        if refs ! i = 0 then list3_scan refs (drop_bit (4 * Suc i) radix) v (Suc i) (if i < free then i else free)
        else if matches refs radix v i then (i, free)
        else list3_scan refs (drop_bit (4 * Suc i) radix) v (Suc i) free
      else (i, free))"
  by (subst list3_scan.simps) (simp add: matches_def key_at_def add.commute)

lemma list3_scan_8: "list3_scan refs radix v 8 free = (8, free)"
  by (subst list3_scan.simps) simp

lemma list3_scan_index:
  "i \<le> 8 \<Longrightarrow> r = fst (list3_scan refs (drop_bit (4 * i) radix) v i free) \<Longrightarrow>
     i \<le> r \<and> r \<le> 8 \<and> (\<forall>j. i \<le> j \<and> j < r \<longrightarrow> \<not> matches refs radix v j)
     \<and> (r < 8 \<longrightarrow> matches refs radix v r)"
proof (induction "8 - i" arbitrary: i free)
  case 0
  then show ?case
    by (auto simp: list3_scan_8)
next
  case (Suc n)
  then have i: "i < 8" "n = 8 - Suc i" "Suc i \<le> 8"
    by simp_all
  show ?case
  proof (cases "matches refs radix v i")
    case True
    with Suc.prems i show ?thesis
      by (auto simp: list3_scan_unfold [of refs i] matches_def)
  next
    case False
    from False i Suc.prems(2) obtain f where
      "r = fst (list3_scan refs (drop_bit (4 * Suc i) radix) v (Suc i) f)"
      by (auto simp: list3_scan_unfold [of refs i] split: if_splits)
    from Suc.hyps(1) [OF i(2,3) this] False show ?thesis
      by (metis Suc_leD Suc_leI le_neq_implies_less)
  qed
qed

lemma list3_scan_free:
  "i \<le> 8 \<Longrightarrow> free \<le> 8 \<Longrightarrow> p = list3_scan refs (drop_bit (4 * i) radix) v i free \<Longrightarrow>
     (snd p = free \<or> snd p < 8 \<and> refs ! snd p = 0)
     \<and> (fst p = 8 \<and> snd p = 8 \<longrightarrow> (\<forall>j. i \<le> j \<and> j < 8 \<longrightarrow> refs ! j \<noteq> 0))"
proof (induction "8 - i" arbitrary: i free)
  case 0
  then show ?case
    by (auto simp: list3_scan_8)
next
  case (Suc n)
  then have i: "i < 8" "n = 8 - Suc i" "Suc i \<le> 8"
    by simp_all
  consider (zero) "refs ! i = 0" | (hit) "refs ! i \<noteq> 0" "matches refs radix v i"
    | (miss) "refs ! i \<noteq> 0" "\<not> matches refs radix v i"
    by blast
  then show ?case
  proof cases
    case zero
    define f where "f = (if i < free then i else free)"
    have f: "f \<le> 8" "f = free \<or> f < 8 \<and> refs ! f = 0" "f < 8 \<or> free = 8 \<and> f = 8"
      using zero i Suc.prems(2) by (auto simp: f_def)
    have "f < 8"
      using i Suc.prems(2) by (auto simp: f_def)
    have "p = list3_scan refs (drop_bit (4 * Suc i) radix) v (Suc i) f"
      using zero i Suc.prems(3) by (simp add: list3_scan_unfold [of refs i] f_def)
    from Suc.hyps(1) [OF i(2,3) f(1) this] f \<open>f < 8\<close> show ?thesis
      by auto
  next
    case hit
    with i Suc.prems(3) show ?thesis
      by (simp add: list3_scan_unfold [of refs i])
  next
    case miss
    then have "p = list3_scan refs (drop_bit (4 * Suc i) radix) v (Suc i) free"
      using i Suc.prems(3) by (simp add: list3_scan_unfold [of refs i])
    from Suc.hyps(1) [OF i(2,3) Suc.prems(2) this] miss(1) show ?thesis
      by (metis Suc_leI le_neq_implies_less)
  qed
qed

lemma list3_first:
  "fst (list3_scan refs radix v 0 8) = r \<longleftrightarrow>
     r \<le> 8 \<and> (\<forall>j < r. \<not> matches refs radix v j) \<and> (r < 8 \<longrightarrow> matches refs radix v r)"
proof -
  define r0 where "r0 = fst (list3_scan refs radix v 0 8)"
  have r0: "r0 \<le> 8" "\<And>j. j < r0 \<Longrightarrow> \<not> matches refs radix v j" "r0 < 8 \<Longrightarrow> matches refs radix v r0"
    using list3_scan_index [of 0 r0 refs radix v 8] by (simp_all add: r0_def)
  have "r = r0" if r: "r \<le> 8" "\<forall>j < r. \<not> matches refs radix v j" "r < 8 \<longrightarrow> matches refs radix v r"
    using r r0 by (metis linorder_neqE_nat order_less_le_trans)
  with r0 show ?thesis
    unfolding r0_def [symmetric] by blast
qed

lemma key_at_set:
  fixes w radix :: u32
  assumes "take_bit 4 w = w" "f < 8" "j < 8"
  shows "key_at ((radix AND NOT (push_bit (f * 4) 0xf)) OR push_bit (f * 4) w) j
    = (if j = f then w else key_at radix j)"
proof -
  have m: "(0xf :: u32) = mask 4"
    by (simp add: mask_eq_exp_minus_1)
  have w: "bit w n \<Longrightarrow> n < 4" for n
    using assms(1) by (metis bit_take_bit_iff)
  consider "j = f" | "j < f" | "f < j"
    by linarith
  then show ?thesis
  proof cases
    case 1
    have "bit w n \<Longrightarrow> 4 * f + n < 32" for n
      using w [of n] assms(2) by linarith
    with 1 show ?thesis
      using assms w by (auto simp: key_at_def m bit_simps intro!: bit_word_eqI)
  next
    case 2
    then show ?thesis
      using assms w by (auto simp: key_at_def m bit_simps intro!: bit_word_eqI)
  next
    case 3
    then have "\<not> 4 * j + n - f * 4 < 4" for n
      by simp
    then have "\<not> bit w (4 * j + n - f * 4)" for n
      using w by blast
    with 3 show ?thesis
      using assms by (auto simp: key_at_def m bit_simps intro!: bit_word_eqI)
  qed
qed

subsection \<open>What one insertion step adds\<close>

text \<open>
  The table \<open>t'\<close> extends \<open>t\<close>: words in use keep their type, their leaf and every entry that leads on.
\<close>

definition extends :: "trie_control list \<Rightarrow> trie_control list \<Rightarrow> bool" where
  "extends t t' \<longleftrightarrow> length t' = length t \<and>
     (\<forall>i < length t. tt_type (t ! i) \<noteq> TT_UNSET \<longrightarrow>
        tt_type (t' ! i) = tt_type (t ! i) \<and> leaf_flag (t' ! i) = leaf_flag (t ! i)
        \<and> leaf_length (t' ! i) = leaf_length (t ! i)
        \<and> (\<forall>b s x. descend t b s i = Some x \<longrightarrow> descend t' b s i = Some x))"

lemma extends_refl [simp]: "extends t t"
  by (simp add: extends_def)

lemma extends_trans: "extends t u \<Longrightarrow> extends u v \<Longrightarrow> extends t v"
  by (auto simp: extends_def)

text \<open>\<open>hangs\<close>: \<open>t'\<close> is \<open>t\<close> with a fresh word \<open>k\<close>, hung below \<open>index\<close> for the address \<open>b\<close>.\<close>

definition hangs :: "trie_control list \<Rightarrow> nat \<Rightarrow> nat \<Rightarrow> u64 \<Rightarrow> nat \<Rightarrow> trie_control list \<Rightarrow> bool" where
  "hangs t index k b s t' \<longleftrightarrow> extends t t' \<and> k < length t \<and> tt_type (t ! k) = TT_UNSET \<and> k \<noteq> index
     \<and> descend t' b s index = Some (s - width (tt_type (t ! index)), k)
     \<and> (\<forall>b s. descend t' b s k = None)
     \<and> (\<forall>i b s x. i \<noteq> k \<longrightarrow> descend t' b s i = Some x \<longrightarrow>
          descend t b s i = Some x \<or> i = index \<and> x = (s - width (tt_type (t ! index)), k))"

lemma descend_cong: "t' ! i = t ! i \<Longrightarrow> descend t' b s i = descend t b s i"
  by (simp add: descend_def split: option.splits)

lemma descend_unset: "tt_type (t ! i) = TT_UNSET \<Longrightarrow> descend t b s i = None"
  by (simp add: descend_def entry_of_def)

lemma descend_fresh: "tt_ref (t ! i) = replicate 8 0 \<Longrightarrow> descend t b s i = None"
proof -
  assume r: "tt_ref (t ! i) = replicate 8 0"
  have "v < 8" if "entry_of (t ! i) b s = Some v" for v
  proof (cases "tt_type (t ! i)")
    case TT_LIST_3
    then show ?thesis
      using that list3_scan_index [of 0 _ "tt_ref (t ! i)" "tt_radix (t ! i)" "of_nat (addr_bits b (s - 4) 4)" 8]
      by (auto simp: entry_of_def Let_def split: if_splits)
  qed (use that addr_bits_8 in \<open>auto simp: entry_of_def\<close>)
  then show ?thesis
    by (auto simp: descend_def r split: option.splits)
qed

lemma hangsI:
  assumes t': "t' = t[k := c, index := item]"
    and k: "k < length t" "tt_type (t ! k) = TT_UNSET" "index < length t" "tt_type (t ! index) \<noteq> TT_UNSET"
    and c: "tt_ref c = replicate 8 0"
    and item: "tt_type item = tt_type (t ! index)" "leaf_flag item = leaf_flag (t ! index)"
      "leaf_length item = leaf_length (t ! index)"
    and old: "\<And>b s x. descend t b s index = Some x \<Longrightarrow> descend t' b s index = Some x"
    and new: "descend t' b s index = Some (s - width (tt_type (t ! index)), k)"
    and only: "\<And>b s x. descend t' b s index = Some x \<Longrightarrow>
      descend t b s index = Some x \<or> x = (s - width (tt_type (t ! index)), k)"
  shows "hangs t index k b s t'"
proof -
  have ne: "k \<noteq> index"
    using k by auto
  have at: "t' ! k = c" "t' ! index = item" "\<And>i. i \<noteq> k \<Longrightarrow> i \<noteq> index \<Longrightarrow> t' ! i = t ! i"
    using ne k by (simp_all add: t')
  have other: "descend t' b s i = descend t b s i" if "i \<noteq> k" "i \<noteq> index" for i b s
    using that by (intro descend_cong at)
  have "extends t t'"
    unfolding extends_def
  proof (intro conjI allI impI)
    show "length t' = length t"
      by (simp add: t')
    fix i
    assume i: "i < length t" "tt_type (t ! i) \<noteq> TT_UNSET"
    then have "i \<noteq> k"
      using k by auto
    then show "tt_type (t' ! i) = tt_type (t ! i)" "leaf_flag (t' ! i) = leaf_flag (t ! i)"
      "leaf_length (t' ! i) = leaf_length (t ! i)"
      using at item by (cases "i = index"; simp)+
    fix b s x
    assume "descend t b s i = Some x"
    then show "descend t' b s i = Some x"
      using old other \<open>i \<noteq> k\<close> by (cases "i = index") auto
  qed
  moreover have "descend t' b s k = None" for b s
    by (rule descend_fresh) (simp add: at c)
  moreover have "descend t b s i = Some x \<or> i = index \<and> x = (s - width (tt_type (t ! index)), k)"
    if "i \<noteq> k" "descend t' b s i = Some x" for i b s x
    using that only other by (cases "i = index") auto
  ultimately show ?thesis
    using k ne new unfolding hangs_def by blast
qed

lemma free_trie_types: "map tt_type t' = map tt_type t \<Longrightarrow> free_trie t' = free_trie t"
proof -
  have *: "free_trie t = first_index (\<lambda>x. x = TT_UNSET) (map tt_type t)" for t
    by (induction t) (simp_all add: free_trie_def)
  assume "map tt_type t' = map tt_type t"
  then show ?thesis
    by (simp add: *)
qed

lemma free_set_key: "index < length t \<Longrightarrow> free_trie (set_key index i v t) = free_trie t"
proof (rule free_trie_types)
  assume "index < length t"
  then show "map tt_type (set_key index i v t) = map tt_type t"
    by (simp add: set_key_def map_update) (metis list_update_id nth_map)
qed

lemma free_trie_Some:
  "free_trie t = Some k \<Longrightarrow> k < length t \<and> tt_type (t ! k) = TT_UNSET"
  unfolding free_trie_def by (drule first_index_Some) simp

definition mask_type :: "nat \<Rightarrow> trie_type" where
  "mask_type n = (if n = 1 then TT_MASK_1 else if n = 2 then TT_MASK_2 else TT_MASK_3)"

lemma mask_entry:
  "n \<in> {1, 2, 3} \<Longrightarrow> tt_type c = mask_type n \<Longrightarrow>
     entry_of c b s = Some (addr_bits b (s - n) n) \<and> width (tt_type c) = n"
  by (auto simp: entry_of_def mask_type_def width_def)

lemma mask_hangs:
  assumes n: "n \<in> {1, 2, 3}" "tt_type (t ! index) = mask_type n"
    and len: "length t = max_trie" "index < max_trie" "length (tt_ref (t ! index)) = 8"
    and zero: "tt_ref (t ! index) ! addr_bits b (s - n) n = 0"
    and free: "free_trie t = Some k"
  shows "hangs t index k b s (set_ref index (addr_bits b (s - n) n) k (t[k := trie_init ty]))"
    (is "hangs t index k b s ?t'")
proof -
  let ?v = "addr_bits b (s - n) n"
  define item where "item = (t ! index)\<lparr>tt_ref := (tt_ref (t ! index))[?v := rel_ref k index]\<rparr>"
  note k = free_trie_Some [OF free]
  have set: "tt_type (t ! index) \<noteq> TT_UNSET"
    using n by (auto simp: mask_type_def)
  with k have ne: "k \<noteq> index"
    by auto
  have t': "?t' = t[k := trie_init ty, index := item]"
    using ne by (simp add: set_ref_def item_def)
  have at: "?t' ! index = item"
    using len by (simp add: t')
  have v8: "?v < 8"
    using n by (auto intro: addr_bits_8)
  have ty: "tt_type item = mask_type n"
    by (simp add: item_def n)
  note e = mask_entry [OF n] mask_entry [OF n(1) ty]
  have k128: "k < 128" "index < 128"
    using k len by (simp_all add: max_trie_def)
  have r: "rel_ref k index \<noteq> 0" "follow (rel_ref k index) index = k"
    using k128 ne by (simp_all add: rel_ref_nonzero follow_rel_ref)
  have refv: "tt_ref item ! ?v = rel_ref k index"
    using v8 len by (simp add: item_def)
  have refo: "v \<noteq> ?v \<Longrightarrow> tt_ref item ! v = tt_ref (t ! index) ! v" for v
    by (simp add: item_def)
  show ?thesis
  proof (rule hangsI [OF t'])
    show "k < length t" "tt_type (t ! k) = TT_UNSET" "index < length t" "tt_type (t ! index) \<noteq> TT_UNSET"
      using k len set by simp_all
    show "tt_ref (trie_init ty) = replicate 8 0"
      by (simp add: trie_init_def)
    show "tt_type item = tt_type (t ! index)" "leaf_flag item = leaf_flag (t ! index)"
      "leaf_length item = leaf_length (t ! index)"
      by (simp_all add: item_def)
    show "descend ?t' b s index = Some (s - width (tt_type (t ! index)), k)"
      using e r refv by (simp add: descend_def at)
  next
    fix b' s' x
    assume x: "descend t b' s' index = Some x"
    then have "addr_bits b' (s' - n) n \<noteq> ?v"
      using e zero by (auto simp: descend_def)
    note refo [OF this]
    with x show "descend ?t' b' s' index = Some x"
      using e by (auto simp: descend_def at split: if_splits)
  next
    fix b' s' x
    assume "descend ?t' b' s' index = Some x"
    then show "descend t b' s' index = Some x \<or> x = (s' - width (tt_type (t ! index)), k)"
      using e refo refv r by (cases "addr_bits b' (s' - n) n = ?v") (auto simp: descend_def at split: if_splits)
  qed
qed

lemma list3_hangs:
  fixes t :: "trie_control list" and index :: nat
  defines "item \<equiv> t ! index"
  assumes ty: "tt_type item = TT_LIST_3"
    and len: "length t = max_trie" "index < max_trie" "length (tt_ref item) = 8"
    and scan: "list3_scan (tt_ref item) (tt_radix item) (of_nat (addr_bits b (s - 4) 4)) 0 8 = (8, f)"
      "f \<noteq> 8"
    and free: "free_trie t = Some k"
    and c: "tt_ref c = replicate 8 0"
  shows "hangs t index k b s
    (set_ref index f k ((set_key index f (addr_bits b (s - 4) 4) t)[k := c]))"
    (is "hangs t index k b s ?t'")
proof -
  let ?v = "addr_bits b (s - 4) 4"
  let ?w = "of_nat ?v :: u32"
  define radix where
    "radix = (tt_radix item AND NOT (push_bit (f * 4) 0xf)) OR push_bit (f * 4) ?w"
  define item' where "item' = item\<lparr>tt_radix := radix, tt_ref := (tt_ref item)[f := rel_ref k index]\<rparr>"
  note k = free_trie_Some [OF free]
  have ne: "k \<noteq> index"
    using k ty by (auto simp: item_def)
  have t': "?t' = t[k := c, index := item']"
    using ne len by (simp add: set_ref_def set_key_def item'_def item_def radix_def list_update_swap)
  have at: "?t' ! index = item'"
    using len by (simp add: t')
  have f: "f < 8" "tt_ref item ! f = 0"
    using list3_scan_free [of 0 8 "(8, f)" "tt_ref item" "tt_radix item" ?w] scan by auto
  have none: "\<not> matches (tt_ref item) (tt_radix item) ?w j" if "j < 8" for j
    using list3_first [of "tt_ref item" "tt_radix item" ?w 8] scan that by simp
  have k128: "k < 128" "index < 128"
    using k len by (simp_all add: max_trie_def)
  have r: "rel_ref k index \<noteq> 0" "follow (rel_ref k index) index = k"
    using k128 ne by (simp_all add: rel_ref_nonzero follow_rel_ref)
  have w16: "take_bit 4 ?w = ?w"
    using addr_bits_less [of b "s - 4" 4] by (simp add: take_bit_of_nat take_bit_nat_eq_self)
  have m: "matches (tt_ref item') (tt_radix item') v j =
      (if j = f then v = ?w else matches (tt_ref item) (tt_radix item) v j)" if "j < 8" for v j
    using that f len r key_at_set [OF w16 f(1) that] by (auto simp: matches_def item'_def radix_def)
  have ty': "tt_type item' = TT_LIST_3"
    using ty by (simp add: item'_def)
  have nomatch: "\<not> matches (tt_ref item) (tt_radix item) v f" for v
    using f by (simp add: matches_def)
  let ?first = "\<lambda>c v. fst (list3_scan (tt_ref c) (tt_radix c) v 0 8)"
  have first': "?first item' v = (if v = ?w then f else ?first item v)" for v
  proof (cases "v = ?w")
    case True
    have "?first item' ?w = f"
      unfolding list3_first using f m none by auto
    with True show ?thesis
      by simp
  next
    case False
    define r0 where "r0 = ?first item v"
    then have "r0 \<le> 8 \<and> (\<forall>j < r0. \<not> matches (tt_ref item) (tt_radix item) v j)
        \<and> (r0 < 8 \<longrightarrow> matches (tt_ref item) (tt_radix item) v r0)"
      using list3_first [of "tt_ref item" "tt_radix item" v r0] by simp
    then have "?first item' v = r0"
      unfolding list3_first using m False nomatch by (metis order_less_le_trans)
    with False show ?thesis
      by (simp add: r0_def)
  qed
  have firstw: "?first item ?w = 8"
    using scan by simp
  have ref': "tt_ref item' ! f = rel_ref k index" "\<And>j. j \<noteq> f \<Longrightarrow> tt_ref item' ! j = tt_ref item ! j"
    using f len by (simp_all add: item'_def)
  have w4: "width TT_LIST_3 = 4"
    by (simp add: width_def)
  have d: "descend t b s index = (let i = ?first item (of_nat (addr_bits b (s - 4) 4))
      in if i = 8 \<or> tt_ref item ! i = 0 then None else Some (s - 4, follow (tt_ref item ! i) index))" for b s
    using ty by (simp add: descend_def entry_of_def item_def [symmetric] Let_def w4)
  have d': "descend ?t' b s index = (let i = ?first item' (of_nat (addr_bits b (s - 4) 4))
      in if i = 8 \<or> tt_ref item' ! i = 0 then None else Some (s - 4, follow (tt_ref item' ! i) index))" for b s
    using ty' by (simp add: descend_def entry_of_def at Let_def w4)
  have nf: "?first item v \<noteq> f" for v
    using list3_first [of "tt_ref item" "tt_radix item" v f] f nomatch by auto
  note ff = ref'(2) [OF nf]
  show ?thesis
  proof (rule hangsI [OF t'])
    show "k < length t" "tt_type (t ! k) = TT_UNSET" "index < length t" "tt_type (t ! index) \<noteq> TT_UNSET"
      using k len ty by (simp_all add: item_def)
    show "tt_ref c = replicate 8 0" by (rule c)
    show "tt_type item' = tt_type (t ! index)" "leaf_flag item' = leaf_flag (t ! index)"
      "leaf_length item' = leaf_length (t ! index)"
      by (simp_all add: item'_def item_def)
    show "descend ?t' b s index = Some (s - width (tt_type (t ! index)), k)"
      using f r ref' ty by (simp add: d' first' w4 item_def [symmetric])
  next
    fix b' s' x
    assume x: "descend t b' s' index = Some x"
    then have "of_nat (addr_bits b' (s' - 4) 4) \<noteq> ?w"
      using firstw by (auto simp: d)
    with x ff show "descend ?t' b' s' index = Some x"
      by (auto simp: d d' first' Let_def split: if_splits)
  next
    fix b' s' x
    assume x: "descend ?t' b' s' index = Some x"
    show "descend t b' s' index = Some x \<or> x = (s' - width (tt_type (t ! index)), k)"
    proof (cases "of_nat (addr_bits b' (s' - 4) 4) = ?w")
      case True
      with x r ref' ty show ?thesis
        by (auto simp: d' first' w4 item_def [symmetric] split: if_splits)
    next
      case False
      with x ff show ?thesis
        by (auto simp: d d' first' Let_def split: if_splits)
    qed
  qed
qed

subsection \<open>The invariant of the trie\<close>

definition list_full :: "trie_control \<Rightarrow> bool" where
  "list_full c \<longleftrightarrow> tt_type c = TT_LIST_3 \<and> (\<forall>j < 8. tt_ref c ! j \<noteq> 0)"

definition trie_exhausted :: "trie_control list \<Rightarrow> bool" where
  "trie_exhausted t \<longleftrightarrow> free_trie t = None \<or> (\<exists>c \<in> set t. list_full c)"

lemma mask_arm_found:
  assumes "n \<in> {1, 2, 3}" "tt_type (t ! index) = mask_type n" "descend t (mx_base ext) s index = Some (s', i')"
  shows "mask_arm n child moves ext s index t = (s', i', t)"
  using assms mask_entry [OF assms(1,2)]
  by (auto simp: mask_arm_def descend_def Let_def split: if_splits)

lemma mask_arm_adds:
  assumes "n \<in> {1, 2, 3}" "tt_type (t ! index) = mask_type n" "descend t (mx_base ext) s index = None"
    "free_trie t = Some k"
  shows "mask_arm n child moves ext s index t =
    (s - n, if moves (s - n) then k else index,
     set_ref index (addr_bits (mx_base ext) (s - n) n) k (t[k := trie_init (child (s - n))]))"
    "tt_ref (t ! index) ! addr_bits (mx_base ext) (s - n) n = 0"
  using assms mask_entry [OF assms(1,2)]
  by (auto simp: mask_arm_def descend_def Let_def split: if_splits)

lemma mask_arm_no_room:
  assumes "n \<in> {1, 2, 3}" "tt_type (t ! index) = mask_type n" "descend t (mx_base ext) s index = None"
    "free_trie t = None"
  shows "mask_arm n child moves ext s index t = (0, index, t)"
  using assms mask_entry [OF assms(1,2)]
  by (auto simp: mask_arm_def descend_def Let_def split: if_splits)

lemma reach_unset: "trie_ok t \<Longrightarrow> reach t s i \<Longrightarrow> tt_type (t ! i) \<noteq> TT_UNSET \<and> i < max_trie"
  by (metis trie_ok_def)

lemma hangs_reach:
  assumes ok: "trie_ok t" and at: "reach t s index" and h: "hangs t index k b s t'"
  shows "reach t' s' i \<Longrightarrow> reach t s' i \<or> s' = s - width (tt_type (t ! index)) \<and> i = k"
proof (induction rule: reach.induct)
  case root
  then show ?case
    by (simp add: reach.root)
next
  case (step s1 i b1 s2 i2)
  note h' = h [unfolded hangs_def]
  from step.IH have r: "reach t s1 i"
    using h' step.hyps(2) by auto
  with ok h' have "i \<noteq> k"
    using reach_unset by blast
  with h' step.hyps(2) have "descend t b1 s1 i = Some (s2, i2)
      \<or> i = index \<and> (s2, i2) = (s1 - width (tt_type (t ! index)), k)"
    by blast
  moreover have "i = index \<Longrightarrow> s1 = s"
    using ok r at unfolding trie_ok_def by blast
  ultimately show ?case
    using r reach.step by auto
qed

lemma hangs_trie_ok:
  assumes ok: "trie_ok t" and at: "reach t s index" and h: "hangs t index k b s t'"
    and refs: "\<forall>c \<in> set t'. length (tt_ref c) = 8"
    and ty: "tt_type (t' ! k) = level_type (s - width (tt_type (t ! index)))"
      "level_type (s - width (tt_type (t ! index))) \<noteq> TT_UNSET"
  shows "trie_ok t'"
proof -
  note h' = h [unfolded hangs_def]
  let ?s = "s - width (tt_type (t ! index))"
  have len: "length t' = max_trie" "length t = max_trie"
    using ok h' by (simp_all add: extends_def trie_ok_def)
  have old: "i \<noteq> k \<and> i < max_trie \<and> tt_type (t' ! i) = level_type s' \<and> level_type s' \<noteq> TT_UNSET"
    if "reach t s' i" for s' i
  proof -
    have "i < max_trie" "tt_type (t ! i) = level_type s'" "level_type s' \<noteq> TT_UNSET"
      using that ok by (auto simp: trie_ok_def)
    with h' len show ?thesis
      by (auto simp: extends_def)
  qed
  note cases = hangs_reach [OF ok at h]
  have "i < max_trie \<and> tt_type (t' ! i) = level_type s' \<and> level_type s' \<noteq> TT_UNSET"
    if "reach t' s' i" for s' i
    using cases [OF that] old [of s' i] ty h' len by auto
  moreover have "s1 = s2" if "reach t' s1 i" "reach t' s2 i" for s1 s2 i
    using cases [OF that(1)] cases [OF that(2)] old ok unfolding trie_ok_def by metis
  ultimately show ?thesis
    using len refs unfolding trie_ok_def by blast
qed

text \<open>One step at a word that is reached: it follows an entry, adds one, or gives up.\<close>

lemma level_cases:
  assumes "level_type s = ty" "s > 12" "ty \<noteq> TT_UNSET"
  shows "(\<exists>n. n \<in> {1, 2, 3} \<and> ty = mask_type n) \<or> ty = TT_LIST_3"
proof -
  have "ty \<in> {mask_type 1, mask_type 2, mask_type 3, TT_LIST_3}"
    using assms by (auto simp: level_type_def mask_type_def split: if_splits)
  then show ?thesis
    by blast
qed

lemma trie_step_follows:
  assumes ok: "trie_ok t" and at: "reach t s index" and s: "s > 12"
    and d: "descend t (mx_base ext) s index = Some (s', i')"
  shows "trie_step ext s index t = Inr (s', i', t)"
proof -
  have ty: "tt_type (t ! index) = level_type s" "level_type s \<noteq> TT_UNSET"
    using ok at by (auto simp: trie_ok_def)
  from level_cases [OF refl s ty(2)] show ?thesis
  proof (elim disjE exE conjE)
    fix n :: nat
    assume n: "n \<in> {1, 2, 3}" "level_type s = mask_type n"
    then have "tt_type (t ! index) = mask_type n"
      using ty by simp
    from mask_arm_found [OF n(1) this d] n ty show ?thesis
      by (auto simp: trie_step_def mask1_arm_def mask2_arm_def mask3_arm_def mask_type_def)
  next
    assume "level_type s = TT_LIST_3"
    then show ?thesis
      using d ty by (auto simp: trie_step_def list3_arm_def descend_def entry_of_def Let_def width_def
          case_prod_unfold split: if_splits)
  qed
qed

lemma set_key_neutral:
  assumes "tt_type (t ! index) = TT_LIST_3" "index < length t" "f < 8" "tt_ref (t ! index) ! f = 0" "v < 16"
  shows "descend (set_key index f v t) b s i = descend t b s i"
proof (cases "i = index")
  case False
  then show ?thesis
    by (intro descend_cong) (simp add: set_key_def)
next
  case True
  let ?c = "t ! index" and ?c' = "set_key index f v t ! index"
  have w: "take_bit 4 (of_nat v :: u32) = of_nat v"
    using assms(5) by (simp add: take_bit_of_nat take_bit_nat_eq_self)
  have c': "tt_ref ?c' = tt_ref ?c" "tt_type ?c' = TT_LIST_3"
    using assms by (simp_all add: set_key_def)
  have m: "matches (tt_ref ?c') (tt_radix ?c') u j = matches (tt_ref ?c) (tt_radix ?c) u j"
    if "j < 8" for u j
    using that assms key_at_set [OF w assms(3) that]
    by (cases "j = f") (simp_all add: matches_def set_key_def)
  have "fst (list3_scan (tt_ref ?c') (tt_radix ?c') u 0 8) = fst (list3_scan (tt_ref ?c) (tt_radix ?c) u 0 8)" for u
  proof -
    define r0 where "r0 = fst (list3_scan (tt_ref ?c) (tt_radix ?c) u 0 8)"
    then have "r0 \<le> 8 \<and> (\<forall>j < r0. \<not> matches (tt_ref ?c) (tt_radix ?c) u j)
        \<and> (r0 < 8 \<longrightarrow> matches (tt_ref ?c) (tt_radix ?c) u r0)"
      using list3_first [of "tt_ref ?c" "tt_radix ?c" u r0] by simp
    then have "fst (list3_scan (tt_ref ?c') (tt_radix ?c') u 0 8) = r0"
      unfolding list3_first using m by (metis order_less_le_trans)
    then show ?thesis
      by (simp add: r0_def)
  qed
  with c' assms(1) True show ?thesis
    by (simp add: descend_def entry_of_def split: option.splits)
qed

lemma same_descend_ok:
  assumes "trie_ok t" "length t' = length t" "\<And>b s i. descend t' b s i = descend t b s i"
    "\<And>i. i < length t \<Longrightarrow> tt_type (t' ! i) = tt_type (t ! i) \<and> leaf_flag (t' ! i) = leaf_flag (t ! i)
       \<and> leaf_length (t' ! i) = leaf_length (t ! i)"
    "\<forall>c \<in> set t'. length (tt_ref c) = 8"
  shows "trie_ok t' \<and> extends t t'"
proof -
  have r: "reach t' s i \<longleftrightarrow> reach t s i" for s i
  proof
    show "reach t' s i \<Longrightarrow> reach t s i"
      by (induction rule: reach.induct) (auto intro: reach.intros simp: assms(3))
    show "reach t s i \<Longrightarrow> reach t' s i"
      by (induction rule: reach.induct) (auto intro: reach.intros simp flip: assms(3))
  qed
  have "trie_ok t'"
    using assms(1,2,4,5) unfolding trie_ok_def r by auto
  then show ?thesis
    using assms by (simp add: extends_def)
qed

lemma refs8_update:
  "\<forall>c \<in> set t. length (tt_ref c) = 8 \<Longrightarrow> length (tt_ref c') = 8 \<Longrightarrow>
     \<forall>c \<in> set (t[i := c']). length (tt_ref c) = 8"
  using set_update_subset_insert [of t i c'] by blast

lemma refs8_nth:
  "\<forall>c \<in> set t. length (tt_ref c) = 8 \<Longrightarrow> i < length t \<Longrightarrow> length (tt_ref (t ! i)) = 8"
  by simp

definition added :: "extent \<Rightarrow> nat \<Rightarrow> nat \<Rightarrow> trie_control list \<Rightarrow> trie_state \<Rightarrow> bool" where
  "added ext s index t r \<longleftrightarrow> (case r of (s', i', t') \<Rightarrow>
     s' < s \<and> (\<exists>k. hangs t index k (mx_base ext) s t' \<and> trie_ok t' \<and> (s' > 12 \<longrightarrow> i' = k)
       \<and> descend t' (mx_base ext) s index = Some (s', k)
       \<and> (s' \<le> 12 \<longrightarrow> tt_type (t' ! k) = TT_LEAF \<and> leaf_flag (t' ! k) = mx_flags ext
           \<and> leaf_length (t' ! k) = mx_length ext)))"

definition gave_up :: "nat \<Rightarrow> trie_control list \<Rightarrow> trie_state \<Rightarrow> bool" where
  "gave_up index t r \<longleftrightarrow> (case r of (s', i', t') \<Rightarrow>
     s' = 0 \<and> extends t t' \<and> trie_ok t' \<and> free_trie t' = None)"

lemma mask_step_misses:
  assumes ok: "trie_ok t" and at: "reach t s index" and s: "s > 12"
    and n: "n \<in> {1, 2, 3}" "tt_type (t ! index) = mask_type n"
    and d: "descend t (mx_base ext) s index = None"
    and child: "child (s - n) = level_type (s - n)" "level_type (s - n) \<noteq> TT_UNSET"
    and moves: "s - n > 12" "moves (s - n)"
  shows "added ext s index t (mask_arm n child moves ext s index t)
    \<or> gave_up index t (mask_arm n child moves ext s index t)"
proof (cases "free_trie t")
  case None
  from mask_arm_no_room [OF n d None] ok None show ?thesis
    by (simp add: gave_up_def)
next
  case (Some k)
  have idx: "length t = max_trie" "index < max_trie" "\<forall>c \<in> set t. length (tt_ref c) = 8"
    using ok at by (auto simp: trie_ok_def)
  have w: "width (tt_type (t ! index)) = n"
    using mask_entry [OF n] by simp
  note arm = mask_arm_adds(1) [OF n d Some, of child moves] mask_arm_adds(2) [OF n d Some]
  let ?v = "addr_bits (mx_base ext) (s - n) n"
  let ?t' = "set_ref index ?v k (t[k := trie_init (child (s - n))])"
  have h: "hangs t index k (mx_base ext) s ?t'"
    using idx by (intro mask_hangs [OF n]) (simp_all add: arm(2) Some)
  have ne: "k \<noteq> index" and k: "k < max_trie"
    using h idx by (auto simp: hangs_def)
  have tk: "?t' ! k = trie_init (child (s - n))"
    using ne k idx by (simp add: set_ref_def)
  have "trie_ok ?t'"
  proof (rule hangs_trie_ok [OF ok at h])
    show "\<forall>c \<in> set ?t'. length (tt_ref c) = 8"
      unfolding set_ref_def using idx ne
      by (intro refs8_update) (simp_all add: trie_init_def)
    show "tt_type (?t' ! k) = level_type (s - width (tt_type (t ! index)))"
      "level_type (s - width (tt_type (t ! index))) \<noteq> TT_UNSET"
      using child unfolding w tk by (simp_all add: trie_init_def)
  qed
  moreover have "descend ?t' (mx_base ext) s index = Some (s - n, k)"
    using h w by (simp add: hangs_def)
  ultimately have "added ext s index t (mask_arm n child moves ext s index t)"
    using h moves s n(1) unfolding added_def arm(1) prod.case by auto
  then show ?thesis ..
qed

lemma list3_step_misses:
  assumes ok: "trie_ok t" and at: "reach t s index" and s: "s \<in> {17, 13}"
    and ty: "tt_type (t ! index) = TT_LIST_3"
    and d: "descend t (mx_base ext) s index = None"
  shows "case list3_arm ext s index t of
      Inl t' \<Rightarrow> t' = t \<and> list_full (t ! index)
    | Inr r \<Rightarrow> added ext s index t r \<or> gave_up index t r"
proof -
  have idx: "length t = max_trie" "index < max_trie" "\<forall>c \<in> set t. length (tt_ref c) = 8"
    using ok at by (auto simp: trie_ok_def)
  have i8: "length (tt_ref (t ! index)) = 8"
    using idx by simp
  let ?v = "addr_bits (mx_base ext) (s - 4) 4"
  define scan where "scan = list3_scan (tt_ref (t ! index)) (tt_radix (t ! index)) (of_nat ?v) 0 8"
  obtain i f where if': "scan = (i, f)"
    by (cases scan)
  have sc: "list3_scan (tt_ref (t ! index)) (tt_radix (t ! index)) (of_nat ?v) 0 8 = (i, f)"
    using if' by (simp add: scan_def)
  note free = list3_scan_free [of 0 8 "(i, f)" "tt_ref (t ! index)" "tt_radix (t ! index)" "of_nat ?v"]
  have "matches (tt_ref (t ! index)) (tt_radix (t ! index)) (of_nat ?v) i" "i \<le> 8" if "i \<noteq> 8"
    using that list3_first [of "tt_ref (t ! index)" "tt_radix (t ! index)" "of_nat ?v" i] sc by auto
  then have i: "i = 8"
    using d ty sc by (auto simp: descend_def entry_of_def matches_def split: if_splits)
  have w: "width (tt_type (t ! index)) = 4"
    by (simp add: ty width_def)
  show ?thesis
  proof (cases "f = 8")
    case True
    then have "list_full (t ! index)"
      using free sc ty i by (simp add: list_full_def)
    moreover have "list3_arm ext s index t = Inl t"
      using sc i True by (simp add: list3_arm_def)
    ultimately show ?thesis
      by simp
  next
    case False
    with free sc i have f: "f < 8" "tt_ref (t ! index) ! f = 0"
      by auto
    let ?t0 = "set_key index f ?v t"
    have ft: "free_trie ?t0 = free_trie t"
      using idx by (simp add: free_set_key)
    have v16: "?v < 16"
      using addr_bits_less [of "mx_base ext" "s - 4" 4] by simp
    show ?thesis
    proof (cases "free_trie t")
      case None
      have "trie_ok ?t0 \<and> extends t ?t0"
      proof (rule same_descend_ok [OF ok])
        show "length ?t0 = length t"
          by (simp add: set_key_def)
        show "descend ?t0 b s i = descend t b s i" for b s i
          using idx by (intro set_key_neutral [OF ty _ f v16]) simp
        show "\<forall>c \<in> set ?t0. length (tt_ref c) = 8"
          unfolding set_key_def using idx i8 by (intro refs8_update) simp_all
        show "tt_type (?t0 ! i) = tt_type (t ! i) \<and> leaf_flag (?t0 ! i) = leaf_flag (t ! i)
            \<and> leaf_length (?t0 ! i) = leaf_length (t ! i)" if "i < length t" for i
          using that by (cases "i = index") (simp_all add: set_key_def)
      qed
      moreover have "list3_arm ext s index t = Inr (0, index, ?t0)"
        using sc i False ft None by (simp add: list3_arm_def)
      ultimately show ?thesis
        using ft None by (simp add: gave_up_def)
    next
      case (Some k)
      define c where "c = (if s - 4 > 12 then trie_init (if s - 4 = 24 then TT_MASK_3 else TT_LIST_3)
        else (trie_init TT_LEAF)\<lparr>leaf_flag := mx_flags ext, leaf_length := mx_length ext\<rparr>)"
      let ?t' = "set_ref index f k (?t0[k := c])"
      have c8: "tt_ref c = replicate 8 0"
        by (simp add: c_def trie_init_def)
      have h: "hangs t index k (mx_base ext) s ?t'"
        using idx i8 sc i False Some c8 by (intro list3_hangs [OF ty]) simp_all
      have ne: "k \<noteq> index" and k: "k < max_trie"
        using h idx by (auto simp: hangs_def)
      have tk: "?t' ! k = c"
        using ne k idx by (simp add: set_ref_def set_key_def)
      have "trie_ok ?t'"
      proof (rule hangs_trie_ok [OF ok at h])
        show "\<forall>c \<in> set ?t'. length (tt_ref c) = 8"
          unfolding set_ref_def set_key_def using idx ne i8 c8
          by (intro refs8_update) simp_all
        show "tt_type (?t' ! k) = level_type (s - width (tt_type (t ! index)))"
          "level_type (s - width (tt_type (t ! index))) \<noteq> TT_UNSET"
          using s unfolding w tk by (auto simp: c_def trie_init_def level_type_def)
      qed
      moreover have "descend ?t' (mx_base ext) s index = Some (s - 4, k)"
        using h w by (simp add: hangs_def)
      moreover have "list3_arm ext s index t = Inr (s - 4, if s - 4 > 12 then k else index, ?t')"
        using sc i False ft Some by (auto simp: list3_arm_def c_def Let_def)
      moreover have "s - 4 \<le> 12 \<Longrightarrow> tt_type c = TT_LEAF \<and> leaf_flag c = mx_flags ext \<and> leaf_length c = mx_length ext"
        by (simp add: c_def trie_init_def)
      ultimately have "\<exists>r. list3_arm ext s index t = Inr r \<and> added ext s index t r"
        using h s tk unfolding added_def by auto
      then show ?thesis
        by auto
    qed
  qed
qed

lemma trie_step_misses:
  assumes ok: "trie_ok t" and at: "reach t s index" and s: "s > 12"
    and d: "descend t (mx_base ext) s index = None"
  shows "case trie_step ext s index t of
      Inl t' \<Rightarrow> t' = t \<and> list_full (t ! index)
    | Inr r \<Rightarrow> added ext s index t r \<or> gave_up index t r"
proof -
  have ty: "tt_type (t ! index) = level_type s" "level_type s \<noteq> TT_UNSET"
    using ok at by (auto simp: trie_ok_def)
  note mask = mask_step_misses [OF ok at s _ _ d]
  have m1: "1 \<in> {1, 2, 3 :: nat}" and m2: "2 \<in> {1, 2, 3 :: nat}" and m3: "3 \<in> {1, 2, 3 :: nat}"
    by simp_all
  consider "s = 32" | "s \<in> {30, 27, 24, 21}" | "s = 18" | "s \<in> {17, 13}"
    using ty(2) s by (auto simp: level_type_def split: if_splits)
  then show ?thesis
  proof cases
    case 1
    with ty(1) have t: "tt_type (t ! index) = TT_MASK_2" "tt_type (t ! index) = mask_type 2"
      by (simp_all add: level_type_def mask_type_def)
    from 1 mask [OF m2 t(2), of "\<lambda>s. if s > 12 then TT_MASK_3 else TT_LEAF" "\<lambda>s. s > 12"] t(1)
    show ?thesis
      by (simp add: trie_step_def mask2_arm_def level_type_def)
  next
    case 2
    with ty(1) have t: "tt_type (t ! index) = TT_MASK_3" "tt_type (t ! index) = mask_type 3"
      by (auto simp: level_type_def mask_type_def)
    from 2 mask [OF m3 t(2), of "\<lambda>s. if s > 20 then TT_MASK_3 else if s > 12 then TT_MASK_1 else TT_LEAF"
        "\<lambda>s. True"] t(1)
    show ?thesis
      by (auto simp: trie_step_def mask3_arm_def level_type_def)
  next
    case 3
    with ty(1) have t: "tt_type (t ! index) = TT_MASK_1" "tt_type (t ! index) = mask_type 1"
      by (simp_all add: level_type_def mask_type_def)
    from 3 mask [OF m1 t(2), of "\<lambda>s. if s > 12 then TT_LIST_3 else TT_LEAF" "\<lambda>s. s > 12"] t(1)
    show ?thesis
      by (simp add: trie_step_def mask1_arm_def level_type_def)
  next
    case 4
    with ty(1) have "tt_type (t ! index) = TT_LIST_3"
      by (auto simp: level_type_def)
    with list3_step_misses [OF ok at 4 _ d] show ?thesis
      by (simp add: trie_step_def)
  qed
qed

subsection \<open>Walks and insertions\<close>

lemma descend_less:
  assumes "trie_ok t" "reach t s i" "s > 12" "descend t b s i = Some (s', i')"
  shows "s' < s \<and> reach t s' i'"
proof -
  have "tt_type (t ! i) = level_type s" "level_type s \<noteq> TT_UNSET"
    using assms by (auto simp: trie_ok_def)
  then have "0 < width (tt_type (t ! i))"
    using assms(3) by (auto simp: level_type_def width_def split: if_splits)
  then have "s' < s"
    using assms by (auto simp: descend_def split: option.splits if_splits)
  then show ?thesis
    using reach.step [OF assms(2,4)] by simp
qed

lemma leaf_level:
  assumes "trie_ok t" "reach t s i" "s \<le> 12"
  shows "tt_type (t ! i) = TT_LEAF"
proof -
  have "tt_type (t ! i) = level_type s" "level_type s \<noteq> TT_UNSET"
    using assms by (auto simp: trie_ok_def)
  then show ?thesis
    using assms(3) by (auto simp: level_type_def split: if_splits)
qed

lemma walk_end:
  "trie_ok t \<Longrightarrow> reach t s i \<Longrightarrow> trie_walk n t b s i = Some k \<Longrightarrow>
     k < max_trie \<and> tt_type (t ! k) = TT_LEAF"
proof (induction n t b s i rule: trie_walk.induct)
  case (1 t b s i)
  then show ?case
    using leaf_level reach_unset by (auto split: if_splits)
next
  case (2 n t b s i)
  show ?case
  proof (cases "s > 12")
    case False
    with "2.prems" leaf_level [OF "2.prems"(1,2)] reach_unset [OF "2.prems"(1,2)] show ?thesis
      by simp
  next
    case True
    with "2.prems"(3) obtain s' i' where d: "descend t b s i = Some (s', i')" "trie_walk n t b s' i' = Some k"
      by (auto split: option.splits)
    have "reach t s' i'"
      using descend_less [OF "2.prems"(1,2) True d(1)] by simp
    from "2.IH" [OF True d(1) refl "2.prems"(1) this d(2)] show ?thesis .
  qed
qed

lemma reach_extends: "trie_ok t \<Longrightarrow> extends t t' \<Longrightarrow> reach t s i \<Longrightarrow> reach t' s i"
proof -
  assume a: "trie_ok t" "extends t t'" "reach t s i"
  from a(3) show "reach t' s i"
  proof (induction rule: reach.induct)
    case root
    show ?case by (rule reach.root)
  next
    case (step s i b s' i')
    have "tt_type (t ! i) \<noteq> TT_UNSET" "i < length t"
      using reach_unset [OF a(1) step.hyps(1)] a(1) by (simp_all add: trie_ok_def)
    with a(2) step.hyps(2) have "descend t' b s i = Some (s', i')"
      unfolding extends_def by blast
    with step.IH show ?case by (rule reach.step)
  qed
qed

lemma walk_extends:
  "trie_ok t \<Longrightarrow> extends t t' \<Longrightarrow> reach t s i \<Longrightarrow> trie_walk n t b s i = Some k \<Longrightarrow>
     trie_walk n t' b s i = Some k"
proof (induction n t b s i rule: trie_walk.induct)
  case (1 t b s i)
  then show ?case
    by (simp split: if_splits)
next
  case (2 n t b s i)
  show ?case
  proof (cases "s > 12")
    case False
    with "2.prems" show ?thesis
      by simp
  next
    case True
    with "2.prems"(4) obtain s' i' where d: "descend t b s i = Some (s', i')" "trie_walk n t b s' i' = Some k"
      by (auto split: option.splits)
    have "tt_type (t ! i) \<noteq> TT_UNSET" "i < length t"
      using reach_unset [OF "2.prems"(1,3)] "2.prems"(1) by (simp_all add: trie_ok_def)
    with "2.prems"(2) d(1) have d': "descend t' b s i = Some (s', i')"
      unfolding extends_def by blast
    have "reach t s' i'"
      using descend_less [OF "2.prems"(1,3) True d(1)] by simp
    with "2.IH" [OF True d(1) refl "2.prems"(1,2) _ d(2)] d' True show ?thesis
      by simp
  qed
qed

lemma find_extends:
  assumes "trie_ok t" "extends t t'" "trie_find t b = Some x"
  shows "trie_find t' b = Some x"
proof -
  from assms(3) obtain k where k: "trie_walk 20 t b 32 0 = Some k"
    "x = (leaf_flag (t ! k), leaf_length (t ! k))"
    by (auto simp: trie_find_def split: option.splits if_splits)
  have e: "k < max_trie" "tt_type (t ! k) = TT_LEAF"
    using walk_end [OF assms(1) reach.root k(1)] by auto
  have "k < length t"
    using e assms(1) by (simp add: trie_ok_def)
  then have "tt_type (t' ! k) = TT_LEAF" "leaf_flag (t' ! k) = leaf_flag (t ! k)"
    "leaf_length (t' ! k) = leaf_length (t ! k)"
    using assms(2) e unfolding extends_def by auto
  with walk_extends [OF assms(1,2) reach.root k(1)] k(2) show ?thesis
    by (simp add: trie_find_def)
qed

lemma trie_loop_extends:
  "trie_ok t \<Longrightarrow> reach t s index \<Longrightarrow>
     trie_ok (trie_loop ext s index t) \<and> extends t (trie_loop ext s index t)"
proof (induction ext s index t rule: trie_loop.induct)
  case (1 ext s index t)
  show ?case
  proof (cases "s > 12")
    case False
    with "1.prems" show ?thesis
      by (simp add: trie_loop.simps [of ext s])
  next
    case True
    show ?thesis
    proof (cases "descend t (mx_base ext) s index")
      case (Some x)
      obtain s' i' where x: "x = (s', i')" by (cases x)
      with Some have st: "trie_step ext s index t = Inr (s', i', t)"
        using trie_step_follows [OF "1.prems" True] by simp
      have "reach t s' i'"
        using descend_less [OF "1.prems" True] Some x by simp
      with "1.IH" [OF True st refl refl "1.prems"(1)] st True show ?thesis
        by (simp add: trie_loop.simps [of ext s])
    next
      case None
      note miss = trie_step_misses [OF "1.prems" True None]
      show ?thesis
      proof (cases "trie_step ext s index t")
        case (Inl t')
        with miss "1.prems" True show ?thesis
          by (simp add: trie_loop.simps [of ext s])
      next
        case (Inr r)
        obtain s' i' t' where r: "r = (s', i', t')" by (cases r)
        have st: "trie_step ext s index t = Inr (s', i', t')"
          using Inr r by simp
        have loop: "trie_loop ext s index t = trie_loop ext s' i' t'"
          using st True by (simp add: trie_loop.simps [of ext s])
        from miss Inr r consider (add) "added ext s index t (s', i', t')" | (fail) "gave_up index t (s', i', t')"
          by auto
        then show ?thesis
        proof cases
          case add
          then obtain k where k: "hangs t index k (mx_base ext) s t'" "trie_ok t'" "s' > 12 \<longrightarrow> i' = k"
            "descend t' (mx_base ext) s index = Some (s', k)"
            by (auto simp: added_def)
          have ext1: "extends t t'"
            using k(1) by (simp add: hangs_def)
          have idx: "reach t' s index"
            by (rule reach_extends [OF "1.prems"(1) ext1 "1.prems"(2)])
          show ?thesis
          proof (cases "s' > 12")
            case True
            with k reach.step [OF idx k(4)] have "reach t' s' i'"
              by simp
            from "1.IH" [OF \<open>s > 12\<close> st refl refl k(2) this] loop ext1 show ?thesis
              using extends_trans by auto
          next
            case False
            with loop k ext1 show ?thesis
              by (simp add: trie_loop.simps [of ext s'])
          qed
        next
          case fail
          then show ?thesis
            by (simp add: gave_up_def loop trie_loop.simps [of ext 0])
        qed
      qed
    qed
  qed
qed

lemma walk_step:
  "s > 12 \<Longrightarrow> s \<le> n + 12 \<Longrightarrow> descend t b s i = Some (s', i') \<Longrightarrow>
     trie_walk n t b s i = trie_walk (n - 1) t b s' i'"
  by (cases n) auto

lemma walk_missing: "s > 12 \<Longrightarrow> descend t b s i = None \<Longrightarrow> trie_walk n t b s i = None"
  by (cases n) auto

lemma extends_descend:
  "trie_ok t \<Longrightarrow> extends t t' \<Longrightarrow> reach t s i \<Longrightarrow> descend t b s i = Some x \<Longrightarrow> descend t' b s i = Some x"
  using reach_unset [of t s i] unfolding extends_def trie_ok_def by metis

lemma insert_walk:
  "trie_ok t \<Longrightarrow> reach t s index \<Longrightarrow> s \<le> n + 12 \<Longrightarrow> trie_walk n t (mx_base ext) s index = None \<Longrightarrow>
     \<not> trie_exhausted (trie_loop ext s index t) \<Longrightarrow>
     (\<exists>k. trie_walk n (trie_loop ext s index t) (mx_base ext) s index = Some k
        \<and> leaf_flag (trie_loop ext s index t ! k) = mx_flags ext
        \<and> leaf_length (trie_loop ext s index t ! k) = mx_length ext)"
proof (induction ext s index t arbitrary: n rule: trie_loop.induct)
  case (1 ext s index t)
  let ?b = "mx_base ext"
  have s: "s > 12"
    using "1.prems"(4) by (cases n) (auto split: if_splits)
  show ?case
  proof (cases "descend t ?b s index")
    case (Some x)
    obtain s' i' where x: "x = (s', i')" by (cases x)
    with Some have d: "descend t ?b s index = Some (s', i')" by simp
    have st: "trie_step ext s index t = Inr (s', i', t)"
      using trie_step_follows [OF "1.prems"(1,2) s d] .
    have r: "s' < s" "reach t s' i'"
      using descend_less [OF "1.prems"(1,2) s d] by auto
    have loop: "trie_loop ext s index t = trie_loop ext s' i' t"
      using st s by (simp add: trie_loop.simps [of ext s])
    let ?t = "trie_loop ext s' i' t"
    have "descend ?t ?b s index = Some (s', i')"
      using extends_descend [OF "1.prems"(1) _ "1.prems"(2) d] trie_loop_extends [OF "1.prems"(1) r(2)]
      by blast
    note w = walk_step [OF s "1.prems"(3) d] walk_step [OF s "1.prems"(3) this]
    have n': "s' \<le> (n - 1) + 12"
      using r(1) "1.prems"(3) s by linarith
    have none: "trie_walk (n - 1) t ?b s' i' = None"
      using "1.prems"(4) w(1) by simp
    have full: "\<not> trie_exhausted ?t"
      using "1.prems"(5) loop by simp
    show ?thesis
      using "1.IH" [OF s st refl refl "1.prems"(1) r(2) n' none full] w(2) loop by simp
  next
    case None
    note miss = trie_step_misses [OF "1.prems"(1,2) s None]
    show ?thesis
    proof (cases "trie_step ext s index t")
      case (Inl t')
      have "index < length t"
        using "1.prems"(1,2) by (simp add: trie_ok_def)
      then have "trie_exhausted t"
        using Inl miss by (auto simp: trie_exhausted_def)
      moreover have "trie_loop ext s index t = t"
        using Inl miss s by (simp add: trie_loop.simps [of ext s])
      ultimately show ?thesis
        using "1.prems"(5) by simp
    next
      case (Inr r)
      obtain s' i' t' where r: "r = (s', i', t')" by (cases r)
      have st: "trie_step ext s index t = Inr (s', i', t')"
        using Inr r by simp
      have loop: "trie_loop ext s index t = trie_loop ext s' i' t'"
        using st s by (simp add: trie_loop.simps [of ext s])
      from miss Inr r consider (add) "added ext s index t (s', i', t')" | (fail) "gave_up index t (s', i', t')"
        by auto
      then show ?thesis
      proof cases
        case add
        then obtain k where k: "s' < s" "hangs t index k ?b s t'" "trie_ok t'" "s' > 12 \<longrightarrow> i' = k"
          "descend t' ?b s index = Some (s', k)"
          "s' \<le> 12 \<longrightarrow> leaf_flag (t' ! k) = mx_flags ext \<and> leaf_length (t' ! k) = mx_length ext"
          by (auto simp: added_def)
        have idx: "reach t' s index"
          using k(2) by (intro reach_extends [OF "1.prems"(1) _ "1.prems"(2)]) (simp add: hangs_def)
        have rk: "reach t' s' k"
          by (rule reach.step [OF idx k(5)])
        show ?thesis
        proof (cases "s' > 12")
          case True
          with k have i': "i' = k" by simp
          let ?t = "trie_loop ext s' k t'"
          have "descend ?t ?b s index = Some (s', k)"
            using extends_descend [OF k(3) _ idx k(5)] trie_loop_extends [OF k(3) rk] by blast
          note w = walk_step [OF s "1.prems"(3) this]
          have n': "s' \<le> (n - 1) + 12"
            using k(1) "1.prems"(3) s by linarith
          have none: "trie_walk (n - 1) t' ?b s' k = None"
            using k(2) True by (intro walk_missing) (simp_all add: hangs_def)
          have full: "\<not> trie_exhausted ?t"
            using "1.prems"(5) loop i' by simp
          show ?thesis
            using "1.IH" [OF s st refl refl k(3) rk [folded i'] n' none [folded i'] full [folded i']] w loop i'
            by simp
        next
          case False
          then have t': "trie_loop ext s index t = t'"
            by (simp add: loop trie_loop.simps [of ext s'])
          have "trie_walk n t' ?b s index = trie_walk (n - 1) t' ?b s' k"
            by (rule walk_step [OF s "1.prems"(3) k(5)])
          also have "\<dots> = Some k"
            using False by (cases "n - 1") simp_all
          finally show ?thesis
            using k(6) False t' by simp
        qed
      next
        case fail
        then have "trie_exhausted t'" "s' = 0"
          by (simp_all add: gave_up_def trie_exhausted_def)
        then show ?thesis
          using "1.prems"(5) loop by (simp add: trie_loop.simps [of ext 0])
      qed
    qed
  qed
qed

lemma trie_empty_ok: "trie_ok trie_empty"
proof -
  have none: "descend trie_empty b s i = None" if "i < max_trie" for b s i
    using that by (intro descend_fresh) (cases i; simp add: trie_empty_def trie_init_def max_trie_def)
  have only: "reach trie_empty s i \<Longrightarrow> s = 32 \<and> i = 0" for s i
  proof (induction rule: reach.induct)
    case root
    show ?case by simp
  next
    case (step s i b s' i')
    then show ?case
      using none [of 0 b 32] by (simp add: max_trie_def)
  qed
  have t0: "trie_empty ! 0 = trie_init TT_MASK_2" "length trie_empty = max_trie"
    "\<forall>c \<in> set trie_empty. length (tt_ref c) = 8"
    by (auto simp: trie_empty_def trie_init_def max_trie_def)
  show ?thesis
    unfolding trie_ok_def using t0
    by (auto simp: max_trie_def level_type_def trie_init_def dest!: only)
qed

section \<open>Properties of the trie\<close>

definition ext_a :: extent where
  "ext_a = \<lparr>mx_flags = MX_FREE, mx_base = 0x100000, mx_length = 7\<rparr>"

definition ext_b :: extent where
  "ext_b = \<lparr>mx_flags = MX_ALLOC, mx_base = 0x100000, mx_length = 2\<rparr>"

lemma find_ext_a: "trie_find (set_trie_extent ext_a trie_empty) 0x100000 = Some (MX_FREE, 7)"
  by code_simp

text \<open>C13 An insertion into the trie always ends and keeps it well-formed, and every address that had a
  leaf keeps exactly that leaf, whatever extent is inserted. In particular inserting an extent
  at a base that is already there does not update its class or its length: the trie goes stale
  when \<^verbatim>\<open>set_extent\<close> reclassifies memory.\<close>

theorem trie_keeps_leaves:
  assumes "trie_ok t"
  shows "trie_ok (set_trie_extent ext t)
    \<and> (case trie_find t b of Some x \<Rightarrow> trie_find (set_trie_extent ext t) b = Some x | None \<Rightarrow> True)"
  using trie_loop_extends [OF assms reach.root, of ext] find_extends [OF assms, of "set_trie_extent ext t" b]
  by (auto simp: set_trie_extent_def split: option.splits)

lemma trie_keeps_leaves_witness:
  "trie_find (set_trie_extent ext_b (set_trie_extent ext_a trie_empty)) 0x100000 = Some (MX_FREE, 7)"
proof -
  have "trie_ok (set_trie_extent ext_a trie_empty)"
    using trie_loop_extends [OF trie_empty_ok reach.root] by (simp add: set_trie_extent_def)
  from trie_keeps_leaves [OF this, of ext_b "0x100000"] show ?thesis
    by (simp add: find_ext_a)
qed

text \<open>C14 An extent at a base the trie does not know yet is found with its class and length after the
  insertion, unless the table of 128 words or one of its eight-entry list words is full.\<close>

theorem trie_insert_found:
  assumes "trie_ok t" "trie_find t (mx_base ext) = None" "\<not> trie_exhausted (set_trie_extent ext t)"
  shows "trie_find (set_trie_extent ext t) (mx_base ext) = Some (mx_flags ext, mx_length ext)"
proof -
  have "trie_walk 20 t (mx_base ext) 32 0 = None"
    using assms(2) walk_end [OF assms(1) reach.root, of 20 "mx_base ext"]
    by (auto simp: trie_find_def split: option.splits)
  from insert_walk [OF assms(1) reach.root _ this] assms(3)
  obtain k where k: "trie_walk 20 (set_trie_extent ext t) (mx_base ext) 32 0 = Some k"
    "leaf_flag (set_trie_extent ext t ! k) = mx_flags ext"
    "leaf_length (set_trie_extent ext t ! k) = mx_length ext"
    by (auto simp: set_trie_extent_def)
  have "trie_ok (set_trie_extent ext t)"
    using trie_loop_extends [OF assms(1) reach.root, of ext] by (simp add: set_trie_extent_def)
  from walk_end [OF this reach.root k(1)] k show ?thesis
    by (simp add: trie_find_def)
qed

lemma trie_insert_found_witness:
  "trie_find (set_trie_extent ext_a trie_empty) (mx_base ext_a) = Some (mx_flags ext_a, mx_length ext_a)"
proof (rule trie_insert_found)
  show "trie_ok trie_empty"
    by (rule trie_empty_ok)
  show "trie_find trie_empty (mx_base ext_a) = None"
    by code_simp
  have "free_trie (set_trie_extent ext_a trie_empty) \<noteq> None
      \<and> list_all (\<lambda>c. tt_type c \<noteq> TT_LIST_3 \<or> (\<exists>j \<in> {0..<8}. tt_ref c ! j = 0)) (set_trie_extent ext_a trie_empty)"
    by code_simp
  then show "\<not> trie_exhausted (set_trie_extent ext_a trie_empty)"
    by (fastforce simp: trie_exhausted_def list_full_def list_all_iff)
qed


end
