(* ===== verification/Source.thy ===== *)
theory Source
  imports Prelude
begin

text \<open>
  The interface of an allocator of numbered resources in runs, as the rest of the kernel uses the
  page allocators: a request for \<open>n\<close> consecutive pages yields the first one. The law is that a run
  was available and is not any more, and that nothing else changes; the client lemma is that no
  two requests ever share a page.
\<close>

fun take_all :: "(nat \<Rightarrow> 's \<Rightarrow> (nat \<times> 's) option) \<Rightarrow> nat list \<Rightarrow> 's \<Rightarrow> (nat \<times> nat) list" where
  "take_all get [] s = []"
| "take_all get (n # ns) s =
     (case get n s of
        None \<Rightarrow> take_all get ns s
      | Some (p, s') \<Rightarrow> (p, n) # take_all get ns s')"

definition apart :: "nat \<times> nat \<Rightarrow> nat \<times> nat \<Rightarrow> bool" where
  "apart r q \<longleftrightarrow> {fst r ..< fst r + snd r} \<inter> {fst q ..< fst q + snd q} = {}"

locale page_source =
  fixes get :: "nat \<Rightarrow> 's \<Rightarrow> (nat \<times> 's) option"
    and avail :: "'s \<Rightarrow> nat \<Rightarrow> bool"
    and invar :: "'s \<Rightarrow> bool"
  assumes take_invar: "invar s \<Longrightarrow> get n s = Some (p, s') \<Longrightarrow> invar s'"
    and take_avail: "invar s \<Longrightarrow> get n s = Some (p, s') \<Longrightarrow> p \<le> i \<Longrightarrow> i < p + n \<Longrightarrow> avail s i"
    and take_used: "invar s \<Longrightarrow> get n s = Some (p, s') \<Longrightarrow>
      avail s' i \<longleftrightarrow> avail s i \<and> \<not> (p \<le> i \<and> i < p + n)"
begin

lemma runs_available:
  "invar s \<Longrightarrow> r \<in> set (take_all get ns s) \<Longrightarrow> fst r \<le> i \<Longrightarrow> i < fst r + snd r \<Longrightarrow> avail s i"
proof (induction ns arbitrary: s)
  case Nil
  then show ?case by simp
next
  case (Cons n ns)
  show ?case
  proof (cases "get n s")
    case None
    with Cons show ?thesis by simp
  next
    case (Some x)
    obtain p s' where x: "x = (p, s')" by (cases x)
    note t = Some [unfolded x]
    from Cons.prems t have "r = (p, n) \<or> r \<in> set (take_all get ns s')"
      by simp
    then show ?thesis
    proof
      assume "r = (p, n)"
      with Cons.prems take_avail [OF Cons.prems(1) t] show ?thesis by simp
    next
      assume "r \<in> set (take_all get ns s')"
      with Cons.IH [OF take_invar [OF Cons.prems(1) t]] Cons.prems have "avail s' i"
        by simp
      then show ?thesis
        using take_used [OF Cons.prems(1) t, of i] by simp
    qed
  qed
qed

lemma runs_apart: "invar s \<Longrightarrow> sorted_wrt apart (take_all get ns s)"
proof (induction ns arbitrary: s)
  case Nil
  then show ?case by simp
next
  case (Cons n ns)
  show ?case
  proof (cases "get n s")
    case None
    with Cons show ?thesis by simp
  next
    case (Some x)
    obtain p s' where x: "x = (p, s')" by (cases x)
    note t = Some [unfolded x]
    have inv': "invar s'"
      by (rule take_invar [OF Cons.prems t])
    have "apart (p, n) r" if r: "r \<in> set (take_all get ns s')" for r
    proof -
      have False if "p \<le> i" "i < p + n" "fst r \<le> i" "i < fst r + snd r" for i
        using runs_available [OF inv' r that(3,4)] take_used [OF Cons.prems t, of i] that by simp
      then show ?thesis
        unfolding apart_def disjoint_iff fst_conv snd_conv atLeastLessThan_iff by blast
    qed
    with t Cons.IH [OF inv'] show ?thesis
      by simp
  qed
qed

end

end
