(* ===== verification/Extents.thy ===== *)
theory Extents
  imports Trie Source "HOL-Library.Monad_Syntax"
begin

text \<open>
  The page allocator of \<^verbatim>\<open>memory.cpp\<close> (\<^verbatim>\<open>class PageAllocator\<close>): a table of 127 extents and the trie
  beside it. An allocator points to its first, last and active table; tables are kept in a
  store indexed by their address. A loop over the tables is a partial function: \<open>None\<close> stands for
  a scan that does not end or that reads behind the extents of a table.
\<close>

record ext_table =
  tbl_next :: nat
  ifree :: u32
  slots :: "extent list"
  trie :: "trie_control list"

record allocator =
  pa_begin :: nat
  pa_end :: nat
  pa_active :: nat
  tables :: "nat \<Rightarrow> ext_table"

definition unset_extent :: extent where
  "unset_extent = \<lparr>mx_flags = MX_UNSET, mx_base = NOT 0, mx_length = NOT 0\<rparr>"

text \<open>
  \<^verbatim>\<open>ExtentTable::init\<close>. Its two loops run one past the end: the extra extent lies over the first
  trie word, which is initialised last, and the extra trie word over the unused rest of the page.
\<close>

definition table_init :: "nat \<Rightarrow> ext_table \<Rightarrow> ext_table" where
  "table_init e t =
     (let t = t\<lparr>tbl_next := e, ifree := 0, slots := replicate max_ext unset_extent\<rparr>;
          t = t\<lparr>trie := map (\<lambda>c. c\<lparr>tt_type := TT_UNSET\<rparr>) (trie t)\<rparr>
      in t\<lparr>trie := (trie t)[0 := trie_init TT_MASK_2]\<rparr>)"

definition set_table :: "nat \<Rightarrow> ext_table \<Rightarrow> allocator \<Rightarrow> allocator" where
  "set_table a t pa = pa\<lparr>tables := (tables pa)(a := t)\<rparr>"

definition pa_init :: "nat \<Rightarrow> allocator \<Rightarrow> allocator" where
  "pa_init a pa =
     (let pa = pa\<lparr>pa_active := a, pa_begin := a, pa_end := a\<rparr>
      in set_table a (table_init a (tables pa a)) pa)"

section \<open>The iterator over the extents of all tables\<close>

record ext_iter =
  it_start :: nat
  it_cur :: nat
  it_index :: nat

definition iter_begin :: "nat \<Rightarrow> ext_iter" where
  "iter_begin a = \<lparr>it_start = a, it_cur = a, it_index = 0\<rparr>"

definition next_table :: "allocator \<Rightarrow> ext_iter \<Rightarrow> nat" where
  "next_table pa it = (if it_cur it = pa_end pa then pa_begin pa else tbl_next (tables pa (it_cur it)))"

definition has_next :: "allocator \<Rightarrow> ext_iter \<Rightarrow> bool" where
  "has_next pa it = (if it_index it < max_ext then True else next_table pa it \<noteq> it_start it)"

definition iter_inc :: "allocator \<Rightarrow> ext_iter \<Rightarrow> ext_iter" where
  "iter_inc pa it =
     (if it_index it < max_ext then it\<lparr>it_index := it_index it + 1\<rparr>
      else it\<lparr>it_cur := next_table pa it\<rparr>)"

definition iter_deref :: "allocator \<Rightarrow> ext_iter \<Rightarrow> extent option" where
  "iter_deref pa it =
     (if it_index it < length (slots (tables pa (it_cur it)))
      then Some (slots (tables pa (it_cur it)) ! it_index it) else None)"

text \<open>
  The loop all the searches share: the iterator at the first extent that satisfies \<open>P\<close>, or
  \<open>Some None\<close> at the end.
\<close>

partial_function (option) scan ::
  "(extent \<Rightarrow> bool) \<Rightarrow> allocator \<Rightarrow> ext_iter \<Rightarrow> ext_iter option option" where
  "scan P pa it =
     (if has_next pa it then
        do { p \<leftarrow> iter_deref pa it;
             if P p then Some (Some it) else scan P pa (iter_inc pa it) }
      else Some None)"

text \<open>A pointer to an extent: its table and its index. \<open>None\<close> is the null pointer.\<close>

type_synonym ext_ptr = "nat \<times> nat"

definition ptr_of :: "ext_iter option \<Rightarrow> ext_ptr option" where
  "ptr_of = map_option (\<lambda>it. (it_cur it, it_index it))"

definition ext_at :: "allocator \<Rightarrow> ext_ptr \<Rightarrow> extent" where
  "ext_at pa p = slots (tables pa (fst p)) ! snd p"

definition put_ext :: "ext_ptr \<Rightarrow> extent \<Rightarrow> allocator \<Rightarrow> allocator" where
  "put_ext p e pa =
     (let t = tables pa (fst p) in set_table (fst p) (t\<lparr>slots := (slots t)[snd p := e]\<rparr>) pa)"

definition free_ptr :: "allocator \<Rightarrow> ext_ptr" where
  "free_ptr pa = (pa_active pa, unat (ifree (tables pa (pa_active pa))))"

section \<open>The operations\<close>

definition next_empty_extent :: "allocator \<Rightarrow> ext_ptr option option" where
  "next_empty_extent pa =
     do { r \<leftarrow> scan (\<lambda>p. mx_flags p = MX_LAST \<or> mx_flags p = MX_UNSET) pa (iter_begin (pa_active pa));
          case ptr_of r of
            None \<Rightarrow> Some None
          | Some p \<Rightarrow> Some (if mx_flags (ext_at pa p) = MX_LAST then None else Some p) }"

definition add_extent :: "u64 \<Rightarrow> u32 \<Rightarrow> memextent \<Rightarrow> allocator \<Rightarrow> allocator option" where
  "add_extent b l f pa =
     (let pfree = free_ptr pa; fe = ext_at pa pfree
      in if l = 0 \<or> f = MX_UNSET \<or> f = MX_LAST then Some pa
         else if f = MX_FREE \<and> mx_flags fe = MX_FREE \<and> ext_end fe = b then
           Some (put_ext pfree (fe\<lparr>mx_length := mx_length fe + l\<rparr>) pa)
         else
           do { plast \<leftarrow> next_empty_extent pa;
                case plast of
                  Some p \<Rightarrow>
                    if mx_flags (ext_at pa p) = MX_UNSET
                    then Some (put_ext p \<lparr>mx_flags = f, mx_base = b, mx_length = l\<rparr> pa) else Some pa
                | None \<Rightarrow> Some pa })"

definition find_type_extent :: "u32 \<Rightarrow> memextent \<Rightarrow> allocator \<Rightarrow> ext_ptr option option" where
  "find_type_extent l f pa =
     do { r \<leftarrow> scan (\<lambda>p. mx_flags p = f \<and> mx_length p \<ge> l) pa (iter_begin (pa_active pa));
          Some (ptr_of r) }"

definition find_free_extent :: "u32 \<Rightarrow> allocator \<Rightarrow> allocator option" where
  "find_free_extent l pa =
     do { r \<leftarrow> scan (\<lambda>p. mx_flags p = MX_FREE \<and> mx_length p \<ge> l) pa (iter_begin (pa_active pa));
          case r of
            None \<Rightarrow> Some pa
          | Some it \<Rightarrow>
              (let t = tables pa (it_cur it);
                   pa = set_table (it_cur it) (t\<lparr>ifree := of_nat (it_index it)\<rparr>) pa
               in Some (pa\<lparr>pa_active := it_cur it\<rparr>)) }"

definition intersect_extent :: "u64 \<Rightarrow> u32 \<Rightarrow> allocator \<Rightarrow> ext_ptr option option" where
  "intersect_extent b l pa =
     (let e = b + ucast (l * PAGE_SIZE)
      in do { r \<leftarrow> scan (\<lambda>p. mx_flags p \<noteq> MX_UNSET \<and> b \<ge> mx_base p \<and> e \<le> ext_end p) pa
                (iter_begin (pa_active pa));
              Some (ptr_of r) })"

text \<open>The cases of \<^verbatim>\<open>set_extent\<close> after the trie update.\<close>

definition set_head :: "ext_ptr \<Rightarrow> u64 \<Rightarrow> u32 \<Rightarrow> memextent \<Rightarrow> allocator \<Rightarrow> allocator option" where
  "set_head p b l f pa =
     (let pe = ext_at pa p
      in if mx_length pe > l then
           add_extent b l f (put_ext p (pe\<lparr>mx_length := mx_length pe - l,
             mx_base := mx_base pe + ucast (l * PAGE_SIZE)\<rparr>) pa)
         else Some (put_ext p (pe\<lparr>mx_length := l, mx_flags := f\<rparr>) pa))"

definition set_join :: "ext_ptr \<Rightarrow> ext_ptr \<Rightarrow> u32 \<Rightarrow> allocator \<Rightarrow> allocator" where
  "set_join q p l pa =
     (let qe = ext_at pa q;
          pa = put_ext q (qe\<lparr>mx_length := mx_length qe + l\<rparr>) pa;
          pe = ext_at pa p
      in if mx_length pe > l then
           put_ext p (pe\<lparr>mx_length := mx_length pe - l,
             mx_base := mx_base pe + ucast (l * PAGE_SIZE)\<rparr>) pa
         else put_ext p (pe\<lparr>mx_flags := MX_UNSET\<rparr>) pa)"

definition set_at_start :: "ext_ptr \<Rightarrow> u64 \<Rightarrow> u32 \<Rightarrow> memextent \<Rightarrow> allocator \<Rightarrow> allocator option" where
  "set_at_start p b l f pa =
     do { prev \<leftarrow> if b \<ge> ucast PAGE_SIZE then intersect_extent (b - ucast PAGE_SIZE) 1 pa else Some None;
          case prev of
            Some q \<Rightarrow>
              if ext_end (ext_at pa q) = b \<and> mx_flags (ext_at pa q) = f
              then Some (set_join q p l pa) else set_head p b l f pa
          | None \<Rightarrow> set_head p b l f pa }"

definition set_middle :: "ext_ptr \<Rightarrow> u64 \<Rightarrow> u32 \<Rightarrow> memextent \<Rightarrow> allocator \<Rightarrow> allocator option" where
  "set_middle p b l f pa =
     (let adru = ucast (l * PAGE_SIZE) :: u64;
          adrm = (b - mx_base (ext_at pa p)) div ucast PAGE_SIZE
      in do { pa \<leftarrow> add_extent b l f pa;
              let pe = ext_at pa p;
              pa \<leftarrow> add_extent (b + adru) (ucast (ucast (mx_length pe) - (ucast l + adrm))) (mx_flags pe) pa;
              Some (put_ext p ((ext_at pa p)\<lparr>mx_length := ucast adrm\<rparr>) pa) })"

definition set_trie :: "extent \<Rightarrow> allocator \<Rightarrow> allocator" where
  "set_trie e pa =
     (let t = tables pa (pa_begin pa)
      in set_table (pa_begin pa) (t\<lparr>trie := set_trie_extent e (trie t)\<rparr>) pa)"

definition set_extent :: "u64 \<Rightarrow> u32 \<Rightarrow> memextent \<Rightarrow> allocator \<Rightarrow> allocator option" where
  "set_extent b l f pa =
     do { let pa = set_trie \<lparr>mx_flags = f, mx_base = b, mx_length = l\<rparr> pa;
          r \<leftarrow> intersect_extent b l pa;
          pa \<leftarrow> (case r of
              Some p \<Rightarrow> if b = mx_base (ext_at pa p) then set_at_start p b l f pa else set_middle p b l f pa
            | None \<Rightarrow> add_extent b l f pa);
          if mx_flags (ext_at pa (free_ptr pa)) \<noteq> MX_FREE then find_free_extent 0 pa else Some pa }"

text \<open>
  \<^verbatim>\<open>allocate_res\<close> takes pages from a reserve. \<open>allocate_free\<close> is \<^verbatim>\<open>allocate\<close> up to the point where it
  asks for more memory: \<open>Inl\<close> is its return, \<open>Inr\<close> the state in which it calls \<^verbatim>\<open>aquire\<close>. The
  address \<open>0\<close> reports a failure.
\<close>

definition allocate_res :: "u32 \<Rightarrow> memextent \<Rightarrow> allocator \<Rightarrow> (u64 \<times> allocator) option" where
  "allocate_res l f pa =
     (if pa_active pa = 0 then Some (0, pa)
      else do { te \<leftarrow> find_type_extent l MX_PRE pa;
                case te of
                  Some p \<Rightarrow>
                    if mx_length (ext_at pa p) \<ge> l
                    then do { let mm = mx_base (ext_at pa p);
                              pa \<leftarrow> set_extent mm l f pa;
                              Some (mm, pa) }
                    else Some (0, pa)
                | None \<Rightarrow> Some (0, pa) })"

definition take_free :: "u32 \<Rightarrow> memextent \<Rightarrow> allocator \<Rightarrow> (u64 \<times> allocator) option" where
  "take_free l f pa =
     do { let mm = mx_base (ext_at pa (free_ptr pa));
          pa \<leftarrow> set_extent mm l f pa;
          Some (mm, pa) }"

definition allocate_free :: "u32 \<Rightarrow> memextent \<Rightarrow> allocator \<Rightarrow> ((u64 \<times> allocator) + allocator) option" where
  "allocate_free l f pa =
     (if pa_active pa = 0 then Some (Inl (0, pa))
      else
        do { pa \<leftarrow> if mx_flags (ext_at pa (free_ptr pa)) \<noteq> MX_FREE then find_free_extent l pa else Some pa;
             let pfree = ext_at pa (free_ptr pa);
             if mx_flags pfree \<noteq> MX_FREE then Some (Inl (0, pa))
             else if mx_length pfree \<ge> l then map_option Inl (take_free l f pa)
             else
               do { pa \<leftarrow> find_free_extent l pa;
                    let pfree = ext_at pa (free_ptr pa);
                    if mx_length pfree \<ge> l \<and> mx_flags pfree = MX_FREE then map_option Inl (take_free l f pa)
                    else map_option Inr (find_free_extent 0 pa) } })"

text \<open>\<^verbatim>\<open>add_control\<close> appends tables of \<open>stride\<close> bytes each behind the last one.\<close>

partial_function (option) last_table :: "allocator \<Rightarrow> nat \<Rightarrow> nat option" where
  "last_table pa t =
     (if tbl_next (tables pa t) \<noteq> pa_end pa then last_table pa (tbl_next (tables pa t)) else Some t)"

fun append_tables :: "nat \<Rightarrow> nat \<Rightarrow> nat \<Rightarrow> nat \<Rightarrow> allocator \<Rightarrow> allocator" where
  "append_tables 0 a i t pa = pa"
| "append_tables (Suc n) a i t pa =
     (let next = a + i * 4088;
          pa = set_table t ((tables pa t)\<lparr>tbl_next := next\<rparr>) pa;
          pa = set_table next (table_init (pa_end pa) (tables pa next)) pa
      in append_tables n a (Suc i) next pa)"

definition add_control :: "nat \<Rightarrow> u32 \<Rightarrow> allocator \<Rightarrow> allocator option" where
  "add_control cba cbl pa =
     do { t \<leftarrow> last_table pa (pa_active pa);
          Some (append_tables (unat cbl) cba 0 t pa) }"

definition BLOCKSIZE :: u32 where
  "BLOCKSIZE = PAGE_SIZE div 2"

text \<open>The byte length that \<^verbatim>\<open>aquire\<close> asks for; its minimum is computed in integers.\<close>

definition aquire_length :: "u32 \<Rightarrow> u32" where
  "aquire_length l = (if l < 16 * (BLOCKSIZE div PAGE_SIZE) then 16 * (BLOCKSIZE div PAGE_SIZE) else l)"

section \<open>One table\<close>

text \<open>
  After \<^verbatim>\<open>init\<close> the first, last and active table are the same one, and no operation changes that:
  \<^verbatim>\<open>add_control\<close> links new tables behind it, but \<^verbatim>\<open>end\<close> keeps pointing to the first table, so the
  iterator never leaves it.
\<close>

definition one_table :: "allocator \<Rightarrow> bool" where
  "one_table pa \<longleftrightarrow> pa_begin pa = pa_active pa \<and> pa_end pa = pa_active pa
     \<and> length (slots (tables pa (pa_active pa))) = max_ext"

definition ext_list :: "allocator \<Rightarrow> extent list" where
  "ext_list pa = slots (tables pa (pa_active pa))"

definition ifree_of :: "allocator \<Rightarrow> nat" where
  "ifree_of pa = unat (ifree (tables pa (pa_active pa)))"

lemma iter_simps:
  assumes "one_table pa" "i \<le> max_ext"
  defines "it \<equiv> \<lparr>it_start = pa_active pa, it_cur = pa_active pa, it_index = i\<rparr>"
  shows "has_next pa it \<longleftrightarrow> i < max_ext"
    and "i < max_ext \<Longrightarrow> iter_deref pa it = Some (ext_list pa ! i)"
    and "i < max_ext \<Longrightarrow> iter_inc pa it = \<lparr>it_start = pa_active pa, it_cur = pa_active pa, it_index = Suc i\<rparr>"
  using assms(1) unfolding it_def
  by (simp_all add: has_next_def iter_deref_def iter_inc_def next_table_def one_table_def ext_list_def)

lemma scan_from:
  assumes one: "one_table pa"
  shows "i \<le> max_ext \<Longrightarrow>
    scan P pa \<lparr>it_start = pa_active pa, it_cur = pa_active pa, it_index = i\<rparr> =
      Some (map_option (\<lambda>j. \<lparr>it_start = pa_active pa, it_cur = pa_active pa, it_index = i + j\<rparr>)
        (first_index P (drop i (ext_list pa))))"
proof (induction "max_ext - i" arbitrary: i)
  case 0
  then have "i = max_ext" by simp
  then show ?case
    using one iter_simps(1) [OF one, of i]
    by (subst scan.simps) (simp add: one_table_def ext_list_def)
next
  case (Suc n)
  then have i: "i < max_ext" "n = max_ext - Suc i" "Suc i \<le> max_ext"
    by simp_all
  have "drop i (ext_list pa) = ext_list pa ! i # drop (Suc i) (ext_list pa)"
    using i one by (intro Cons_nth_drop_Suc [symmetric]) (simp add: one_table_def ext_list_def)
  then show ?case
    using Suc.hyps(1) [OF i(2,3)] i iter_simps [OF one Suc.prems]
    by (subst scan.simps) (simp add: option.map_comp comp_def)
qed

lemma scan_one:
  "one_table pa \<Longrightarrow> scan P pa (iter_begin (pa_active pa)) =
     Some (map_option (\<lambda>j. \<lparr>it_start = pa_active pa, it_cur = pa_active pa, it_index = j\<rparr>)
       (first_index P (ext_list pa)))"
  using scan_from [of pa 0 P] by (simp add: iter_begin_def)

lemma ptr_of_map [simp]:
  "ptr_of (map_option (\<lambda>j. \<lparr>it_start = a, it_cur = a, it_index = j\<rparr>) r) = map_option (\<lambda>j. (a, j)) r"
  by (cases r) (simp_all add: ptr_of_def)

lemma ext_at_active [simp]: "pa_active pa = a \<Longrightarrow> ext_at pa (a, i) = ext_list pa ! i"
  by (simp add: ext_at_def ext_list_def)

lemma put_ext_simps [simp]:
  "pa_active pa = a \<Longrightarrow> ext_list (put_ext (a, i) e pa) = (ext_list pa)[i := e]"
  "pa_active (put_ext p e pa) = pa_active pa"
  "ifree_of (put_ext p e pa) = ifree_of pa"
  by (auto simp: put_ext_def set_table_def ext_list_def ifree_of_def Let_def)

lemma put_ext_one [simp]: "pa_active pa = a \<Longrightarrow> one_table (put_ext (a, i) e pa) = one_table pa"
  by (auto simp add: put_ext_def set_table_def one_table_def Let_def)

lemma set_trie_simps [simp]:
  "ext_list (set_trie e pa) = ext_list pa" "pa_active (set_trie e pa) = pa_active pa"
  "one_table (set_trie e pa) = one_table pa" "ifree_of (set_trie e pa) = ifree_of pa"
  by (auto simp: set_trie_def set_table_def ext_list_def one_table_def ifree_of_def Let_def)

lemma free_ptr_alt: "free_ptr pa = (pa_active pa, ifree_of pa)"
  by (simp add: free_ptr_def ifree_of_def)

lemma one_length: "one_table pa \<Longrightarrow> length (ext_list pa) = max_ext"
  by (simp add: one_table_def ext_list_def)

section \<open>Pages\<close>

definition page_of :: "u64 \<Rightarrow> nat" where
  "page_of b = unat b div 4096"

text \<open>An extent below 4 GiB, where the 32-bit products of the code are exact.\<close>

definition ext_ok :: "extent \<Rightarrow> bool" where
  "ext_ok e \<longleftrightarrow> mx_flags e \<noteq> MX_LAST \<and> (mx_flags e \<noteq> MX_UNSET \<longrightarrow>
     4096 dvd unat (mx_base e) \<and> 4096 \<le> unat (mx_base e) \<and> 0 < unat (mx_length e)
     \<and> unat (mx_base e) + 4096 * unat (mx_length e) \<le> 2 ^ 32)"

definition covers :: "extent \<Rightarrow> nat \<Rightarrow> bool" where
  "covers e n \<longleftrightarrow> mx_flags e \<noteq> MX_UNSET \<and> page_of (mx_base e) \<le> n
     \<and> n < page_of (mx_base e) + unat (mx_length e)"

definition ext_inv :: "extent list \<Rightarrow> bool" where
  "ext_inv xs \<longleftrightarrow> length xs = max_ext \<and> (\<forall>i < max_ext. ext_ok (xs ! i))
     \<and> (\<forall>i < max_ext. \<forall>j < max_ext. \<forall>n. covers (xs ! i) n \<longrightarrow> covers (xs ! j) n \<longrightarrow> i = j)"

text \<open>The class of a page, as the table records it.\<close>

definition class_of :: "extent list \<Rightarrow> nat \<Rightarrow> memextent option" where
  "class_of xs n = map_option (\<lambda>i. mx_flags (xs ! i)) (first_index (\<lambda>e. covers e n) xs)"

lemma class_of_covered:
  assumes "ext_inv xs" "i < max_ext" "covers (xs ! i) n"
  shows "class_of xs n = Some (mx_flags (xs ! i))"
proof -
  have "first_index (\<lambda>e. covers e n) xs = Some i"
    using assms by (intro first_index_unique) (auto simp: ext_inv_def)
  then show ?thesis
    by (simp add: class_of_def)
qed

lemma class_of_uncovered:
  assumes "length xs = max_ext" "\<And>i. i < max_ext \<Longrightarrow> \<not> covers (xs ! i) n"
  shows "class_of xs n = None"
  using assms by (auto simp: class_of_def first_index_None in_set_conv_nth)

text \<open>Replacing one slot by an extent that meets no other slot.\<close>

definition fits :: "extent list \<Rightarrow> nat \<Rightarrow> extent \<Rightarrow> bool" where
  "fits xs i e \<longleftrightarrow> ext_ok e \<and> (\<forall>j < max_ext. \<forall>n. j \<noteq> i \<longrightarrow> covers e n \<longrightarrow> \<not> covers (xs ! j) n)"

lemma ext_inv_update:
  assumes "ext_inv xs" "i < max_ext" "fits xs i e"
  shows "ext_inv (xs[i := e])"
proof -
  have len: "length xs = max_ext"
    using assms(1) by (simp add: ext_inv_def)
  have "ext_ok (xs[i := e] ! j)" if "j < max_ext" for j
    using that assms len by (cases "j = i") (simp_all add: ext_inv_def fits_def)
  moreover have "j = k" if "j < max_ext" "k < max_ext" "covers (xs[i := e] ! j) n" "covers (xs[i := e] ! k) n"
    for j k n
  proof -
    have new: "covers e n \<Longrightarrow> m < max_ext \<Longrightarrow> m \<noteq> i \<Longrightarrow> \<not> covers (xs ! m) n" for m
      using assms(3) unfolding fits_def by blast
    have old: "covers (xs ! j) n \<Longrightarrow> covers (xs ! k) n \<Longrightarrow> j = k"
      using assms(1) that unfolding ext_inv_def by blast
    show ?thesis
      using that assms(2) len new [of j] new [of k] old by (cases "j = i"; cases "k = i") simp_all
  qed
  ultimately show ?thesis
    using len unfolding ext_inv_def by (metis length_list_update)
qed

lemma class_of_update:
  assumes "ext_inv xs" "i < max_ext" "fits xs i e"
  shows "class_of (xs[i := e]) n =
    (if covers e n then Some (mx_flags e) else if covers (xs ! i) n then None else class_of xs n)"
proof -
  note inv' = ext_inv_update [OF assms]
  have len: "length xs = max_ext"
    using assms(1) by (simp add: ext_inv_def)
  show ?thesis
  proof (cases "covers e n")
    case True
    then show ?thesis
      using class_of_covered [OF inv' assms(2), of n] assms(2) len by simp
  next
    case new: False
    have uncovered: "class_of (xs[i := e]) n = None"
      if "\<And>j. j < max_ext \<Longrightarrow> j \<noteq> i \<Longrightarrow> \<not> covers (xs ! j) n"
    proof (rule class_of_uncovered)
      show "length (xs[i := e]) = max_ext" using len by simp
      show "\<not> covers (xs[i := e] ! j) n" if "j < max_ext" for j
        using that \<open>\<And>j. j < max_ext \<Longrightarrow> j \<noteq> i \<Longrightarrow> \<not> covers (xs ! j) n\<close> new assms(2) len
        by (cases "j = i") simp_all
    qed
    show ?thesis
    proof (cases "covers (xs ! i) n")
      case True
      then have "\<not> covers (xs ! j) n" if "j < max_ext" "j \<noteq> i" for j
        using that assms(1,2) unfolding ext_inv_def by metis
      with uncovered True new show ?thesis by simp
    next
      case old: False
      show ?thesis
      proof (cases "\<exists>j < max_ext. covers (xs ! j) n")
        case True
        then obtain j where j: "j < max_ext" "covers (xs ! j) n" "j \<noteq> i"
          using old by auto
        then show ?thesis
          using class_of_covered [OF inv', of j n] class_of_covered [OF assms(1), of j n] new old by simp
      next
        case False
        then have "class_of xs n = None"
          using len by (intro class_of_uncovered) auto
        with False uncovered new old show ?thesis by simp
      qed
    qed
  qed
qed

subsection \<open>The arithmetic of extents\<close>

lemma PAGE_nat: "unat (ucast PAGE_SIZE :: u64) = 4096"
  by (simp add: PAGE_SIZE_def)

lemma len_bytes:
  assumes "4096 \<le> b" "b + 4096 * unat (l :: u32) \<le> 2 ^ 32"
  shows "unat (ucast (l * PAGE_SIZE) :: u64) = 4096 * unat l"
proof -
  have "unat l * 4096 < 2 ^ 32"
    using assms by simp
  then have "unat (l * PAGE_SIZE) = unat l * 4096"
    by (simp add: PAGE_SIZE_def unat_mult_no_wrap)
  then show ?thesis
    by (simp add: unat_ucast_up)
qed

lemma end_nat:
  assumes "4096 \<le> unat (b :: u64)" "unat b + 4096 * unat (l :: u32) \<le> 2 ^ 32"
  shows "unat (b + ucast (l * PAGE_SIZE)) = unat b + 4096 * unat l"
  using assms len_bytes [OF assms] by (subst unat_add_no_wrap) simp_all

lemma page_base: "4096 dvd unat b \<Longrightarrow> unat b = 4096 * page_of b"
  by (simp add: page_of_def)

text \<open>The range of pages that a call names.\<close>

definition range_ok :: "u64 \<Rightarrow> u32 \<Rightarrow> bool" where
  "range_ok b l \<longleftrightarrow> 4096 dvd unat b \<and> 4096 \<le> unat b \<and> 0 < unat l \<and> unat b + 4096 * unat l \<le> 2 ^ 32"

definition in_range :: "u64 \<Rightarrow> u32 \<Rightarrow> nat \<Rightarrow> bool" where
  "in_range b l n \<longleftrightarrow> page_of b \<le> n \<and> n < page_of b + unat l"

lemma ext_ok_range:
  "mx_flags e \<noteq> MX_UNSET \<Longrightarrow> ext_ok e \<longleftrightarrow> mx_flags e \<noteq> MX_LAST \<and> range_ok (mx_base e) (mx_length e)"
  by (auto simp: ext_ok_def range_ok_def)

lemma covers_range:
  "covers e n \<longleftrightarrow> mx_flags e \<noteq> MX_UNSET \<and> in_range (mx_base e) (mx_length e) n"
  by (auto simp: covers_def in_range_def)

lemma range_end:
  assumes "range_ok b l"
  shows "unat (b + ucast (l * PAGE_SIZE)) = 4096 * (page_of b + unat l)" "unat b = 4096 * page_of b"
  using assms end_nat [of b l] page_base [of b] by (auto simp: range_ok_def)

lemma within_range:
  assumes "range_ok b l" "range_ok c k"
  shows "b \<ge> c \<and> b + ucast (l * PAGE_SIZE) \<le> c + ucast (k * PAGE_SIZE) \<longleftrightarrow>
    page_of c \<le> page_of b \<and> page_of b + unat l \<le> page_of c + unat k"
  using range_end [OF assms(1)] range_end [OF assms(2)] by (auto simp: word_le_nat_alt)

lemma ext_end_eq:
  assumes "range_ok (mx_base e) (mx_length e)" "range_ok b l"
  shows "ext_end e = b \<longleftrightarrow> page_of (mx_base e) + unat (mx_length e) = page_of b"
  using range_end [OF assms(1)] range_end [OF assms(2)] by (auto simp: word_eq_unat ext_end_def)

lemma range_first: "range_ok b l \<Longrightarrow> in_range b l (page_of b)"
  by (simp add: in_range_def range_ok_def)

lemma range_split:
  assumes "range_ok c k" "unat l < unat k" "0 < unat l"
  shows "range_ok c l" "range_ok (c + ucast (l * PAGE_SIZE)) (k - l)"
    "page_of (c + ucast (l * PAGE_SIZE)) = page_of c + unat l" "unat (k - l) = unat k - unat l"
proof -
  show r: "range_ok c l"
    using assms by (auto simp: range_ok_def)
  show d: "unat (k - l) = unat k - unat l"
    using assms(2) by (simp add: unat_sub_no_wrap word_le_nat_alt)
  note e = range_end(1) [OF r]
  then show "page_of (c + ucast (l * PAGE_SIZE)) = page_of c + unat l"
    by (simp add: page_of_def)
  have "4096 * page_of c + 4096 * unat k \<le> 2 ^ 32" "1 \<le> page_of c"
    using assms(1) range_end(2) [OF assms(1)] by (auto simp: range_ok_def)
  with assms(2,3) show "range_ok (c + ucast (l * PAGE_SIZE)) (k - l)"
    unfolding range_ok_def e d by auto
qed

lemma range_join:
  assumes "range_ok c k" "range_ok b l" "page_of c + unat k = page_of b"
  shows "range_ok c (k + l)" "unat (k + l) = unat k + unat l"
proof -
  have b: "4096 * page_of c + 4096 * unat k + 4096 * unat l \<le> 2 ^ 32" "1 \<le> page_of c"
    using assms range_end(2) [OF assms(2)] range_end(2) [OF assms(1)] by (auto simp: range_ok_def)
  then have "unat k + unat l < 2 ^ 32"
    by simp
  then show s: "unat (k + l) = unat k + unat l"
    by (simp add: unat_add_no_wrap)
  show "range_ok c (k + l)"
    using b assms(1) range_end(2) [OF assms(1)] unfolding range_ok_def s by auto
qed

section \<open>The operations on one table\<close>

definition pa_ok :: "allocator \<Rightarrow> bool" where
  "pa_ok pa \<longleftrightarrow> one_table pa \<and> ext_inv (ext_list pa) \<and> ifree_of pa < max_ext"

definition hole :: "extent list \<Rightarrow> nat \<Rightarrow> bool" where
  "hole xs k \<longleftrightarrow> k < max_ext \<and> mx_flags (xs ! k) = MX_UNSET"

definition real_class :: "memextent \<Rightarrow> bool" where
  "real_class f \<longleftrightarrow> f \<noteq> MX_UNSET \<and> f \<noteq> MX_LAST"

lemma pa_ok_one: "pa_ok pa \<Longrightarrow> one_table pa" and pa_ok_inv: "pa_ok pa \<Longrightarrow> ext_inv (ext_list pa)"
  by (simp_all add: pa_ok_def)

lemma class_of_None:
  assumes "ext_inv xs" "class_of xs n = None" "i < max_ext"
  shows "\<not> covers (xs ! i) n"
  using assms class_of_covered [of xs i n] by auto

lemma pa_ok_put:
  assumes "pa_ok pa" "i < max_ext" "fits (ext_list pa) i e"
  shows "pa_ok (put_ext (pa_active pa, i) e pa)"
  using assms ext_inv_update by (simp add: pa_ok_def)

lemma intersect_one:
  "one_table pa \<Longrightarrow> intersect_extent b l pa = Some (map_option (\<lambda>j. (pa_active pa, j))
     (first_index (\<lambda>p. mx_flags p \<noteq> MX_UNSET \<and> b \<ge> mx_base p \<and> b + ucast (l * PAGE_SIZE) \<le> ext_end p) (ext_list pa)))"
  by (simp add: intersect_extent_def scan_one Let_def)

lemma intersect_iff:
  assumes "ext_ok e" "range_ok b l"
  shows "mx_flags e \<noteq> MX_UNSET \<and> b \<ge> mx_base e \<and> b + ucast (l * PAGE_SIZE) \<le> ext_end e \<longleftrightarrow>
    mx_flags e \<noteq> MX_UNSET \<and> page_of (mx_base e) \<le> page_of b
    \<and> page_of b + unat l \<le> page_of (mx_base e) + unat (mx_length e)"
  using assms within_range [OF assms(2), of "mx_base e" "mx_length e"]
  by (auto simp: ext_ok_range ext_end_def)

lemma intersect_found:
  assumes ok: "pa_ok pa" and r: "range_ok b l" and i: "i < max_ext"
    and all: "\<And>n. in_range b l n \<Longrightarrow> covers (ext_list pa ! i) n"
  shows "intersect_extent b l pa = Some (Some (pa_active pa, i))"
proof -
  let ?xs = "ext_list pa"
  have inv: "ext_inv ?xs" and one: "one_table pa"
    using ok by (simp_all add: pa_ok_def)
  have len: "length ?xs = max_ext"
    using inv by (simp add: ext_inv_def)
  have e: "ext_ok (?xs ! j)" if "j < max_ext" for j
    using inv that by (simp add: ext_inv_def)
  have pos: "0 < unat l"
    using r by (simp add: range_ok_def)
  have "covers (?xs ! i) (page_of b)" "covers (?xs ! i) (page_of b + unat l - 1)"
    using all pos by (auto simp: in_range_def)
  then have hit: "mx_flags (?xs ! i) \<noteq> MX_UNSET \<and> page_of (mx_base (?xs ! i)) \<le> page_of b
      \<and> page_of b + unat l \<le> page_of (mx_base (?xs ! i)) + unat (mx_length (?xs ! i))"
    using pos by (auto simp: covers_def)
  have only: "j = i" if "j < max_ext" "mx_flags (?xs ! j) \<noteq> MX_UNSET \<and> page_of (mx_base (?xs ! j)) \<le> page_of b
      \<and> page_of b + unat l \<le> page_of (mx_base (?xs ! j)) + unat (mx_length (?xs ! j))" for j
  proof -
    have "covers (?xs ! j) (page_of b)"
      using that pos by (auto simp: covers_def)
    then show ?thesis
      using inv that(1) i \<open>covers (?xs ! i) (page_of b)\<close> unfolding ext_inv_def by blast
  qed
  have "first_index (\<lambda>p. mx_flags p \<noteq> MX_UNSET \<and> b \<ge> mx_base p \<and> b + ucast (l * PAGE_SIZE) \<le> ext_end p) ?xs = Some i"
  proof (rule first_index_unique)
    show "i < length ?xs" using len i by simp
    show "mx_flags (?xs ! i) \<noteq> MX_UNSET \<and> b \<ge> mx_base (?xs ! i) \<and> b + ucast (l * PAGE_SIZE) \<le> ext_end (?xs ! i)"
      using hit intersect_iff [OF e [OF i] r] by blast
    show "j = i" if "j < length ?xs" "mx_flags (?xs ! j) \<noteq> MX_UNSET \<and> b \<ge> mx_base (?xs ! j)
        \<and> b + ucast (l * PAGE_SIZE) \<le> ext_end (?xs ! j)" for j
      using that len only intersect_iff [OF e r, of j] by auto
  qed
  then show ?thesis
    by (simp add: intersect_one one)
qed

lemma intersect_covers:
  assumes ok: "pa_ok pa" and r: "range_ok b l"
    and some: "intersect_extent b l pa = Some (Some p)"
  shows "\<exists>i < max_ext. p = (pa_active pa, i) \<and> (\<forall>n. in_range b l n \<longrightarrow> covers (ext_list pa ! i) n)"
proof -
  let ?xs = "ext_list pa"
  have inv: "ext_inv ?xs" and one: "one_table pa"
    using ok by (simp_all add: pa_ok_def)
  from some one obtain i where i: "p = (pa_active pa, i)"
    "first_index (\<lambda>p. mx_flags p \<noteq> MX_UNSET \<and> b \<ge> mx_base p \<and> b + ucast (l * PAGE_SIZE) \<le> ext_end p) ?xs = Some i"
    by (auto simp: intersect_one)
  note f = first_index_Some [OF i(2)]
  then have "i < max_ext"
    using inv by (simp add: ext_inv_def)
  moreover have "ext_ok (?xs ! i)"
    using inv calculation by (simp add: ext_inv_def)
  ultimately show ?thesis
    using i(1) f intersect_iff [OF _ r, of "?xs ! i"] by (auto simp: covers_def in_range_def)
qed

lemma intersect_none:
  assumes ok: "pa_ok pa" and r: "range_ok b l"
    and free: "\<And>n. in_range b l n \<Longrightarrow> class_of (ext_list pa) n = None"
  shows "intersect_extent b l pa = Some None"
proof (cases "intersect_extent b l pa")
  case None
  then show ?thesis
    using ok by (simp add: intersect_one pa_ok_def)
next
  case (Some x)
  show ?thesis
  proof (cases x)
    case None
    with Some show ?thesis by simp
  next
    case (Some p)
    with \<open>intersect_extent b l pa = Some x\<close> intersect_covers [OF ok r, of p]
    obtain i where "i < max_ext" "covers (ext_list pa ! i) (page_of b)"
      using range_first [OF r] by auto
    then show ?thesis
      using class_of_None [OF pa_ok_inv [OF ok] free [OF range_first [OF r]]] by blast
  qed
qed

subsection \<open>Adding an extent\<close>

definition merges :: "u64 \<Rightarrow> memextent \<Rightarrow> allocator \<Rightarrow> bool" where
  "merges b f pa \<longleftrightarrow> f = MX_FREE \<and> mx_flags (ext_list pa ! ifree_of pa) = MX_FREE
     \<and> ext_end (ext_list pa ! ifree_of pa) = b"

lemma add_extent_merge:
  "real_class f \<Longrightarrow> l \<noteq> 0 \<Longrightarrow> merges b f pa \<Longrightarrow>
     add_extent b l f pa = Some (put_ext (pa_active pa, ifree_of pa)
       ((ext_list pa ! ifree_of pa)\<lparr>mx_length := mx_length (ext_list pa ! ifree_of pa) + l\<rparr>) pa)"
  by (auto simp: add_extent_def free_ptr_alt merges_def Let_def)

lemma add_extent_place:
  assumes "one_table pa" "\<And>i. i < max_ext \<Longrightarrow> mx_flags (ext_list pa ! i) \<noteq> MX_LAST"
    and "real_class f" "l \<noteq> 0" "\<not> merges b f pa" "hole (ext_list pa) h"
  shows "\<exists>k. hole (ext_list pa) k \<and>
    add_extent b l f pa = Some (put_ext (pa_active pa, k) \<lparr>mx_flags = f, mx_base = b, mx_length = l\<rparr> pa)"
proof -
  let ?xs = "ext_list pa"
  let ?P = "\<lambda>p. mx_flags p = MX_LAST \<or> mx_flags p = MX_UNSET"
  have len: "length ?xs = max_ext"
    by (rule one_length [OF assms(1)])
  obtain k where k: "first_index ?P ?xs = Some k"
    using first_index_exists [of h ?xs ?P] assms(6) len by (auto simp: hole_def)
  have k': "k < max_ext" "mx_flags (?xs ! k) = MX_UNSET"
    using first_index_Some [OF k] assms(2) [of k] len by auto
  then have "next_empty_extent pa = Some (Some (pa_active pa, k))"
    by (simp add: next_empty_extent_def scan_one [OF assms(1)] k ptr_of_def)
  then have "add_extent b l f pa = Some (put_ext (pa_active pa, k) \<lparr>mx_flags = f, mx_base = b, mx_length = l\<rparr> pa)"
    using assms(3-5) k' by (auto simp: add_extent_def free_ptr_alt merges_def Let_def real_class_def)
  with k' show ?thesis
    by (auto simp: hole_def)
qed

lemma ok_not_last: "pa_ok pa \<Longrightarrow> i < max_ext \<Longrightarrow> mx_flags (ext_list pa ! i) \<noteq> MX_LAST"
  by (auto simp: pa_ok_def ext_inv_def ext_ok_def)

lemma range_len: "range_ok b l \<Longrightarrow> l \<noteq> 0"
  by (auto simp: range_ok_def)

lemma add_extent_full:
  assumes "pa_ok pa" "real_class f" "l \<noteq> 0" "\<not> merges b f pa" "\<nexists>h. hole (ext_list pa) h"
  shows "add_extent b l f pa = Some pa"
proof -
  let ?xs = "ext_list pa"
  let ?P = "\<lambda>p. mx_flags p = MX_LAST \<or> mx_flags p = MX_UNSET"
  have one: "one_table pa" and len: "length ?xs = max_ext"
    using assms(1) by (simp_all add: pa_ok_def ext_inv_def)
  have "\<forall>x \<in> set ?xs. \<not> ?P x"
    using assms(5) ok_not_last [OF assms(1)] len by (auto simp: in_set_conv_nth hole_def)
  then have "first_index ?P ?xs = None"
    by (simp only: first_index_None)
  then have "next_empty_extent pa = Some None"
    by (simp add: next_empty_extent_def scan_one [OF one] ptr_of_def)
  then show ?thesis
    using assms(2-4) by (auto simp: add_extent_def free_ptr_alt merges_def Let_def real_class_def)
qed

lemma add_extent_spec:
  assumes ok: "pa_ok pa" and f: "real_class f" and r: "range_ok b l"
    and free: "\<And>n. in_range b l n \<Longrightarrow> class_of (ext_list pa) n = None"
  shows "\<exists>pa'. add_extent b l f pa = Some pa' \<and> pa_ok pa' \<and> pa_active pa' = pa_active pa
    \<and> ((\<forall>n. class_of (ext_list pa') n = (if in_range b l n then Some f else class_of (ext_list pa) n))
       \<or> (\<nexists>h. hole (ext_list pa) h) \<and> pa' = pa)"
proof (cases "merges b f pa")
  case True
  let ?xs = "ext_list pa" and ?i = "ifree_of pa"
  let ?fe = "?xs ! ?i"
  let ?e = "?fe\<lparr>mx_length := mx_length ?fe + l\<rparr>"
  have i: "?i < max_ext" and inv: "ext_inv ?xs"
    using ok by (simp_all add: pa_ok_def)
  have fe: "mx_flags ?fe = f" "f = MX_FREE" "ext_end ?fe = b"
    using True by (simp_all add: merges_def)
  have rfe: "range_ok (mx_base ?fe) (mx_length ?fe)"
    using inv i f fe by (auto simp: ext_inv_def ext_ok_range real_class_def)
  have adj: "page_of (mx_base ?fe) + unat (mx_length ?fe) = page_of b"
    using ext_end_eq [OF rfe r] fe(3) by simp
  note j = range_join [OF rfe r adj]
  have cov: "covers ?e n \<longleftrightarrow> covers ?fe n \<or> in_range b l n" for n
    using j(2) adj fe f by (auto simp: covers_def in_range_def real_class_def)
  have fits: "fits ?xs ?i ?e"
    unfolding fits_def
  proof (intro conjI allI impI)
    show "ext_ok ?e"
      using j(1) fe f by (subst ext_ok_range) (auto simp: real_class_def)
    fix k n
    assume k: "k < max_ext" "k \<noteq> ?i" "covers ?e n"
    show "\<not> covers (?xs ! k) n"
    proof (cases "covers ?fe n")
      case True
      then show ?thesis
        using inv k i unfolding ext_inv_def by blast
    next
      case False
      then show ?thesis
        using k cov class_of_None [OF inv free] by blast
    qed
  qed
  have "class_of (?xs[?i := ?e]) n = (if in_range b l n then Some f else class_of ?xs n)" for n
    using class_of_update [OF inv i fits, of n] cov [of n] class_of_covered [OF inv i, of n] fe by auto
  then show ?thesis
    using add_extent_merge [OF f range_len [OF r] True] pa_ok_put [OF ok i fits] by auto
next
  case False
  let ?xs = "ext_list pa"
  let ?e = "\<lparr>mx_flags = f, mx_base = b, mx_length = l\<rparr>"
  show ?thesis
  proof (cases "\<exists>h. hole ?xs h")
    case nohole: False
    then show ?thesis
      using add_extent_full [OF ok f range_len [OF r] False] ok by auto
  next
  case True
  then obtain h where h: "hole ?xs h" by blast
  have inv: "ext_inv ?xs" and one: "one_table pa"
    using ok by (simp_all add: pa_ok_def)
  from add_extent_place [OF one ok_not_last [OF ok] f range_len [OF r] False h]
  obtain k where k: "hole ?xs k" "add_extent b l f pa = Some (put_ext (pa_active pa, k) ?e pa)"
    by auto
  then have k': "k < max_ext" "\<not> covers (?xs ! k) n" for n
    by (simp_all add: hole_def covers_def)
  have cov: "covers ?e n \<longleftrightarrow> in_range b l n" for n
    using f by (auto simp: covers_range real_class_def)
  have fits: "fits ?xs k ?e"
    unfolding fits_def
  proof (intro conjI allI impI)
    show "ext_ok ?e"
      using r f by (subst ext_ok_range) (auto simp: real_class_def)
    show "\<not> covers (?xs ! j) n" if "j < max_ext" "covers ?e n" for j n
      using that cov class_of_None [OF inv free] by blast
  qed
  have "class_of (?xs[k := ?e]) n = (if in_range b l n then Some f else class_of ?xs n)" for n
    using class_of_update [OF inv k'(1) fits, of n] cov [of n] k'(2) by simp
  then show ?thesis
    using k(2) pa_ok_put [OF ok k'(1) fits] by auto
  qed
qed

subsection \<open>Setting a range\<close>

text \<open>What \<^verbatim>\<open>set_extent\<close> promises: the pages of the range get the class, the others keep theirs.\<close>

definition sets :: "u64 \<Rightarrow> u32 \<Rightarrow> memextent \<Rightarrow> allocator \<Rightarrow> allocator \<Rightarrow> bool" where
  "sets b l f pa pa' \<longleftrightarrow> pa_ok pa' \<and> pa_active pa' = pa_active pa
     \<and> (\<forall>n. class_of (ext_list pa') n = (if in_range b l n then Some f else class_of (ext_list pa) n))"

text \<open>When no slot is left the range is taken from its extent but not recorded.\<close>

definition drops :: "u64 \<Rightarrow> u32 \<Rightarrow> allocator \<Rightarrow> allocator \<Rightarrow> bool" where
  "drops b l pa pa' \<longleftrightarrow> pa_ok pa' \<and> pa_active pa' = pa_active pa \<and> (\<nexists>h. hole (ext_list pa) h)
     \<and> (\<forall>n. class_of (ext_list pa') n = (if in_range b l n then None else class_of (ext_list pa) n))"

lemma slot_range:
  "ext_inv xs \<Longrightarrow> i < max_ext \<Longrightarrow> mx_flags (xs ! i) \<noteq> MX_UNSET \<Longrightarrow> range_ok (mx_base (xs ! i)) (mx_length (xs ! i))"
  by (auto simp: ext_inv_def ext_ok_range)

lemma fits_inside:
  assumes "ext_inv xs" "i < max_ext" "ext_ok e" "\<And>n. covers e n \<Longrightarrow> covers (xs ! i) n"
  shows "fits xs i e"
  using assms unfolding fits_def ext_inv_def by metis

lemma set_head_spec:
  assumes ok: "pa_ok pa" and i: "i < max_ext" and used: "mx_flags (ext_list pa ! i) \<noteq> MX_UNSET"
    and b: "mx_base (ext_list pa ! i) = b" and r: "range_ok b l"
    and le: "unat l \<le> unat (mx_length (ext_list pa ! i))" and f: "real_class f"
  shows "\<exists>pa'. set_head (pa_active pa, i) b l f pa = Some pa' \<and> (sets b l f pa pa' \<or> drops b l pa pa')"
proof -
  let ?xs = "ext_list pa"
  let ?p = "?xs ! i"
  have inv: "ext_inv ?xs"
    using ok by (simp add: pa_ok_def)
  have rp: "range_ok b (mx_length ?p)"
    using slot_range [OF inv i used] b by simp
  have covp: "covers ?p n \<longleftrightarrow> in_range b (mx_length ?p) n" for n
    using used b by (simp add: covers_range)
  have flag: "ext_ok ?p"
    using inv i by (simp add: ext_inv_def)
  have pos: "0 < unat l"
    using r by (simp add: range_ok_def)
  show ?thesis
  proof (cases "mx_length ?p > l")
    case True
    then have lt: "unat l < unat (mx_length ?p)"
      by (simp add: word_less_nat_alt)
    note s = range_split [OF rp lt pos]
    let ?e = "?p\<lparr>mx_length := mx_length ?p - l, mx_base := mx_base ?p + ucast (l * PAGE_SIZE)\<rparr>"
    have cov: "covers ?e n \<longleftrightarrow> covers ?p n \<and> \<not> in_range b l n" for n
      using s b used lt by (auto simp: covers_range in_range_def)
    have "ext_ok ?e"
      using s(2) used flag b by (auto simp: ext_ok_range)
    with cov have fits: "fits ?xs i ?e"
      by (intro fits_inside [OF inv i]) simp_all
    let ?pa = "put_ext (pa_active pa, i) ?e pa"
    have ok1: "pa_ok ?pa"
      by (rule pa_ok_put [OF ok i fits])
    have cls: "class_of (ext_list ?pa) n = (if in_range b l n then None else class_of ?xs n)" for n
      using class_of_update [OF inv i fits, of n] class_of_covered [OF inv i, of n] cov [of n] covp [of n] lt
      by (auto simp: in_range_def)
    have holes: "hole (ext_list ?pa) h \<longleftrightarrow> hole ?xs h" for h
      using used ok i by (cases "h = i") (auto simp: hole_def pa_ok_def ext_inv_def)
    have none: "class_of (ext_list ?pa) n = None" if "in_range b l n" for n
      using cls that by simp
    from add_extent_spec [OF ok1 f r none]
    obtain pa' where add: "add_extent b l f ?pa = Some pa'" "pa_ok pa'" "pa_active pa' = pa_active ?pa"
      "(\<forall>n. class_of (ext_list pa') n = (if in_range b l n then Some f else class_of (ext_list ?pa) n))
        \<or> (\<nexists>h. hole (ext_list ?pa) h) \<and> pa' = ?pa"
      by blast
    have "sets b l f pa pa' \<or> drops b l pa pa'"
      using add(2-4) cls holes by (auto simp: sets_def drops_def)
    with True add(1) show ?thesis
      by (simp add: set_head_def Let_def)
  next
    case False
    then have eq: "mx_length ?p = l"
      using le by (simp add: word_le_nat_alt word_eq_unat not_less)
    let ?e = "?p\<lparr>mx_length := l, mx_flags := f\<rparr>"
    have cov: "covers ?e n \<longleftrightarrow> covers ?p n" for n
      using eq b used f by (simp add: covers_range real_class_def)
    have "ext_ok ?e"
      using r b f by (subst ext_ok_range) (auto simp: real_class_def)
    with cov have fits: "fits ?xs i ?e"
      by (intro fits_inside [OF inv i]) simp_all
    have "class_of (?xs[i := ?e]) n = (if in_range b l n then Some f else class_of ?xs n)" for n
      using class_of_update [OF inv i fits, of n] cov [of n] covp [of n] eq by simp
    then have "sets b l f pa (put_ext (pa_active pa, i) ?e pa)"
      using pa_ok_put [OF ok i fits] by (simp add: sets_def)
    with False show ?thesis
      by (simp add: set_head_def Let_def)
  qed
qed

lemma set_join_spec:
  assumes ok: "pa_ok pa" and i: "i < max_ext" and used: "mx_flags (ext_list pa ! i) \<noteq> MX_UNSET"
    and b: "mx_base (ext_list pa ! i) = b" and r: "range_ok b l"
    and le: "unat l \<le> unat (mx_length (ext_list pa ! i))"
    and q: "q < max_ext" "mx_flags (ext_list pa ! q) = f" "ext_end (ext_list pa ! q) = b" and f: "real_class f"
  shows "sets b l f pa (set_join (pa_active pa, q) (pa_active pa, i) l pa)"
proof -
  let ?xs = "ext_list pa"
  let ?p = "?xs ! i" and ?q = "?xs ! q"
  have inv: "ext_inv ?xs" and len: "length ?xs = max_ext"
    using ok by (simp_all add: pa_ok_def ext_inv_def)
  have rp: "range_ok b (mx_length ?p)"
    using slot_range [OF inv i used] b by simp
  have rq: "range_ok (mx_base ?q) (mx_length ?q)"
    using slot_range [OF inv q(1)] q(2) f by (simp add: real_class_def)
  have adj: "page_of (mx_base ?q) + unat (mx_length ?q) = page_of b"
    using ext_end_eq [OF rq r] q(3) by simp
  have pos: "0 < unat l"
    using r by (simp add: range_ok_def)
  have ne: "q \<noteq> i"
    using adj b rq by (auto simp: range_ok_def)
  have covp: "covers ?p n \<longleftrightarrow> in_range b (mx_length ?p) n" for n
    using used b by (simp add: covers_range)
  have flag: "ext_ok ?p"
    using inv i by (simp add: ext_inv_def)
  define e where "e = (if mx_length ?p > l
    then ?p\<lparr>mx_length := mx_length ?p - l, mx_base := mx_base ?p + ucast (l * PAGE_SIZE)\<rparr>
    else ?p\<lparr>mx_flags := MX_UNSET\<rparr>)"
  have e: "ext_ok e \<and> (\<forall>n. covers e n \<longleftrightarrow> covers ?p n \<and> \<not> in_range b l n)"
  proof (cases "mx_length ?p > l")
    case True
    then have lt: "unat l < unat (mx_length ?p)"
      by (simp add: word_less_nat_alt)
    from range_split [OF rp lt pos] True b used flag lt show ?thesis
      by (auto simp: e_def covers_range in_range_def ext_ok_range)
  next
    case False
    then have "mx_length ?p = l"
      using le by (simp add: word_le_nat_alt word_eq_unat not_less)
    with False covp show ?thesis
      by (auto simp: e_def covers_def ext_ok_def)
  qed
  have fits1: "fits ?xs i e"
    using e by (intro fits_inside [OF inv i]) auto
  let ?ys = "?xs[i := e]"
  have inv1: "ext_inv ?ys"
    by (rule ext_inv_update [OF inv i fits1])
  have cls1: "class_of ?ys n = (if in_range b l n then None else class_of ?xs n)" for n
  proof -
    have "covers e n \<Longrightarrow> mx_flags e = mx_flags ?p"
      by (auto simp: e_def covers_def)
    then show ?thesis
      using class_of_update [OF inv i fits1, of n] class_of_covered [OF inv i, of n] e covp [of n] le
      by (auto simp: in_range_def)
  qed
  let ?g = "?q\<lparr>mx_length := mx_length ?q + l\<rparr>"
  note j = range_join [OF rq r adj]
  have covg: "covers ?g n \<longleftrightarrow> covers ?q n \<or> in_range b l n" for n
    using j(2) adj q(2) f by (auto simp: covers_def in_range_def real_class_def)
  have yq: "?ys ! q = ?q"
    using ne by simp
  have fits2: "fits ?ys q ?g"
    unfolding fits_def
  proof (intro conjI allI impI)
    show "ext_ok ?g"
      using j(1) q(2) f by (subst ext_ok_range) (auto simp: real_class_def)
    show "\<not> covers (?ys ! k) n" if "k < max_ext" "k \<noteq> q" "covers ?g n" for k n
    proof (cases "covers ?q n")
      case True
      then show ?thesis
        using inv1 that q(1) yq unfolding ext_inv_def by metis
    next
      case False
      then have "class_of ?ys n = None"
        using that covg cls1 by simp
      then show ?thesis
        using class_of_None [OF inv1 _ that(1)] by blast
    qed
  qed
  have "class_of (?ys[q := ?g]) n = (if in_range b l n then Some f else class_of ?xs n)" for n
    using class_of_update [OF inv1 q(1) fits2, of n] covg [of n] yq cls1 [of n] class_of_covered [OF inv q(1), of n] q(2)
      class_of_covered [OF inv1 q(1), of n]
    by (auto split: if_splits)
  moreover have "ext_list (set_join (pa_active pa, q) (pa_active pa, i) l pa) = ?ys[q := ?g]"
    and "pa_ok (set_join (pa_active pa, q) (pa_active pa, i) l pa)"
  proof -
    let ?pa1 = "put_ext (pa_active pa, q) ?g pa"
    have x: "ext_list ?pa1 ! i = ?p" "pa_active ?pa1 = pa_active pa"
      using ne by simp_all
    have join: "set_join (pa_active pa, q) (pa_active pa, i) l pa = put_ext (pa_active ?pa1, i) e ?pa1"
      using ext_at_active [of ?pa1 "pa_active pa" i] ne by (simp add: set_join_def Let_def e_def)
    show l: "ext_list (set_join (pa_active pa, q) (pa_active pa, i) l pa) = ?ys[q := ?g]"
      unfolding join put_ext_simps(1) using ne by (simp add: list_update_swap)
    show "pa_ok (set_join (pa_active pa, q) (pa_active pa, i) l pa)"
      unfolding pa_ok_def l using ok ext_inv_update [OF inv1 q(1) fits2]
      by (simp add: join pa_ok_def)
  qed
  moreover have "pa_active (set_join (pa_active pa, q) (pa_active pa, i) l pa) = pa_active pa"
    by (simp add: set_join_def Let_def)
  ultimately show ?thesis
    by (simp add: sets_def)
qed

lemma middle_length:
  fixes len l :: u32 and k :: u64
  assumes "unat k + unat l \<le> unat len"
  shows "unat (ucast (ucast len - (ucast l + k)) :: u32) = unat len - (unat l + unat k)"
proof -
  have len: "unat len < 2 ^ 32"
    using unsigned_less [of len, where ?'a = nat] by simp
  have "unat (ucast l + k) = unat l + unat k"
    using assms len by (subst unat_add_no_wrap) (simp_all add: unat_ucast_up)
  then have "unat (ucast len - (ucast l + k)) = unat len - (unat l + unat k)"
    using assms by (subst unat_sub_no_wrap) (simp_all add: word_le_nat_alt unat_ucast_up add.commute)
  then show ?thesis
    using len by (simp add: take_bit_nat_eq_self unsigned_ucast_eq)
qed

lemma set_middle_spec:
  assumes ok: "pa_ok pa" and i: "i < max_ext" and used: "mx_flags (ext_list pa ! i) \<noteq> MX_UNSET"
    and b: "page_of (mx_base (ext_list pa ! i)) < page_of b" and r: "range_ok b l"
    and le: "page_of b + unat l \<le> page_of (mx_base (ext_list pa ! i)) + unat (mx_length (ext_list pa ! i))"
    and f: "real_class f" and h: "hole (ext_list pa) h" "hole (ext_list pa) h'" "h \<noteq> h'"
  shows "\<exists>pa'. set_middle (pa_active pa, i) b l f pa = Some pa' \<and> sets b l f pa pa'"
proof -
  let ?xs = "ext_list pa"
  let ?p = "?xs ! i"
  have inv: "ext_inv ?xs" and one: "one_table pa" and len: "length ?xs = max_ext"
    using ok by (simp_all add: pa_ok_def ext_inv_def)
  have rp: "range_ok (mx_base ?p) (mx_length ?p)"
    by (rule slot_range [OF inv i used])
  have okp: "ext_ok ?p"
    using inv i by (simp add: ext_inv_def)
  have pos: "0 < unat l"
    using r by (simp add: range_ok_def)
  have covp: "covers ?p n \<longleftrightarrow> in_range (mx_base ?p) (mx_length ?p) n" for n
    using used by (simp add: covers_range)
  \<comment> \<open>The three parts: before, the range, after.\<close>
  define k where "k = page_of b - page_of (mx_base ?p)"
  define adrm where "adrm = (b - mx_base ?p) div ucast PAGE_SIZE"
  define rest where "rest = (ucast (ucast (mx_length ?p) - (ucast l + adrm)) :: u32)"
  let ?c = "b + ucast (l * PAGE_SIZE)"
  have adrm: "unat adrm = k"
  proof -
    have "mx_base ?p \<le> b"
      using range_end(2) [OF rp] range_end(2) [OF r] b by (simp add: word_le_nat_alt)
    then have "unat (b - mx_base ?p) = 4096 * k"
      using range_end(2) [OF rp] range_end(2) [OF r] by (simp add: unat_sub_no_wrap k_def diff_mult_distrib2)
    then show ?thesis
      by (simp add: adrm_def unat_div_distrib PAGE_nat)
  qed
  have k: "0 < k" "k + unat l \<le> unat (mx_length ?p)" "page_of b = page_of (mx_base ?p) + k"
    using b le by (auto simp: k_def)
  have rest: "unat rest = unat (mx_length ?p) - (unat l + k)"
    using k adrm by (simp add: rest_def middle_length)
  have cut_len: "unat (ucast adrm :: u32) = k"
  proof -
    have "k < 2 ^ 32"
      using k(2) unsigned_less [of "mx_length ?p", where ?'a = nat] by simp
    then show ?thesis
      using adrm by (simp add: unsigned_ucast_eq take_bit_nat_eq_self)
  qed
  have pc: "page_of ?c = page_of b + unat l"
    using range_end(1) [OF r] by (simp add: page_of_def)
  have rest_ok: "range_ok ?c rest" if "rest \<noteq> 0"
  proof -
    have "0 < unat rest"
      using that by (simp add: word_eq_unat)
    moreover have "4096 * page_of (mx_base ?p) + 4096 * unat (mx_length ?p) \<le> 2 ^ 32"
      using rp range_end(2) [OF rp] by (simp add: range_ok_def)
    ultimately show ?thesis
      using rest k pos unfolding range_ok_def range_end(1) [OF r] by auto
  qed
  let ?cut = "?p\<lparr>mx_length := ucast adrm\<rparr>"
  have covcut: "covers ?cut n \<longleftrightarrow> page_of (mx_base ?p) \<le> n \<and> n < page_of b" for n
    using used cut_len k by (auto simp: covers_def)
  have fits0: "fits ?xs i ?cut"
  proof (rule fits_inside [OF inv i])
    show "ext_ok ?cut"
      using okp used rp k cut_len by (auto simp: ext_ok_range range_ok_def)
    show "covers ?cut n \<Longrightarrow> covers ?p n" for n
      using covcut covp k by (auto simp: in_range_def)
  qed
  let ?ys = "?xs[i := ?cut]"
  have inv0: "ext_inv ?ys"
    by (rule ext_inv_update [OF inv i fits0])
  have cls0: "class_of ?ys n = (if page_of b \<le> n \<and> covers ?p n then None else class_of ?xs n)" for n
    using class_of_update [OF inv i fits0, of n] class_of_covered [OF inv i, of n] covcut [of n] covp [of n] k
    by (auto simp: in_range_def)
  have clsp: "class_of ?xs n = Some (mx_flags ?p)" if "covers ?p n" for n
    using class_of_covered [OF inv i that] .
  \<comment> \<open>The first of the two additions does not merge.\<close>
  have nomerge: "\<not> merges b f pa"
  proof
    assume m: "merges b f pa"
    let ?q = "?xs ! ifree_of pa"
    have q: "ifree_of pa < max_ext" "mx_flags ?q = MX_FREE" "ext_end ?q = b"
      using ok m by (auto simp: pa_ok_def merges_def)
    have rq: "range_ok (mx_base ?q) (mx_length ?q)"
      using slot_range [OF inv q(1)] q(2) by simp
    have adj: "page_of (mx_base ?q) + unat (mx_length ?q) = page_of b"
      using ext_end_eq [OF rq r] q(3) by simp
    have len_q: "0 < unat (mx_length ?q)"
      using rq by (simp add: range_ok_def)
    have "covers ?q (page_of b - 1)"
      unfolding covers_def using q(2) adj len_q by auto
    moreover have "covers ?p (page_of b - 1)"
      unfolding covp in_range_def using b k pos by linarith
    moreover have "\<not> covers ?q (page_of b)"
      unfolding covers_def using adj by simp
    moreover have "covers ?p (page_of b)"
      unfolding covp in_range_def using k pos by linarith
    ultimately show False
      using inv i q(1) unfolding ext_inv_def by metis
  qed
  let ?e = "\<lparr>mx_flags = f, mx_base = b, mx_length = l\<rparr>"
  obtain j where j: "hole ?xs j" "add_extent b l f pa = Some (put_ext (pa_active pa, j) ?e pa)"
    using add_extent_place [OF one ok_not_last [OF ok] f range_len [OF r] nomerge h(1)] by auto
  have j': "j < max_ext" "mx_flags (?xs ! j) = MX_UNSET" "j \<noteq> i"
    using j(1) used by (auto simp: hole_def)
  let ?pa1 = "put_ext (pa_active pa, j) ?e pa"
  have yj: "?ys ! j = ?xs ! j"
    using j' by simp
  have cove: "covers ?e n \<longleftrightarrow> in_range b l n" for n
    using f by (auto simp: covers_range real_class_def)
  have inp: "in_range b l n \<Longrightarrow> covers ?p n \<and> page_of b \<le> n" for n
    unfolding covp in_range_def using k(2,3) by auto
  have fits1: "fits ?ys j ?e"
    unfolding fits_def
  proof (intro conjI allI impI)
    show "ext_ok ?e"
      using r f by (subst ext_ok_range) (auto simp: real_class_def)
    show "\<not> covers (?ys ! m) n" if "m < max_ext" "covers ?e n" for m n
      using class_of_None [OF inv0 _ that(1), of n] cls0 [of n] inp [of n] that(2) cove by simp
  qed
  let ?zs = "?ys[j := ?e]"
  have inv1: "ext_inv ?zs"
    by (rule ext_inv_update [OF inv0 j'(1) fits1])
  have cls1: "class_of ?zs n = (if in_range b l n then Some f
      else if page_of b \<le> n \<and> covers ?p n then None else class_of ?xs n)" for n
    using class_of_update [OF inv0 j'(1) fits1, of n] cove [of n] yj j'(2) cls0 [of n]
    by (auto simp: covers_def)
  have tail: "page_of b \<le> n \<and> covers ?p n \<and> \<not> in_range b l n \<longleftrightarrow> in_range ?c rest n" for n
    unfolding covp in_range_def pc rest using k(2,3) by auto
  have x1: "ext_list ?pa1 = ?xs[j := ?e]" "pa_active ?pa1 = pa_active pa" "ifree_of ?pa1 = ifree_of pa"
    by simp_all
  have p1: "ext_list ?pa1 ! i = ?p"
    using j'(3) by simp
  have mid: "set_middle (pa_active pa, i) b l f pa =
    do { pa \<leftarrow> add_extent ?c rest (mx_flags ?p) ?pa1;
         Some (put_ext (pa_active ?pa1, i) ((ext_at pa (pa_active ?pa1, i))\<lparr>mx_length := ucast adrm\<rparr>) pa) }"
    using j(2) ext_at_active [of ?pa1 "pa_active pa" i] p1 j'(3)
    by (simp add: set_middle_def Let_def adrm_def rest_def)
  have swap: "?xs[j := e, i := ?cut] = ?ys[j := e]" for e
    using j'(3) by (simp add: list_update_swap)
  have finish: "\<exists>pa'. set_middle (pa_active pa, i) b l f pa = Some pa' \<and> sets b l f pa pa'"
    if add: "add_extent ?c rest (mx_flags ?p) ?pa1 = Some pa2"
      and pa2: "one_table pa2" "pa_active pa2 = pa_active pa" "ifree_of pa2 = ifree_of pa"
        "ext_list pa2 ! i = ?p" "ext_inv ((ext_list pa2)[i := ?cut])"
        "\<And>n. class_of ((ext_list pa2)[i := ?cut]) n = (if in_range b l n then Some f else class_of ?xs n)"
    for pa2
  proof -
    let ?pa' = "put_ext (pa_active pa2, i) ?cut pa2"
    have "set_middle (pa_active pa, i) b l f pa = Some ?pa'"
      using mid add pa2(2,4) ext_at_active [of pa2 "pa_active pa" i] by simp
    moreover have "pa_ok ?pa'"
      using ok pa2 by (simp add: pa_ok_def)
    ultimately show ?thesis
      using pa2(2,6) by (simp add: sets_def)
  qed
  consider (all) "rest = 0" | (merge) "rest \<noteq> 0" "merges ?c (mx_flags ?p) ?pa1"
    | (place) "rest \<noteq> 0" "\<not> merges ?c (mx_flags ?p) ?pa1"
    by blast
  then show ?thesis
  proof cases
    case all
    then have "add_extent ?c rest (mx_flags ?p) ?pa1 = Some ?pa1"
      by (simp add: add_extent_def Let_def)
    moreover have "class_of ?zs n = (if in_range b l n then Some f else class_of ?xs n)" for n
      using cls1 [of n] tail [of n] all by (auto simp: in_range_def)
    ultimately show ?thesis
      using one p1 inv1 by (intro finish [of ?pa1]) (simp_all add: swap)
  next
    case merge
    let ?m = "ifree_of pa"
    have m: "?m < max_ext" "mx_flags (?xs[j := ?e] ! ?m) = MX_FREE" "ext_end (?xs[j := ?e] ! ?m) = ?c"
      "mx_flags ?p = MX_FREE"
      using ok merge(2) x1 by (simp_all add: pa_ok_def merges_def)
    have rc: "range_ok ?c rest"
      by (rule rest_ok [OF merge(1)])
    have mj: "?m = j"
    proof (rule ccontr)
      assume ne: "?m \<noteq> j"
      let ?q = "?xs ! ?m"
      have q: "mx_flags ?q = MX_FREE" "ext_end ?q = ?c"
        using m ne by simp_all
      have rq: "range_ok (mx_base ?q) (mx_length ?q)"
        using slot_range [OF inv m(1)] q(1) by simp
      have adj: "page_of (mx_base ?q) + unat (mx_length ?q) = page_of ?c"
        using ext_end_eq [OF rq rc] q(2) by simp
      have len_q: "0 < unat (mx_length ?q)"
        using rq by (simp add: range_ok_def)
      have "covers ?q (page_of ?c - 1)"
        unfolding covers_def using q(1) adj len_q by auto
      moreover have "\<not> covers ?q (page_of ?c)"
        unfolding covers_def using adj by simp
      moreover have "covers ?p (page_of ?c - 1)"
        unfolding covp in_range_def pc using k pos by linarith
      moreover have "covers ?p (page_of ?c)"
        using tail [of "page_of ?c"] range_first [OF rc] by simp
      ultimately show False
        using inv i m(1) unfolding ext_inv_def by metis
    qed
    have ff: "f = MX_FREE"
      using m(2) mj j'(1) len by simp
    let ?g = "\<lparr>mx_flags = f, mx_base = b, mx_length = l + rest\<rparr>"
    let ?pa2 = "put_ext (pa_active pa, j) ?g ?pa1"
    have real: "real_class (mx_flags ?p)"
      using m(4) by (simp add: real_class_def)
    have add: "add_extent ?c rest (mx_flags ?p) ?pa1 = Some ?pa2"
      using add_extent_merge [OF real merge(1,2)] mj j'(1) len x1 by simp
    have jn: "range_ok b (l + rest)" "unat (l + rest) = unat l + unat rest"
      using range_join [OF r rc] pc by simp_all
    have covg: "covers ?g n \<longleftrightarrow> in_range b l n \<or> in_range ?c rest n" for n
      using jn(2) pc f by (auto simp: covers_def in_range_def real_class_def)
    have fits2: "fits ?zs j ?g"
      unfolding fits_def
    proof (intro conjI allI impI)
      show "ext_ok ?g"
        using jn(1) f by (subst ext_ok_range) (auto simp: real_class_def)
      show "\<not> covers (?zs ! q) n" if "q < max_ext" "q \<noteq> j" "covers ?g n" for q n
      proof (cases "in_range b l n")
        case True
        then have "covers (?zs ! j) n"
          using cove j'(1) len by simp
        then show ?thesis
          using inv1 that j'(1) unfolding ext_inv_def by blast
      next
        case False
        then have "class_of ?zs n = None"
          using that covg cls1 [of n] tail [of n] by auto
        then show ?thesis
          using class_of_None [OF inv1 _ that(1)] by blast
      qed
    qed
    have zj: "?zs[j := ?g] = ?xs[j := ?g, i := ?cut]"
      using swap [of ?g] by simp
    have "class_of (?zs[j := ?g]) n = (if in_range b l n then Some f else class_of ?xs n)" for n
      using class_of_update [OF inv1 j'(1) fits2, of n] covg [of n] cls1 [of n] tail [of n] clsp [of n] m(4) ff cove [of n]
        j'(1) len by auto
    then show ?thesis
      using add one j'(3) ext_inv_update [OF inv1 j'(1) fits2]
      by (intro finish [of ?pa2]) (simp_all add: zj swap)
  next
    case place
    have rc: "range_ok ?c rest"
      by (rule rest_ok [OF place(1)])
    have real: "real_class (mx_flags ?p)"
      using used okp by (simp add: real_class_def ext_ok_def)
    obtain h2 where h2: "hole (ext_list ?pa1) h2"
    proof (cases "h = j")
      case True
      then have "hole (ext_list ?pa1) h'"
        using h by (simp add: hole_def)
      then show ?thesis using that by blast
    next
      case False
      then have "hole (ext_list ?pa1) h"
        using h by (simp add: hole_def)
      then show ?thesis using that by blast
    qed
    have nl: "mx_flags (ext_list ?pa1 ! m) \<noteq> MX_LAST" if "m < max_ext" for m
      using that ok_not_last [OF ok that] f j'(1) len by (cases "m = j") (auto simp: real_class_def)
    let ?t = "\<lparr>mx_flags = mx_flags ?p, mx_base = ?c, mx_length = rest\<rparr>"
    have one1: "one_table ?pa1"
      using one by simp
    obtain q where q: "hole (ext_list ?pa1) q"
      "add_extent ?c rest (mx_flags ?p) ?pa1 = Some (put_ext (pa_active ?pa1, q) ?t ?pa1)"
      using add_extent_place [OF one1 nl real place h2] by blast
    have q': "q < max_ext" "mx_flags (?xs[j := ?e] ! q) = MX_UNSET"
      using q(1) x1 by (simp_all add: hole_def)
    have qj: "q \<noteq> j"
      using q' f j'(1) len by (auto simp: real_class_def)
    have qi: "q \<noteq> i"
      using q' p1 x1 used by auto
    let ?pa2 = "put_ext (pa_active ?pa1, q) ?t ?pa1"
    have covt: "covers ?t n \<longleftrightarrow> in_range ?c rest n" for n
      using used by (simp add: covers_range)
    have zq: "mx_flags (?zs ! q) = MX_UNSET"
      using q' qj qi by simp
    have fits2: "fits ?zs q ?t"
      unfolding fits_def
    proof (intro conjI allI impI)
      show "ext_ok ?t"
        using rc real by (subst ext_ok_range) (auto simp: real_class_def)
      show "\<not> covers (?zs ! m) n" if "m < max_ext" "covers ?t n" for m n
      proof -
        have "class_of ?zs n = None"
          using that(2) covt tail [of n] cls1 [of n] by auto
        then show ?thesis
          using class_of_None [OF inv1 _ that(1)] by blast
      qed
    qed
    have zt: "(?xs[j := ?e, q := ?t])[i := ?cut] = ?zs[q := ?t]"
      using qi swap [of ?e] by (metis list_update_swap)
    have "class_of (?zs[q := ?t]) n = (if in_range b l n then Some f else class_of ?xs n)" for n
      using class_of_update [OF inv1 q'(1) fits2, of n] covt [of n] cls1 [of n] tail [of n] clsp [of n] zq
      by (auto simp: covers_def)
    then show ?thesis
      using q(2) one1 qi p1 ext_inv_update [OF inv1 q'(1) fits2] x1
      by (intro finish [of ?pa2]) (simp_all add: zt)
  qed
qed

lemma set_at_start_spec:
  assumes ok: "pa_ok pa" and i: "i < max_ext" and used: "mx_flags (ext_list pa ! i) \<noteq> MX_UNSET"
    and b: "mx_base (ext_list pa ! i) = b" and r: "range_ok b l"
    and le: "unat l \<le> unat (mx_length (ext_list pa ! i))" and f: "real_class f"
  shows "\<exists>pa'. set_at_start (pa_active pa, i) b l f pa = Some pa' \<and> (sets b l f pa pa' \<or> drops b l pa pa')"
proof -
  have one: "one_table pa" and len: "length (ext_list pa) = max_ext"
    using ok by (simp_all add: pa_ok_def ext_inv_def)
  define prev where "prev = (if b \<ge> ucast PAGE_SIZE then intersect_extent (b - ucast PAGE_SIZE) 1 pa else Some None)"
  obtain o' where o': "prev = Some o'" and at: "\<And>q. o' = Some q \<Longrightarrow> \<exists>j < max_ext. q = (pa_active pa, j)"
  proof (cases "b \<ge> ucast PAGE_SIZE")
    case True
    then show ?thesis
      using that intersect_one [OF one] len first_index_Some unfolding prev_def by fastforce
  qed (use that in \<open>auto simp: prev_def\<close>)
  have eq: "set_at_start (pa_active pa, i) b l f pa =
    (case o' of
       Some q \<Rightarrow> if ext_end (ext_at pa q) = b \<and> mx_flags (ext_at pa q) = f
         then Some (set_join q (pa_active pa, i) l pa) else set_head (pa_active pa, i) b l f pa
     | None \<Rightarrow> set_head (pa_active pa, i) b l f pa)"
    using o' by (simp add: set_at_start_def prev_def)
  show ?thesis
  proof (cases o')
    case None
    then show ?thesis
      using eq set_head_spec [OF assms] by simp
  next
    case (Some q)
    then obtain j where j: "j < max_ext" "q = (pa_active pa, j)"
      using at by blast
    show ?thesis
    proof (cases "ext_end (ext_at pa q) = b \<and> mx_flags (ext_at pa q) = f")
      case True
      then show ?thesis
        using eq Some j set_join_spec [OF ok i used b r le j(1) _ _ f] by simp
    next
      case False
      then have "set_at_start (pa_active pa, i) b l f pa = set_head (pa_active pa, i) b l f pa"
        using eq Some by auto
      then show ?thesis
        using set_head_spec [OF assms] by simp
    qed
  qed
qed

text \<open>A free extent of at least \<open>l\<close> pages.\<close>

definition has_free :: "u32 \<Rightarrow> allocator \<Rightarrow> bool" where
  "has_free l pa \<longleftrightarrow> (\<exists>e \<in> set (ext_list pa). mx_flags e = MX_FREE \<and> l \<le> mx_length e)"

lemma has_free_nth:
  assumes "pa_ok pa"
  shows "has_free l pa \<longleftrightarrow> (\<exists>i < max_ext. mx_flags (ext_list pa ! i) = MX_FREE \<and> mx_length (ext_list pa ! i) \<ge> l)"
proof -
  have "length (ext_list pa) = max_ext"
    using assms by (simp add: pa_ok_def ext_inv_def)
  then show ?thesis
    unfolding has_free_def by (metis in_set_conv_nth)
qed

lemma find_free_spec:
  assumes ok: "pa_ok pa"
  shows "\<exists>pa'. find_free_extent l pa = Some pa' \<and> pa_ok pa' \<and> ext_list pa' = ext_list pa
    \<and> pa_active pa' = pa_active pa
    \<and> (if has_free l pa
       then mx_flags (ext_list pa ! ifree_of pa') = MX_FREE \<and> mx_length (ext_list pa ! ifree_of pa') \<ge> l
       else pa' = pa)"
proof -
  let ?P = "\<lambda>p. mx_flags p = MX_FREE \<and> mx_length p \<ge> l"
  have one: "one_table pa" and len: "length (ext_list pa) = max_ext"
    using ok by (simp_all add: pa_ok_def ext_inv_def)
  show ?thesis
  proof (cases "first_index ?P (ext_list pa)")
    case None
    then have "\<not> has_free l pa"
      by (auto simp: has_free_def first_index_None)
    moreover have "find_free_extent l pa = Some pa"
      by (simp add: find_free_extent_def scan_one [OF one] None)
    ultimately show ?thesis
      using ok by auto
  next
    case (Some i)
    have i: "i < max_ext" "?P (ext_list pa ! i)"
      using first_index_Some [OF Some] len by auto
    have has: "has_free l pa"
      unfolding has_free_nth [OF ok] using i by blast
    let ?t = "tables pa (pa_active pa)"
    let ?pa = "set_table (pa_active pa) (?t\<lparr>ifree := of_nat i\<rparr>) pa"
    have x: "ext_list (?pa\<lparr>pa_active := pa_active pa\<rparr>) = ext_list pa"
      "ifree_of (?pa\<lparr>pa_active := pa_active pa\<rparr>) = i" "one_table (?pa\<lparr>pa_active := pa_active pa\<rparr>)"
      using one i by (simp_all add: set_table_def ext_list_def ifree_of_def one_table_def unat_of_nat max_ext_def take_bit_nat_eq_self)
    then have "pa_ok (?pa\<lparr>pa_active := pa_active pa\<rparr>)"
      using ok i by (simp add: pa_ok_def)
    moreover have "find_free_extent l pa = Some (?pa\<lparr>pa_active := pa_active pa\<rparr>)"
      by (simp add: find_free_extent_def scan_one [OF one] Some Let_def)
    ultimately show ?thesis
      using x i has by auto
  qed
qed

definition settable :: "u64 \<Rightarrow> u32 \<Rightarrow> allocator \<Rightarrow> bool" where
  "settable b l pa \<longleftrightarrow>
     (\<exists>e \<in> set (ext_list pa). mx_flags e \<noteq> MX_UNSET \<and> page_of (mx_base e) \<le> page_of b
        \<and> page_of b + unat l \<le> page_of (mx_base e) + unat (mx_length e))
     \<or> (\<forall>n \<in> {page_of b ..< page_of b + unat l}. class_of (ext_list pa) n = None)"

definition two_holes :: "allocator \<Rightarrow> bool" where
  "two_holes pa \<longleftrightarrow> (\<exists>h h'. hole (ext_list pa) h \<and> hole (ext_list pa) h' \<and> h \<noteq> h')"

lemma set_trie_ok [simp]: "pa_ok (set_trie e pa) = pa_ok pa"
  by (simp add: pa_ok_def)

lemma set_extent_tail:
  assumes "intersect_extent b l (set_trie \<lparr>mx_flags = f, mx_base = b, mx_length = l\<rparr> pa) = Some r"
    and "(case r of
        Some p \<Rightarrow> if b = mx_base (ext_at (set_trie \<lparr>mx_flags = f, mx_base = b, mx_length = l\<rparr> pa) p)
          then set_at_start p b l f (set_trie \<lparr>mx_flags = f, mx_base = b, mx_length = l\<rparr> pa)
          else set_middle p b l f (set_trie \<lparr>mx_flags = f, mx_base = b, mx_length = l\<rparr> pa)
      | None \<Rightarrow> add_extent b l f (set_trie \<lparr>mx_flags = f, mx_base = b, mx_length = l\<rparr> pa)) = Some pa1"
    and "pa_ok pa1"
  shows "\<exists>pa'. set_extent b l f pa = Some pa' \<and> pa_ok pa' \<and> ext_list pa' = ext_list pa1 \<and> pa_active pa' = pa_active pa1"
  using assms find_free_spec [OF assms(3), of 0]
  by (auto simp: set_extent_def Let_def)

lemma set_extent_spec:
  assumes ok: "pa_ok pa" and f: "real_class f" and r: "range_ok b l"
    and s: "settable b l pa" and h: "two_holes pa"
  shows "\<exists>pa'. set_extent b l f pa = Some pa' \<and> sets b l f pa pa'"
proof -
  let ?pa = "set_trie \<lparr>mx_flags = f, mx_base = b, mx_length = l\<rparr> pa"
  have ok': "pa_ok ?pa"
    using ok by simp
  obtain h1 h2 where holes: "hole (ext_list ?pa) h1" "hole (ext_list ?pa) h2" "h1 \<noteq> h2"
    using h by (auto simp: two_holes_def)
  have nodrop: "\<not> drops b l ?pa pa'" for pa'
    using holes by (auto simp: drops_def)
  have sets: "sets b l f ?pa pa1 \<Longrightarrow> pa_ok pa1 \<and> (\<forall>pa'. pa_ok pa' \<and> ext_list pa' = ext_list pa1 \<and> pa_active pa' = pa_active pa1 \<longrightarrow> sets b l f pa pa')"
    for pa1
    by (auto simp: sets_def)
  from s [unfolded settable_def] show ?thesis
  proof (elim disjE bexE conjE)
    fix e
    assume e: "e \<in> set (ext_list pa)" "mx_flags e \<noteq> MX_UNSET" "page_of (mx_base e) \<le> page_of b"
      "page_of b + unat l \<le> page_of (mx_base e) + unat (mx_length e)"
    obtain i where i: "i < max_ext" "ext_list ?pa ! i = e"
      using e(1) ok by (auto simp: in_set_conv_nth pa_ok_def ext_inv_def)
    have found: "intersect_extent b l ?pa = Some (Some (pa_active ?pa, i))"
      by (rule intersect_found [OF ok' r i(1)]) (use e i in \<open>auto simp: covers_def in_range_def\<close>)
    have re: "range_ok (mx_base e) (mx_length e)"
      using slot_range [of "ext_list ?pa" i] i e(2) ok by (simp add: pa_ok_def)
    show ?thesis
    proof (cases "b = mx_base e")
      case True
      from set_at_start_spec [OF ok' i(1) _ _ r _ f] i e True nodrop
      obtain pa1 where pa1: "set_at_start (pa_active ?pa, i) b l f ?pa = Some pa1" "sets b l f ?pa pa1"
        by auto
      from set_extent_tail [OF found, of pa1] pa1 sets [OF pa1(2)] i True show ?thesis
        by auto
    next
      case False
      then have "page_of (mx_base e) < page_of b"
        using e(3) range_end(2) [OF re] range_end(2) [OF r] by (auto simp: word_eq_unat le_less)
      from set_middle_spec [OF ok' i(1) _ _ r _ f holes] this i e
      obtain pa1 where pa1: "set_middle (pa_active ?pa, i) b l f ?pa = Some pa1" "sets b l f ?pa pa1"
        by auto
      from set_extent_tail [OF found, of pa1] pa1 sets [OF pa1(2)] i False show ?thesis
        by auto
    qed
  next
    assume free: "\<forall>n \<in> {page_of b ..< page_of b + unat l}. class_of (ext_list pa) n = None"
    then have free': "in_range b l n \<Longrightarrow> class_of (ext_list ?pa) n = None" for n
      by (simp add: in_range_def)
    have found: "intersect_extent b l ?pa = Some None"
      by (rule intersect_none [OF ok' r free'])
    from add_extent_spec [OF ok' f r free'] holes
    obtain pa1 where pa1: "add_extent b l f ?pa = Some pa1" "sets b l f ?pa pa1"
      by (auto simp: sets_def)
    from set_extent_tail [OF found, of pa1] pa1 sets [OF pa1(2)] show ?thesis
      by auto
  qed
qed

subsection \<open>Allocation\<close>

lemma take_free_spec:
  assumes ok: "pa_ok pa" and f: "real_class f" and l: "l \<noteq> 0"
    and free: "mx_flags (ext_list pa ! ifree_of pa) = MX_FREE" "mx_length (ext_list pa ! ifree_of pa) \<ge> l"
  shows "\<exists>mm pa'. take_free l f pa = Some (mm, pa') \<and> mm \<noteq> 0 \<and> range_ok mm l
    \<and> (\<forall>n. in_range mm l n \<longrightarrow> class_of (ext_list pa) n = Some MX_FREE)
    \<and> (sets mm l f pa pa' \<or> drops mm l pa pa')"
proof -
  let ?i = "ifree_of pa"
  let ?e = "ext_list pa ! ?i"
  let ?mm = "mx_base ?e"
  let ?pa = "set_trie \<lparr>mx_flags = f, mx_base = ?mm, mx_length = l\<rparr> pa"
  have i: "?i < max_ext" and inv: "ext_inv (ext_list pa)" and ok': "pa_ok ?pa"
    using ok by (simp_all add: pa_ok_def)
  have re: "range_ok ?mm (mx_length ?e)"
    using slot_range [OF inv i] free(1) by simp
  have le: "unat l \<le> unat (mx_length ?e)"
    using free(2) by (simp add: word_le_nat_alt)
  have r: "range_ok ?mm l"
    using re le l by (auto simp: range_ok_def word_eq_unat)
  have cov: "in_range ?mm l n \<Longrightarrow> covers ?e n" for n
    using free(1) le by (auto simp: covers_def in_range_def)
  have found: "intersect_extent ?mm l ?pa = Some (Some (pa_active ?pa, ?i))"
    by (rule intersect_found [OF ok' r i]) (use cov in simp)
  from set_at_start_spec [OF ok' i _ _ r _ f] free(1) le
  obtain pa1 where pa1: "set_at_start (pa_active ?pa, ?i) ?mm l f ?pa = Some pa1"
    "sets ?mm l f ?pa pa1 \<or> drops ?mm l ?pa pa1"
    by auto
  then have "pa_ok pa1"
    by (auto simp: sets_def drops_def)
  from set_extent_tail [OF found _ this] pa1(1)
  obtain pa' where pa': "set_extent ?mm l f pa = Some pa'" "pa_ok pa'" "ext_list pa' = ext_list pa1"
      "pa_active pa' = pa_active pa1"
    by auto
  have "sets ?mm l f pa pa' \<or> drops ?mm l pa pa'"
    using pa1(2) pa'(2-4) by (auto simp: sets_def drops_def)
  moreover have "?mm \<noteq> 0"
    using r by (auto simp: range_ok_def)
  moreover have "in_range ?mm l n \<Longrightarrow> class_of (ext_list pa) n = Some MX_FREE" for n
    using class_of_covered [OF inv i cov] free(1) by simp
  ultimately show ?thesis
    using r pa'(1) by (auto simp: take_free_def free_ptr_alt)
qed

lemma allocate_free_spec:
  assumes ok: "pa_ok pa" and act: "pa_active pa \<noteq> 0" and f: "real_class f" and l: "l \<noteq> 0"
  shows "(\<exists>mm pa'. allocate_free l f pa = Some (Inl (mm, pa')) \<and> has_free l pa \<and> mm \<noteq> 0 \<and> range_ok mm l
      \<and> (\<forall>n. in_range mm l n \<longrightarrow> class_of (ext_list pa) n = Some MX_FREE)
      \<and> (sets mm l f pa pa' \<or> drops mm l pa pa'))
    \<or> (\<exists>pa'. (allocate_free l f pa = Some (Inl (0, pa')) \<or> allocate_free l f pa = Some (Inr pa'))
      \<and> \<not> has_free l pa \<and> pa_ok pa' \<and> ext_list pa' = ext_list pa \<and> pa_active pa' = pa_active pa)"
proof -
  let ?xs = "ext_list pa"
  have taken: "\<exists>mm pa'. take_free l f p = Some (mm, pa') \<and> mm \<noteq> 0 \<and> range_ok mm l
      \<and> (\<forall>n. in_range mm l n \<longrightarrow> class_of ?xs n = Some MX_FREE)
      \<and> (sets mm l f pa pa' \<or> drops mm l pa pa')"
    if "pa_ok p" "ext_list p = ?xs" "mx_flags (?xs ! ifree_of p) = MX_FREE" "mx_length (?xs ! ifree_of p) \<ge> l"
      "pa_active p = pa_active pa"
    for p
    using take_free_spec [OF that(1) f l] that by (auto simp: sets_def drops_def)
  have has: "has_free l pa" if "pa_ok p" "ext_list p = ?xs" "mx_flags (?xs ! ifree_of p) = MX_FREE"
    "mx_length (?xs ! ifree_of p) \<ge> l" for p
    unfolding has_free_nth [OF ok] using that by (auto simp: pa_ok_def)
  obtain p1 where p1: "(if mx_flags (ext_at pa (free_ptr pa)) \<noteq> MX_FREE then find_free_extent l pa else Some pa) = Some p1"
    "pa_ok p1" "ext_list p1 = ?xs" "pa_active p1 = pa_active pa"
    "mx_flags (?xs ! ifree_of p1) \<noteq> MX_FREE \<Longrightarrow> \<not> has_free l pa"
  proof (cases "mx_flags (ext_at pa (free_ptr pa)) \<noteq> MX_FREE")
    case True
    from find_free_spec [OF ok, of l] obtain p where p: "find_free_extent l pa = Some p" "pa_ok p"
      "ext_list p = ?xs" "pa_active p = pa_active pa"
      "has_free l pa \<Longrightarrow> mx_flags (?xs ! ifree_of p) = MX_FREE"
      by (auto split: if_splits)
    show ?thesis
      by (rule that [of p]) (use p True in auto)
  next
    case False
    then show ?thesis
      using that [of pa] ok by (simp add: free_ptr_alt)
  qed
  have step: "allocate_free l f pa =
      (let pfree = ?xs ! ifree_of p1 in
       if mx_flags pfree \<noteq> MX_FREE then Some (Inl (0, p1))
       else if mx_length pfree \<ge> l then map_option Inl (take_free l f p1)
       else do { p2 \<leftarrow> find_free_extent l p1;
                 let pfree = ext_at p2 (free_ptr p2);
                 if mx_length pfree \<ge> l \<and> mx_flags pfree = MX_FREE then map_option Inl (take_free l f p2)
                 else map_option Inr (find_free_extent 0 p2) })"
    using act p1(1,3) by (simp add: allocate_free_def free_ptr_alt Let_def)
  consider (none) "mx_flags (?xs ! ifree_of p1) \<noteq> MX_FREE"
    | (here) "mx_flags (?xs ! ifree_of p1) = MX_FREE" "mx_length (?xs ! ifree_of p1) \<ge> l"
    | (search) "mx_flags (?xs ! ifree_of p1) = MX_FREE" "\<not> mx_length (?xs ! ifree_of p1) \<ge> l"
    by blast
  then show ?thesis
  proof cases
    case none
    then show ?thesis
      using step p1 by (simp add: Let_def)
  next
    case here
    with step taken [OF p1(2,3) here p1(4)] has [OF p1(2,3) here] show ?thesis
      by (auto simp: Let_def)
  next
    case search
    have hf: "has_free l p1 = has_free l pa"
      by (simp add: has_free_def p1(3))
    from find_free_spec [OF p1(2), of l, unfolded hf p1(3,4)] obtain p2 where p2: "find_free_extent l p1 = Some p2"
      "pa_ok p2" "ext_list p2 = ?xs" "pa_active p2 = pa_active pa"
      "if has_free l pa then mx_flags (?xs ! ifree_of p2) = MX_FREE \<and> mx_length (?xs ! ifree_of p2) \<ge> l else p2 = p1"
      by blast
    show ?thesis
    proof (cases "has_free l pa")
      case True
      with p2 have here: "mx_flags (?xs ! ifree_of p2) = MX_FREE" "mx_length (?xs ! ifree_of p2) \<ge> l"
        by simp_all
      have "allocate_free l f pa = map_option Inl (take_free l f p2)"
        using step search p2(1,3) here by (simp add: Let_def free_ptr_alt)
      with taken [OF p2(2,3) here p2(4)] True show ?thesis
        by auto
    next
      case False
      then have "p2 = p1"
        using p2(5) by simp
      obtain p3 where p3: "find_free_extent 0 p2 = Some p3" "pa_ok p3" "ext_list p3 = ?xs"
        "pa_active p3 = pa_active pa"
        using find_free_spec [OF p2(2), of 0] p2(3,4) by auto
      have "allocate_free l f pa = Some (Inr p3)"
        using step search p2(1,3) p3(1) \<open>p2 = p1\<close> by (simp add: Let_def free_ptr_alt)
      with p3 False show ?thesis
        by auto
    qed
  qed
qed

section \<open>The allocator as a source of pages\<close>

definition take_pages :: "memextent \<Rightarrow> nat \<Rightarrow> allocator \<Rightarrow> (nat \<times> allocator) option" where
  "take_pages f n pa =
     (if n = 0 \<or> n \<ge> 2 ^ 32 then None
      else case allocate_free (of_nat n) f pa of
          Some (Inl (mm, pa')) \<Rightarrow> if mm = 0 then None else Some (page_of mm, pa')
        | _ \<Rightarrow> None)"

definition free_page :: "allocator \<Rightarrow> nat \<Rightarrow> bool" where
  "free_page pa n \<longleftrightarrow> class_of (ext_list pa) n = Some MX_FREE"

definition in_use :: "allocator \<Rightarrow> bool" where
  "in_use pa \<longleftrightarrow> pa_ok pa \<and> pa_active pa \<noteq> 0"

lemma take_pages_spec:
  assumes pa: "in_use pa" and t: "take_pages MX_ALLOC n pa = Some (p, pa')"
  shows "in_use pa' \<and> (\<forall>i. p \<le> i \<and> i < p + n \<longrightarrow> free_page pa i)
    \<and> (\<forall>i. free_page pa' i \<longleftrightarrow> free_page pa i \<and> \<not> (p \<le> i \<and> i < p + n))"
proof -
  from t have n: "0 < n" "n < 2 ^ 32"
    by (auto simp: take_pages_def split: if_splits)
  let ?l = "of_nat n :: u32"
  have ul: "unat ?l = n"
    using n by (simp add: unat_of_nat take_bit_nat_eq_self)
  have l: "?l \<noteq> 0"
    using n ul by (metis less_irrefl unsigned_0)
  have f: "real_class MX_ALLOC"
    by (simp add: real_class_def)
  from t n obtain mm where mm: "allocate_free ?l MX_ALLOC pa = Some (Inl (mm, pa'))" "mm \<noteq> 0" "p = page_of mm"
    by (auto simp: take_pages_def split: option.splits sum.splits prod.splits if_splits)
  from allocate_free_spec [OF _ _ f l, of pa] pa mm
  have r: "range_ok mm ?l" "\<forall>i. in_range mm ?l i \<longrightarrow> class_of (ext_list pa) i = Some MX_FREE"
    "sets mm ?l MX_ALLOC pa pa' \<or> drops mm ?l pa pa'"
    by (auto simp: in_use_def)
  have "in_use pa'"
    using r(3) pa by (auto simp: sets_def drops_def in_use_def)
  moreover have "class_of (ext_list pa') i = Some MX_FREE \<longleftrightarrow>
      class_of (ext_list pa) i = Some MX_FREE \<and> \<not> in_range mm ?l i" for i
    using r(3) by (cases "in_range mm ?l i") (auto simp: sets_def drops_def)
  ultimately show ?thesis
    using r(2) mm(3) by (simp add: free_page_def in_range_def ul)
qed

interpretation pages: page_source "take_pages MX_ALLOC" free_page in_use
proof (unfold_locales, goal_cases)
  case (1 s n p s')
  then show ?case using take_pages_spec [OF 1] by blast
next
  case (2 s n p s' i)
  then show ?case using take_pages_spec [OF 2(1,2)] by blast
next
  case (3 s n p s' i)
  then show ?case using take_pages_spec [OF 3] by blast
qed

section \<open>A fresh allocator\<close>

lemma pa_init_ok: "a \<noteq> 0 \<Longrightarrow> in_use (pa_init a pa)"
proof -
  assume "a \<noteq> 0"
  have l: "ext_list (pa_init a pa) = replicate max_ext unset_extent"
    by (simp add: pa_init_def ext_list_def set_table_def table_init_def Let_def)
  have "one_table (pa_init a pa)"
    by (simp add: one_table_def pa_init_def set_table_def table_init_def Let_def)
  moreover have "ext_inv (replicate max_ext unset_extent)"
    by (auto simp: ext_inv_def ext_ok_def covers_def unset_extent_def)
  moreover have "ifree_of (pa_init a pa) < max_ext"
    by (simp add: ifree_of_def pa_init_def set_table_def table_init_def max_ext_def Let_def)
  moreover have "pa_active (pa_init a pa) = a"
    by (simp add: pa_init_def set_table_def Let_def)
  ultimately show ?thesis
    using \<open>a \<noteq> 0\<close> by (simp add: in_use_def pa_ok_def l)
qed

definition blank_store :: allocator where
  "blank_store = \<lparr>pa_begin = 0, pa_end = 0, pa_active = 0,
     tables = (\<lambda>_. \<lparr>tbl_next = 0, ifree = 0, slots = [], trie = replicate 128 (trie_init TT_UNSET)\<rparr>)\<rparr>"

text \<open>An allocator that manages the pages from 1 MiB to 2 MiB.\<close>

definition small_pa :: allocator where
  "small_pa = put_ext (1, 0) \<lparr>mx_flags = MX_FREE, mx_base = 0x100000, mx_length = 0x100\<rparr> (pa_init 1 blank_store)"

lemma ext_list_blank: "ext_list (pa_init a pa) = replicate max_ext unset_extent"
  by (simp add: pa_init_def ext_list_def set_table_def table_init_def Let_def)

lemma small_list:
  "ext_list small_pa = (replicate max_ext unset_extent)
    [0 := \<lparr>mx_flags = MX_FREE, mx_base = 0x100000, mx_length = 0x100\<rparr>]"
proof -
  have "pa_active (pa_init 1 blank_store) = 1"
    by (simp add: pa_init_def set_table_def Let_def)
  then show ?thesis
    by (simp only: small_pa_def put_ext_simps(1) ext_list_blank)
qed

lemma small_in_use: "in_use small_pa"
proof -
  let ?e = "\<lparr>mx_flags = MX_FREE, mx_base = 0x100000, mx_length = 0x100\<rparr> :: extent"
  have act: "pa_active (pa_init 1 blank_store) = 1"
    by (simp add: pa_init_def set_table_def Let_def)
  have ok: "in_use (pa_init 1 blank_store)"
    by (rule pa_init_ok) simp
  have "fits (ext_list (pa_init 1 blank_store)) 0 ?e"
    unfolding fits_def ext_list_blank
    by (auto simp: ext_ok_def covers_def unset_extent_def)
  from pa_ok_put [OF _ _ this] ok act show ?thesis
    by (simp add: in_use_def small_pa_def max_ext_def)
qed

lemma small_holes: "two_holes small_pa"
proof -
  have "hole (ext_list small_pa) 1" "hole (ext_list small_pa) 2"
    unfolding small_list hole_def by (simp_all add: max_ext_def unset_extent_def)
  then show ?thesis
    unfolding two_holes_def by (metis numeral_eq_one_iff semiring_norm(85))
qed

lemma small_nth: "ext_list small_pa ! 0 = \<lparr>mx_flags = MX_FREE, mx_base = 0x100000, mx_length = 0x100\<rparr>"
  by (simp add: small_list max_ext_def)

lemma small_class: "n \<in> {0x100 ..< 0x200} \<Longrightarrow> class_of (ext_list small_pa) n = Some MX_FREE"
  using class_of_covered [of "ext_list small_pa" 0 n] small_in_use small_nth
  by (simp add: in_use_def pa_ok_def covers_def page_of_def max_ext_def)

section \<open>Properties of the page allocator\<close>

text \<open>C15 \<^verbatim>\<open>set_extent\<close> refines a map from pages to classes: for a page-aligned range below 4 GiB that lies
  in one recorded extent or in none, with two slots left in the table, it returns, gives every page
  of the range the new class, leaves the class of every other page as it was, and keeps the
  recorded extents aligned and disjoint, whichever way it splits, shrinks, merges or retags them.\<close>

theorem set_extent_refines:
  assumes "pa_ok pa" "real_class f" "range_ok b l" "settable b l pa" "two_holes pa"
  shows "\<exists>pa'. set_extent b l f pa = Some pa' \<and> pa_ok pa'
    \<and> (\<forall>n. class_of (ext_list pa') n = (if in_range b l n then Some f else class_of (ext_list pa) n))"
  using set_extent_spec [OF assms] by (auto simp: sets_def)

lemma set_extent_refines_witness:
  "\<exists>pa'. set_extent 0x110000 0x10 MX_FIXED small_pa = Some pa' \<and> class_of (ext_list pa') 0x110 = Some MX_FIXED
     \<and> class_of (ext_list pa') 0x120 = Some MX_FREE"
proof -
  have "range_ok 0x110000 0x10" "real_class MX_FIXED" "pa_ok small_pa"
    using small_in_use by (simp_all add: range_ok_def real_class_def in_use_def)
  moreover have "settable 0x110000 0x10 small_pa"
  proof -
    have "ext_list small_pa ! 0 \<in> set (ext_list small_pa)"
      by (rule nth_mem) (simp add: small_list max_ext_def)
    then show ?thesis
      unfolding settable_def using small_nth by (auto simp: page_of_def intro!: bexI [of _ "ext_list small_pa ! 0"])
  qed
  ultimately show ?thesis
    using set_extent_refines [of small_pa MX_FIXED "0x110000" "0x10", OF _ _ _ _ small_holes] small_class [of "0x120"]
    by (auto simp: in_range_def page_of_def)
qed

text \<open>C16 Allocation takes free pages and only those: when a free extent of the requested length exists,
  \<^verbatim>\<open>allocate\<close> returns a non-zero page-aligned address whose pages were all free, none of them is
  free afterwards, and no page outside the range changes its class; this holds even when the
  table of extents is full.\<close>

theorem allocate_takes_free:
  assumes "pa_ok pa" "pa_active pa \<noteq> 0" "real_class f" "f \<noteq> MX_FREE" "l \<noteq> 0" "has_free l pa"
  shows "\<exists>mm pa'. allocate_free l f pa = Some (Inl (mm, pa')) \<and> mm \<noteq> 0 \<and> range_ok mm l \<and> pa_ok pa'
    \<and> (\<forall>n \<in> {page_of mm ..< page_of mm + unat l}.
        class_of (ext_list pa) n = Some MX_FREE \<and> class_of (ext_list pa') n \<noteq> Some MX_FREE)
    \<and> (\<forall>n. n < page_of mm \<or> page_of mm + unat l \<le> n \<longrightarrow> class_of (ext_list pa') n = class_of (ext_list pa) n)"
proof -
  from allocate_free_spec [OF assms(1-3,5)] assms(6)
  obtain mm pa' where r: "allocate_free l f pa = Some (Inl (mm, pa'))" "mm \<noteq> 0" "range_ok mm l"
    "\<forall>n. in_range mm l n \<longrightarrow> class_of (ext_list pa) n = Some MX_FREE"
    "sets mm l f pa pa' \<or> drops mm l pa pa'"
    by auto
  from r(5) have "pa_ok pa'" "in_range mm l n \<Longrightarrow> class_of (ext_list pa') n \<noteq> Some MX_FREE"
    "\<not> in_range mm l n \<Longrightarrow> class_of (ext_list pa') n = class_of (ext_list pa) n" for n
    using assms(4) by (auto simp: sets_def drops_def)
  with r(1-4) show ?thesis
    by (auto simp: in_range_def)
qed

lemma allocate_takes_free_witness:
  "\<exists>mm pa'. allocate_free 8 MX_ALLOC small_pa = Some (Inl (mm, pa')) \<and> mm \<noteq> 0"
proof -
  have "ext_list small_pa ! 0 \<in> set (ext_list small_pa)"
    by (rule nth_mem) (simp add: small_list max_ext_def)
  then have "has_free 8 small_pa"
    unfolding has_free_def using small_nth by (auto intro!: bexI [of _ "ext_list small_pa ! 0"])
  then show ?thesis
    using allocate_takes_free [of small_pa MX_ALLOC 8] small_in_use
    by (auto simp: in_use_def real_class_def)
qed

text \<open>C17 No page is handed out twice: whatever sequence of allocations is made from an allocator, the runs
  it returns are pairwise disjoint.\<close>

theorem allocations_disjoint:
  assumes "in_use pa"
  shows "sorted_wrt apart (take_all (take_pages MX_ALLOC) ns pa)"
  by (rule pages.runs_apart [OF assms])

lemma allocations_disjoint_witness:
  "sorted_wrt apart (take_all (take_pages MX_ALLOC) [8, 2, 1] small_pa)"
  by (rule allocations_disjoint [OF small_in_use])

text \<open>An extent of 4 GiB or more wraps: its recorded end is wrong. The machine's memory map has such a
  region as soon as it holds more than that above the 4 GiB line.\<close>

lemma ext_end_wraps:
  "ext_end \<lparr>mx_flags = MX_FREE, mx_base = 0x100000000, mx_length = 0x100001\<rparr> = 0x100001000"
  by (simp add: ext_end_def PAGE_SIZE_def)

text \<open>The minimum of \<^verbatim>\<open>aquire\<close> is no minimum, because the integer quotient is zero.\<close>

lemma aquire_length_id: "aquire_length l = l"
  by (simp add: aquire_length_def BLOCKSIZE_def PAGE_SIZE_def)


end
