(* ===== verification/Paging.thy ===== *)
theory Paging
  imports Extents
begin

text \<open>
  The page tables of \<^verbatim>\<open>memory.cpp\<close> and the requests that drive them: translation and mapping of a page,
  the virtual memory requests behind \<^verbatim>\<open>kmalloc\<close>, the growth of an allocator through them, the
  memory map of the boot loader and the initial setup.

  A page of the kernel that holds page directories or tables is an array of 512 entries at its virtual
  address; directories, their shadow indices and tables live in one store \<open>pmem\<close>, so aliasing
  between them is visible. \<open>None\<close> stands for an access through a null pointer.
\<close>

definition Present :: u64 where "Present = 1"
definition Writable :: u64 where "Writable = 2"
definition Usermode :: u64 where "Usermode = 4"
definition WriteThrough :: u64 where "WriteThrough = 8"
definition CacheDisable :: u64 where "CacheDisable = 16"
definition Large :: u64 where "Large = 128"

record mm =
  phymm :: allocator
  vmm :: allocator
  pdtpe :: "nat \<Rightarrow> u64"
  pgdir :: "nat \<Rightarrow> u32"
  pgdir_idx :: "nat \<Rightarrow> u32"
  pmem :: "u32 \<Rightarrow> nat \<Rightarrow> u64"

definition put_entry :: "u32 \<Rightarrow> nat \<Rightarrow> u64 \<Rightarrow> mm \<Rightarrow> mm" where
  "put_entry a i v st = st\<lparr>pmem := (pmem st)(a := (pmem st a)(i := v))\<rparr>"

definition dir_set :: "u32 \<Rightarrow> nat \<Rightarrow> u64 \<Rightarrow> u64 \<Rightarrow> mm \<Rightarrow> mm" where
  "dir_set dir index addr flags =
     put_entry dir index
       (if flags AND Large \<noteq> 0 then (addr AND 0x0007ffffffe00000) OR flags
        else (addr AND 0x0007fffffffff000) OR flags)"

definition idx_set :: "u32 \<Rightarrow> nat \<Rightarrow> u32 \<Rightarrow> mm \<Rightarrow> mm" where
  "idx_set idx index ptr =
     put_entry idx index (if ptr = 0 then 0 else (ucast ptr AND 0xfffff000) OR 1)"

definition idx_get :: "u32 \<Rightarrow> nat \<Rightarrow> mm \<Rightarrow> u32" where
  "idx_get idx index st = ucast (pmem st idx index AND 0xfffff000)"

definition ofs_dp :: "u32 \<Rightarrow> nat" where
  "ofs_dp t = unat (drop_bit 30 t AND 3)"

definition ofs_d :: "u32 \<Rightarrow> nat" where
  "ofs_d t = unat (drop_bit 21 t AND 0x1ff)"

definition ofs_t :: "u32 \<Rightarrow> nat" where
  "ofs_t t = unat (drop_bit 12 t AND 0x1ff)"

text \<open>The masks \<^verbatim>\<open>~0x1ffffful\<close> and \<^verbatim>\<open>~0xffful\<close> are 32 bits wide on this target.\<close>

definition translate_page :: "u32 \<Rightarrow> mm \<Rightarrow> u64" where
  "translate_page t st =
     (let dirptr = pgdir st (ofs_dp t)
      in if dirptr = 0 then 0
         else
           (let tablebase = pmem st dirptr (ofs_d t)
            in if tablebase AND Present = 0 then 0
               else if tablebase AND Large \<noteq> 0 then
                 (tablebase AND ucast (NOT 0x1fffff :: u32)) OR ucast (t AND 0x1fffff)
               else
                 (let ptptr = idx_get (pgdir_idx st (ofs_dp t)) (ofs_d t) st
                  in if ptptr = 0 then 0
                     else (pmem st ptptr (ofs_t t) AND ucast (NOT 0xfff :: u32)) OR ucast (t AND 0xfff))))"

definition count_page_structs :: "u32 \<Rightarrow> u32 \<Rightarrow> mm \<Rightarrow> u32" where
  "count_page_structs t npg st =
     (let eos = t + PAGE_SIZE * npg;
          res = (of_nat (ofs_d eos) - of_nat (ofs_d t)) + (of_nat (ofs_dp eos) - of_nat (ofs_dp t));
          pdi = pgdir_idx st (ofs_dp t);
          lg_flags = Present OR Large
      in if pmem st (pgdir st (ofs_dp t)) (ofs_d t) AND lg_flags = lg_flags then 0
         else if pdi = 0 then res + 2
         else if idx_get pdi (ofs_d t) st = 0 then res + 1
         else res)"

text \<open>The second part of \<^verbatim>\<open>map_page\<close>: the table exists (or has just been made) at \<open>ptptr\<close>.\<close>

definition map_entry :: "u32 \<Rightarrow> u32 \<Rightarrow> u32 \<Rightarrow> u64 \<Rightarrow> u64 \<Rightarrow> u32 \<Rightarrow> u64 \<Rightarrow> mm \<Rightarrow> mm" where
  "map_entry dirptr pdi ptptr tablebase phy t f st =
     (let st = (if tablebase AND Present = 0
                then dir_set dirptr (ofs_d t) (translate_page (idx_get pdi (ofs_d t) st) st) (Present OR Writable) st
                else st)
      in put_entry ptptr (ofs_t t) (phy OR Present OR (f AND 0x1f)) st)"

definition new_table :: "u32 \<Rightarrow> u32 \<Rightarrow> mm \<Rightarrow> (u32 \<times> mm) option" where
  "new_table pdi t st =
     do { (a, v) \<leftarrow> allocate_res 1 MX_ALLOC (vmm st);
          let st = idx_set pdi (ofs_d t) (ucast a) (st\<lparr>vmm := v\<rparr>);
          let ptptr = idx_get pdi (ofs_d t) st;
          if ptptr = 0 then None
          else Some (ptptr, st\<lparr>pmem := (pmem st)(ptptr := (\<lambda>x. if x < 512 then 0 else pmem st ptptr x))\<rparr>) }"

definition map_page :: "u64 \<Rightarrow> u32 \<Rightarrow> u64 \<Rightarrow> mm \<Rightarrow> mm option" where
  "map_page phy t f st =
     (let dirptr = pgdir st (ofs_dp t)
      in if dirptr = 0 then None
         else if f AND Large \<noteq> 0 then
           Some (dir_set dirptr (ofs_d t) phy (Present OR Large OR (f AND (Writable OR Usermode))) st)
         else
           (let tablebase = pmem st dirptr (ofs_d t)
            in if tablebase AND Present \<noteq> 0 \<and> tablebase AND Large \<noteq> 0 then Some st
               else
                 (let pdi = pgdir_idx st (ofs_dp t)
                  in if pdi = 0 then Some st
                     else
                       (let ptptr = idx_get pdi (ofs_d t) st
                        in if ptptr = 0 then
                             do { (ptptr, st) \<leftarrow> new_table pdi t st;
                                  Some (map_entry dirptr pdi ptptr tablebase phy t f st) }
                           else Some (map_entry dirptr pdi ptptr tablebase phy t f st)))))"

section \<open>Requests for virtual memory\<close>

definition RQ_HINT :: u32 where "RQ_HINT = 1"
definition RQ_RW :: u32 where "RQ_RW = 2"
definition RQ_ALLOC :: u32 where "RQ_ALLOC = 4"
definition RQ_EXEC :: u32 where "RQ_EXEC = 8"
definition RQ_LARGE :: u32 where "RQ_LARGE = 0x80"
definition RQ_WCD :: u32 where "RQ_WCD = 0x400"
definition RQ_RCD :: u32 where "RQ_RCD = 0x800"

datatype which = Phys | Virt

definition get_pa :: "which \<Rightarrow> mm \<Rightarrow> allocator" where
  "get_pa w st = (case w of Phys \<Rightarrow> phymm st | Virt \<Rightarrow> vmm st)"

definition put_pa :: "which \<Rightarrow> allocator \<Rightarrow> mm \<Rightarrow> mm" where
  "put_pa w pa st = (case w of Phys \<Rightarrow> st\<lparr>phymm := pa\<rparr> | Virt \<Rightarrow> st\<lparr>vmm := pa\<rparr>)"

text \<open>
  \<^verbatim>\<open>allocate\<close> calls \<^verbatim>\<open>aquire\<close>, which calls \<^verbatim>\<open>vmm_request\<close>, which allocates. Each function takes the next
  one as an argument; \<open>vmm_request\<close> below closes the circle with a bound on the nesting.
\<close>

type_synonym request = "u32 \<Rightarrow> u32 \<Rightarrow> u64 \<Rightarrow> u32 \<Rightarrow> mm \<Rightarrow> (u32 \<times> mm) option"

definition req_allocrange_with ::
  "request \<Rightarrow> (u64 \<Rightarrow> u32 \<Rightarrow> mm \<Rightarrow> mm option) \<Rightarrow> u32 \<Rightarrow> mm \<Rightarrow> (bool \<times> mm) option" where
  "req_allocrange_with request allocadd ml st =
     (let mmb = ml div PAGE_SIZE + (if ml mod PAGE_SIZE > 0 then 1 else 0)
      in do { (bu, st) \<leftarrow> request (mmb * PAGE_SIZE) 0 0 (RQ_RW OR RQ_ALLOC) st;
              if bu = 0 then Some (False, st)
              else do { st \<leftarrow> allocadd (ucast bu) (PAGE_SIZE * mmb) st;
                        Some (True, st) } })"

definition add_memory :: "which \<Rightarrow> u64 \<Rightarrow> u32 \<Rightarrow> mm \<Rightarrow> mm option" where
  "add_memory w cba cbl st =
     do { pa \<leftarrow> add_extent cba cbl MX_FREE (get_pa w st);
          Some (put_pa w pa st) }"

definition aquire_with :: "request \<Rightarrow> which \<Rightarrow> u32 \<Rightarrow> mm \<Rightarrow> (bool \<times> mm) option" where
  "aquire_with request w l st = req_allocrange_with request (add_memory w) (aquire_length l) st"

definition allocate_with :: "request \<Rightarrow> which \<Rightarrow> u32 \<Rightarrow> memextent \<Rightarrow> mm \<Rightarrow> (u64 \<times> mm) option" where
  "allocate_with request w l f st =
     do { r \<leftarrow> allocate_free l f (get_pa w st);
          case r of
            Inl (mm, pa) \<Rightarrow> Some (mm, put_pa w pa st)
          | Inr pa \<Rightarrow>
              do { (ok, st) \<leftarrow> aquire_with request w l (put_pa w pa st);
                   if ok then
                     do { (mm, pa) \<leftarrow> take_free l f (get_pa w st);
                          pa \<leftarrow> find_free_extent 1 pa;
                          Some (mm, put_pa w pa st) }
                   else Some (0, st) } }"

text \<open>The loop that maps freshly allocated page tables; \<open>False\<close> reports a failed allocation.\<close>

fun map_structs :: "request \<Rightarrow> nat \<Rightarrow> u32 \<Rightarrow> mm \<Rightarrow> (bool \<times> mm) option" where
  "map_structs request 0 bu st = Some (True, st)"
| "map_structs request (Suc pgsr) bu st =
     do { (ph, st) \<leftarrow> allocate_with request Phys 1 MX_ALLOC st;
          if ph = 0 then Some (False, st)
          else do { st \<leftarrow> map_page ph bu Writable st;
                    map_structs request pgsr (bu + PAGE_SIZE) st } }"

text \<open>\<^verbatim>\<open>do \<dots> while(bega < enda)\<close>, with fresh physical pages and with given ones.\<close>

partial_function (option) map_fresh ::
  "request \<Rightarrow> u32 \<Rightarrow> u64 \<Rightarrow> u32 \<Rightarrow> u32 \<Rightarrow> mm \<Rightarrow> (bool \<times> mm) option" where
  "map_fresh request pg_size mapflag bega enda st =
     do { (ph, st) \<leftarrow> allocate_with request Phys 1 MX_ALLOC st;
          if ph = 0 then Some (False, st)
          else do { st \<leftarrow> map_page ph bega mapflag st;
                    if bega + pg_size < enda then map_fresh request pg_size mapflag (bega + pg_size) enda st
                    else Some (True, st) } }"

partial_function (option) map_given ::
  "u32 \<Rightarrow> u64 \<Rightarrow> u64 \<Rightarrow> u32 \<Rightarrow> u32 \<Rightarrow> mm \<Rightarrow> mm option" where
  "map_given pg_size mapflag phys bega enda st =
     do { st \<leftarrow> map_page phys bega mapflag st;
          if bega + pg_size < enda then map_given pg_size mapflag (phys + ucast pg_size) (bega + pg_size) enda st
          else Some st }"

definition map_flags :: "u32 \<Rightarrow> u64" where
  "map_flags flag =
     (if flag AND RQ_RW \<noteq> 0 then Writable else 0) OR (if flag AND RQ_RCD \<noteq> 0 then CacheDisable else 0)
     OR (if flag AND RQ_WCD \<noteq> 0 then WriteThrough else 0) OR (if flag AND RQ_LARGE \<noteq> 0 then Large else 0)"

text \<open>Choosing the range: \<open>None\<close> inside the result is the early return of a null pointer.\<close>

definition choose_range ::
  "request \<Rightarrow> u32 \<Rightarrow> u32 \<Rightarrow> u32 \<Rightarrow> mm \<Rightarrow> ((u32 \<times> u32) option \<times> mm) option" where
  "choose_range request sz hint flag st =
     (let f = (if flag AND RQ_ALLOC = 0 then MX_IO else MX_ALLOC);
          low = PAGE_SIZE - 1
      in if flag AND RQ_HINT \<noteq> 0 then
           (let bega = hint AND NOT low;
                enda = bega + (sz AND NOT low);
                enda = (if sz AND low \<noteq> 0 then enda + PAGE_SIZE else enda)
            in if enda \<le> bega then Some (None, st)
               else if bega < 0x10000 then Some (None, st)
               else do { v \<leftarrow> set_extent (ucast bega) ((enda - bega) div PAGE_SIZE) f (vmm st);
                         Some (Some (bega, enda), st\<lparr>vmm := v\<rparr>) })
         else
           (let pgc = (sz AND NOT low) div PAGE_SIZE;
                pgc = (if sz AND low \<noteq> 0 then pgc + 1 else pgc)
            in do { (b, st) \<leftarrow> allocate_with request Virt pgc f st;
                    let bega = ucast b;
                    let enda = bega + pgc * PAGE_SIZE;
                    if enda < bega then Some (None, st) else Some (Some (bega, enda), st) }))"

definition prepare_structs :: "request \<Rightarrow> u32 \<Rightarrow> u32 \<Rightarrow> mm \<Rightarrow> (bool \<times> mm) option" where
  "prepare_structs request bega enda st =
     (let pgc = (enda - bega) div PAGE_SIZE;
          pgsr = count_page_structs bega pgc st
      in if pgsr = 0 then Some (True, st)
         else
           do { pre \<leftarrow> find_type_extent 1 MX_PRE (vmm st);
                let pgsr = (if pre = None then pgsr + 8 else pgsr);
                (bu, st) \<leftarrow> allocate_with request Virt pgsr MX_PRE st;
                if bu = 0 then Some (False, st)
                else map_structs request (unat pgsr) (ucast bu) st })"

definition vmm_request_with :: "request \<Rightarrow> request" where
  "vmm_request_with request sz hint phys flag st =
     (let mapflag = map_flags flag;
          pg_size = (if flag AND RQ_LARGE \<noteq> 0 then 0x200000 else PAGE_SIZE)
      in do { (range, st) \<leftarrow> choose_range request sz hint flag st;
              case range of
                None \<Rightarrow> Some (0, st)
              | Some (bega, enda) \<Rightarrow>
                  do { (ok, st) \<leftarrow> if flag AND RQ_LARGE = 0 then prepare_structs request bega enda st
                                    else Some (True, st);
                       if \<not> ok then Some (0, st)
                       else if flag AND RQ_ALLOC \<noteq> 0 then
                         do { (ok, st) \<leftarrow> map_fresh request pg_size mapflag bega enda st;
                              Some (if ok then bega else 0, st) }
                       else
                         do { st \<leftarrow> map_given pg_size mapflag phys bega enda st;
                              Some (bega, st) } } })"

fun vmm_request :: "nat \<Rightarrow> request" where
  "vmm_request 0 = (\<lambda>sz hint phys flag st. None)"
| "vmm_request (Suc n) = vmm_request_with (vmm_request n)"

definition mem_allocate :: "nat \<Rightarrow> which \<Rightarrow> u32 \<Rightarrow> memextent \<Rightarrow> mm \<Rightarrow> (u64 \<times> mm) option" where
  "mem_allocate n = allocate_with (vmm_request n)"

definition kmalloc :: "nat \<Rightarrow> u32 \<Rightarrow> mm \<Rightarrow> (u32 \<times> mm) option" where
  "kmalloc n l st = vmm_request n l 0 0 (RQ_RW OR RQ_ALLOC) st"

section \<open>Start-up\<close>

record memmap =
  mm_start :: u64
  mm_size :: u64
  mm_type :: u32

fun load_memmap :: "memmap list \<Rightarrow> allocator \<Rightarrow> allocator option" where
  "load_memmap [] pa = Some pa"
| "load_memmap (e # es) pa =
     (if mm_start e < 0x100000 then load_memmap es pa
      else if mm_size e AND ucast (PAGE_SIZE - 1) \<noteq> 0 then load_memmap es pa
      else if mm_type e \<noteq> 2 then
        do { pa \<leftarrow> set_extent (mm_start e) (ucast (drop_bit 12 (mm_size e)))
               (if mm_type e = 1 then MX_FREE else MX_FIXED) pa;
             load_memmap es pa }
      else load_memmap es pa)"

text \<open>The two allocators after \<^verbatim>\<open>initialize\<close>; the addresses are the linker's symbols.\<close>

definition init_phymm :: "nat \<Rightarrow> u32 \<Rightarrow> u32 \<Rightarrow> u32 \<Rightarrow> memmap list \<Rightarrow> request \<Rightarrow> mm \<Rightarrow> mm option" where
  "init_phymm a kp_start k_pages k_reserved_after es request st =
     do { pa \<leftarrow> load_memmap es (pa_init a (phymm st));
          pa \<leftarrow> set_extent (ucast kp_start) k_pages MX_FIXED pa;
          pa \<leftarrow> set_extent (ucast (kp_start + k_pages * PAGE_SIZE)) k_reserved_after MX_PRE pa;
          (_, st) \<leftarrow> allocate_with request Phys 8 MX_ALLOC (st\<lparr>phymm := pa\<rparr>);
          (_, st) \<leftarrow> allocate_with request Phys 2 MX_ALLOC st;
          Some st }"

definition init_vmm :: "nat \<Rightarrow> u32 \<Rightarrow> u32 \<Rightarrow> u32 \<Rightarrow> request \<Rightarrow> mm \<Rightarrow> mm option" where
  "init_vmm a kv_start k_pages k_reserved_after request st =
     do { pa \<leftarrow> set_extent 0xc0000000 0x3fff0 MX_FREE (pa_init a (vmm st));
          pa \<leftarrow> set_extent 0xc0000000 0x100 MX_FIXED pa;
          pa \<leftarrow> set_extent (ucast kv_start) k_pages MX_FIXED pa;
          pa \<leftarrow> set_extent (ucast (kv_start + k_pages * PAGE_SIZE)) k_reserved_after MX_PRE pa;
          (_, st) \<leftarrow> allocate_with request Virt 8 MX_ALLOC (st\<lparr>vmm := pa\<rparr>);
          (_, st) \<leftarrow> allocate_with request Virt 2 MX_ALLOC st;
          Some st }"

text \<open>The top directory maps its first 2 MiB to physical memory; every other entry is cleared.\<close>

fun init_top :: "nat \<Rightarrow> mm \<Rightarrow> mm" where
  "init_top 0 st = st"
| "init_top (Suc i) st =
     (let st = init_top i st;
          st = dir_set (pgdir st 3) i 0 (if i < 1 then Large OR Writable OR Present else 0) st
      in idx_set (pgdir_idx st 3) i 0 st)"

fun init_low :: "nat \<Rightarrow> mm \<Rightarrow> mm" where
  "init_low 0 st = st"
| "init_low (Suc i) st =
     (let st = init_low i st;
          st = dir_set (pgdir st 0) i 0 0 st;
          st = dir_set (pgdir st 1) i 0 0 st;
          st = dir_set (pgdir st 2) i 0 0 st;
          st = idx_set (pgdir_idx st 0) i 0 st;
          st = idx_set (pgdir_idx st 1) i 0 st
      in idx_set (pgdir_idx st 2) i 0 st)"

text \<open>The directories and indices alternate in the pages from \<open>blockptr\<close> on; the last index is the
  boot code's.\<close>

definition init_pdpt :: "u32 \<Rightarrow> mm \<Rightarrow> mm" where
  "init_pdpt blockptr st =
     st\<lparr>pgdir := (\<lambda>i. if i < 4 then blockptr + of_nat (2 * i) * PAGE_SIZE else pgdir st i),
        pgdir_idx := (\<lambda>i. if i < 3 then blockptr + of_nat (2 * i + 1) * PAGE_SIZE else pgdir_idx st i)\<rparr>"

definition link_pdpt :: "u32 \<Rightarrow> mm \<Rightarrow> mm" where
  "link_pdpt phyptr st =
     st\<lparr>pdtpe := (\<lambda>i. if i < 4 then ucast (pgdir st i - phyptr) OR Present else pdtpe st i)\<rparr>"

definition mem_initialize ::
  "u32 \<Rightarrow> u32 \<Rightarrow> u32 \<Rightarrow> memmap list \<Rightarrow> request \<Rightarrow> mm \<Rightarrow> mm option" where
  "mem_initialize kv_start kp_start kv_end es request st =
     (let phyptr = kv_start - kp_start;
          k_pages = drop_bit 12 (kv_end - kv_start);
          k_lg_pages = drop_bit 9 k_pages + (if k_pages AND 511 \<noteq> 0 then 1 else 0);
          k_reserved_after = push_bit 9 k_lg_pages - k_pages;
          st = init_pdpt kv_end st;
          blockptr = kv_end + 7 * PAGE_SIZE
      in do { st \<leftarrow> init_phymm (unat blockptr) kp_start k_pages k_reserved_after es request st;
              st \<leftarrow> init_vmm (unat (blockptr + PAGE_SIZE)) kv_start k_pages k_reserved_after request st;
              Some (init_low 512 (link_pdpt phyptr (init_top 512 st))) })"

section \<open>Page numbers\<close>

lemma ofs_nat:
  "ofs_t t = unat t div 4096 mod 512" "ofs_d t = unat t div 2097152 mod 512"
  "ofs_dp t = unat t div 1073741824 mod 4"
  using and_mask_nat [of "drop_bit 12 t" 9] and_mask_nat [of "drop_bit 21 t" 9] and_mask_nat [of "drop_bit 30 t" 2]
  by (simp_all add: ofs_t_def ofs_d_def ofs_dp_def mask_eq_exp_minus_1 drop_bit_eq_div unat_div_distrib)

lemma page_split:
  "unat t div 4096 = ofs_dp t * 262144 + ofs_d t * 512 + ofs_t (t :: u32)"
proof -
  define q where "q = unat t div 4096"
  have "unat t < 2 ^ 32"
    using unsigned_less [of t, where ?'a = nat] by simp
  then have q: "q < 1048576"
    by (simp add: q_def less_mult_imp_div_less)
  have "ofs_t t = q mod 512" "ofs_d t = q div 512 mod 512" "ofs_dp t = q div 262144 mod 4"
    by (simp_all add: ofs_nat q_def div_mult2_eq [symmetric])
  moreover have "q div 262144 mod 4 = q div 262144"
    using q by (simp add: less_mult_imp_div_less)
  moreover have "q div 262144 = q div 512 div 512"
    by (simp add: div_mult2_eq [symmetric])
  moreover have "q div 512 * 512 + q mod 512 = q" "q div 512 div 512 * 512 + q div 512 mod 512 = q div 512"
    by (rule div_mult_mod_eq)+
  ultimately show ?thesis
    unfolding q_def [symmetric] by linarith
qed

definition same_page :: "u32 \<Rightarrow> u32 \<Rightarrow> bool" where
  "same_page t u \<longleftrightarrow> unat t div 4096 = unat u div 4096"

lemma same_page_ofs:
  "same_page t u \<longleftrightarrow> ofs_dp t = ofs_dp u \<and> ofs_d t = ofs_d u \<and> ofs_t t = ofs_t u"
proof
  assume s: "same_page t u"
  have "unat x div 2097152 = unat x div 4096 div 512" "unat x div 1073741824 = unat x div 4096 div 262144" for x :: u32
    by (simp_all add: div_mult2_eq [symmetric])
  with s show "ofs_dp t = ofs_dp u \<and> ofs_d t = ofs_d u \<and> ofs_t t = ofs_t u"
    by (simp add: ofs_nat same_page_def)
next
  assume "ofs_dp t = ofs_dp u \<and> ofs_d t = ofs_d u \<and> ofs_t t = ofs_t u"
  then show "same_page t u"
    by (simp add: same_page_def page_split)
qed

lemma ofs_bounds: "ofs_dp t < 4" "ofs_d t < 512" "ofs_t t < 512"
  by (simp_all add: ofs_nat)

section \<open>Mapping and translating\<close>

text \<open>
  The page of \<open>t\<close> has a page table, present in the directory, and that table is used for nothing else.
\<close>

definition table_of :: "u32 \<Rightarrow> mm \<Rightarrow> u32" where
  "table_of t st = idx_get (pgdir_idx st (ofs_dp t)) (ofs_d t) st"

definition has_table :: "u32 \<Rightarrow> mm \<Rightarrow> bool" where
  "has_table t st \<longleftrightarrow> pgdir st (ofs_dp t) \<noteq> 0 \<and> pgdir_idx st (ofs_dp t) \<noteq> 0 \<and> table_of t st \<noteq> 0
     \<and> pmem st (pgdir st (ofs_dp t)) (ofs_d t) AND Present \<noteq> 0
     \<and> pmem st (pgdir st (ofs_dp t)) (ofs_d t) AND Large = 0"

definition own_table :: "u32 \<Rightarrow> mm \<Rightarrow> bool" where
  "own_table t st \<longleftrightarrow>
     (\<forall>dp \<in> {0..<4}. pgdir st dp \<noteq> table_of t st \<and> pgdir_idx st dp \<noteq> table_of t st)
     \<and> (\<forall>dp \<in> {0..<4}. \<forall>d \<in> {0..<512}.
          idx_get (pgdir_idx st dp) d st = table_of t st \<longrightarrow> dp = ofs_dp t \<and> d = ofs_d t)"

lemma pte_frame:
  fixes phy f :: u64
  shows "(phy OR Present OR (f AND 0x1f)) AND ucast (NOT 0xfff :: u32) = phy AND 0xfffff000"
proof -
  have m: "(ucast (NOT 0xfff :: u32) :: u64) = 0xfffff000"
    by simp
  have "Present AND 0xfffff000 = 0" "(0x1f :: u64) AND 0xfffff000 = 0"
    by (simp_all add: Present_def)
  then have "(phy OR Present OR (f AND 0x1f)) AND 0xfffff000 = phy AND 0xfffff000"
    by (simp add: bit.conj_disj_distrib2 and.assoc)
  then show ?thesis
    by (simp only: m)
qed

lemma map_page_existing:
  assumes "has_table t st" "f AND Large = 0"
  shows "map_page phy t f st = Some (put_entry (table_of t st) (ofs_t t) (phy OR Present OR (f AND 0x1f)) st)"
  using assms by (simp add: map_page_def has_table_def table_of_def map_entry_def Let_def)

lemma translate_page_alt:
  "translate_page u st =
     (let b = pmem st (pgdir st (ofs_dp u)) (ofs_d u)
      in if pgdir st (ofs_dp u) = 0 \<or> b AND Present = 0 then 0
         else if b AND Large \<noteq> 0 then (b AND ucast (NOT 0x1fffff :: u32)) OR ucast (u AND 0x1fffff)
         else if table_of u st = 0 then 0
         else (pmem st (table_of u st) (ofs_t u) AND ucast (NOT 0xfff :: u32)) OR ucast (u AND 0xfff))"
  by (simp only: translate_page_def table_of_def Let_def) simp

lemma translate_put:
  assumes own: "own_table t st" and has: "has_table t st"
  shows "translate_page u (put_entry (table_of t st) (ofs_t t) v st) =
    (if same_page t u then (v AND ucast (NOT 0xfff :: u32)) OR ucast (u AND 0xfff) else translate_page u st)"
proof -
  let ?st = "put_entry (table_of t st) (ofs_t t) v st"
  have p: "pgdir ?st = pgdir st" "pgdir_idx ?st = pgdir_idx st"
    by (simp_all add: put_entry_def)
  have dir: "pmem ?st (pgdir st (ofs_dp u)) = pmem st (pgdir st (ofs_dp u))"
    and idx: "pmem ?st (pgdir_idx st (ofs_dp u)) = pmem st (pgdir_idx st (ofs_dp u))"
    using own ofs_bounds [of u] by (simp_all add: own_table_def put_entry_def)
  have get: "table_of u ?st = table_of u st"
    by (simp only: idx_get_def idx p table_of_def [of u])
  have only: "table_of u st = table_of t st \<longleftrightarrow> ofs_dp u = ofs_dp t \<and> ofs_d u = ofs_d t"
    using own ofs_bounds [of u] by (auto simp: own_table_def table_of_def)
  show ?thesis
  proof (cases "table_of u st = table_of t st")
    case True
    then have o: "ofs_dp u = ofs_dp t" "ofs_d u = ofs_d t"
      using only by simp_all
    have s: "same_page t u \<longleftrightarrow> ofs_t t = ofs_t u"
      using o by (auto simp: same_page_ofs)
    have e: "pmem ?st (table_of t st) (ofs_t u) = (if ofs_t t = ofs_t u then v else pmem st (table_of t st) (ofs_t u))"
      by (simp add: put_entry_def)
    show ?thesis
      unfolding translate_page_alt p dir get True e
      using has o s by (simp add: has_table_def Let_def)
  next
    case False
    then have "\<not> same_page t u"
      using only by (auto simp: same_page_ofs)
    moreover have "pmem ?st (table_of u st) = pmem st (table_of u st)"
      using False by (simp add: put_entry_def)
    ultimately show ?thesis
      unfolding translate_page_alt p dir get by (simp only: if_False Let_def)
  qed
qed

section \<open>Properties of the page tables\<close>

text \<open>C18 Mapping a small page through its own page table makes exactly that page translate to the given
  frame: every address of the page is translated to the frame plus its offset, every address of
  any other page is translated as before. The frame is cut to its low 32 bits, because the masks
  of \<^verbatim>\<open>translate_page\<close> are 32 bits wide: frames above 4 GiB are mapped but reported wrong.\<close>

theorem map_page_translates:
  assumes "has_table t st" "own_table t st" "f AND Large = 0"
  shows "\<exists>st'. map_page phy t f st = Some st' \<and>
    (\<forall>u. translate_page u st' =
       (if same_page t u then (phy AND 0xfffff000) OR ucast (u AND 0xfff) else translate_page u st))"
  unfolding map_page_existing [OF assms(1,3)] using translate_put [OF assms(2,1)] pte_frame [of phy f]
  by simp

definition sample_mm :: mm where
  "sample_mm = \<lparr>phymm = blank_store, vmm = blank_store, pdtpe = (\<lambda>_. 0),
     pgdir = (\<lambda>i. 0x1000 * of_nat (i + 1)), pgdir_idx = (\<lambda>i. 0x11000 + 0x1000 * of_nat i),
     pmem = (\<lambda>a i. if a = 0x4000 \<and> i = 3 then 3 else if a = 0x14000 \<and> i = 3 then 0x21001 else 0)\<rparr>"

lemma all_below_4: "(\<forall>dp \<in> {0..<4 :: nat}. P dp) \<longleftrightarrow> P 0 \<and> P 1 \<and> P 2 \<and> P 3"
  by (auto simp: numeral_eq_Suc less_Suc_eq)

lemma sample_mm_tables: "has_table 0xc0600000 sample_mm" "own_table 0xc0600000 sample_mm"
proof -
  have o: "ofs_dp 0xc0600000 = 3" "ofs_d 0xc0600000 = 3"
    by (simp_all add: ofs_nat)
  have t: "table_of 0xc0600000 sample_mm = 0x21000"
    by (simp add: table_of_def o idx_get_def sample_mm_def)
  show "has_table 0xc0600000 sample_mm"
    unfolding has_table_def t o by (simp add: sample_mm_def Present_def Large_def)
  show "own_table 0xc0600000 sample_mm"
    unfolding own_table_def t o all_below_4 by (auto simp: sample_mm_def idx_get_def)
qed

lemma map_page_translates_witness:
  "\<exists>st'. map_page 0x345000 0xc0600000 2 sample_mm = Some st' \<and> translate_page 0xc0600abc st' = 0x345abc"
  using map_page_translates [OF sample_mm_tables, of 2 "0x345000"]
  by (auto simp: Large_def same_page_def dest!: spec [of _ "0xc0600abc"])

end
