(* ===== verification/Wire.thy ===== *)
theory Wire
  imports Prelude
begin

text \<open>
  The bytes of a packet (\<^verbatim>\<open>net/packet.hpp\<close>) and the Internet checksum (\<^verbatim>\<open>ipchksum\<close> in
  \<^verbatim>\<open>net/queue.cpp\<close>), with the headers that carry it. A buffer is a byte-addressed region; loads and
  stores of 16 and 32 bits are little-endian, and \<^verbatim>\<open>nw\<close> loads in network order.
\<close>

section \<open>Accessors of a packet\<close>

definition pk_nw :: "bytes \<Rightarrow> nat \<Rightarrow> u16" where
  "pk_nw = ix_ldnw"

definition pk_w :: "bytes \<Rightarrow> nat \<Rightarrow> u16" where
  "pk_w m a = ld16 m a"

definition pk_i :: "bytes \<Rightarrow> nat \<Rightarrow> u32" where
  "pk_i m a = ucast (pk_w m a) OR push_bit 16 (ucast (pk_w m (a + 2)))"

definition set_w :: "nat \<Rightarrow> u16 \<Rightarrow> bytes \<Rightarrow> bytes" where
  "set_w a v m = st16 m a v"

definition set_i :: "nat \<Rightarrow> u32 \<Rightarrow> bytes \<Rightarrow> bytes" where
  "set_i a v m = st32 m a v"

definition set_b :: "nat \<Rightarrow> u8 \<Rightarrow> bytes \<Rightarrow> bytes" where
  "set_b a v m = m(a := v)"

text \<open>The pseudo header of UDP: addresses and protocol of the IP header at offset 14.\<close>

definition psudo_check :: "bytes \<Rightarrow> u32" where
  "psudo_check m =
     (let b = (\<lambda>i. ucast (m (14 + i)) :: u32);
          ip_precheck = b 9 + b 13 + b 15 + b 17 + b 19;
          checkhi = b 12 + b 14 + b 16 + b 18
      in ip_precheck + push_bit 8 checkhi)"

section \<open>The checksum\<close>

text \<open>\<^verbatim>\<open>for(unsigned q = 0;;) { checkhi += buf[q]; in_check += buf[q+1]; q += 2; if(q >= len) break; }\<close>\<close>

function sum_loop :: "bytes \<Rightarrow> nat \<Rightarrow> nat \<Rightarrow> nat \<Rightarrow> u32 \<Rightarrow> u32 \<Rightarrow> u32 \<times> u32" where
  "sum_loop m a q len checkhi in_check =
     (let checkhi = checkhi + ucast (m (a + q));
          in_check = in_check + ucast (m (a + q + 1))
      in if q + 2 \<ge> len then (checkhi, in_check)
         else sum_loop m a (q + 2) len checkhi in_check)"
  by pat_completeness auto
termination
  by (relation "measure (\<lambda>(m, a, q, len, h, c). len - q)") auto

declare sum_loop.simps [simp del]

lemma carry_fold_less:
  fixes c :: u32
  assumes "c AND 0xffff0000 \<noteq> 0"
  shows "unat ((c AND 0xffff) + drop_bit 16 c) = unat c mod 65536 + unat c div 65536"
    and "65536 \<le> unat c"
proof -
  have lo: "unat (c AND 0xffff) = unat c mod 65536"
    using and_mask_nat [of c 16] by (simp add: mask_eq_exp_minus_1)
  have hi: "unat (drop_bit 16 c) = unat c div 65536"
    by (simp add: drop_bit_eq_div unat_div_distrib)
  have "unat c < 4294967296"
    using unsigned_less [of c, where ?'a = nat] by simp
  then have "unat c div 65536 < 65536"
    by (simp add: less_mult_imp_div_less)
  then show "unat ((c AND 0xffff) + drop_bit 16 c) = unat c mod 65536 + unat c div 65536"
    by (subst unat_add_no_wrap) (simp_all only: lo hi, simp_all add: add_less_mono [of _ 65536 _ 65536, simplified])
  show "65536 \<le> unat c"
  proof (rule ccontr)
    assume "\<not> 65536 \<le> unat c"
    then have "take_bit 16 c = c"
      by (simp add: word_eq_unat unsigned_take_bit_eq take_bit_nat_eq_self)
    moreover have "take_bit 16 c AND 0xffff0000 = 0"
      by (simp add: take_bit_eq_mask mask_eq_exp_minus_1 and.assoc)
    ultimately show False
      using assms by simp
  qed
qed

text \<open>\<^verbatim>\<open>while(in_check & 0xffff0000u) in_check = (in_check & 0xffff) + (in_check >> 16)\<close>\<close>

function carry_fold :: "u32 \<Rightarrow> u32" where
  "carry_fold c = (if c AND 0xffff0000 \<noteq> 0 then carry_fold ((c AND 0xffff) + drop_bit 16 c) else c)"
  by pat_completeness auto
termination
proof (relation "measure unat")
  show "wf (measure unat)" by simp
  fix c :: u32
  assume c: "c AND 0xffff0000 \<noteq> 0"
  have "unat c mod 65536 + unat c div 65536 < unat c"
  proof -
    have "1 \<le> unat c div 65536"
      using carry_fold_less(2) [OF c] by (simp add: le_div_geq)
    moreover have "unat c div 65536 * 65536 + unat c mod 65536 = unat c"
      by (rule div_mult_mod_eq)
    ultimately show ?thesis
      by linarith
  qed
  then show "((c AND 0xffff) + drop_bit 16 c, c) \<in> measure unat"
    using carry_fold_less(1) [OF c] by simp
qed

declare carry_fold.simps [simp del]

definition ipchksum :: "bytes \<Rightarrow> nat \<Rightarrow> u16 \<Rightarrow> u32 \<Rightarrow> u16" where
  "ipchksum m a len in_check =
     (let (checkhi, in_check) = sum_loop m a 0 (unat len) 0 in_check;
          checkhi = (if len AND 1 \<noteq> 0 then checkhi + ucast (m (a + unat len - 1)) else checkhi)
      in ucast (carry_fold (in_check + push_bit 8 checkhi)))"

section \<open>The checksum as a sum modulo 65535\<close>

text \<open>The sum of \<open>n\<close> network-order words from \<open>a\<close> on.\<close>

fun words_sum :: "bytes \<Rightarrow> nat \<Rightarrow> nat \<Rightarrow> nat" where
  "words_sum m a 0 = 0"
| "words_sum m a (Suc n) = 256 * unat (m a) + unat (m (a + 1)) + words_sum m (a + 2) n"

lemma words_sum_bound: "words_sum m a n \<le> n * 65535"
proof (induction n arbitrary: a)
  case 0
  then show ?case by simp
next
  case (Suc n)
  have "unat (m a) < 256" "unat (m (a + 1)) < 256"
    using unsigned_less [of "m a", where ?'a = nat] unsigned_less [of "m (a + 1)", where ?'a = nat] by simp_all
  with Suc [of "a + 2"] show ?case by simp
qed

text \<open>\<open>folded s r\<close>: \<open>r\<close> is the 16-bit sum with end-around carry of a total \<open>s\<close>.\<close>

definition folded :: "nat \<Rightarrow> nat \<Rightarrow> bool" where
  "folded s r \<longleftrightarrow> r < 65536 \<and> r mod 65535 = s mod 65535 \<and> (r = 0 \<longleftrightarrow> s = 0)"

lemma fold_mod: "(n mod 65536 + n div 65536) mod 65535 = n mod (65535 :: nat)"
proof -
  have "n = n div 65536 * 65535 + (n mod 65536 + n div 65536)"
    using div_mult_mod_eq [of n 65536] by linarith
  then show ?thesis
    by (metis mod_mult_self3)
qed

lemma carry_fold_folded: "folded (unat c) (unat (carry_fold c))"
proof (induction c rule: carry_fold.induct)
  case (1 c)
  show ?case
  proof (cases "c AND 0xffff0000 = 0")
    case True
    have "unat c < 65536"
    proof -
      have m: "(0xffff0000 :: u32) = NOT (mask 16)"
        by (simp add: mask_eq_exp_minus_1)
      have "c = take_bit 16 c OR (c AND NOT (mask 16))"
        by (rule bit_word_eqI) (auto simp: bit_simps)
      with True have "c = take_bit 16 c"
        by (simp add: m)
      then have "unat c = take_bit 16 (unat c)"
        by (metis unsigned_take_bit_eq)
      with take_bit_nat_less_exp [of 16 "unat c"] show ?thesis
        by simp
    qed
    with True show ?thesis
      by (subst carry_fold.simps) (simp add: folded_def)
  next
    case False
    have "unat c \<noteq> 0"
      using carry_fold_less(2) [OF False] by simp
    moreover have "unat c mod 65536 + unat c div 65536 \<noteq> 0"
      using carry_fold_less(2) [OF False] by (simp add: div_eq_0_iff)
    ultimately show ?thesis
      using "1.IH" [OF False] False
      by (subst carry_fold.simps) (simp add: folded_def carry_fold_less(1) [OF False] fold_mod)
  qed
qed

lemma sum_loop_total:
  assumes "j < n"
    and "unat h + (n - j) * 255 < 2 ^ 32" "unat c + (n - j) * 255 < 2 ^ 32"
    and "sum_loop m a (2 * j) (2 * n) h c = (h', c')"
  shows "256 * unat h' + unat c' = 256 * unat h + unat c + words_sum m (a + 2 * j) (n - j)
    \<and> unat h' \<le> unat h + (n - j) * 255 \<and> unat c' \<le> unat c + (n - j) * 255"
  using assms
proof (induction "n - j" arbitrary: j h c)
  case 0
  then show ?case by simp
next
  case (Suc k)
  let ?h = "h + ucast (m (a + 2 * j))" and ?c = "c + ucast (m (a + 2 * j + 1))"
  have byte: "unat (m x) \<le> 255" for x
    using unsigned_less [of "m x", where ?'a = nat] by simp
  have k: "n - j = Suc k" "k = n - Suc j"
    using Suc.hyps(2) by simp_all
  have uh: "unat ?h = unat h + unat (m (a + 2 * j))"
    using Suc.prems(2) byte [of "a + 2 * j"] k(1) by (subst unat_add_no_wrap) (simp_all add: unat_ucast_up)
  have uc: "unat ?c = unat c + unat (m (a + 2 * j + 1))"
    using Suc.prems(3) byte [of "a + 2 * j + 1"] k(1) by (subst unat_add_no_wrap) (simp_all add: unat_ucast_up)
  show ?case
  proof (cases "2 * j + 2 \<ge> 2 * n")
    case True
    then have n: "n = Suc j" "k = 0"
      using Suc.prems(1) k by simp_all
    have "h' = ?h" "c' = ?c"
      using Suc.prems(4) True by (simp_all add: sum_loop.simps [of m a "2 * j"] Let_def)
    then show ?thesis
      using n uh uc byte by simp
  next
    case False
    then have more: "sum_loop m a (2 * Suc j) (2 * n) ?h ?c = (h', c')" and j: "Suc j < n"
      using Suc.prems(4) by (simp_all add: sum_loop.simps [of m a "2 * j"] Let_def)
    have b: "unat ?h + (n - Suc j) * 255 < 2 ^ 32" "unat ?c + (n - Suc j) * 255 < 2 ^ 32"
      using Suc.prems(2,3) uh uc k byte [of "a + 2 * j"] byte [of "a + 2 * j + 1"] by simp_all
    from Suc.hyps(1) [OF k(2) j b more] show ?thesis
      using uh uc k byte [of "a + 2 * j"] byte [of "a + 2 * j + 1"] by (simp add: add.commute add.left_commute)
  qed
qed

lemma and_1_even: "(w :: u16) AND 1 \<noteq> 0 \<longleftrightarrow> odd (unat w)"
  using and_mask_nat [of w 1] by (auto simp: mask_eq_exp_minus_1 word_eq_unat odd_iff_mod_2_eq_one)

lemma ipchksum_folded:
  assumes len: "unat len = 2 * n" "0 < n" and c: "unat c < 2 ^ 24"
  shows "folded (unat c + words_sum m a n) (unat (ipchksum m a len c))"
proof -
  have n: "n < 32768"
    using len unsigned_less [of len, where ?'a = nat] by simp
  obtain h' c' where s: "sum_loop m a (2 * 0) (2 * n) 0 c = (h', c')"
    by (cases "sum_loop m a (2 * 0) (2 * n) 0 c")
  have t: "256 * unat h' + unat c' = unat c + words_sum m a n" "unat h' \<le> n * 255"
    using sum_loop_total [OF len(2) _ _ s] n c by simp_all
  have total: "unat c + words_sum m a n < 2 ^ 32"
    using words_sum_bound [of m a n] c n by simp
  have "unat (push_bit 8 h') = 256 * unat h'"
    using t(2) n by (simp add: push_bit_eq_mult unat_mult_no_wrap mult.commute)
  then have sum: "unat (c' + push_bit 8 h') = unat c + words_sum m a n"
    using t(1) total by (subst unat_add_no_wrap) simp_all
  have even: "\<not> len AND 1 \<noteq> 0"
    using len by (simp only: and_1_even) simp
  have ip: "ipchksum m a len c = ucast (carry_fold (c' + push_bit 8 h'))"
    using s even len(1) by (simp add: ipchksum_def)
  have f: "folded (unat c + words_sum m a n) (unat (carry_fold (c' + push_bit 8 h')))"
    using carry_fold_folded [of "c' + push_bit 8 h'"] sum by simp
  then have "unat (ucast (carry_fold (c' + push_bit 8 h')) :: u16) = unat (carry_fold (c' + push_bit 8 h'))"
    by (simp add: unsigned_ucast_eq take_bit_nat_eq_self folded_def)
  with f ip show ?thesis
    by simp
qed

text \<open>The total that verifies: all ones.\<close>

lemma folded_ones: "folded s r \<Longrightarrow> 65535 dvd s \<Longrightarrow> 0 < s \<Longrightarrow> r = 65535"
  by (auto simp: folded_def dvd_eq_mod_eq_0 elim!: dvdE)

lemma bswap_bytes:
  "unat (ucast (ix_bswapw v) :: u8) = unat v div 256" "unat (ucast (drop_bit 8 (ix_bswapw v)) :: u8) = unat v mod 256"
proof -
  have "ucast (ix_bswapw v) = (ucast (drop_bit 8 v) :: u8)"
    by (rule bit_word_eqI) (auto simp: ix_bswapw_def bit_simps)
  moreover have "ucast (drop_bit 8 (ix_bswapw v)) = (ucast v :: u8)"
    by (rule bit_word_eqI) (auto simp: ix_bswapw_def bit_simps)
  moreover have "unat v div 256 < 256"
    using unsigned_less [of v, where ?'a = nat] by (simp add: less_mult_imp_div_less)
  ultimately show "unat (ucast (ix_bswapw v) :: u8) = unat v div 256"
    "unat (ucast (drop_bit 8 (ix_bswapw v)) :: u8) = unat v mod 256"
    by (simp_all add: unsigned_ucast_eq take_bit_eq_mod drop_bit_eq_div unat_div_distrib)
qed

lemma words_sum_cong: "(\<And>i. i < 2 * n \<Longrightarrow> m (a + i) = m' (a + i)) \<Longrightarrow> words_sum m a n = words_sum m' a n"
proof (induction n arbitrary: a)
  case 0
  then show ?case by simp
next
  case (Suc n)
  have "words_sum m (a + 2) n = words_sum m' (a + 2) n"
    using Suc.prems [of "_ + 2"] by (intro Suc.IH) (simp add: add.assoc add.commute)
  with Suc.prems [of 0] Suc.prems [of 1] show ?case
    by simp
qed

lemma words_sum_set:
  "j < n \<Longrightarrow> m (a + 2 * j) = 0 \<Longrightarrow> m (a + 2 * j + 1) = 0 \<Longrightarrow>
     words_sum (set_w (a + 2 * j) (ix_bswapw v) m) a n = words_sum m a n + unat v"
proof (induction n arbitrary: a j)
  case 0
  then show ?case by simp
next
  case (Suc n)
  show ?case
  proof (cases j)
    case 0
    have "words_sum (set_w a (ix_bswapw v) m) (a + 2) n = words_sum m (a + 2) n"
      by (rule words_sum_cong) (simp add: set_w_def st16_def)
    moreover have "set_w a (ix_bswapw v) m a = ucast (ix_bswapw v)"
      "set_w a (ix_bswapw v) m (a + 1) = ucast (drop_bit 8 (ix_bswapw v))"
      by (simp_all add: set_w_def st16_def)
    ultimately show ?thesis
      using 0 Suc.prems bswap_bytes [of v] by simp
  next
    case (Suc j')
    have p: "a + 2 * j = a + 2 + 2 * j'"
      using Suc by simp
    have "words_sum (set_w (a + 2 * j) (ix_bswapw v) m) (a + 2) n = words_sum m (a + 2) n + unat v"
      unfolding p using Suc.prems Suc by (intro Suc.IH) (simp_all add: p [symmetric])
    moreover have "set_w (a + 2 * j) (ix_bswapw v) m a = m a" "set_w (a + 2 * j) (ix_bswapw v) m (a + 1) = m (a + 1)"
      using Suc by (simp_all add: set_w_def st16_def)
    ultimately show ?thesis
      by simp
  qed
qed

lemma unat_not16: "unat (NOT (v :: u16)) = 65535 - unat v"
proof -
  have "NOT v = -1 - v"
    by (metis add_diff_cancel_left' word_add_not)
  moreover have "unat (-1 :: u16) = 65535"
    by (simp add: unsigned_minus_1_eq_mask mask_eq_exp_minus_1)
  ultimately show ?thesis
    by (simp only: unat_sub_no_wrap word_n1_ge)
qed

text \<open>Storing the complement of the sum in a zero field makes the sum verify.\<close>

lemma checksum_stored:
  assumes len: "unat len = 2 * n" and j: "j < n" and c: "unat c < 2 ^ 24"
    and zero: "m (a + 2 * j) = 0" "m (a + 2 * j + 1) = 0"
    and v: "v = NOT (ipchksum m a len c) \<or> v = 0xffff \<and> ipchksum m a len c = 0xffff"
  shows "ipchksum (set_w (a + 2 * j) (ix_bswapw v) m) a len c = 0xffff"
proof -
  have n: "0 < n"
    using j by simp
  let ?s = "unat c + words_sum m a n" and ?m = "set_w (a + 2 * j) (ix_bswapw v) m"
  define r where "r = unat (ipchksum m a len c)"
  have f: "r < 65536" "r mod 65535 = ?s mod 65535" "r = 0 \<longleftrightarrow> ?s = 0"
    using ipchksum_folded [OF len n c, of m a] by (simp_all add: folded_def r_def)
  have sum: "words_sum ?m a n = words_sum m a n + unat v"
    by (rule words_sum_set [OF j zero])
  have uv: "unat v = 65535 - r \<or> unat v = 65535 \<and> r = 65535"
    using v by (auto simp: unat_not16 r_def)
  then have pos: "0 < ?s + unat v"
    using f(3) by auto
  have "65535 dvd ?s + unat v"
  proof -
    from uv have "(?s + unat v) mod 65535 = 0"
    proof
      assume a: "unat v = 65535 - r"
      have "(?s + (65535 - r)) mod 65535 = (r + (65535 - r)) mod 65535"
        using f(2) by (metis mod_add_left_eq)
      also have "r + (65535 - r) = 65535"
        using f(1) by simp
      finally show ?thesis
        using a by simp
    next
      assume "unat v = 65535 \<and> r = 65535"
      with f(2) show ?thesis
        by simp
    qed
    then show ?thesis
      by (simp add: dvd_eq_mod_eq_0)
  qed
  moreover have "folded (?s + unat v) (unat (ipchksum ?m a len c))"
    using ipchksum_folded [OF len n c, of ?m a] sum by (simp add: add.assoc)
  ultimately have "unat (ipchksum ?m a len c) = 65535"
    using folded_ones pos by simp
  then show ?thesis
    by (simp add: word_eq_unat)
qed

section \<open>Headers\<close>

text \<open>The Ethernet type and the IP header that \<^verbatim>\<open>packet_fill_ip\<close> writes, checksum included.\<close>

definition ip_header_unsummed :: "u16 \<Rightarrow> u8 \<Rightarrow> u32 \<Rightarrow> u32 \<Rightarrow> bytes \<Rightarrow> bytes" where
  "ip_header_unsummed ip_length proto src dst m =
     (let m = set_w 12 (ix_bswapw 0x800) m;
          m = set_b 14 0x45 m;
          m = set_b 15 0 m;
          m = set_w 16 (ix_bswapw ip_length) m;
          m = set_w 18 0 m;
          m = set_w 20 0 m;
          m = set_b 22 8 m;
          m = set_b 23 proto m;
          m = set_w 24 0 m;
          m = set_i 26 src m
      in set_i 30 dst m)"

definition ip_header :: "u16 \<Rightarrow> u8 \<Rightarrow> u32 \<Rightarrow> u32 \<Rightarrow> bytes \<Rightarrow> bytes" where
  "ip_header ip_length proto src dst m =
     (let m = ip_header_unsummed ip_length proto src dst m
      in set_w 24 (ix_bswapw (NOT (ipchksum m 14 20 0))) m)"

text \<open>The checksum field of UDP, over the pseudo header and the segment at offset 34.\<close>

definition udp_checksum :: "u16 \<Rightarrow> bytes \<Rightarrow> bytes" where
  "udp_checksum udp_length m =
     (let udp_check = ipchksum m 34 udp_length (psudo_check m + ucast udp_length);
          udp_check = (if udp_check \<noteq> 0xffff then NOT udp_check else udp_check)
      in set_w 40 (ix_bswapw udp_check) m)"

lemma set_w_at: "set_w a v m i = (if i = a + 1 then ucast (drop_bit 8 v) else if i = a then ucast v else m i)"
  by (simp add: set_w_def st16_def)

lemma set_i_other: "i < a \<or> a + 4 \<le> i \<Longrightarrow> set_i a v m i = m i"
  by (auto simp: set_i_def st32_def st16_def)

lemma header_bytes:
  "ip_header_unsummed l p s d m 24 = 0" "ip_header_unsummed l p s d m 25 = 0"
  by (simp_all add: ip_header_unsummed_def Let_def set_i_other set_w_at set_b_def)

lemma psudo_small: "unat (psudo_check m) < 2 ^ 20"
proof -
  have byte: "unat (ucast (m i) :: u32) \<le> 255" for i
    using unsigned_less [of "m i", where ?'a = nat] by (simp add: unat_ucast_up)
  define b where "b i = (ucast (m (14 + i)) :: u32)" for i
  have bb: "unat (b i) \<le> 255" for i
    using byte by (simp add: b_def)
  have add: "unat (x + y) \<le> k + 255" if "unat x \<le> k" "unat y \<le> 255" "k < 2000" for x y :: u32 and k
    using that by (subst unat_add_no_wrap) simp_all
  have lo: "unat (b 9 + b 13 + b 15 + b 17 + b 19) \<le> 255 + 255 + 255 + 255 + 255"
    by (intro add bb) simp_all
  have hi: "unat (b 12 + b 14 + b 16 + b 18) \<le> 255 + 255 + 255 + 255"
    by (intro add bb) simp_all
  have "unat (push_bit 8 x) = 256 * unat x" if "unat x \<le> 1020" for x :: u32
    using that by (simp add: push_bit_eq_mult unat_mult_no_wrap mult.commute)
  note this [of "b 12 + b 14 + b 16 + b 18"]
  with lo hi show ?thesis
    unfolding psudo_check_def Let_def b_def [symmetric]
    by (subst unat_add_no_wrap) simp_all
qed

lemma psudo_set_udp: "psudo_check (set_w 40 v m) = psudo_check m"
  by (simp add: psudo_check_def set_w_at Let_def)

section \<open>Properties of the checksums\<close>

lemma ip_header_sum: "ipchksum (ip_header l p s d m) 14 20 0 = 0xffff"
proof -
  let ?m = "ip_header_unsummed l p s d m"
  have "ipchksum (set_w (14 + 2 * 5) (ix_bswapw (NOT (ipchksum ?m 14 20 0))) ?m) 14 20 0 = 0xffff"
    using header_bytes [of l p s d m] by (intro checksum_stored [where n = 10]) simp_all
  then show ?thesis
    by (simp add: ip_header_def Let_def)
qed


text \<open>A UDP segment of even length with a zero checksum field gets a checksum that verifies against the
  pseudo header and is never the value zero, which would mean that there is none.\<close>

theorem udp_checksum_verifies:
  assumes "even (unat len)" "8 \<le> unat len" "m 40 = 0" "m 41 = 0"
  defines "m' \<equiv> udp_checksum len m"
  shows "ipchksum m' 34 len (psudo_check m' + ucast len) = 0xffff \<and> pk_w m' 40 \<noteq> 0"
proof -
  from assms(1) obtain n where n: "unat len = 2 * n" by (elim evenE)
  define c where "c = psudo_check m + ucast len"
  have ul: "unat (ucast len :: u32) = unat len" "unat len < 65536"
    using unsigned_less [of len, where ?'a = nat] by (simp_all add: unat_ucast_up)
  have uc: "unat c = unat (psudo_check m) + unat len"
    unfolding c_def using psudo_small [of m] ul by (subst unat_add_no_wrap) simp_all
  let ?s = "ipchksum m 34 len c"
  define v where "v = (if ?s \<noteq> 0xffff then NOT ?s else ?s)"
  have m': "m' = set_w (34 + 2 * 3) (ix_bswapw v) m"
    by (simp add: m'_def udp_checksum_def v_def c_def Let_def)
  have "ipchksum m' 34 len c = 0xffff"
    unfolding m'
  proof (rule checksum_stored [OF n])
    show "3 < n" using assms(2) n by simp
    show "unat c < 2 ^ 24" using uc psudo_small [of m] ul by simp
    show "m (34 + 2 * 3) = 0" "m (34 + 2 * 3 + 1) = 0" using assms(3,4) by simp_all
    show "v = NOT ?s \<or> v = 0xffff \<and> ?s = 0xffff" by (auto simp: v_def)
  qed
  moreover have "psudo_check m' = psudo_check m"
    by (simp add: m' psudo_set_udp)
  moreover have "v \<noteq> 0"
  proof
    assume "v = 0"
    then have "NOT ?s = 0" "?s \<noteq> 0xffff"
      by (auto simp: v_def split: if_splits)
    then have "NOT (NOT ?s) = NOT 0"
      by simp
    then have "?s = NOT 0"
      by simp
    with \<open>?s \<noteq> 0xffff\<close> show False
      by simp
  qed
  moreover have "pk_w m' 40 = ix_bswapw v"
    by (simp add: pk_w_def m' set_w_def)
  moreover have "ix_bswapw v = 0 \<Longrightarrow> v = ix_bswapw 0"
    by (metis ix_bswapw_involutive)
  ultimately show ?thesis
    by (auto simp: c_def ix_bswapw_def)
qed

lemma udp_checksum_verifies_witness:
  "ipchksum (udp_checksum 12 (\<lambda>_. 0)) 34 12 (psudo_check (udp_checksum 12 (\<lambda>_. 0)) + 12) = 0xffff"
  using udp_checksum_verifies [of 12 "\<lambda>_. 0"] by simp

text \<open>An odd length goes wrong: the last byte is counted twice, and the byte behind it once. The three
  bytes 1, 2, 3 sum to \<open>0x0402\<close>; the code, finding a 4 behind them, computes \<open>0x0706\<close>.\<close>

lemma odd_length_wrong: "ipchksum (\<lambda>i. of_nat i + 1) 0 3 0 = 0x0706"
  by code_simp

end
