(* ===== verification/Arp.thy ===== *)
theory Arp
  imports MemTypes Wire
begin

text \<open>
  The address resolution table of \<^verbatim>\<open>net/queue.cpp\<close> (\<^verbatim>\<open>struct ARP_layer\<close>) and what the functions that use it
  do to it: \<^verbatim>\<open>resolve_with_arp\<close>, \<^verbatim>\<open>assign_ip4\<close>, \<^verbatim>\<open>handle_arp\<close> and the ageing of an entry by \<^verbatim>\<open>runarp\<close>.
  The table is a page of \<open>limit\<close> entries of which the first \<open>size\<close> have been used; an entry that is
  not marked present is free.
\<close>

record arp_entry =
  ipa :: u32
  lla :: "u8 list"
  info :: u16

record arp_layer =
  arp_size :: nat
  arp_table :: "arp_entry list"
  arp_limit :: nat

definition ARPT_UNKNOWN :: u16 where "ARPT_UNKNOWN = 0"
definition ARPT_KNOWN :: u16 where "ARPT_KNOWN = 0x2000"
definition ARPT_PASSIVE :: u16 where "ARPT_PASSIVE = 0x4000"
definition ARPT_AFFIRM :: u16 where "ARPT_AFFIRM = 0x6000"
definition ARPT_STATIC :: u16 where "ARPT_STATIC = 0x8000"
definition ARPT_ACTIVE :: u16 where "ARPT_ACTIVE = 0xa000"
definition ARPT_CONFLICT :: u16 where "ARPT_CONFLICT = 0xc000"
definition ARPT_PROXY :: u16 where "ARPT_PROXY = 0xe000"
definition ARPT_STATUS :: u16 where "ARPT_STATUS = 0xe000"
definition ARPT_COUNT :: u16 where "ARPT_COUNT = 0x0fff"
definition ARPT_PRESENT :: u16 where "ARPT_PRESENT = 0x1000"

lemmas arpt_defs = ARPT_UNKNOWN_def ARPT_KNOWN_def ARPT_PASSIVE_def ARPT_AFFIRM_def ARPT_STATIC_def
  ARPT_ACTIVE_def ARPT_CONFLICT_def ARPT_PROXY_def ARPT_STATUS_def ARPT_COUNT_def ARPT_PRESENT_def

definition present :: "arp_entry \<Rightarrow> bool" where
  "present e \<longleftrightarrow> info e AND ARPT_PRESENT \<noteq> 0"

definition status :: "arp_entry \<Rightarrow> u16" where
  "status e = info e AND ARPT_STATUS"

definition count :: "arp_entry \<Rightarrow> u16" where
  "count e = info e AND ARPT_COUNT"

definition put_arp :: "nat \<Rightarrow> arp_entry \<Rightarrow> arp_layer \<Rightarrow> arp_layer" where
  "put_arp i e a = a\<lparr>arp_table := (arp_table a)[i := e]\<rparr>"

definition arp_add :: "arp_layer \<Rightarrow> nat \<times> arp_layer" where
  "arp_add a =
     (let set = (\<lambda>i a. (i, put_arp i ((arp_table a ! i)\<lparr>info := 0\<rparr>) a))
      in case first_index (\<lambda>e. \<not> present e) (take (arp_size a) (arp_table a)) of
           Some i \<Rightarrow> set i a
         | None \<Rightarrow>
             if arp_size a \<ge> arp_limit a then (arp_limit a, a)
             else set (arp_size a) (a\<lparr>arp_size := arp_size a + 1\<rparr>))"

definition arp_find :: "arp_layer \<Rightarrow> u32 \<Rightarrow> nat" where
  "arp_find a p =
     (case first_index (\<lambda>e. present e \<and> ipa e = p) (take (arp_size a) (arp_table a)) of
        Some i \<Rightarrow> i
      | None \<Rightarrow> arp_size a)"

section \<open>What the protocol does to the table\<close>

definition arp_resolve :: "u32 \<Rightarrow> arp_layer \<Rightarrow> arp_layer" where
  "arp_resolve nani a =
     (let q = arp_find a nani
      in if q \<ge> arp_size a then
           (let (q, a) = arp_add a
            in if q \<ge> arp_size a then a
               else put_arp q ((arp_table a ! q)\<lparr>info := ARPT_PRESENT + 3, ipa := nani\<rparr>) a)
         else
           (let e = arp_table a ! q; st = status e;
                bump = (\<lambda>e. if count e \<le> 1 then e\<lparr>info := info e + 3\<rparr> else e)
            in if st = ARPT_PROXY \<or> st = ARPT_ACTIVE then a
               else if st = ARPT_KNOWN then put_arp q (e\<lparr>info := ARPT_PRESENT + 1\<rparr>) a
               else if st = ARPT_AFFIRM then
                 put_arp q (bump (e\<lparr>info := ARPT_PRESENT OR (info e AND NOT ARPT_STATUS)\<rparr>)) a
               else if st = ARPT_CONFLICT then
                 put_arp q (bump (e\<lparr>info := (ARPT_PRESENT OR ARPT_STATIC) + 5\<rparr>)) a
               else put_arp q (bump e) a))"

text \<open>
  \<^verbatim>\<open>assign_ip4\<close>: \<open>None\<close> is the access behind the table that follows the message that there is no space.
\<close>

definition arp_assign :: "u32 \<Rightarrow> u8 list \<Rightarrow> arp_layer \<Rightarrow> arp_layer option" where
  "arp_assign ip mac a =
     (let arp_index = arp_find a ip;
          (arp_index, a) = (if arp_index \<ge> arp_size a then arp_add a else (arp_index, a))
      in if arp_index \<ge> arp_limit a then None
         else
           (let e = arp_table a ! arp_index;
                e = (if status e \<noteq> ARPT_ACTIVE
                     then e\<lparr>info := ARPT_PRESENT + ARPT_STATIC + 2, lla := mac\<rparr> else e)
            in Some (put_arp arp_index (e\<lparr>ipa := ip\<rparr>) a)))"

text \<open>A query was heard: its sender becomes a passive station, unless it is known.\<close>

definition arp_hear :: "u32 \<Rightarrow> u8 list \<Rightarrow> arp_layer \<Rightarrow> arp_layer" where
  "arp_hear w_ip src_mac a =
     (let w = arp_find a w_ip
      in if w < arp_size a then a
         else
           (let (w, a) = arp_add a
            in if w < arp_size a then
                 put_arp w ((arp_table a ! w)\<lparr>info := ARPT_PASSIVE OR ARPT_KNOWN OR ARPT_PRESENT,
                   lla := src_mac, ipa := w_ip\<rparr>) a
               else a))"

text \<open>A response was heard: its sender is known from now on.\<close>

definition arp_learn :: "u32 \<Rightarrow> u8 list \<Rightarrow> arp_layer \<Rightarrow> arp_layer" where
  "arp_learn w_ip src_mac a =
     (let w = arp_find a w_ip;
          (w, a) = (if w \<ge> arp_size a then arp_add a else (w, a))
      in if w \<ge> arp_size a then a
         else
           (let e = arp_table a ! w
            in if present e \<and> status e = ARPT_STATIC then a
               else
                 (let e = (if present e then e else e\<lparr>ipa := w_ip\<rparr>)
                  in put_arp w (e\<lparr>info := (ARPT_KNOWN OR ARPT_PRESENT) + 180, lla := src_mac\<rparr>) a)))"

text \<open>
  One entry in \<^verbatim>\<open>runarp\<close>: whether it asks for a request to be sent, and what it becomes when that
  could be done or was not needed.
\<close>

definition age_sends :: "arp_entry \<Rightarrow> bool" where
  "age_sends e \<longleftrightarrow> present e \<and> status e \<in> {ARPT_UNKNOWN, ARPT_PASSIVE, ARPT_STATIC} \<and> count e > 0"

definition age_entry :: "arp_entry \<Rightarrow> arp_entry" where
  "age_entry e =
     (if \<not> present e then e
      else if status e = ARPT_UNKNOWN \<or> status e = ARPT_PASSIVE then e\<lparr>info := info e - 1\<rparr>
      else if status e = ARPT_STATIC then
        (if count e > 0 then e\<lparr>info := info e - 1\<rparr> else e\<lparr>info := info e OR ARPT_KNOWN\<rparr>)
      else e)"

section \<open>The invariant of the table\<close>

definition arp_ok :: "arp_layer \<Rightarrow> bool" where
  "arp_ok a \<longleftrightarrow> arp_size a \<le> arp_limit a \<and> arp_limit a = length (arp_table a)"

text \<open>At most one present entry per address.\<close>

definition arp_unique :: "arp_layer \<Rightarrow> bool" where
  "arp_unique a \<longleftrightarrow> (\<forall>i < arp_size a. \<forall>j < arp_size a.
     present (arp_table a ! i) \<and> present (arp_table a ! j) \<and> ipa (arp_table a ! i) = ipa (arp_table a ! j) \<longrightarrow> i = j)"

definition arp_inv :: "arp_layer \<Rightarrow> bool" where
  "arp_inv a \<longleftrightarrow> arp_ok a \<and> arp_unique a"

definition known_at :: "arp_layer \<Rightarrow> nat \<Rightarrow> u32 \<Rightarrow> bool" where
  "known_at a i p \<longleftrightarrow> i < arp_size a \<and> present (arp_table a ! i) \<and> ipa (arp_table a ! i) = p"

lemma arp_unique_known: "arp_unique a \<longleftrightarrow> (\<forall>i j p. known_at a i p \<and> known_at a j p \<longrightarrow> i = j)"
  by (auto simp: arp_unique_def known_at_def)

lemma put_arp_simps [simp]:
  "arp_size (put_arp i e a) = arp_size a" "arp_limit (put_arp i e a) = arp_limit a"
  "arp_table (put_arp i e a) = (arp_table a)[i := e]"
  by (simp_all add: put_arp_def)

lemma arp_find_known: "arp_ok a \<Longrightarrow> arp_find a p < arp_size a \<Longrightarrow> known_at a (arp_find a p) p"
  using first_index_Some [of "\<lambda>e. present e \<and> ipa e = p" "take (arp_size a) (arp_table a)"]
  by (auto simp: arp_find_def known_at_def split: option.splits)

lemma arp_find_bound: "arp_ok a \<Longrightarrow> arp_find a p \<le> arp_size a"
  using first_index_Some [of "\<lambda>e. present e \<and> ipa e = p" "take (arp_size a) (arp_table a)"]
  by (fastforce simp: arp_find_def split: option.splits)

lemma arp_find_none:
  assumes "arp_ok a" "arp_find a p \<ge> arp_size a"
  shows "\<not> known_at a i p"
proof
  assume k: "known_at a i p"
  then have "i < length (take (arp_size a) (arp_table a))" "take (arp_size a) (arp_table a) ! i = arp_table a ! i"
    using assms(1) by (auto simp: known_at_def arp_ok_def)
  with k obtain j where j: "first_index (\<lambda>e. present e \<and> ipa e = p) (take (arp_size a) (arp_table a)) = Some j"
    using first_index_exists [of i "take (arp_size a) (arp_table a)" "\<lambda>e. present e \<and> ipa e = p"]
    by (auto simp: known_at_def)
  from first_index_Some [OF j] assms(2) j show False
    by (simp add: arp_find_def)
qed

lemma arp_find_iff:
  assumes "arp_inv a" "known_at a i p"
  shows "arp_find a p = i"
proof -
  have ok: "arp_ok a"
    using assms(1) by (simp add: arp_inv_def)
  have "arp_find a p < arp_size a"
    using arp_find_none [OF ok] assms(2) not_less by blast
  from arp_find_known [OF ok this] assms show ?thesis
    by (auto simp: arp_inv_def arp_unique_def known_at_def)
qed

text \<open>Storing at an index keeps the table unique when no other present entry has the address.\<close>

lemma put_arp_inv:
  assumes inv: "arp_inv a" and i: "i < arp_size a"
    and other: "present e \<Longrightarrow> \<forall>j. known_at a j (ipa e) \<longrightarrow> j = i"
  shows "arp_inv (put_arp i e a)"
proof -
  have len: "i < length (arp_table a)"
    using inv i by (simp add: arp_inv_def arp_ok_def)
  have "m = j" if "m < arp_size a" "j < arp_size a" "present ((arp_table a)[i := e] ! m)"
    "present ((arp_table a)[i := e] ! j)" "ipa ((arp_table a)[i := e] ! m) = ipa ((arp_table a)[i := e] ! j)" for m j
    using that inv other len
    by (cases "m = i"; cases "j = i") (auto simp: arp_inv_def arp_unique_def known_at_def)
  then show ?thesis
    using inv by (simp add: arp_inv_def arp_ok_def arp_unique_def)
qed

lemma not_present_0 [simp]: "\<not> present (e\<lparr>info := 0\<rparr>)"
  by (simp add: present_def)

lemma arp_add_full:
  "arp_ok a \<Longrightarrow> fst (arp_add a) \<ge> arp_size (snd (arp_add a)) \<Longrightarrow> arp_add a = (arp_limit a, a)"
  by (auto simp: arp_add_def Let_def arp_ok_def split: option.splits if_splits dest!: first_index_Some)

lemma arp_add_room:
  assumes inv: "arp_inv a" and r: "arp_add a = (i, a')" and i: "i < arp_size a'"
  shows "arp_inv a' \<and> \<not> present (arp_table a' ! i) \<and> (\<forall>j p. known_at a' j p \<longleftrightarrow> known_at a j p)
    \<and> (\<forall>j. j \<noteq> i \<longrightarrow> arp_table a' ! j = arp_table a ! j)"
proof -
  let ?xs = "take (arp_size a) (arp_table a)"
  have ok: "arp_size a \<le> arp_limit a" "arp_limit a = length (arp_table a)"
    using inv by (simp_all add: arp_inv_def arp_ok_def)
  show ?thesis
  proof (cases "first_index (\<lambda>e. \<not> present e) ?xs")
    case (Some k)
    from first_index_Some [OF Some] have k: "k < arp_size a" "\<not> present (arp_table a ! k)"
      by auto
    have a': "i = k" "a' = put_arp k ((arp_table a ! k)\<lparr>info := 0\<rparr>) a"
      using r Some by (auto simp: arp_add_def Let_def)
    have "known_at a' j p \<longleftrightarrow> known_at a j p" for j p
      using k ok by (cases "j = k") (auto simp: a' known_at_def)
    moreover have "arp_inv a'"
      unfolding a' by (rule put_arp_inv [OF inv k(1)]) simp
    ultimately show ?thesis
      using k ok by (simp add: a')
  next
    case None
    then have a': "i = arp_size a" "arp_size a < arp_limit a"
      "a' = put_arp (arp_size a) ((arp_table a ! arp_size a)\<lparr>info := 0\<rparr>) (a\<lparr>arp_size := arp_size a + 1\<rparr>)"
      using r i ok by (auto simp: arp_add_def Let_def split: if_splits)
    have k: "known_at a' j p \<longleftrightarrow> known_at a j p" for j p
      using a' ok by (cases "j = arp_size a") (auto simp: known_at_def)
    have "arp_unique a'"
      using inv by (simp add: arp_inv_def arp_unique_known k)
    then have "arp_inv a'"
      using a' ok by (simp add: arp_inv_def arp_ok_def)
    then show ?thesis
      using k a' ok by simp
  qed
qed

text \<open>Each of the operations finds an index for an address, new or old.\<close>

definition claim_slot :: "u32 \<Rightarrow> arp_layer \<Rightarrow> nat \<times> arp_layer" where
  "claim_slot p a = (if arp_find a p \<ge> arp_size a then arp_add a else (arp_find a p, a))"

lemma claim_slot_spec:
  assumes inv: "arp_inv a" and r: "claim_slot p a = (i, a')" and i: "i < arp_size a'"
  shows "arp_inv a'" "\<forall>j. known_at a' j p \<longrightarrow> j = i" "\<forall>j q. known_at a' j q \<longleftrightarrow> known_at a j q"
    "present (arp_table a' ! i) \<Longrightarrow> ipa (arp_table a' ! i) = p"
proof -
  have ok: "arp_ok a"
    using inv by (simp add: arp_inv_def)
  show "arp_inv a'" "\<forall>j. known_at a' j p \<longrightarrow> j = i" "\<forall>j q. known_at a' j q \<longleftrightarrow> known_at a j q"
    "present (arp_table a' ! i) \<Longrightarrow> ipa (arp_table a' ! i) = p"
    using arp_find_none [OF ok, of p] arp_find_known [OF ok, of p] arp_find_iff [OF inv] inv r
      arp_add_room [OF inv _ i] i
    by (auto simp: claim_slot_def known_at_def split: if_splits)
qed

lemma claim_slot_full: "arp_ok a \<Longrightarrow> claim_slot p a = (i, a') \<Longrightarrow> \<not> i < arp_size a' \<Longrightarrow> a' = a \<and> i = arp_limit a"
  using arp_add_full [of a] by (auto simp: claim_slot_def split: if_splits)

lemma put_claimed:
  assumes "arp_inv a" "claim_slot p a = (i, a')" "i < arp_size a'" "ipa e = p"
  shows "arp_inv (put_arp i e a')"
  using claim_slot_spec [OF assms(1-3)] assms(3,4) by (intro put_arp_inv) auto

section \<open>Every operation keeps the table unique\<close>

text \<open>Changing an entry in place, at the same address.\<close>

lemma put_same_inv:
  assumes "arp_inv a" "arp_find a p < arp_size a" "ipa e = p"
  shows "arp_inv (put_arp (arp_find a p) e a)"
  using assms arp_find_iff [OF assms(1)] by (intro put_arp_inv) auto

lemma find_entry:
  assumes "arp_inv a" "arp_find a p < arp_size a"
  shows "present (arp_table a ! arp_find a p) \<and> ipa (arp_table a ! arp_find a p) = p"
  using arp_find_known [of a p] assms by (auto simp: arp_inv_def known_at_def)

lemma arp_resolve_inv: "arp_inv a \<Longrightarrow> arp_inv (arp_resolve p a)"
proof -
  assume inv: "arp_inv a"
  show ?thesis
  proof (cases "arp_find a p \<ge> arp_size a")
    case True
    obtain i a' where r: "arp_add a = (i, a')"
      by (cases "arp_add a")
    then have c: "claim_slot p a = (i, a')"
      using True by (simp add: claim_slot_def)
    show ?thesis
    proof (cases "i < arp_size a'")
      case room: True
      have "arp_inv (put_arp i ((arp_table a' ! i)\<lparr>info := ARPT_PRESENT + 3, ipa := p\<rparr>) a')"
        by (rule put_claimed [OF inv c room]) simp
      with True r room show ?thesis
        by (simp add: arp_resolve_def not_le)
    next
      case False
      with claim_slot_full [OF _ c] inv have "a' = a"
        by (simp add: arp_inv_def)
      with True r False inv show ?thesis
        by (simp add: arp_resolve_def)
    qed
  next
    case False
    then have lt: "arp_find a p < arp_size a"
      by simp
    note put = put_same_inv [OF inv lt]
    have "ipa (arp_table a ! arp_find a p) = p"
      using find_entry [OF inv lt] by simp
    with False inv show ?thesis
      by (simp add: arp_resolve_def Let_def put)
  qed
qed

lemma arp_assign_claim:
  "arp_assign ip mac a = (case claim_slot ip a of (i, a) \<Rightarrow>
     if i \<ge> arp_limit a then None
     else (let e = arp_table a ! i;
               e = (if status e \<noteq> ARPT_ACTIVE then e\<lparr>info := ARPT_PRESENT + ARPT_STATIC + 2, lla := mac\<rparr> else e)
           in Some (put_arp i (e\<lparr>ipa := ip\<rparr>) a)))"
  by (simp add: arp_assign_def claim_slot_def Let_def)

lemma claim_slot_bound:
  assumes "arp_inv a" "claim_slot p a = (i, a')"
  shows "i < arp_size a' \<or> i = arp_limit a \<and> a' = a"
  using claim_slot_full [OF _ assms(2)] assms(1) by (auto simp: arp_inv_def)

lemma arp_assign_inv: "arp_inv a \<Longrightarrow> arp_assign ip mac a = Some a' \<Longrightarrow> arp_inv a'"
proof -
  assume inv: "arp_inv a" and a': "arp_assign ip mac a = Some a'"
  obtain i b where c: "claim_slot ip a = (i, b)"
    by (cases "claim_slot ip a")
  from a' c have "i < arp_limit b"
    by (auto simp: arp_assign_claim Let_def split: if_splits)
  with claim_slot_bound [OF inv c] have "i < arp_size b"
    by auto
  from put_claimed [OF inv c this] a' c show ?thesis
    by (auto simp: arp_assign_claim Let_def split: if_splits)
qed

lemma arp_hear_inv: "arp_inv a \<Longrightarrow> arp_inv (arp_hear p mac a)"
proof -
  assume inv: "arp_inv a"
  show ?thesis
  proof (cases "arp_find a p < arp_size a")
    case True
    with inv show ?thesis by (simp add: arp_hear_def)
  next
    case False
    obtain i a' where r: "arp_add a = (i, a')"
      by (cases "arp_add a")
    then have c: "claim_slot p a = (i, a')"
      using False by (simp add: claim_slot_def)
    from claim_slot_bound [OF inv c] show ?thesis
    proof
      assume "i < arp_size a'"
      with put_claimed [OF inv c this] False r show ?thesis
        by (simp add: arp_hear_def)
    next
      assume "i = arp_limit a \<and> a' = a"
      with False r inv show ?thesis
        by (auto simp: arp_hear_def arp_inv_def arp_ok_def)
    qed
  qed
qed

lemma arp_learn_claim:
  "arp_learn p mac a = (case claim_slot p a of (w, a) \<Rightarrow>
     if w \<ge> arp_size a then a
     else (let e = arp_table a ! w
           in if present e \<and> status e = ARPT_STATIC then a
              else (let e = (if present e then e else e\<lparr>ipa := p\<rparr>)
                    in put_arp w (e\<lparr>info := (ARPT_KNOWN OR ARPT_PRESENT) + 180, lla := mac\<rparr>) a)))"
  by (simp add: arp_learn_def claim_slot_def Let_def)

lemma arp_learn_cases:
  assumes inv: "arp_inv a" and c: "claim_slot p a = (i, b)"
  shows "arp_learn p mac a =
    (if i < arp_size b \<and> \<not> (present (arp_table b ! i) \<and> status (arp_table b ! i) = ARPT_STATIC)
     then put_arp i \<lparr>ipa = p, lla = mac, info = (ARPT_KNOWN OR ARPT_PRESENT) + 180\<rparr> b else b)"
proof (cases "i < arp_size b")
  case True
  with claim_slot_spec(4) [OF inv c True] c show ?thesis
    by (cases "arp_table b ! i") (auto simp: arp_learn_claim Let_def)
next
  case False
  with c show ?thesis
    by (simp add: arp_learn_claim)
qed

lemma arp_learn_inv: "arp_inv a \<Longrightarrow> arp_inv (arp_learn p mac a)"
proof -
  assume inv: "arp_inv a"
  obtain i b where c: "claim_slot p a = (i, b)"
    by (cases "claim_slot p a")
  have b: "arp_inv b"
    using claim_slot_bound [OF inv c] claim_slot_spec(1) [OF inv c] inv by blast
  show ?thesis
    unfolding arp_learn_cases [OF inv c]
    using put_claimed [OF inv c, of "\<lparr>ipa = p, lla = mac, info = (ARPT_KNOWN OR ARPT_PRESENT) + 180\<rparr>"] b
    by auto
qed

lemma age_ipa [simp]: "ipa (age_entry e) = ipa e"
  by (simp add: age_entry_def)

lemma age_present: "present (age_entry e) \<Longrightarrow> present e"
  by (auto simp: age_entry_def split: if_splits)

lemma age_inv: "arp_inv a \<Longrightarrow> i < arp_size a \<Longrightarrow> arp_inv (put_arp i (age_entry (arp_table a ! i)) a)"
  using age_present by (intro put_arp_inv) (auto simp: arp_inv_def arp_unique_def known_at_def)

text \<open>The steps of the table, for an invariant by rule induction.\<close>

inductive arp_step :: "arp_layer \<Rightarrow> arp_layer \<Rightarrow> bool" where
  resolve: "arp_step a (arp_resolve p a)"
| assign: "arp_assign p mac a = Some a' \<Longrightarrow> arp_step a a'"
| hear: "arp_step a (arp_hear p mac a)"
| learn: "arp_step a (arp_learn p mac a)"
| age: "i < arp_size a \<Longrightarrow> arp_step a (put_arp i (age_entry (arp_table a ! i)) a)"

lemma arp_step_inv: "arp_step a a' \<Longrightarrow> arp_inv a \<Longrightarrow> arp_inv a'"
  by (induction rule: arp_step.induct)
    (simp_all add: arp_resolve_inv arp_assign_inv arp_hear_inv arp_learn_inv age_inv)

definition fresh_arp :: "arp_layer" where
  "fresh_arp = \<lparr>arp_size = 0, arp_table = replicate 341 \<lparr>ipa = 0, lla = replicate 6 0, info = 0\<rparr>, arp_limit = 341\<rparr>"

lemma fresh_arp_inv: "arp_inv fresh_arp"
  by (simp add: fresh_arp_def arp_inv_def arp_ok_def arp_unique_def)

lemma arp_reachable_inv: "arp_step\<^sup>*\<^sup>* a a' \<Longrightarrow> arp_inv a \<Longrightarrow> arp_inv a'"
  by (induction rule: rtranclp_induct) (auto intro: arp_step_inv)

section \<open>Properties of the table\<close>

text \<open>C21 The ARP table never holds two live entries for one address, and its size never exceeds its page:
  every sequence of queries heard, responses learnt, resolutions, assignments and agings that
  starts from the empty table keeps both.\<close>

theorem arp_table_unique:
  assumes "arp_step\<^sup>*\<^sup>* fresh_arp a" "known_at a i p" "known_at a j p"
  shows "i = j \<and> arp_size a \<le> arp_limit a"
  using arp_reachable_inv [OF assms(1) fresh_arp_inv] assms(2,3)
  by (auto simp: arp_inv_def arp_unique_def arp_ok_def known_at_def)

lemma arp_table_unique_witness:
  "0 = (0 :: nat) \<and> arp_size (arp_learn 7 [1, 2, 3, 4, 5, 6] fresh_arp) \<le> arp_limit (arp_learn 7 [1, 2, 3, 4, 5, 6] fresh_arp)"
proof (rule arp_table_unique)
  show "arp_step\<^sup>*\<^sup>* fresh_arp (arp_learn 7 [1, 2, 3, 4, 5, 6] fresh_arp)"
    by (rule r_into_rtranclp) (rule arp_step.learn)
  show "known_at (arp_learn 7 [1, 2, 3, 4, 5, 6] fresh_arp) 0 7" "known_at (arp_learn 7 [1, 2, 3, 4, 5, 6] fresh_arp) 0 7"
    by (simp_all add: arp_learn_def arp_find_def arp_add_def fresh_arp_def known_at_def present_def Let_def arpt_defs)
qed

text \<open>A response is learnt: unless the address is configured as our own or the table is full, the next
  look-up of the sender's address finds exactly one entry, marked known, with the sender's
  hardware address.\<close>

theorem arp_learn_then_find:
  fixes mac :: "u8 list"
  assumes "arp_inv a" "arp_find a p < arp_size a \<or> arp_size a < arp_limit a"
    and "arp_find a p < arp_size a \<longrightarrow> status (arp_table a ! arp_find a p) \<noteq> ARPT_STATIC"
  defines "a' \<equiv> arp_learn p mac a"
  shows "arp_find a' p < arp_size a' \<and> lla (arp_table a' ! arp_find a' p) = mac
    \<and> status (arp_table a' ! arp_find a' p) = ARPT_KNOWN"
proof -
  obtain i b where c: "claim_slot p a = (i, b)"
    by (cases "claim_slot p a")
  have ok: "arp_ok a"
    using assms(1) by (simp add: arp_inv_def)
  have "i \<noteq> arp_limit a \<or> b \<noteq> a"
  proof (cases "arp_find a p < arp_size a")
    case True
    with c ok show ?thesis
      by (auto simp: claim_slot_def arp_ok_def)
  next
    case False
    with assms(2) c show ?thesis
      by (auto simp: claim_slot_def arp_add_def Let_def put_arp_def dest!: first_index_Some split: option.splits)
  qed
  with claim_slot_bound [OF assms(1) c] have i: "i < arp_size b"
    by blast
  have ns: "\<not> (present (arp_table b ! i) \<and> status (arp_table b ! i) = ARPT_STATIC)"
    using assms(3) c arp_add_room [OF assms(1) _ i] by (auto simp: claim_slot_def split: if_splits)
  let ?e = "\<lparr>ipa = p, lla = mac, info = (ARPT_KNOWN OR ARPT_PRESENT) + 180\<rparr>"
  have a': "a' = put_arp i ?e b"
    using arp_learn_cases [OF assms(1) c] i ns by (simp add: a'_def)
  have inv': "arp_inv a'"
    unfolding a'_def by (rule arp_learn_inv [OF assms(1)])
  have len: "i < length (arp_table b)"
    using claim_slot_spec(1) [OF assms(1) c i] i by (simp add: arp_inv_def arp_ok_def)
  have "known_at a' i p"
    using i len by (simp add: a' known_at_def present_def arpt_defs)
  with arp_find_iff [OF inv'] have "arp_find a' p = i"
    by blast
  then show ?thesis
    using i len by (simp add: a' status_def arpt_defs)
qed

lemma arp_learn_then_find_witness:
  "lla (arp_table (arp_learn 7 [1, 2, 3, 4, 5, 6] fresh_arp) ! arp_find (arp_learn 7 [1, 2, 3, 4, 5, 6] fresh_arp) 7)
     = [1, 2, 3, 4, 5, 6]"
  using arp_learn_then_find [OF fresh_arp_inv, of 7 "[1, 2, 3, 4, 5, 6]"]
  by (simp add: arp_find_def fresh_arp_def)

text \<open>A learnt station never ages: \<^verbatim>\<open>runarp\<close> skips entries that are known, so the count of 180 that a
  response leaves is never counted down.\<close>

lemma learnt_never_ages: "status e = ARPT_KNOWN \<Longrightarrow> age_entry e = e"
  by (simp add: age_entry_def arpt_defs)

text \<open>Dropping an address (assigning 0) keeps the entry of the old one, so the machine still answers for it.\<close>

lemma released_address_stays:
  "arp_inv a \<Longrightarrow> known_at a i p \<Longrightarrow> p \<noteq> q \<Longrightarrow> arp_assign q mac a = Some a' \<Longrightarrow>
     known_at a' i p \<and> arp_table a' ! i = arp_table a ! i"
proof -
  assume inv: "arp_inv a" and k: "known_at a i p" and ne: "p \<noteq> q" and a': "arp_assign q mac a = Some a'"
  obtain w b where c: "claim_slot q a = (w, b)"
    by (cases "claim_slot q a")
  from a' c have w: "w < arp_limit b"
    by (auto simp: arp_assign_claim Let_def split: if_splits)
  with claim_slot_bound [OF inv c] have wb: "w < arp_size b"
    by auto
  have kb: "known_at b i p"
    using claim_slot_spec(3) [OF inv c wb] k by simp
  then have "i \<noteq> w"
    using claim_slot_spec(4) [OF inv c wb] ne by (auto simp: known_at_def)
  moreover have "arp_table b ! i = arp_table a ! i"
    using c arp_add_room [OF inv _ wb] \<open>i \<noteq> w\<close> by (auto simp: claim_slot_def split: if_splits)
  ultimately show ?thesis
    using a' c kb by (auto simp: arp_assign_claim known_at_def Let_def split: if_splits)
qed

text \<open>With a full table the assignment writes behind its end.\<close>

lemma assign_full_table: "arp_find a p \<ge> arp_size a \<Longrightarrow> fst (arp_add a) = arp_limit a \<Longrightarrow>
    snd (arp_add a) = a \<Longrightarrow> arp_assign p mac a = None"
  by (cases "arp_add a") (simp add: arp_assign_def)

end
