(* ===== verification/Pool.thy ===== *)
theory Pool
  imports Arp Entropy "HOL-Library.Monad_Syntax" "HOL-Library.Multiset"
begin

text \<open>
  Packets, their reference counts and the state of the network layer (\<^verbatim>\<open>ktypes.hpp\<close>,
  \<^verbatim>\<open>arraylist.hpp\<close>, \<^verbatim>\<open>net/packet.hpp\<close> and the globals of \<^verbatim>\<open>net/queue.cpp\<close>).

  The packets are the elements of one array; a \<^verbatim>\<open>Ref<Packet>\<close> is an index or null. Each packet has a
  buffer of 2048 bytes of its own (\<^verbatim>\<open>init\<close> places them 2048 bytes apart); its content is a function of the
  offset, whose values from 2048 on stand for whatever lies behind the buffer. The network card is an
  argument of the model: its \<^verbatim>\<open>transmit\<close>, which may keep or drop references, its media address, and
  \<^verbatim>\<open>debug_junk\<close>, which may feed the random pool. A call through a null pointer, or an access behind the
  address table, is \<^const>\<open>None\<close>.
\<close>

section \<open>Lists of blocks\<close>

text \<open>
  \<^verbatim>\<open>ArrayList\<close>: a chain of blocks of \<open>blockent\<close> elements each; an iterator is the rest of the chain and an
  index into its first block.
\<close>

type_synonym 'a array_list = "'a list list"
type_synonym 'a al_iter = "'a list list \<times> nat"

definition blockent :: "nat \<Rightarrow> nat \<Rightarrow> nat" where
  "blockent blocksize sz = (blocksize - (4 + sz)) div sz"

definition al_begin :: "'a array_list \<Rightarrow> 'a al_iter" where
  "al_begin a = (a, 0)"

definition al_valid :: "nat \<Rightarrow> 'a al_iter \<Rightarrow> bool" where
  "al_valid n it \<longleftrightarrow> fst it \<noteq> [] \<and> snd it < n"

definition al_deref :: "'a al_iter \<Rightarrow> 'a" where
  "al_deref it = hd (fst it) ! snd it"

definition al_inc :: "nat \<Rightarrow> 'a al_iter \<Rightarrow> 'a al_iter" where
  "al_inc n it =
     (case it of
        ([], i) \<Rightarrow> ([], i)
      | (b # bs, i) \<Rightarrow> if i + 1 \<ge> n then (bs, 0) else (b # bs, i + 1))"

definition al_add :: "'a list \<Rightarrow> 'a array_list \<Rightarrow> 'a array_list" where
  "al_add block a = a @ [block]"

text \<open>What a loop over the list visits.\<close>

function al_visits :: "nat \<Rightarrow> 'a al_iter \<Rightarrow> 'a list" where
  "al_visits n it = (if al_valid n it then al_deref it # al_visits n (al_inc n it) else [])"
  by pat_completeness auto
termination
  by (relation "measures [\<lambda>(n, it). length (fst it), \<lambda>(n, it). n - snd it]")
    (auto simp: al_valid_def al_inc_def neq_Nil_conv split: if_splits)

declare al_visits.simps [simp del]

lemma al_visits_block:
  "length b = n \<Longrightarrow> i \<le> n \<Longrightarrow> 0 < n \<Longrightarrow> i < n \<or> bs = [] \<Longrightarrow>
     al_visits n (b # bs, i) = drop i b @ (if i < n then al_visits n (bs, 0) else [])"
proof (induction "n - i" arbitrary: i)
  case 0
  then show ?case by (simp add: al_visits.simps al_valid_def)
next
  case (Suc k)
  then have i: "i < n" by simp
  have step: "al_visits n (b # bs, i) = b ! i # al_visits n (al_inc n (b # bs, i))"
    using i by (simp add: al_visits.simps [of n "(b # bs, i)"] al_valid_def al_deref_def)
  show ?case
  proof (cases "i + 1 \<ge> n")
    case True
    with i Suc.prems show ?thesis
      by (simp add: step al_inc_def Cons_nth_drop_Suc [symmetric])
  next
    case False
    with Suc.hyps(1) [of "Suc i"] Suc.hyps(2) Suc.prems i show ?thesis
      by (simp add: step al_inc_def Cons_nth_drop_Suc [symmetric])
  qed
qed

text \<open>A loop over the list visits the elements of the blocks in the order the blocks were added.\<close>

lemma al_visits_all: "\<forall>b \<in> set a. length b = n \<Longrightarrow> 0 < n \<Longrightarrow> al_visits n (al_begin a) = concat a"
  unfolding al_begin_def
proof (induction a)
  case Nil
  then show ?case by (simp add: al_visits.simps al_valid_def)
next
  case (Cons b bs)
  then show ?case by (simp add: al_visits_block)
qed

section \<open>Packets and references\<close>

record packet =
  refs :: u32
  pbuf :: bytes
  psize :: u32

definition addref :: "nat \<Rightarrow> packet list \<Rightarrow> packet list" where
  "addref i ps = ps[i := (ps ! i)\<lparr>refs := refs (ps ! i) + 1\<rparr>]"

definition deref :: "nat \<Rightarrow> packet list \<Rightarrow> packet list" where
  "deref i ps = ps[i := (ps ! i)\<lparr>refs := refs (ps ! i) - 1\<rparr>]"

text \<open>\<open>ref_reset old new\<close>: a reference to \<open>old\<close> is made one to \<open>new\<close>; the destructor resets to null.\<close>

definition ref_reset :: "nat option \<Rightarrow> nat option \<Rightarrow> packet list \<Rightarrow> packet list" where
  "ref_reset old new ps =
     (let ps = (case new of Some rc \<Rightarrow> addref rc ps | None \<Rightarrow> ps)
      in case old of Some r \<Rightarrow> deref r ps | None \<Rightarrow> ps)"

text \<open>The packet that nobody refers to, if there is one; what the reference held before is released.\<close>

definition request_packet :: "nat option \<Rightarrow> packet list \<Rightarrow> nat option \<times> packet list" where
  "request_packet pkt ps =
     (let p = first_index (\<lambda>p. refs p = 0) ps in (p, ref_reset pkt p ps))"

definition debug_packet :: "packet list \<Rightarrow> nat \<times> nat" where
  "debug_packet ps = (length (filter (\<lambda>p. refs p \<noteq> 0) ps), length (filter (\<lambda>p. refs p = 0) ps))"

definition set_buf :: "nat \<Rightarrow> (bytes \<Rightarrow> bytes) \<Rightarrow> packet list \<Rightarrow> packet list" where
  "set_buf i f ps = ps[i := (ps ! i)\<lparr>pbuf := f (pbuf (ps ! i))\<rparr>]"

definition set_size :: "nat \<Rightarrow> u32 \<Rightarrow> packet list \<Rightarrow> packet list" where
  "set_size i n ps = ps[i := (ps ! i)\<lparr>psize := n\<rparr>]"

section \<open>The state of the network layer\<close>

record dhcp_client =
  transaction :: u32
  runtime :: u32
  subtime :: u32
  runstate :: u32
  timeout :: u32
  retry :: u32
  offers :: "nat option list"
  offer_count :: nat
  lease_addr :: u32
  next_addr :: u32
  serv_addr :: u32
  lease_time :: u32
  lease_t1 :: u32
  lease_t2 :: u32

record 'd net =
  pkts :: "packet list"
  dev :: 'd
  ethdev :: bool
  arps :: arp_layer
  system_ip :: u32
  arp_tc :: u32
  net_tc :: u32
  dh_tc :: u32
  dhcp :: dhcp_client
  rng :: pool

text \<open>The virtual functions of \<^verbatim>\<open>NetworkMAC\<close> that the network layer calls.\<close>

record 'd mac =
  mac_transmit :: "nat \<Rightarrow> packet list \<times> 'd \<Rightarrow> packet list \<times> 'd"
  mac_addr :: "'d \<Rightarrow> u8 list"
  mac_junk :: "'d \<times> pool \<Rightarrow> ('d \<times> pool) option"

definition on_pkts :: "(packet list \<Rightarrow> packet list) \<Rightarrow> 'd net \<Rightarrow> 'd net" where
  "on_pkts f s = s\<lparr>pkts := f (pkts s)\<rparr>"

definition pk_buf :: "nat \<Rightarrow> 'd net \<Rightarrow> bytes" where
  "pk_buf i s = pbuf (pkts s ! i)"

definition net_request :: "'d net \<Rightarrow> nat option \<times> 'd net" where
  "net_request s = (let (p, ps) = request_packet None (pkts s) in (p, s\<lparr>pkts := ps\<rparr>))"

definition net_drop :: "nat \<Rightarrow> 'd net \<Rightarrow> 'd net" where
  "net_drop i = on_pkts (ref_reset (Some i) None)"

definition net_transmit :: "'d mac \<Rightarrow> nat \<Rightarrow> 'd net \<Rightarrow> 'd net" where
  "net_transmit mac i s =
     (let (ps, d) = mac_transmit mac i (pkts s, dev s) in s\<lparr>pkts := ps, dev := d\<rparr>)"

text \<open>\<^verbatim>\<open>getmediaaddr\<close> into a buffer: six bytes.\<close>

definition set_mac :: "nat \<Rightarrow> u8 list \<Rightarrow> bytes \<Rightarrow> bytes" where
  "set_mac a mac m = (\<lambda>i. if a \<le> i \<and> i < a + 6 then mac ! (i - a) else m i)"

definition get_mac :: "nat \<Rightarrow> bytes \<Rightarrow> u8 list" where
  "get_mac a m = map m [a ..< a + 6]"

section \<open>Accounting for references\<close>

text \<open>
  \<open>balanced ps R\<close>: the count of every packet is the number of references to it among \<open>R\<close>, all that
  there are.
\<close>

definition balanced :: "packet list \<Rightarrow> nat multiset \<Rightarrow> bool" where
  "balanced ps R \<longleftrightarrow> (\<forall>i < length ps. refs (ps ! i) = of_nat (count R i)) \<and> set_mset R \<subseteq> {..<length ps}"

text \<open>The references of an array of references.\<close>

definition held :: "nat option list \<Rightarrow> nat multiset" where
  "held xs = mset (List.map_filter id xs)"

lemma length_addref [simp]: "length (addref i ps) = length ps"
  by (simp add: addref_def)

lemma length_deref [simp]: "length (deref i ps) = length ps"
  by (simp add: deref_def)

lemma length_ref_reset [simp]: "length (ref_reset o1 o2 ps) = length ps"
  by (simp add: ref_reset_def Let_def split: option.splits)

lemma length_set_buf [simp]: "length (set_buf i f ps) = length ps"
  by (simp add: set_buf_def)

lemma length_set_size [simp]: "length (set_size i n ps) = length ps"
  by (simp add: set_size_def)

lemma addref_frame: "pbuf (addref j ps ! r) = pbuf (ps ! r)" "psize (addref j ps ! r) = psize (ps ! r)"
  by (cases "r = j"; cases "j < length ps"; simp add: addref_def list_update_beyond)+

lemma deref_frame: "pbuf (deref j ps ! r) = pbuf (ps ! r)" "psize (deref j ps ! r) = psize (ps ! r)"
  by (cases "r = j"; cases "j < length ps"; simp add: deref_def list_update_beyond)+

lemma ref_reset_frame [simp]: "pbuf (ref_reset a b ps ! r) = pbuf (ps ! r)" "psize (ref_reset a b ps ! r) = psize (ps ! r)"
  by (auto simp: ref_reset_def Let_def addref_frame deref_frame split: option.splits)

lemma balanced_addref: "balanced ps R \<Longrightarrow> i < length ps \<Longrightarrow> balanced (addref i ps) (add_mset i R)"
  by (auto simp: balanced_def addref_def nth_list_update)

lemma balanced_deref: "balanced ps (add_mset i R) \<Longrightarrow> balanced (deref i ps) R"
  by (auto simp: balanced_def deref_def nth_list_update)

lemma balanced_set_buf [simp]: "balanced (set_buf i f ps) R = balanced ps R"
  by (cases "i < length ps") (auto simp: balanced_def set_buf_def nth_list_update)

lemma balanced_set_size [simp]: "balanced (set_size i n ps) R = balanced ps R"
  by (cases "i < length ps") (auto simp: balanced_def set_size_def nth_list_update)

definition own :: "nat option \<Rightarrow> nat multiset" where
  "own p = (case p of Some i \<Rightarrow> {#i#} | None \<Rightarrow> {#})"

lemma own_simps [simp]: "own None = {#}" "own (Some i) = {#i#}"
  by (simp_all add: own_def)

lemma balanced_reset:
  "balanced ps (own old + R) \<Longrightarrow> (\<forall>i. new = Some i \<longrightarrow> i < length ps) \<Longrightarrow> balanced (ref_reset old new ps) (own new + R)"
  using balanced_addref [of ps "own old + R"]
  by (cases old; cases new) (auto simp: ref_reset_def add_mset_commute intro!: balanced_deref)

lemma balanced_free: "balanced ps R \<Longrightarrow> i < length ps \<Longrightarrow> i \<notin># R \<Longrightarrow> refs (ps ! i) = 0"
  by (simp add: balanced_def not_in_iff)

lemma card_set_mset_size: "card (set_mset M) \<le> size M"
  by (induction M) (auto simp: card_insert_if)

lemma request_bound: "request_packet old ps = (Some i, ps') \<Longrightarrow> i < length ps \<and> refs (ps ! i) = 0"
  by (auto simp: request_packet_def Let_def dest: first_index_Some)

lemma request_length: "request_packet old ps = (p, ps') \<Longrightarrow> length ps' = length ps"
  by (auto simp: request_packet_def Let_def)

lemma balanced_request:
  "balanced ps (own old + R) \<Longrightarrow> request_packet old ps = (p, ps') \<Longrightarrow> balanced ps' (own p + R)"
  by (auto simp: request_packet_def Let_def intro!: balanced_reset dest: first_index_Some)

text \<open>A packet that was handed out is one that nobody holds.\<close>

lemma request_fresh:
  "balanced ps R \<Longrightarrow> size R < 2 ^ 32 \<Longrightarrow> request_packet old ps = (Some i, ps') \<Longrightarrow> i \<notin># R"
proof
  assume b: "balanced ps R" and n: "size R < 2 ^ 32"
    and r: "request_packet old ps = (Some i, ps')" and i: "i \<in># R"
  from request_bound [OF r] b have "(of_nat (count R i) :: u32) = 0"
    unfolding balanced_def by metis
  moreover have "count R i < 2 ^ 32"
    using count_le_size [of R i] n by simp
  ultimately have "count R i = 0"
    by (auto simp: word_of_nat_eq_0_iff dest: nat_dvd_not_less)
  with i show False
    by (metis not_in_iff)
qed

end
