(* ===== verification/Send.thy ===== *)
theory Send
  imports Pool
begin

text \<open>
  What the network layer sends (\<^verbatim>\<open>net/queue.cpp\<close>): ARP frames, the Ethernet, IP and UDP headers, and the
  functions that take a packet, fill it and hand it to the card. The content of a frame is a function
  on the bytes of the buffer; the state is threaded through the rest.
\<close>

record sockaddr =
  sa_port :: u16
  v4 :: u32

section \<open>ARP frames\<close>

text \<open>\<^verbatim>\<open>packet_fill_arp\<close>: \<open>nani\<close> is the address in question, \<open>tha\<close> the target's media address or null.\<close>

definition packet_fill_arp :: "u8 list \<Rightarrow> u32 \<Rightarrow> u8 \<Rightarrow> u32 \<Rightarrow> u8 list option \<Rightarrow> bytes \<Rightarrow> bytes" where
  "packet_fill_arp mac ip opc nani tha m =
     (let m = set_b 12 8 m;
          m = set_b 13 6 m;
          m = set_w 14 (ix_bswapw 1) m;
          m = set_w 16 (ix_bswapw 0x800) m;
          m = set_b 18 6 m;
          m = set_b 19 4 m;
          m = set_b 20 0 m;
          m = set_b 21 opc m;
          m = set_mac 22 mac m;
          m = set_i 28 ip m;
          m = (case tha of
                 None \<Rightarrow> set_w 36 0 (set_w 34 0 (set_w 32 0 m))
               | Some l \<Rightarrow> set_mac 32 l m)
      in set_i 38 nani m)"

definition resp_arp_frame :: "u8 list \<Rightarrow> u32 \<Rightarrow> bytes \<Rightarrow> u32 \<Rightarrow> u8 list \<Rightarrow> bytes \<Rightarrow> bytes" where
  "resp_arp_frame mac ip src nani doko m =
     (let m = set_mac 6 mac m;
          m = set_w 0 (pk_w src 6) m;
          m = set_w 2 (pk_w src 8) m;
          m = set_w 4 (pk_w src 10) m
      in packet_fill_arp mac ip 2 nani (Some doko) m)"

definition bc_arp_frame :: "u8 list \<Rightarrow> u32 \<Rightarrow> u32 \<Rightarrow> bytes \<Rightarrow> bytes" where
  "bc_arp_frame mac ip nani m =
     (let m = set_mac 6 mac m;
          m = set_w 0 0xffff m;
          m = set_w 2 0xffff m;
          m = set_w 4 0xffff m
      in packet_fill_arp mac ip 1 nani None m)"

definition packet_send_resp_arp :: "'d mac \<Rightarrow> nat \<Rightarrow> nat \<Rightarrow> u32 \<Rightarrow> u8 list \<Rightarrow> 'd net \<Rightarrow> 'd net" where
  "packet_send_resp_arp mac pkt src nani doko s =
     (let f = resp_arp_frame (mac_addr mac (dev s)) (system_ip s) (pk_buf src s) nani doko;
          s = on_pkts (set_size pkt 42 \<circ> set_buf pkt f) s
      in net_transmit mac pkt s)"

definition packet_send_bc_arp :: "'d mac \<Rightarrow> nat \<Rightarrow> u32 \<Rightarrow> 'd net \<Rightarrow> 'd net" where
  "packet_send_bc_arp mac pkt nani s =
     (let f = bc_arp_frame (mac_addr mac (dev s)) (system_ip s) nani;
          s = on_pkts (set_size pkt 42 \<circ> set_buf pkt f) s
      in net_transmit mac pkt s)"

section \<open>IP and UDP\<close>

definition resolve_with_arp :: "u32 \<Rightarrow> 'd net \<Rightarrow> 'd net" where
  "resolve_with_arp nani s = s\<lparr>arps := arp_resolve nani (arps s)\<rparr>"

text \<open>
  \<^verbatim>\<open>packet_fill_ip\<close> returns true when the destination's media address is not known (yet); then an address
  that is not in the table is put there to be resolved.
\<close>

definition packet_fill_ip :: "'d mac \<Rightarrow> nat \<Rightarrow> sockaddr \<Rightarrow> u32 \<Rightarrow> u8 \<Rightarrow> 'd net \<Rightarrow> bool \<times> 'd net" where
  "packet_fill_ip mac pkt dst payload_len proto s =
     (let ip_length = 20 + ucast payload_len :: u16;
          ip_length = (if ip_length < 28 then 28 else ip_length);
          fill = (\<lambda>hop s.
            (let f = ip_header ip_length proto (system_ip s) (v4 dst) \<circ> set_mac 6 (mac_addr mac (dev s)) \<circ> hop
             in (False, on_pkts (set_size pkt (14 + ucast ip_length) \<circ> set_buf pkt f) s)))
      in if v4 dst = 0xffffffff then fill (set_w 4 0xffff \<circ> set_w 2 0xffff \<circ> set_w 0 0xffff) s
         else
           (let arp_index = arp_find (arps s) (v4 dst)
            in if arp_index < arp_size (arps s) then
                 (let arp = arp_table (arps s) ! arp_index
                  in if info arp AND ARPT_KNOWN = 0 then (True, s) else fill (set_mac 0 (lla arp)) s)
               else (True, resolve_with_arp (v4 dst) s)))"

definition packet_fill_udp :: "'d mac \<Rightarrow> nat \<Rightarrow> u16 \<Rightarrow> sockaddr \<Rightarrow> u16 \<Rightarrow> 'd net \<Rightarrow> bool \<times> 'd net" where
  "packet_fill_udp mac pkt sport dst msg_size s =
     (if \<not> ethdev s then (True, s)
      else
        (let udp_length = ucast msg_size + 8 :: u32;
             udp_length = (if udp_length > 1500 - 20 then 1500 - 20 else udp_length);
             f = set_w 40 0 \<circ> set_w 38 (ix_bswapw (ucast udp_length)) \<circ> set_w 36 (sa_port dst)
                 \<circ> set_w 34 (ix_bswapw sport);
             s = on_pkts (set_buf pkt f) s;
             (failed, s) = packet_fill_ip mac pkt dst udp_length 17 s
         in if failed then (True, s)
            else (False, on_pkts (set_buf pkt (udp_checksum (ucast udp_length))) s)))"

text \<open>\<^verbatim>\<open>for(q = 0; q < 1472 && q < n; q++) pk[a + q] = src[q]\<close>\<close>

definition copy_in :: "nat \<Rightarrow> nat \<Rightarrow> (nat \<Rightarrow> u8) \<Rightarrow> bytes \<Rightarrow> bytes" where
  "copy_in a n src m = (\<lambda>i. if a \<le> i \<and> i < a + min 1472 n then src (i - a) else m i)"

definition send_via_udp :: "'d mac \<Rightarrow> u16 \<Rightarrow> sockaddr \<Rightarrow> (nat \<Rightarrow> u8) \<Rightarrow> u32 \<Rightarrow> 'd net \<Rightarrow> 'd net" where
  "send_via_udp mac sport dst msg msg_size s =
     (if \<not> ethdev s then s
      else
        (case net_request s of
           (None, s) \<Rightarrow> s
         | (Some pkt, s) \<Rightarrow>
             (let s = on_pkts (set_buf pkt (copy_in 42 (unat msg_size) msg)) s;
                  (failed, s) = packet_fill_udp mac pkt sport dst (ucast msg_size) s;
                  s = (if failed then s else net_transmit mac pkt s)
              in net_drop pkt s)))"

definition send_string_udp :: "'d mac \<Rightarrow> u16 \<Rightarrow> sockaddr \<Rightarrow> u8 list \<Rightarrow> 'd net \<Rightarrow> 'd net" where
  "send_string_udp mac sport dst msg s =
     (let sz = length (takeWhile (\<lambda>c. c \<noteq> 0) msg)
      in send_via_udp mac sport dst (\<lambda>i. msg ! i) (of_nat sz) s)"

section \<open>Requests for addresses\<close>

text \<open>One entry in \<^verbatim>\<open>runarp\<close>; \<open>continue\<close> leaves it as it is when no packet is free.\<close>

definition run_entry :: "'d mac \<Rightarrow> nat \<Rightarrow> 'd net \<Rightarrow> 'd net" where
  "run_entry mac i s =
     (let e = arp_table (arps s) ! i;
          age = (\<lambda>s. s\<lparr>arps := put_arp i (age_entry e) (arps s)\<rparr>)
      in if age_sends e then
           (case net_request s of
              (None, s) \<Rightarrow> s
            | (Some myarp, s) \<Rightarrow> net_drop myarp (age (packet_send_bc_arp mac myarp (ipa e) s)))
         else age s)"

definition runarp :: "'d mac \<Rightarrow> 'd net \<Rightarrow> 'd net" where
  "runarp mac s = fold (run_entry mac) [0 ..< arp_size (arps s)] s"

section \<open>The card as the network layer sees it\<close>

text \<open>
  What the network layer relies on: \<open>holds d\<close> are the references the driver keeps, \<open>good d\<close> its own
  invariant. Transmitting may keep a reference and release others, but keeps the account; it does not
  touch the content of any packet; it holds few of them, and its media address has six bytes.
\<close>

locale network_card =
  fixes mac :: "'d mac" and holds :: "'d \<Rightarrow> nat multiset" and good :: "'d \<Rightarrow> bool"
  assumes media: "good d \<Longrightarrow> length (mac_addr mac d) = 6"
    and few: "good d \<Longrightarrow> size (holds d) \<le> 256"
    and transmit: "good d \<Longrightarrow> i < length ps \<Longrightarrow> mac_transmit mac i (ps, d) = (ps', d') \<Longrightarrow>
      good d' \<and> length ps' = length ps \<and> mac_addr mac d' = mac_addr mac d
        \<and> (\<forall>R. i \<in># R \<longrightarrow> balanced ps (R + holds d) \<longrightarrow> balanced ps' (R + holds d'))
        \<and> (\<forall>j < length ps. pbuf (ps' ! j) = pbuf (ps ! j) \<and> psize (ps' ! j) = psize (ps ! j))"
    and junk: "good d \<Longrightarrow> mac_junk mac (d, r) = Some (d', r') \<Longrightarrow>
      good d' \<and> holds d' = holds d \<and> mac_addr mac d' = mac_addr mac d"

text \<open>
  The account of a state: the references of the driver, those of the offers kept, and those
  of the local variables \<open>R\<close> of the functions that are running.
\<close>

definition account :: "('d \<Rightarrow> nat multiset) \<Rightarrow> nat multiset \<Rightarrow> 'd net \<Rightarrow> bool" where
  "account holds R s \<longleftrightarrow> balanced (pkts s) (R + (holds (dev s) + held (offers (dhcp s))))"

context network_card
begin

text \<open>With 300 packets there are more than the driver, the offers and a few variables can hold.\<close>

definition sound :: "nat multiset \<Rightarrow> 'd net \<Rightarrow> bool" where
  "sound R s \<longleftrightarrow> account holds R s \<and> good (dev s) \<and> arp_inv (arps s) \<and> 300 \<le> length (pkts s)"

lemma sound_local: "sound R s \<Longrightarrow> i \<in># R \<Longrightarrow> i < length (pkts s)"
  by (auto simp: sound_def account_def balanced_def)

lemma sound_request:
  assumes "sound R s" "net_request s = (p, s')"
  shows "sound (own p + R) s' \<and> length (pkts s') = length (pkts s) \<and> (\<exists>ps. s' = s\<lparr>pkts := ps\<rparr>)"
proof -
  obtain ps where r: "request_packet None (pkts s) = (p, ps)" "s' = s\<lparr>pkts := ps\<rparr>"
    using assms(2) by (auto simp: net_request_def split: prod.splits)
  from assms(1) balanced_request [of "pkts s" None _ p ps] r show ?thesis
    by (auto simp: sound_def account_def add.assoc dest: request_length)
qed

lemma sound_drop: "sound (add_mset i R) s \<Longrightarrow> sound R (net_drop i s)"
  using balanced_reset [of "pkts s" "Some i" _ None]
  by (simp add: sound_def account_def net_drop_def on_pkts_def)

lemma sound_set_buf [simp]: "sound R (on_pkts (set_buf i f) s) = sound R s"
  by (simp add: sound_def account_def on_pkts_def)

lemma sound_set_size [simp]: "sound R (on_pkts (set_size i n) s) = sound R s"
  by (simp add: sound_def account_def on_pkts_def)

lemma on_pkts_comp: "on_pkts (f \<circ> g) s = on_pkts f (on_pkts g s)"
  by (simp add: on_pkts_def)

lemma sound_transmit:
  assumes s: "sound R s" and i: "i \<in># R"
  shows "sound R (net_transmit mac i s)"
proof -
  obtain ps d where t: "mac_transmit mac i (pkts s, dev s) = (ps, d)"
    by force
  have len: "i < length (pkts s)"
    by (rule sound_local [OF s i])
  have g: "good (dev s)" using s by (simp add: sound_def)
  have b: "balanced (pkts s) ((R + held (offers (dhcp s))) + holds (dev s))"
    using s by (simp add: sound_def account_def ac_simps)
  from transmit [OF g len t] b i have "balanced ps ((R + held (offers (dhcp s))) + holds d)"
    by simp
  then show ?thesis
    using transmit [OF g len t] s t
    by (simp add: sound_def account_def net_transmit_def ac_simps)
qed

lemma sound_arps: "sound R s \<Longrightarrow> arp_inv a \<Longrightarrow> sound R (s\<lparr>arps := a\<rparr>)"
  by (simp add: sound_def account_def)

lemma sound_resolve: "sound R s \<Longrightarrow> sound R (resolve_with_arp p s)"
  unfolding resolve_with_arp_def
  by (rule sound_arps) (simp_all add: sound_def arp_resolve_inv)

lemma sound_bc_arp: "sound R s \<Longrightarrow> i \<in># R \<Longrightarrow> sound R (packet_send_bc_arp mac i nani s)"
  unfolding packet_send_bc_arp_def Let_def on_pkts_comp by (rule sound_transmit) simp_all

lemma sound_resp_arp: "sound R s \<Longrightarrow> i \<in># R \<Longrightarrow> sound R (packet_send_resp_arp mac i j nani doko s)"
  unfolding packet_send_resp_arp_def Let_def on_pkts_comp by (rule sound_transmit) simp_all

lemma sound_fill_ip: "sound R s \<Longrightarrow> packet_fill_ip mac i dst n proto s = (b, s') \<Longrightarrow> sound R s'"
  by (auto simp: packet_fill_ip_def Let_def on_pkts_comp sound_resolve split: if_splits)

lemma sound_fill_udp: "sound R s \<Longrightarrow> packet_fill_udp mac i sport dst n s = (b, s') \<Longrightarrow> sound R s'"
  by (auto simp: packet_fill_udp_def Let_def split: if_splits prod.splits dest!: sound_fill_ip [rotated])

lemma sound_send_via_udp: "sound R s \<Longrightarrow> sound R (send_via_udp mac sport dst msg n s)"
proof -
  assume s: "sound R s"
  obtain p s1 where r: "net_request s = (p, s1)"
    by force
  note s1 = sound_request [OF s r]
  show ?thesis
  proof (cases p)
    case None
    with s s1 r show ?thesis by (simp add: send_via_udp_def)
  next
    case (Some i)
    let ?s2 = "on_pkts (set_buf i (copy_in 42 (unat n) msg)) s1"
    obtain b s3 where f: "packet_fill_udp mac i sport dst (ucast n) ?s2 = (b, s3)"
      by force
    have "sound (add_mset i R) ?s2"
      using s1 Some by simp
    then have s3: "sound (add_mset i R) s3"
      by (rule sound_fill_udp [OF _ f])
    then have "sound (add_mset i R) (if b then s3 else net_transmit mac i s3)"
      by (simp add: sound_transmit)
    then show ?thesis
      using s r Some f by (simp add: send_via_udp_def Let_def sound_drop del: sound_set_buf)
  qed
qed

lemma sound_run_entry: "sound R s \<Longrightarrow> i < arp_size (arps s) \<Longrightarrow> sound R (run_entry mac i s)
    \<and> arp_size (arps (run_entry mac i s)) = arp_size (arps s)"
proof -
  assume s: "sound R s" and i: "i < arp_size (arps s)"
  let ?e = "arp_table (arps s) ! i"
  have a: "arp_inv (put_arp i (age_entry ?e) (arps s))"
    using s i by (simp add: sound_def age_inv)
  obtain p s1 where r: "net_request s = (p, s1)"
    by force
  note s1 = sound_request [OF s r]
  have keep: "arps (net_transmit mac j t) = arps t" "arps (on_pkts f t) = arps t" for j t f
    by (simp_all add: net_transmit_def on_pkts_def split: prod.split)
  have keep2: "arps (packet_send_bc_arp mac j n t) = arps t" "arps (net_drop j t) = arps t" for j n t
    by (simp_all add: packet_send_bc_arp_def Let_def keep net_drop_def)
  show ?thesis
  proof (cases "age_sends ?e")
    case False
    with s a show ?thesis
      by (simp add: run_entry_def sound_arps)
  next
    case True
    show ?thesis
    proof (cases p)
      case None
      with s1 r True show ?thesis by (auto simp: run_entry_def)
    next
      case (Some j)
      then have s2: "sound (add_mset j R) (packet_send_bc_arp mac j (ipa ?e) s1)"
        using s1 by (intro sound_bc_arp) simp_all
      have same: "arps s1 = arps s"
        using s1 by auto
      have "sound (add_mset j R) ((packet_send_bc_arp mac j (ipa ?e) s1)\<lparr>arps :=
          put_arp i (age_entry ?e) (arps (packet_send_bc_arp mac j (ipa ?e) s1))\<rparr>)"
        by (rule sound_arps [OF s2]) (simp add: keep2 same a)
      then show ?thesis
        using True r Some by (simp add: run_entry_def Let_def sound_drop keep2 same)
    qed
  qed
qed

lemma sound_runarp: "sound R s \<Longrightarrow> sound R (runarp mac s)"
proof -
  assume s: "sound R s"
  have "sound R (fold (run_entry mac) [0 ..< n] s) \<and> arp_size (arps (fold (run_entry mac) [0 ..< n] s)) = arp_size (arps s)"
    if "n \<le> arp_size (arps s)" for n
    using that
  proof (induction n)
    case 0
    with s show ?case by simp
  next
    case (Suc n)
    with sound_run_entry [of R "fold (run_entry mac) [0 ..< n] s" n] show ?case
      by simp
  qed
  from this [of "arp_size (arps s)"] show ?thesis
    by (simp add: runarp_def)
qed

end

end
