(* ===== verification/Dhcp.thy ===== *)
theory Dhcp
  imports Send
begin

text \<open>
  The DHCP client of \<^verbatim>\<open>net/queue.cpp\<close> (\<^verbatim>\<open>struct DHCP_Client\<close>): its messages, its state machine and what it
  does with the replies. A call of \<^verbatim>\<open>run\<close> is a tenth of a second. The states are 0 off, 1 pause, 2 discover,
  3 waiting for offers, 4 error, 5 waiting for the acknowledgement, 6 and 7 leased, 8 renewing.

  A null reference that is followed, and a write behind the address table, are \<^const>\<open>None\<close>. The log
  messages are left out, and so are the subnet mask and the router, which the code reads and ignores.
\<close>

section \<open>Messages\<close>

definition DHCPDISCOVER :: u8 where "DHCPDISCOVER = 1"
definition DHCPOFFER :: u8 where "DHCPOFFER = 2"
definition DHCPREQUEST :: u8 where "DHCPREQUEST = 3"
definition DHCPACK :: u8 where "DHCPACK = 5"
definition DHCPNAK :: u8 where "DHCPNAK = 6"

lemmas dhcp_types = DHCPDISCOVER_def DHCPOFFER_def DHCPREQUEST_def DHCPACK_def DHCPNAK_def

text \<open>\<^verbatim>\<open>OptionAdder\<close>: where the next byte goes, and where the size of the current option is.\<close>

record option_adder =
  opt_where :: nat
  opt_soo :: nat
  opt_pk :: bytes

definition opt_new :: "u8 \<Rightarrow> option_adder \<Rightarrow> option_adder" where
  "opt_new op a =
     (let w = opt_where a
      in \<lparr>opt_where = w + 2, opt_soo = w + 1, opt_pk = (opt_pk a)(w := op, w + 1 := 0)\<rparr>)"

text \<open>\<^verbatim>\<open>v\<close>: the bytes of a value, lowest first.\<close>

definition opt_v :: "u8 list \<Rightarrow> option_adder \<Rightarrow> option_adder" where
  "opt_v bs a =
     (let m = opt_pk a; soo = opt_soo a; w = opt_where a;
          m = m(soo := m soo + of_nat (length bs));
          m = (\<lambda>i. if w \<le> i \<and> i < w + length bs then bs ! (i - w) else m i)
      in a\<lparr>opt_pk := m, opt_where := w + length bs\<rparr>)"

definition bytes16 :: "u16 \<Rightarrow> u8 list" where
  "bytes16 v = [ucast v, ucast (drop_bit 8 v)]"

definition bytes32 :: "u32 \<Rightarrow> u8 list" where
  "bytes32 v = [ucast v, ucast (drop_bit 8 v), ucast (drop_bit 16 v), ucast (drop_bit 24 v)]"

definition dhcp_fixed :: "u32 \<Rightarrow> u32 \<Rightarrow> u8 list \<Rightarrow> u32 option \<Rightarrow> u32 option \<Rightarrow> bytes \<Rightarrow> bytes" where
  "dhcp_fixed xid rt mac reqip dstip m =
     (let m = set_i 42 0x00060101 m;
          m = set_i 46 xid m;
          m = set_w 50 (ix_bswapw (ucast rt)) m;
          m = set_w 52 (if dstip \<noteq> None then 0 else 0x0080) m;
          m = set_i 54 (case (dstip, reqip) of (Some _, Some r) \<Rightarrow> r | _ \<Rightarrow> 0) m;
          m = set_i 58 0 m;
          m = set_i 62 0 m;
          m = set_i 66 0 m;
          m = set_mac 70 mac m;
          m = set_w 76 0 m;
          m = set_i 78 0 m;
          m = set_i 82 0 m;
          m = (\<lambda>i. if 86 \<le> i \<and> i < 86 + 192 then 0 else m i)
      in set_i 278 (ix_bswapi 0x63825363) m)"

definition dhcp_options :: "u8 \<Rightarrow> u32 option \<Rightarrow> u32 option \<Rightarrow> u32 option \<Rightarrow> option_adder \<Rightarrow> option_adder" where
  "dhcp_options phase reqip srvip dstip opt =
     (let opt = opt_v [phase] (opt_new 53 opt);
          opt = (case (dstip, reqip) of (None, Some r) \<Rightarrow> opt_v (bytes32 r) (opt_new 50 opt) | _ \<Rightarrow> opt);
          opt = (case (dstip, srvip) of (None, Some r) \<Rightarrow> opt_v (bytes32 r) (opt_new 54 opt) | _ \<Rightarrow> opt);
          opt = opt_v [1] (opt_new 55 opt);
          opt = opt_v [2] opt;
          opt = opt_v [3] opt;
          opt = opt_v [4] opt;
          opt = opt_v [5] opt;
          opt = opt_v [6] opt;
          opt = opt_v [15] opt;
          opt = opt_v [28] opt;
          opt = opt_v [31] opt;
          opt = opt_v [42] opt;
          opt = opt_v [51] opt;
          opt = opt_v [54] opt;
          opt = opt_v (bytes16 (ix_bswapw 1400)) (opt_new 57 opt)
      in opt\<lparr>opt_pk := (opt_pk opt)(opt_where opt := 0xff), opt_where := opt_where opt + 1\<rparr>)"

definition dest_addr :: sockaddr where
  "dest_addr = \<lparr>sa_port = 0x4300, v4 = 0xffffffff\<rparr>"

definition dh :: "(dhcp_client \<Rightarrow> dhcp_client) \<Rightarrow> 'd net \<Rightarrow> 'd net" where
  "dh f s = s\<lparr>dhcp := f (dhcp s)\<rparr>"

definition send_packet :: "'d mac \<Rightarrow> u8 \<Rightarrow> u32 option \<Rightarrow> u32 option \<Rightarrow> u32 option \<Rightarrow> 'd net \<Rightarrow> 'd net" where
  "send_packet mac phase reqip srvip dstip s =
     (case net_request s of
        (None, s) \<Rightarrow> s
      | (Some pkt, s) \<Rightarrow>
          (let m = dhcp_fixed (transaction (dhcp s)) (runtime (dhcp s)) (mac_addr mac (dev s)) reqip dstip (pk_buf pkt s);
               opt = dhcp_options phase reqip srvip dstip \<lparr>opt_where = 42 + 236 + 4, opt_soo = 0, opt_pk = m\<rparr>;
               s = on_pkts (set_buf pkt (\<lambda>_. opt_pk opt)) s;
               v_size = of_nat (opt_where opt - 42);
               dst = (case dstip of Some d \<Rightarrow> \<lparr>sa_port = sa_port dest_addr, v4 = d\<rparr> | None \<Rightarrow> dest_addr);
               (failed, s) = packet_fill_udp mac pkt 68 dst v_size s;
               s = (if failed then s else net_transmit mac pkt s)
           in net_drop pkt s))"

section \<open>The state machine\<close>

definition assign_ip4 :: "'d mac \<Rightarrow> u32 \<Rightarrow> 'd net \<Rightarrow> 'd net option" where
  "assign_ip4 mac ip s =
     (if ip = system_ip s then Some s
      else do {
        a \<leftarrow> arp_assign ip (mac_addr mac (dev s)) (arps s);
        Some (s\<lparr>arps := a, system_ip := ip\<rparr>)
      })"

definition drop_offers :: "'d net \<Rightarrow> 'd net" where
  "drop_offers s =
     (let s = on_pkts (fold (\<lambda>r. ref_reset r None) (offers (dhcp s))) s
      in dh (\<lambda>d. d\<lparr>offers := map (\<lambda>_. None) (offers d), offer_count := 0\<rparr>) s)"

definition dhcp_state :: "'d mac \<Rightarrow> u32 \<Rightarrow> 'd net \<Rightarrow> 'd net option" where
  "dhcp_state mac newstate s =
     (let s = dh (\<lambda>d. d\<lparr>runstate := newstate\<rparr>) s
      in if newstate = 0 then Some (drop_offers s)
         else if newstate = 4 \<or> newstate = 1 then do {
           let s = (if newstate = 4 then dh (\<lambda>d. d\<lparr>timeout := 300\<rparr>) s else s);
           let s = dh (\<lambda>d. d\<lparr>subtime := 0, runtime := 0, lease_addr := 0\<rparr>) s;
           s \<leftarrow> assign_ip4 mac 0 s;
           Some (drop_offers s)
         }
         else if newstate = 2 then Some (drop_offers (dh (\<lambda>d. d\<lparr>subtime := 0, runtime := 0\<rparr>) s))
         else if newstate = 3 \<or> newstate = 5 then Some (dh (\<lambda>d. d\<lparr>timeout := runtime d + 5\<rparr>) s)
         else if newstate = 6 then Some (dh (\<lambda>d. d\<lparr>timeout := runtime d + 30\<rparr>) s)
         else if newstate = 8 then
           Some (dh (\<lambda>d. d\<lparr>runtime := 0, subtime := 0, timeout := push_bit (unat (retry d)) 1\<rparr>) s)
         else Some s)"

definition dhcp_start :: "'d mac \<Rightarrow> 'd net \<Rightarrow> 'd net option" where
  "dhcp_start mac s = dhcp_state mac 1 s"

text \<open>The offer with the most options; the first of those.\<close>

fun select_offer :: "'d net \<Rightarrow> nat option list \<Rightarrow> nat option \<times> u32 \<Rightarrow> (nat option \<times> u32) option" where
  "select_offer s [] acc = Some acc"
| "select_offer s (None # os) acc = None"
| "select_offer s (Some r # os) (sel, selected_val) =
     (let val = pk_i (pk_buf r s) 4
      in select_offer s os (if val > selected_val then (Some r, val) else (sel, selected_val)))"

definition dhcp_verify :: "'d mac \<Rightarrow> 'd net \<Rightarrow> 'd net option" where
  "dhcp_verify mac s =
     (let d = dhcp s
      in if offer_count d = 0 then
           (if lease_addr d = 0 then
              (let s = dh (\<lambda>d. d\<lparr>retry := retry d + 1\<rparr>) s
               in if retry d + 1 > 6 then dhcp_state mac 0 s else dhcp_state mac 2 s)
            else
              (let target = (if lease_time d \<le> lease_t2 d then None else Some (serv_addr d))
               in Some (send_packet mac DHCPREQUEST (Some (lease_addr d)) None target s)))
         else do {
           (sel, _) \<leftarrow> select_offer s (take (offer_count d) (offers d)) (None, 0);
           sel_offer \<leftarrow> sel;
           let s = on_pkts (ref_reset None (Some sel_offer)) s;
           let m = pk_buf sel_offer s;
           let raddr = pk_i m (unat (pk_w m 0) + 16);
           let sid = pk_i m 8;
           let s = send_packet mac DHCPREQUEST (Some raddr) (Some sid) None s;
           s \<leftarrow> dhcp_state mac 5 s;
           Some (net_drop sel_offer s)
         })"

definition dhcp_tick :: "dhcp_client \<Rightarrow> dhcp_client" where
  "dhcp_tick d =
     (let d = d\<lparr>subtime := subtime d + 1\<rparr>
      in if subtime d \<ge> 10 then
           (let d = d\<lparr>runtime := runtime d + 1, subtime := 0\<rparr>
            in if lease_time d \<noteq> 0 \<and> lease_time d \<noteq> 0xffffffff then d\<lparr>lease_time := lease_time d - 1\<rparr> else d)
         else d)"

definition new_transaction :: "'d net \<Rightarrow> 'd net" where
  "new_transaction s = (let (x, r) = ixa4random (rng s) in dh (\<lambda>d. d\<lparr>transaction := x\<rparr>) (s\<lparr>rng := r\<rparr>))"

definition set_retry :: "u32 \<Rightarrow> 'd net \<Rightarrow> 'd net" where
  "set_retry n = dh (\<lambda>d. d\<lparr>retry := n\<rparr>)"

definition run_wait_lease :: "'d mac \<Rightarrow> 'd net \<Rightarrow> 'd net option" where
  "run_wait_lease mac s =
     (if lease_time (dhcp s) < lease_t1 (dhcp s) then dhcp_state mac 8 (new_transaction (set_retry 0 s)) else Some s)"

definition dhcp_run :: "'d mac \<Rightarrow> 'd net \<Rightarrow> 'd net option" where
  "dhcp_run mac s0 =
     (let s = dh dhcp_tick s0; d = dhcp s; st = runstate d
      in if st = 1 then
           (if runtime d > 10 then do {
              s \<leftarrow> dhcp_state mac 2 s;
              Some (set_retry 0 (new_transaction s))
            } else Some s)
         else if st = 2 then dhcp_state mac 3 (send_packet mac DHCPDISCOVER None None None s)
         else if st = 3 then (if runtime d \<ge> timeout d then dhcp_verify mac s else Some s)
         else if st = 4 then (if runtime d > timeout d then dhcp_state mac 1 s else Some s)
         else if st = 5 then
           (if runtime d \<ge> timeout d then
              (let s = set_retry (retry d + 1) s
               in if retry d + 1 > 6 then dhcp_state mac 1 s else dhcp_verify mac s)
            else Some s)
         else if st = 6 then do {
           s \<leftarrow> (if runtime d \<ge> timeout d then dhcp_state mac 7 s else Some s);
           run_wait_lease mac s
         }
         else if st = 7 then run_wait_lease mac s
         else if st = 8 then
           (if lease_time d = 0 then dhcp_state mac 1 s
            else if runtime d \<ge> timeout d then do {
              let s = set_retry (retry d + 1) s;
              s \<leftarrow> (if retry d + 1 > 6 then dhcp_state mac 8 (new_transaction (set_retry 0 s)) else Some s);
              dhcp_verify mac s
            }
            else Some s)
         else Some s)"

section \<open>Replies\<close>

record reply_options =
  has_options :: u32
  opt_sid :: u32
  mtype :: u8

definition HAS_LEASE_TIME :: u32 where "HAS_LEASE_TIME = 1"
definition HAS_SUBNET :: u32 where "HAS_SUBNET = 2"
definition HAS_ROUTER :: u32 where "HAS_ROUTER = 4"
definition HAS_DNS :: u32 where "HAS_DNS = 8"
definition HAS_TIMEOFS :: u32 where "HAS_TIMEOFS = 16"
definition HAS_TIMESRV :: u32 where "HAS_TIMESRV = 32"
definition HAS_DNAME :: u32 where "HAS_DNAME = 64"
definition HAS_ROUTERDIS :: u32 where "HAS_ROUTERDIS = 128"
definition HAS_SID :: u32 where "HAS_SID = 256"

lemmas has_defs = HAS_LEASE_TIME_def HAS_SUBNET_def HAS_ROUTER_def HAS_DNS_def HAS_TIMEOFS_def
  HAS_TIMESRV_def HAS_DNAME_def HAS_ROUTERDIS_def HAS_SID_def

definition min_options :: u32 where
  "min_options = HAS_LEASE_TIME OR HAS_SUBNET OR HAS_ROUTER OR HAS_DNS OR HAS_SID"

text \<open>One option; \<^const>\<open>None\<close> is a size or type that makes the client drop the message.\<close>

definition opt_one :: "bytes \<Rightarrow> u8 \<Rightarrow> u8 \<Rightarrow> nat \<Rightarrow> reply_options \<Rightarrow> reply_options option" where
  "opt_one m oc ocl i acc =
     (let has = (\<lambda>b. Some (acc\<lparr>has_options := has_options acc OR b\<rparr>));
          fours = \<not> (ocl < 4 \<or> ocl AND 3 \<noteq> 0)
      in if oc = 1 then (if ocl \<noteq> 4 then None else has HAS_SUBNET)
         else if oc = 2 then (if ocl \<noteq> 4 then None else has HAS_TIMEOFS)
         else if oc = 3 then (if \<not> fours then None else has HAS_ROUTER)
         else if oc = 4 then (if \<not> fours then None else has HAS_TIMESRV)
         else if oc = 6 then (if \<not> fours then None else has HAS_DNS)
         else if oc = 15 then (if ocl < 1 then None else has HAS_DNAME)
         else if oc = 31 then (if ocl \<noteq> 1 then None else has HAS_ROUTERDIS)
         else if oc = 51 then (if ocl \<noteq> 4 then None else has HAS_LEASE_TIME)
         else if oc = 53 then
           (if ocl \<noteq> 1 then None
            else if m i < 2 \<or> m i > 8 then None
            else Some (acc\<lparr>mtype := m i\<rparr>))
         else if oc = 54 then
           (if ocl \<noteq> 4 then None
            else Some (acc\<lparr>has_options := has_options acc OR HAS_SID, opt_sid := pk_i m i\<rparr>))
         else Some acc)"

function opt_scan :: "bytes \<Rightarrow> nat \<Rightarrow> nat \<Rightarrow> reply_options \<Rightarrow> reply_options option" where
  "opt_scan m eof i acc =
     (if i \<ge> eof then Some acc
      else
        (let oc = m i
         in if oc = 0 then opt_scan m eof (i + 1) acc
            else if oc = 0xff then Some acc
            else
              (let ocl = m (i + 1)
               in if i + 2 + unat ocl > eof then Some acc
                  else
                    (case opt_one m oc ocl (i + 2) acc of
                       None \<Rightarrow> None
                     | Some acc \<Rightarrow> opt_scan m eof (i + 2 + unat ocl) acc))))"
  by pat_completeness auto
termination
  by (relation "measure (\<lambda>(m, eof, i, acc). eof - i)") auto

text \<open>The second pass, when the lease is taken; of its results only the lease time is used.\<close>

function lease_scan :: "bytes \<Rightarrow> nat \<Rightarrow> nat \<Rightarrow> u32 \<Rightarrow> u32" where
  "lease_scan m eof i lt =
     (if i \<ge> eof then lt
      else
        (let oc = m i
         in if oc = 0 then lease_scan m eof (i + 1) lt
            else if oc = 0xff then lt
            else
              (let ocl = m (i + 1)
               in if i + 2 + unat ocl > eof then lt
                  else lease_scan m eof (i + 2 + unat ocl)
                    (if oc = 51 then ix_bswapi (pk_i m (i + 2)) else lt))))"
  by pat_completeness auto
termination
  by (relation "measure (\<lambda>(m, eof, i, lt). eof - i)") auto

declare opt_scan.simps [simp del] lease_scan.simps [simp del]

text \<open>The checks before the options are looked at.\<close>

definition reply_for_us :: "'d mac \<Rightarrow> bytes \<Rightarrow> nat \<Rightarrow> nat \<Rightarrow> 'd net \<Rightarrow> bool" where
  "reply_for_us mac m ofs len s \<longleftrightarrow>
     \<not> len < 240
     \<and> pk_i m (ofs + 4) = transaction (dhcp s)
     \<and> pk_i m ofs AND 0xffffff = 0x00060102
     \<and> pk_nw m (ofs + 10) AND 0x7fff = 0
     \<and> get_mac (ofs + 28) m = mac_addr mac (dev s)
     \<and> pk_i m (ofs + 236) = ix_bswapi 0x63825363"

text \<open>An offer is kept whole; what was found out about it overwrites the first twelve bytes of the frame.\<close>

definition keep_offer :: "nat \<Rightarrow> nat \<Rightarrow> nat \<Rightarrow> reply_options \<Rightarrow> 'd net \<Rightarrow> 'd net" where
  "keep_offer msg ofs len opts s =
     (if offer_count (dhcp s) < 4 then
        (let f = set_i 8 (opt_sid opts) \<circ> set_i 4 (has_options opts) \<circ> set_w 2 (of_nat len) \<circ> set_w 0 (of_nat ofs);
             n = offer_count (dhcp s);
             s = on_pkts (set_buf msg f) s;
             s = on_pkts (ref_reset (offers (dhcp s) ! n) (Some msg)) s
         in dh (\<lambda>d. d\<lparr>offers := (offers d)[n := Some msg], offer_count := n + 1\<rparr>) s)
      else s)"

definition take_lease :: "'d mac \<Rightarrow> bytes \<Rightarrow> nat \<Rightarrow> nat \<Rightarrow> reply_options \<Rightarrow> 'd net \<Rightarrow> 'd net option" where
  "take_lease mac m ofs len opts s =
     (let yip = pk_i m (ofs + 16);
          sip = pk_i m (ofs + 20);
          s = drop_offers s;
          s = dh (\<lambda>d. d\<lparr>lease_addr := yip, next_addr := sip, serv_addr := opt_sid opts\<rparr>) s;
          s = dh (\<lambda>d. d\<lparr>lease_time := lease_scan m (len + ofs) (ofs + 240) (lease_time d)\<rparr>) s;
          s = dh (\<lambda>d. d\<lparr>lease_t1 := drop_bit 1 (lease_time d), lease_t2 := drop_bit 3 (lease_time d)\<rparr>) s
      in do {
           s \<leftarrow> assign_ip4 mac yip s;
           dhcp_state mac 6 s
         })"

definition dhcp_recv :: "'d mac \<Rightarrow> nat \<Rightarrow> nat \<Rightarrow> nat \<Rightarrow> 'd net \<Rightarrow> 'd net option" where
  "dhcp_recv mac msg ofs len s =
     (let m = pk_buf msg s; st = runstate (dhcp s)
      in if \<not> reply_for_us mac m ofs len s then Some s
         else
           (case opt_scan m (len + ofs) (ofs + 240) \<lparr>has_options = 0, opt_sid = 0, mtype = 0\<rparr> of
              None \<Rightarrow> Some s
            | Some opts \<Rightarrow>
                if has_options opts AND min_options \<noteq> min_options then Some s
                else if st = 3 \<and> mtype opts \<noteq> DHCPOFFER then Some s
                else if (st = 5 \<or> st = 8) \<and> mtype opts = DHCPNAK then dhcp_state mac 1 s
                else if (st = 5 \<or> st = 8) \<and> mtype opts \<noteq> DHCPACK then Some s
                else if st = 3 then Some (keep_offer msg ofs len opts s)
                else if st = 5 \<or> st = 8 then take_lease mac m ofs len opts s
                else Some s))"

section \<open>The client at start\<close>

text \<open>The constructor; the members it does not mention are zero, since the client is a global.\<close>

definition dhcp_client_init :: dhcp_client where
  "dhcp_client_init = \<lparr>transaction = 0, runtime = 0, subtime = 0, runstate = 0, timeout = 0, retry = 0,
     offers = replicate 4 None, offer_count = 0, lease_addr = 0, next_addr = 0, serv_addr = 0,
     lease_time = 0, lease_t1 = 0, lease_t2 = 0\<rparr>"

text \<open>A machine with no network card and no packets, for examples.\<close>

definition bare_mac :: "unit mac" where
  "bare_mac = \<lparr>mac_transmit = \<lambda>_ x. x, mac_addr = \<lambda>_. [2, 0, 0, 0, 0, 1], mac_junk = Some\<rparr>"

definition bare_net :: "unit net" where
  "bare_net = \<lparr>pkts = [], dev = (), ethdev = False, arps = fresh_arp, system_ip = 0, arp_tc = 0, net_tc = 0, dh_tc = 0,
     dhcp = dhcp_client_init\<lparr>runstate := 1\<rparr>, rng = \<lparr>prng1 = replicate 16 0, prng_index = 0\<rparr>\<rparr>"

end
