(* ===== verification/Lease.thy ===== *)
theory Lease
  imports Dhcp
begin

text \<open>
  What the DHCP client does: its schedule when nobody answers, that it reads the options it writes, that a
  lease only comes from an acknowledgement addressed to it, and that none of its operations follows a null
  reference or loses count of one as long as the address table has room.
\<close>

section \<open>The schedule of a client that hears nothing\<close>

lemma dhcp_dh [simp]: "dhcp (dh f s) = f (dhcp s)"
  by (simp add: dh_def)

lemma dh_dh: "dh f (dh g s) = dh (f \<circ> g) s"
  by (simp add: dh_def)

lemma dhcp_kept [simp]:
  "dhcp (on_pkts f s) = dhcp s" "dhcp (net_drop i s) = dhcp s" "dhcp (net_transmit mac i s) = dhcp s"
  by (simp_all add: on_pkts_def net_drop_def net_transmit_def split: prod.split)

lemma dhcp_request: "net_request s = (p, s') \<Longrightarrow> dhcp s' = dhcp s"
  by (auto simp: net_request_def split: prod.splits)

lemma dhcp_fill_ip: "packet_fill_ip mac i dst n proto s = (b, s') \<Longrightarrow> dhcp s' = dhcp s"
  by (auto simp: packet_fill_ip_def Let_def resolve_with_arp_def split: if_splits)

lemma dhcp_fill_udp: "packet_fill_udp mac i sport dst n s = (b, s') \<Longrightarrow> dhcp s' = dhcp s"
  by (auto simp: packet_fill_udp_def Let_def split: if_splits prod.splits dest!: dhcp_fill_ip)

lemma dhcp_send_packet [simp]: "dhcp (send_packet mac phase reqip srvip dstip s) = dhcp s"
  by (auto simp: send_packet_def Let_def split: prod.splits option.splits dest!: dhcp_request dhcp_fill_udp)

fun dhcp_runs :: "'d mac \<Rightarrow> nat \<Rightarrow> 'd net \<Rightarrow> 'd net option" where
  "dhcp_runs mac 0 s = Some s"
| "dhcp_runs mac (Suc n) s = do { s \<leftarrow> dhcp_run mac s; dhcp_runs mac n s }"

lemma dhcp_runs_add: "dhcp_runs mac (m + n) s = do { s \<leftarrow> dhcp_runs mac m s; dhcp_runs mac n s }"
  by (induction m arbitrary: s) (simp_all, metis bind_assoc)

text \<open>The time in tenths of seconds since the counters were reset.\<close>

definition tenths :: "dhcp_client \<Rightarrow> nat" where
  "tenths d = 10 * unat (runtime d) + unat (subtime d)"

lemma tick_keeps [simp]:
  "runstate (dhcp_tick d) = runstate d" "timeout (dhcp_tick d) = timeout d" "retry (dhcp_tick d) = retry d"
  "offer_count (dhcp_tick d) = offer_count d" "offers (dhcp_tick d) = offers d"
  "lease_addr (dhcp_tick d) = lease_addr d" "transaction (dhcp_tick d) = transaction d"
  by (simp_all add: dhcp_tick_def Let_def)

lemma tick_time:
  assumes "unat (subtime d) < 10" "unat (runtime d) < 1000"
  shows "tenths (dhcp_tick d) = tenths d + 1" "unat (subtime (dhcp_tick d)) < 10"
proof -
  have s: "unat (subtime d + 1) = unat (subtime d) + 1" and r: "unat (runtime d + 1) = unat (runtime d) + 1"
    using assms by (simp_all add: unat_add_no_wrap)
  have c: "10 \<le> subtime d + 1 \<longleftrightarrow> unat (subtime d) = 9"
    using assms s by (auto simp: word_le_nat_alt)
  show "tenths (dhcp_tick d) = tenths d + 1" "unat (subtime (dhcp_tick d)) < 10"
    using assms s r by (auto simp: dhcp_tick_def Let_def tenths_def c)
qed

lemma ticks_time:
  assumes "unat (subtime d) < 10" "tenths d + n < 10000"
  shows "tenths ((dhcp_tick ^^ n) d) = tenths d + n \<and> unat (subtime ((dhcp_tick ^^ n) d)) < 10
    \<and> runstate ((dhcp_tick ^^ n) d) = runstate d \<and> timeout ((dhcp_tick ^^ n) d) = timeout d
    \<and> retry ((dhcp_tick ^^ n) d) = retry d \<and> offer_count ((dhcp_tick ^^ n) d) = offer_count d
    \<and> lease_addr ((dhcp_tick ^^ n) d) = lease_addr d"
  using assms(2)
proof (induction n)
  case 0
  with assms(1) show ?case by simp
next
  case (Suc n)
  then have "tenths ((dhcp_tick ^^ n) d) = tenths d + n" "unat (subtime ((dhcp_tick ^^ n) d)) < 10"
    by simp_all
  then have "unat (runtime ((dhcp_tick ^^ n) d)) < 1000"
    using Suc.prems by (simp add: tenths_def)
  from tick_time [OF _ this] Suc show ?case
    by simp
qed

text \<open>Until \<open>k\<close> tenths have passed, a run in this state only counts.\<close>

definition quiet_until :: "dhcp_client \<Rightarrow> nat \<Rightarrow> bool" where
  "quiet_until d k \<longleftrightarrow> k < 10000 \<and> (runstate d = 1 \<and> k = 110 \<or> runstate d = 3 \<and> k = 10 * unat (timeout d))"

lemma tenths_div: "unat (subtime d) < 10 \<Longrightarrow> unat (runtime d) = tenths d div 10"
  by (simp add: tenths_def)

lemma quiet_runs:
  assumes "quiet_until (dhcp s) k" "unat (subtime (dhcp s)) < 10" "tenths (dhcp s) + n < k"
  shows "dhcp_runs mac n s = Some (dh (dhcp_tick ^^ n) s)"
  using assms
proof (induction n arbitrary: s)
  case 0
  then show ?case by (simp add: dh_def)
next
  case (Suc n)
  let ?s = "dh dhcp_tick s"
  have t: "tenths (dhcp_tick (dhcp s)) = tenths (dhcp s) + 1" "unat (subtime (dhcp_tick (dhcp s))) < 10"
    using ticks_time [of "dhcp s" 1] Suc.prems by (simp_all add: quiet_until_def)
  have r: "unat (runtime (dhcp_tick (dhcp s))) = (tenths (dhcp s) + 1) div 10"
    using tenths_div [OF t(2)] t(1) by simp
  have "dhcp_run mac s = Some ?s"
    using Suc.prems r
    by (auto simp: dhcp_run_def Let_def quiet_until_def word_le_nat_alt word_less_nat_alt)
  moreover have "dhcp_runs mac n ?s = Some (dh (dhcp_tick ^^ n) ?s)"
    using Suc.prems t by (intro Suc.IH) (auto simp: quiet_until_def)
  ultimately show ?case
    by (simp add: dh_dh funpow_swap1 comp_def)
qed

lemma drop_offers_dhcp [simp]:
  "dhcp (drop_offers s) = (dhcp s)\<lparr>offers := map (\<lambda>_. None) (offers (dhcp s)), offer_count := 0\<rparr>"
  by (simp add: drop_offers_def)

lemma new_transaction_dhcp: "dhcp (new_transaction s) = (dhcp s)\<lparr>transaction := fst (ixa4random (rng s))\<rparr>"
  by (simp add: new_transaction_def dh_def split: prod.split)

lemma rng_kept [simp]:
  "rng (dh f s) = rng s" "rng (on_pkts g s) = rng s" "rng (drop_offers s) = rng s"
  by (simp_all add: dh_def on_pkts_def drop_offers_def)

lemma dhcp_runs_none [simp]: "dhcp_runs mac 0 = Some" "Option.bind x Some = x"
  by (auto simp: fun_eq_iff split: bind_splits)

text \<open>The pause: ten seconds, then one more run has the client ready to discover with a new transaction.\<close>

lemma pause_over:
  assumes "runstate (dhcp s) = 1" "subtime (dhcp s) = 0" "runtime (dhcp s) = 0"
  shows "\<exists>s'. dhcp_runs mac 110 s = Some s' \<and> runstate (dhcp s') = 2 \<and> subtime (dhcp s') = 0 \<and> runtime (dhcp s') = 0
    \<and> retry (dhcp s') = 0 \<and> offer_count (dhcp s') = 0 \<and> lease_addr (dhcp s') = lease_addr (dhcp s)
    \<and> transaction (dhcp s') = fst (ixa4random (rng s))"
proof -
  let ?s = "dh (dhcp_tick ^^ 109) s"
  have z: "tenths (dhcp s) = 0"
    using assms by (simp add: tenths_def)
  have q: "quiet_until (dhcp s) 110"
    using assms by (simp add: quiet_until_def)
  have wait: "dhcp_runs mac 109 s = Some ?s"
    using assms(2) z by (intro quiet_runs [OF q]) simp_all
  have d: "dhcp_tick (dhcp ?s) = (dhcp_tick ^^ Suc 109) (dhcp s)"
    by (simp only: dhcp_dh funpow.simps comp_apply)
  have t: "tenths (dhcp_tick (dhcp ?s)) = 110 \<and> unat (subtime (dhcp_tick (dhcp ?s))) < 10
    \<and> runstate (dhcp_tick (dhcp ?s)) = 1 \<and> lease_addr (dhcp_tick (dhcp ?s)) = lease_addr (dhcp s)"
    unfolding d using ticks_time [of "dhcp s" "Suc 109"] assms z by (simp del: funpow.simps)
  then have "unat (runtime (dhcp_tick (dhcp ?s))) = 110 div 10"
    using tenths_div [of "dhcp_tick (dhcp ?s)"] by (simp only:)
  then have "10 < runtime (dhcp_tick (dhcp ?s))"
    by (simp add: word_less_nat_alt)
  then have "dhcp_run mac ?s = Some (set_retry 0 (new_transaction (drop_offers
      (dh (\<lambda>d. d\<lparr>subtime := 0, runtime := 0\<rparr>) (dh (\<lambda>d. d\<lparr>runstate := 2\<rparr>) (dh dhcp_tick ?s))))))"
    using t by (simp add: dhcp_run_def Let_def dhcp_state_def)
  with wait have "dhcp_runs mac (109 + 1) s = Some (set_retry 0 (new_transaction (drop_offers
      (dh (\<lambda>d. d\<lparr>subtime := 0, runtime := 0\<rparr>) (dh (\<lambda>d. d\<lparr>runstate := 2\<rparr>) (dh dhcp_tick ?s))))))"
    by (simp only: dhcp_runs_add) simp
  then show ?thesis
    using t by (simp add: set_retry_def new_transaction_dhcp)
qed

text \<open>One attempt: a DISCOVER and five seconds without an offer.\<close>

definition attempting :: "dhcp_client \<Rightarrow> nat \<Rightarrow> bool" where
  "attempting d r \<longleftrightarrow> runstate d = 2 \<and> subtime d = 0 \<and> runtime d = 0 \<and> offer_count d = 0 \<and> lease_addr d = 0
     \<and> unat (retry d) = r"

lemma attempt:
  assumes "attempting (dhcp s) r" "r < 7"
  shows "\<exists>s'. dhcp_runs mac 50 s = Some s' \<and> (if r = 6 then runstate (dhcp s') = 0 else attempting (dhcp s') (Suc r))"
proof -
  let ?s1 = "dh (\<lambda>d. d\<lparr>timeout := runtime d + 5\<rparr>) (dh (\<lambda>d. d\<lparr>runstate := 3\<rparr>)
     (send_packet mac DHCPDISCOVER None None None (dh dhcp_tick s)))"
  let ?s2 = "dh (dhcp_tick ^^ 48) ?s1"
  have a: "runstate (dhcp s) = 2" "subtime (dhcp s) = 0" "runtime (dhcp s) = 0" "offer_count (dhcp s) = 0"
      "lease_addr (dhcp s) = 0" "unat (retry (dhcp s)) = r"
    using assms(1) by (simp_all add: attempting_def)
  have one: "dhcp_run mac s = Some ?s1"
    using a by (simp add: dhcp_run_def Let_def dhcp_state_def)
  have tick: "subtime (dhcp_tick (dhcp s)) = 1" "runtime (dhcp_tick (dhcp s)) = 0"
    using a by (simp_all add: dhcp_tick_def Let_def word_le_nat_alt)
  have d1: "dhcp ?s1 = (dhcp_tick (dhcp s))\<lparr>runstate := 3, timeout := 5\<rparr>"
    using tick by simp
  have z: "tenths (dhcp ?s1) = 1" and b: "unat (subtime (dhcp ?s1)) < 10"
    unfolding d1 using tick by (simp_all add: tenths_def)
  have q: "quiet_until (dhcp ?s1) 50"
    unfolding d1 by (simp add: quiet_until_def)
  have wait: "dhcp_runs mac 48 ?s1 = Some ?s2"
    by (rule quiet_runs [OF q b], unfold z) simp
  let ?d = "dhcp_tick (dhcp ?s2)"
  have "?d = (dhcp_tick ^^ 49) (dhcp ?s1)"
    using funpow.simps(2) [of 48 dhcp_tick] by simp
  then have t: "tenths ?d = 50 \<and> unat (subtime ?d) < 10 \<and> runstate ?d = 3 \<and> timeout ?d = 5 \<and> unat (retry ?d) = r
    \<and> offer_count ?d = 0 \<and> lease_addr ?d = 0"
    using ticks_time [OF b, of 49] z d1 a tick by simp
  then have "unat (runtime ?d) = 5"
    using tenths_div [of ?d] by simp
  then have late: "timeout ?d \<le> runtime ?d"
    using t by (simp add: word_le_nat_alt)
  have rr: "unat (retry ?d + 1) = Suc r" "6 < retry ?d + 1 \<longleftrightarrow> r = 6"
    using t assms(2) by (auto simp: unat_add_no_wrap word_less_nat_alt)
  define s3 where "s3 = dh (\<lambda>d. d\<lparr>retry := retry d + 1\<rparr>) (dh dhcp_tick ?s2)"
  have d3: "dhcp s3 = ?d\<lparr>retry := retry ?d + 1\<rparr>"
    by (simp add: s3_def)
  have "dhcp_run mac ?s2 = dhcp_verify mac (dh dhcp_tick ?s2)"
    using t late by (simp add: dhcp_run_def Let_def)
  also have "\<dots> = (if r = 6 then dhcp_state mac 0 s3 else dhcp_state mac 2 s3)"
    using t rr by (simp add: dhcp_verify_def Let_def s3_def)
  finally have last: "dhcp_run mac ?s2 = (if r = 6 then dhcp_state mac 0 s3 else dhcp_state mac 2 s3)" .
  have "dhcp_runs mac (1 + (48 + 1)) s = (if r = 6 then dhcp_state mac 0 s3 else dhcp_state mac 2 s3)"
    using one wait last by (simp only: dhcp_runs_add) simp
  then show ?thesis
    using t rr by (simp add: dhcp_state_def Let_def attempting_def d3)
qed

lemma attempts:
  assumes "attempting (dhcp s) r" "r < 7"
  shows "\<exists>s'. dhcp_runs mac (50 * (7 - r)) s = Some s' \<and> runstate (dhcp s') = 0"
  using assms
proof (induction "6 - r" arbitrary: r s)
  case 0
  then have "r = 6" by simp
  with attempt [OF "0.prems"] show ?case by simp
next
  case (Suc k)
  from Suc.hyps(2) have r: "r < 6" by simp
  then obtain s' where s': "dhcp_runs mac 50 s = Some s'" "attempting (dhcp s') (Suc r)"
    using attempt [OF Suc.prems, of mac] by auto
  have "k = 6 - Suc r" "Suc r < 7"
    using Suc.hyps(2) r by simp_all
  from Suc.hyps(1) [OF this(1) s'(2) this(2)] obtain s'' where
    "dhcp_runs mac (50 * (7 - Suc r)) s' = Some s''" "runstate (dhcp s'') = 0"
    by auto
  moreover have "50 * (7 - r) = 50 + 50 * (7 - Suc r)"
    using Suc.hyps(2) by simp
  ultimately show ?case
    using s' by (simp only: dhcp_runs_add) simp
qed



section \<open>The client reads the options it writes\<close>

definition tlvs :: "(u8 \<times> u8 list) list \<Rightarrow> u8 list" where
  "tlvs es = concat (map (\<lambda>(c, d). c # of_nat (length d) # d) es)"

lemma tlvs_simps [simp]:
  "tlvs [] = []" "tlvs ((c, d) # es) = c # of_nat (length d) # d @ tlvs es" "tlvs (es @ es') = tlvs es @ tlvs es'"
  by (simp_all add: tlvs_def)

definition bytes_at :: "bytes \<Rightarrow> nat \<Rightarrow> u8 list \<Rightarrow> bool" where
  "bytes_at m a bs \<longleftrightarrow> (\<forall>k < length bs. m (a + k) = bs ! k)"

lemma bytes_at_Cons: "bytes_at m a (b # bs) \<longleftrightarrow> m a = b \<and> bytes_at m (a + 1) bs"
  unfolding bytes_at_def
  by (auto simp: nth_Cons split: nat.splits)

lemma bytes_at_Nil [simp]: "bytes_at m a []"
  by (simp add: bytes_at_def)

lemma bytes_at_append: "bytes_at m a (bs @ cs) \<longleftrightarrow> bytes_at m a bs \<and> bytes_at m (a + length bs) cs"
  by (induction bs arbitrary: a) (auto simp: bytes_at_Cons)

text \<open>The options before the current one, and the code and data of the current one.\<close>

definition adding :: "nat \<Rightarrow> (u8 \<times> u8 list) list \<Rightarrow> u8 \<Rightarrow> u8 list \<Rightarrow> option_adder \<Rightarrow> bool" where
  "adding st es c d a \<longleftrightarrow> opt_where a = st + length (tlvs es) + 2 + length d
     \<and> opt_soo a = st + length (tlvs es) + 1 \<and> bytes_at (opt_pk a) st (tlvs (es @ [(c, d)]))"

lemma bytes_at_cong: "bytes_at m a bs \<Longrightarrow> (\<And>i. a \<le> i \<Longrightarrow> i < a + length bs \<Longrightarrow> m' i = m i) \<Longrightarrow> bytes_at m' a bs"
  by (simp add: bytes_at_def)

lemma opt_new_first: "opt_where a = st \<Longrightarrow> adding st [] c [] (opt_new c a)"
  by (simp add: adding_def opt_new_def bytes_at_Cons)

lemma opt_new_next:
  assumes "adding st es c d a"
  shows "adding st (es @ [(c, d)]) c' [] (opt_new c' a)"
proof -
  let ?w = "opt_where a"
  have w: "?w = st + length (tlvs (es @ [(c, d)]))" and b: "bytes_at (opt_pk a) st (tlvs (es @ [(c, d)]))"
    using assms by (simp_all add: adding_def)
  from bytes_at_cong [OF b, of "(opt_pk a)(?w := c', ?w + 1 := 0)"] w
  have "bytes_at ((opt_pk a)(?w := c', ?w + 1 := 0)) st (tlvs (es @ [(c, d)]))"
    by simp
  then show ?thesis
    using w by (simp add: adding_def opt_new_def Let_def bytes_at_append bytes_at_Cons)
qed

lemma opt_v_more:
  assumes "adding st es c d a"
  shows "adding st es c (d @ bs) (opt_v bs a)"
proof -
  let ?o = "st + length (tlvs es)"
  have w: "opt_where a = ?o + 2 + length d" and o: "opt_soo a = ?o + 1"
    and b: "bytes_at (opt_pk a) st (tlvs es)" "opt_pk a ?o = c" "opt_pk a (?o + 1) = of_nat (length d)"
      "bytes_at (opt_pk a) (?o + 2) d"
    using assms by (simp_all add: adding_def bytes_at_append bytes_at_Cons)
  let ?m = "opt_pk (opt_v bs a)"
  have m: "?m i = (if ?o + 2 + length d \<le> i \<and> i < ?o + 2 + length d + length bs then bs ! (i - (?o + 2 + length d))
      else if i = ?o + 1 then of_nat (length d + length bs) else opt_pk a i)" for i
    using w o b(3) by (simp add: opt_v_def Let_def)
  have "bytes_at ?m st (tlvs es)"
    by (rule bytes_at_cong [OF b(1)]) (simp add: m)
  moreover have "bytes_at ?m (?o + 2) d"
    by (rule bytes_at_cong [OF b(4)]) (simp add: m)
  moreover have "bytes_at ?m (?o + 2 + length d) bs"
    by (simp add: bytes_at_def m)
  ultimately show ?thesis
    using w o b(2) by (simp add: adding_def bytes_at_append bytes_at_Cons m) (simp add: opt_v_def Let_def)
qed

text \<open>What reading such a list does.\<close>

fun read_options :: "(u8 \<times> u8 list) list \<Rightarrow> reply_options \<Rightarrow> reply_options option" where
  "read_options [] acc = Some acc"
| "read_options ((c, d) # es) acc =
     (case opt_one (\<lambda>k. d ! k) c (of_nat (length d)) 0 acc of None \<Rightarrow> None | Some acc \<Rightarrow> read_options es acc)"

lemma opt_one_data:
  assumes "bytes_at m i d" "length d < 256"
  shows "opt_one m c (of_nat (length d)) i acc = opt_one (\<lambda>k. d ! k) c (of_nat (length d)) 0 acc"
proof -
  have l: "(of_nat (length d) :: u8) = 1 \<longleftrightarrow> length d = 1" "(of_nat (length d) :: u8) = 4 \<longleftrightarrow> length d = 4"
    using assms(2) by (simp_all add: word_eq_unat unat_of_nat)
  have b: "k < length d \<Longrightarrow> m (i + k) = d ! k" for k
    using assms(1) by (simp add: bytes_at_def)
  have "length d = 1 \<Longrightarrow> m i = d ! 0"
    using b [of 0] by simp
  moreover have "length d = 4 \<Longrightarrow> pk_i m i = pk_i (\<lambda>k. d ! k) 0"
    using b [of 0] b [of 1] b [of 2] b [of 3]
    by (simp add: pk_i_def pk_w_def ld16_def numeral_2_eq_2 numeral_3_eq_3)
  ultimately show ?thesis
    unfolding opt_one_def by (simp add: l Let_def)
qed

lemma opt_scan_list:
  assumes "bytes_at m i (tlvs es @ [0xff])" "\<forall>(c, d) \<in> set es. c \<noteq> 0 \<and> c \<noteq> 0xff \<and> length d < 256"
    and "i + length (tlvs es) + 1 \<le> eof"
  shows "opt_scan m eof i acc = read_options es acc"
  using assms
proof (induction es arbitrary: i acc)
  case Nil
  then show ?case
    by (subst opt_scan.simps) (simp add: bytes_at_Cons)
next
  case (Cons e es)
  obtain c d where e: "e = (c, d)" by force
  have b: "m i = c" "m (i + 1) = of_nat (length d)" "bytes_at m (i + 2) d"
      "bytes_at m (i + 2 + length d) (tlvs es @ [0xff])"
    using Cons.prems(1) by (simp_all add: e bytes_at_Cons bytes_at_append)
  have c: "c \<noteq> 0" "c \<noteq> 0xff" "length d < 256" and rest: "\<forall>(c, d) \<in> set es. c \<noteq> 0 \<and> c \<noteq> 0xff \<and> length d < 256"
    using Cons.prems(2) by (auto simp: e)
  have u: "unat (of_nat (length d) :: u8) = length d"
    using c(3) by (simp add: unat_of_nat)
  have fit: "i + 2 + length d + length (tlvs es) + 1 \<le> eof"
    using Cons.prems(3) by (simp add: e)
  have "opt_scan m eof i acc =
      (case opt_one m c (of_nat (length d)) (i + 2) acc of
         None \<Rightarrow> None | Some acc \<Rightarrow> opt_scan m eof (i + 2 + length d) acc)"
    using fit c b by (subst opt_scan.simps) (simp add: u Let_def split: option.split)
  then show ?case
    using Cons.IH [OF b(4) rest fit] opt_one_data [OF b(3) c(3), of c acc] by (simp add: e split: option.split)
qed


text \<open>The options of a request: its type, the address and server asked for unless it is sent to the server, and the
  parameters wanted.\<close>

definition request_options :: "u8 \<Rightarrow> u32 option \<Rightarrow> u32 option \<Rightarrow> u32 option \<Rightarrow> (u8 \<times> u8 list) list" where
  "request_options phase reqip srvip dstip =
     [(53, [phase])]
     @ (case (dstip, reqip) of (None, Some r) \<Rightarrow> [(50, bytes32 r)] | _ \<Rightarrow> [])
     @ (case (dstip, srvip) of (None, Some r) \<Rightarrow> [(54, bytes32 r)] | _ \<Rightarrow> [])
     @ [(55, [1, 2, 3, 4, 5, 6, 15, 28, 31, 42, 51, 54]), (57, bytes16 (ix_bswapw 1400))]"

lemma dhcp_options_written:
  assumes "a' = dhcp_options phase reqip srvip dstip a"
  shows "bytes_at (opt_pk a') (opt_where a) (tlvs (request_options phase reqip srvip dstip) @ [0xff])
    \<and> opt_where a' = opt_where a + length (tlvs (request_options phase reqip srvip dstip)) + 1"
proof -
  let ?st = "opt_where a"
  let ?e1 = "case (dstip, reqip) of (None, Some r) \<Rightarrow> [(50 :: u8, bytes32 r)] | _ \<Rightarrow> []"
  let ?e2 = "case (dstip, srvip) of (None, Some r) \<Rightarrow> [(54 :: u8, bytes32 r)] | _ \<Rightarrow> []"
  let ?params = "\<lambda>x. opt_v [54] (opt_v [51] (opt_v [42] (opt_v [31] (opt_v [28] (opt_v [15] (opt_v [6] (opt_v [5]
    (opt_v [4] (opt_v [3] (opt_v [2] (opt_v [1] (opt_new 55 x))))))))))))"
  let ?o1 = "opt_v [phase] (opt_new 53 a)"
  have o1: "adding ?st [] 53 [phase] ?o1"
    using opt_v_more [OF opt_new_first [of a ?st 53], of "[phase]"] by simp
  define o2 where "o2 = (case (dstip, reqip) of (None, Some r) \<Rightarrow> opt_v (bytes32 r) (opt_new 50 ?o1) | _ \<Rightarrow> ?o1)"
  have o2: "\<exists>es c d. adding ?st es c d o2 \<and> es @ [(c, d)] = [(53, [phase])] @ ?e1"
    using o1 opt_v_more [OF opt_new_next [OF o1, of 50]]
    by (cases dstip; cases reqip) (fastforce simp: o2_def)+
  then obtain es c d where es: "adding ?st es c d o2" "es @ [(c, d)] = [(53, [phase])] @ ?e1"
    by blast
  define o3 where "o3 = (case (dstip, srvip) of (None, Some r) \<Rightarrow> opt_v (bytes32 r) (opt_new 54 o2) | _ \<Rightarrow> o2)"
  have "\<exists>fs c' d'. adding ?st fs c' d' o3 \<and> fs @ [(c', d')] = (es @ [(c, d)]) @ ?e2"
    using es(1) opt_v_more [OF opt_new_next [OF es(1), of 54]]
    by (cases dstip; cases srvip) (fastforce simp: o3_def)+
  then obtain fs c' d' where fs: "adding ?st fs c' d' o3" "fs @ [(c', d')] = [(53, [phase])] @ ?e1 @ ?e2"
    unfolding es(2) by auto
  have "adding ?st (fs @ [(c', d')]) 55 ([] @ [1] @ [2] @ [3] @ [4] @ [5] @ [6] @ [15] @ [28] @ [31] @ [42] @ [51] @ [54])
      (?params o3)"
    by (simp only: append.assoc [symmetric]) (intro opt_v_more opt_new_next fs(1))
  from opt_v_more [OF opt_new_next [OF this, of 57], of "bytes16 (ix_bswapw 1400)"]
  have last: "adding ?st ((fs @ [(c', d')]) @ [(55, [1, 2, 3, 4, 5, 6, 15, 28, 31, 42, 51, 54])]) 57
      (bytes16 (ix_bswapw 1400)) (opt_v (bytes16 (ix_bswapw 1400)) (opt_new 57 (?params o3)))" (is "adding _ ?gs _ ?d ?o")
    by simp
  have all: "?gs @ [(57, ?d)] = request_options phase reqip srvip dstip"
    by (simp only: fs(2) request_options_def append.assoc append.simps)
  have a': "a' = ?o\<lparr>opt_pk := (opt_pk ?o)(opt_where ?o := 0xff), opt_where := opt_where ?o + 1\<rparr>"
    unfolding assms dhcp_options_def Let_def o3_def o2_def by (rule refl)
  have w: "opt_where ?o = ?st + length (tlvs (request_options phase reqip srvip dstip))"
    and b: "bytes_at (opt_pk ?o) ?st (tlvs (request_options phase reqip srvip dstip))"
    using last unfolding all [symmetric] by (simp_all add: adding_def)
  have "bytes_at ((opt_pk ?o)(opt_where ?o := 0xff)) ?st (tlvs (request_options phase reqip srvip dstip))"
    by (rule bytes_at_cong [OF b]) (simp add: w)
  then show ?thesis
    by (simp add: a' bytes_at_append bytes_at_Cons) (simp add: w)
qed

lemma length_bytes32 [simp]: "length (bytes32 r) = 4"
  by (simp add: bytes32_def)

lemma pk_i_bytes32: "pk_i (\<lambda>k. bytes32 r ! k) 0 = r"
  unfolding pk_i_def pk_w_def ld16_def bytes32_def
proof (rule bit_word_eqI, goal_cases)
  case (1 n)
  then show ?case
    by (cases "16 \<le> n") (auto simp: bit_simps)
qed

text \<open>C23 What the client's parser makes of the options that the client writes: the type of the message, and the
  server it is meant for.\<close>

theorem dhcp_reads_own_options:
  assumes "2 \<le> phase" "phase \<le> 8" "a' = dhcp_options phase reqip srvip None a"
  shows "opt_scan (opt_pk a') (opt_where a') (opt_where a) acc = Some (case srvip of
      None \<Rightarrow> acc\<lparr>mtype := phase\<rparr>
    | Some sid \<Rightarrow> acc\<lparr>mtype := phase, has_options := has_options acc OR HAS_SID, opt_sid := sid\<rparr>)"
proof -
  let ?es = "request_options phase reqip srvip None"
  note w = dhcp_options_written [OF assms(3)]
  have codes: "\<forall>(c, d) \<in> set ?es. c \<noteq> 0 \<and> c \<noteq> 0xff \<and> length d < 256"
    by (cases reqip; cases srvip) (simp_all add: request_options_def bytes32_def bytes16_def)
  have "opt_scan (opt_pk a') (opt_where a') (opt_where a) acc = read_options ?es acc"
    by (rule opt_scan_list [OF conjunct1 [OF w] codes]) (simp add: w)
  also have "\<dots> = Some (case srvip of
      None \<Rightarrow> acc\<lparr>mtype := phase\<rparr>
    | Some sid \<Rightarrow> acc\<lparr>mtype := phase, has_options := has_options acc OR HAS_SID, opt_sid := sid\<rparr>)"
    using assms(1,2) by (cases reqip; cases srvip)
      (simp_all add: request_options_def opt_one_def Let_def not_less pk_i_bytes32)
  finally show ?thesis .
qed

lemma dhcp_reads_own_options_witness:
  "opt_scan (opt_pk (dhcp_options 3 (Some 5) (Some 7) None \<lparr>opt_where = 282, opt_soo = 0, opt_pk = \<lambda>_. 0\<rparr>))
     (opt_where (dhcp_options 3 (Some 5) (Some 7) None \<lparr>opt_where = 282, opt_soo = 0, opt_pk = \<lambda>_. 0\<rparr>)) 282
     \<lparr>has_options = 0, opt_sid = 0, mtype = 0\<rparr> = Some \<lparr>has_options = HAS_SID, opt_sid = 7, mtype = 3\<rparr>"
  using dhcp_reads_own_options [OF _ _ refl, of 3 "Some 5" "Some 7" "\<lparr>opt_where = 282, opt_soo = 0, opt_pk = \<lambda>_. 0\<rparr>"
      "\<lparr>has_options = 0, opt_sid = 0, mtype = 0\<rparr>"]
  by simp

section \<open>Where leases come from\<close>

definition no_reply :: reply_options where
  "no_reply = \<lparr>has_options = 0, opt_sid = 0, mtype = 0\<rparr>"

lemma dhcp_state_lease: "dhcp_state mac n s = Some s' \<Longrightarrow> lease_addr (dhcp s') = lease_addr (dhcp s) \<or> lease_addr (dhcp s') = 0"
  by (auto simp: dhcp_state_def Let_def dh_def drop_offers_def on_pkts_def assign_ip4_def
      split: if_splits bind_splits)

lemma dhcp_state_6: "dhcp_state mac 6 s = Some s' \<Longrightarrow>
    dhcp s' = (dhcp s)\<lparr>runstate := 6, timeout := runtime (dhcp s) + 30\<rparr> \<and> system_ip s' = system_ip s"
  by (auto simp: dhcp_state_def Let_def dh_def)

lemma assign_system_ip: "assign_ip4 mac ip s = Some s' \<Longrightarrow> system_ip s' = ip \<and> dhcp s' = dhcp s"
  by (auto simp: assign_ip4_def split: if_splits bind_splits)


section \<open>No run of the client fails\<close>

definition room :: "arp_layer \<Rightarrow> bool" where
  "room a \<longleftrightarrow> fst (arp_add a) < arp_limit a"

lemma assign_room: "arp_inv a \<Longrightarrow> room a \<Longrightarrow> \<exists>a'. arp_assign p mac a = Some a' \<and> arp_inv a'"
proof -
  assume inv: "arp_inv a" and r: "room a"
  have "arp_limit (snd (arp_add a)) = arp_limit a" "arp_size a \<le> arp_limit a"
    using inv by (auto simp: arp_add_def Let_def arp_inv_def arp_ok_def split: option.split)
  then obtain a' where "arp_assign p mac a = Some a'"
    using r by (cases "arp_size a \<le> arp_find a p"; cases "arp_add a") (auto simp: arp_assign_def Let_def room_def split: prod.split)
  with arp_assign_inv [OF inv this] show ?thesis by blast
qed

definition offers_ok :: "'d net \<Rightarrow> bool" where
  "offers_ok s \<longleftrightarrow> (\<exists>rs. offers (dhcp s) = map Some rs @ replicate (4 - length rs) None \<and> length rs \<le> 4
     \<and> offer_count (dhcp s) = length rs \<and> (\<forall>r \<in> set rs. pk_i (pk_buf r s) 4 \<noteq> 0))"

lemma held_simps [simp]:
  "held [] = {#}" "held (Some r # xs) = add_mset r (held xs)" "held (None # xs) = held xs"
  "held (xs @ ys) = held xs + held ys" "held (replicate n None) = {#}" "held (map Some rs) = mset rs"
proof -
  show a: "held [] = {#}" "held (Some r # xs) = add_mset r (held xs)" "held (None # xs) = held xs"
    by (simp_all add: held_def List.map_filter_simps)
  show "held (xs @ ys) = held xs + held ys"
    by (induction xs) (simp_all add: held_def List.map_filter_simps split: option.split)
  show "held (replicate n None) = {#}"
    by (induction n) (simp_all add: a(1) held_def List.map_filter_simps)
  show "held (map Some rs) = mset rs"
    by (induction rs) (simp_all add: held_def List.map_filter_simps)
qed

lemma held_nones [simp]: "held (map (\<lambda>_. None) xs) = {#}"
  by (simp add: map_replicate_const)

lemma offers_ok_same:
  "offers_ok s \<Longrightarrow> offers (dhcp s') = offers (dhcp s) \<Longrightarrow> offer_count (dhcp s') = offer_count (dhcp s) \<Longrightarrow>
     (\<And>r. r \<in># held (offers (dhcp s)) \<Longrightarrow> pk_buf r s' = pk_buf r s) \<Longrightarrow> offers_ok s'"
  unfolding offers_ok_def by (elim exE) (rule_tac x = rs in exI, simp)

lemma balanced_drop_all: "balanced ps (R + held os) \<Longrightarrow> balanced (fold (\<lambda>r. ref_reset r None) os ps) R"
proof (induction os arbitrary: ps)
  case Nil
  then show ?case by simp
next
  case (Cons r os)
  have "balanced ps (own r + (R + held os))"
    using Cons.prems by (cases r) (simp_all add: ac_simps)
  from balanced_reset [OF this, of None] show ?case
    by (simp add: Cons.IH)
qed

lemma length_fold_reset [simp]: "length (fold (\<lambda>r. ref_reset r None) os ps) = length ps"
  by (induction os arbitrary: ps) simp_all

lemma select_offer_some:
  "\<exists>r v'. select_offer s (map Some rs) (Some y, v) = Some (Some r, v') \<and> (r \<in> set rs \<or> r = y)"
proof (induction rs arbitrary: y v)
  case Nil
  then show ?case by simp
next
  case (Cons a rs)
  show ?case
    using Cons.IH [of a "pk_i (pk_buf a s) 4"] Cons.IH [of y v] by (auto simp: Let_def)
qed

lemma select_offer_any:
  "rs \<noteq> [] \<Longrightarrow> \<forall>r \<in> set rs. pk_i (pk_buf r s) 4 \<noteq> 0 \<Longrightarrow>
     \<exists>r v'. select_offer s (map Some rs) (None, 0) = Some (Some r, v') \<and> r \<in> set rs"
  using select_offer_some [of s "tl rs" "hd rs" "pk_i (pk_buf (hd rs) s) 4"]
  by (cases rs) (auto simp: Let_def word_greater_zero_iff)

lemma arps_send_kept [simp]:
  "arps (dh f s) = arps s" "arps (on_pkts g s) = arps s" "arps (net_drop i s) = arps s" "arps (net_transmit mac i s) = arps s"
  "arps (drop_offers s) = arps s" "arps (new_transaction s) = arps s" "arps (set_retry k s) = arps s"
  by (simp_all add: dh_def on_pkts_def net_drop_def net_transmit_def drop_offers_def new_transaction_def set_retry_def
      split: prod.split)

lemma size_held: "size (held xs) \<le> length xs"
  by (induction xs) (auto simp: held_def List.map_filter_simps split: option.split)

context network_card
begin

text \<open>What a send leaves alone: all but the cards and the packets nobody held.\<close>

definition sends :: "nat multiset \<Rightarrow> 'd net \<Rightarrow> 'd net \<Rightarrow> bool" where
  "sends R s s' \<longleftrightarrow> sound R s' \<and> dhcp s' = dhcp s \<and> (\<forall>r. r \<in># R + held (offers (dhcp s)) \<longrightarrow> pk_buf r s' = pk_buf r s)"

definition only :: "nat \<Rightarrow> 'd net \<Rightarrow> 'd net \<Rightarrow> bool" where
  "only i s s' \<longleftrightarrow> length (pkts s') = length (pkts s) \<and> (\<forall>r < length (pkts s). r \<noteq> i \<longrightarrow> pk_buf r s' = pk_buf r s)"

lemma only_refl [simp]: "only i s s"
  by (simp add: only_def)

lemma only_trans: "only i s s' \<Longrightarrow> only i s' s'' \<Longrightarrow> only i s s''"
  by (simp add: only_def)

lemma only_set_buf [simp]: "only i s (on_pkts (set_buf i f) s)"
  by (simp add: only_def on_pkts_def pk_buf_def set_buf_def)

lemma only_set_size [simp]: "only i s (on_pkts (set_size i n) s)"
  by (auto simp: only_def on_pkts_def pk_buf_def set_size_def nth_list_update)

lemma pk_buf_drop [simp]: "pk_buf r (net_drop j s) = pk_buf r s"
  by (simp add: pk_buf_def net_drop_def on_pkts_def)

lemma pk_buf_drop_offers [simp]: "pk_buf r (drop_offers s) = pk_buf r s"
proof -
  have "pbuf (fold (\<lambda>r. ref_reset r None) os ps ! r) = pbuf (ps ! r)" for os ps
    by (induction os arbitrary: ps) simp_all
  then show ?thesis
    by (simp add: pk_buf_def drop_offers_def on_pkts_def dh_def)
qed

lemma pk_buf_request: "net_request s = (p, s') \<Longrightarrow> pk_buf r s' = pk_buf r s"
  by (auto simp: net_request_def request_packet_def Let_def pk_buf_def)

lemma only_transmit: "sound R s \<Longrightarrow> i \<in># R \<Longrightarrow> only j s (net_transmit mac i s)"
proof -
  assume s: "sound R s" and i: "i \<in># R"
  obtain ps d where t: "mac_transmit mac i (pkts s, dev s) = (ps, d)"
    by force
  have "good (dev s)"
    using s by (simp add: sound_def)
  from transmit [OF this sound_local [OF s i] t] t show ?thesis
    by (simp add: only_def net_transmit_def pk_buf_def)
qed

lemma only_fill_ip: "packet_fill_ip mac i dst n proto s = (b, s') \<Longrightarrow> only i s s'"
  by (auto simp: packet_fill_ip_def Let_def on_pkts_comp resolve_with_arp_def
      intro: only_trans [OF only_set_buf only_set_size] split: if_splits)
    (simp_all add: only_def pk_buf_def)

lemma only_fill_udp: "packet_fill_udp mac i sport dst n s = (b, s') \<Longrightarrow> only i s s'"
  by (auto simp: packet_fill_udp_def Let_def split: if_splits prod.splits dest!: only_fill_ip
      intro: only_trans [OF only_trans [OF only_set_buf] only_set_buf] only_trans [OF only_set_buf])

lemma few_references:
  "sound R s \<Longrightarrow> size R \<le> 8 \<Longrightarrow> length (offers (dhcp s)) \<le> 8 \<Longrightarrow>
     size (R + (holds (dev s) + held (offers (dhcp s)))) < 300"
  using few [of "dev s"] size_held [of "offers (dhcp s)"] by (simp add: sound_def)

lemma request_available:
  assumes "sound R s" "size R \<le> 8" "length (offers (dhcp s)) \<le> 8"
  shows "\<exists>i ps. request_packet old (pkts s) = (Some i, ps)"
proof -
  let ?T = "R + (holds (dev s) + held (offers (dhcp s)))"
  have "\<exists>i < length (pkts s). refs (pkts s ! i) = 0"
  proof (rule ccontr)
    assume "\<not> ?thesis"
    then have "{..<length (pkts s)} \<subseteq> set_mset ?T"
      using assms(1) balanced_free [of "pkts s" ?T] by (auto simp: sound_def account_def)
    then have "length (pkts s) \<le> card (set_mset ?T)"
      using card_mono [of "set_mset ?T" "{..<length (pkts s)}"] by simp
    also have "\<dots> \<le> size ?T"
      by (rule card_set_mset_size)
    finally show False
      using few_references [OF assms] assms(1) by (simp add: sound_def)
  qed
  then obtain i where "first_index (\<lambda>p. refs p = 0) (pkts s) = Some i"
    using first_index_None [of "\<lambda>p. refs p = 0" "pkts s"] by fastforce
  then show ?thesis by (simp add: request_packet_def Let_def)
qed

lemma fresh_request:
  assumes "sound R s" "size R \<le> 8" "length (offers (dhcp s)) \<le> 8" "net_request s = (Some i, s')"
  shows "i \<notin># R + held (offers (dhcp s))"
proof -
  have "size (R + (holds (dev s) + held (offers (dhcp s)))) < 2 ^ 32"
    using few_references [OF assms(1-3)] by simp
  from request_fresh [OF _ this] assms(1,4) show ?thesis
    by (auto simp: sound_def account_def net_request_def split: prod.splits)
qed

lemma sends_send_packet:
  assumes s: "sound R s" and small: "size R \<le> 8" "length (offers (dhcp s)) \<le> 8"
  shows "sends R s (send_packet mac phase reqip srvip dstip s)"
proof -
  obtain p s1 where r: "net_request s = (p, s1)"
    by force
  note s1 = sound_request [OF s r]
  show ?thesis
  proof (cases p)
    case None
    with s1 r show ?thesis
      by (auto simp: send_packet_def sends_def pk_buf_request dest: dhcp_request)
  next
    case (Some i)
    define m where "m = dhcp_fixed (transaction (dhcp s1)) (runtime (dhcp s1)) (mac_addr mac (dev s1)) reqip dstip (pk_buf i s1)"
    define opt where "opt = dhcp_options phase reqip srvip dstip \<lparr>opt_where = 42 + 236 + 4, opt_soo = 0, opt_pk = m\<rparr>"
    define s2 where "s2 = on_pkts (set_buf i (\<lambda>_. opt_pk opt)) s1"
    define dst where "dst = (case dstip of Some d \<Rightarrow> \<lparr>sa_port = sa_port dest_addr, v4 = d\<rparr> | None \<Rightarrow> dest_addr)"
    obtain b s3 where f: "packet_fill_udp mac i 68 dst (of_nat (opt_where opt - 42)) s2 = (b, s3)"
      by force
    define s4 where "s4 = (if b then s3 else net_transmit mac i s3)"
    have res: "send_packet mac phase reqip srvip dstip s = net_drop i s4"
      unfolding send_packet_def r Some s4_def
      by (simp only: prod.case option.case Let_def m_def [symmetric] opt_def [symmetric] s2_def [symmetric]
          dst_def [symmetric] f)
    have "sound (add_mset i R) s2"
      using s1 Some by (simp add: s2_def)
    then have s3: "sound (add_mset i R) s3"
      by (rule sound_fill_udp [OF _ f])
    then have s4: "sound (add_mset i R) s4" "only i s3 s4"
      by (simp_all add: s4_def sound_transmit only_transmit)
    have "only i s1 s4"
      using only_set_buf [of i s1] only_fill_udp [OF f] s4(2) unfolding s2_def by (blast intro: only_trans)
    then have "\<forall>r. r \<in># R + held (offers (dhcp s)) \<longrightarrow> pk_buf r s4 = pk_buf r s"
      using fresh_request [OF s small] r Some s s1 pk_buf_request [OF r]
      by (auto simp: only_def sound_def account_def balanced_def)
    then show ?thesis
      unfolding res using sound_drop [OF s4(1)] dhcp_send_packet [of mac phase reqip srvip dstip s]
      by (simp add: sends_def res)
  qed
qed

text \<open>The state between two events: accounts, table and offers are in order.\<close>

definition steady :: "nat multiset \<Rightarrow> 'd net \<Rightarrow> bool" where
  "steady R s \<longleftrightarrow> sound R s \<and> offers_ok s"

lemma offers_ok_length: "offers_ok s \<Longrightarrow> length (offers (dhcp s)) = 4"
  by (auto simp: offers_ok_def)

lemma sound_dh: "sound R s \<Longrightarrow> offers (f (dhcp s)) = offers (dhcp s) \<Longrightarrow> sound R (dh f s)"
  by (simp add: sound_def account_def dh_def)

lemma pk_buf_dh [simp]: "pk_buf r (dh f s) = pk_buf r s"
  by (simp add: pk_buf_def dh_def)

lemma steady_dh:
  "steady R s \<Longrightarrow> offers (f (dhcp s)) = offers (dhcp s) \<Longrightarrow> offer_count (f (dhcp s)) = offer_count (dhcp s) \<Longrightarrow> steady R (dh f s)"
  by (auto simp: steady_def intro: sound_dh offers_ok_same)

lemma steady_send_packet:
  "steady R s \<Longrightarrow> size R \<le> 8 \<Longrightarrow> steady R (send_packet mac phase reqip srvip dstip s)"
  using sends_send_packet [of R s phase reqip srvip dstip] offers_ok_length [of s]
  by (auto simp: steady_def sends_def intro!: offers_ok_same [of s])

lemma steady_drop_offers: "steady R s \<Longrightarrow> steady R (drop_offers s)"
proof -
  assume s: "steady R s"
  have "balanced (pkts s) ((R + holds (dev s)) + held (offers (dhcp s)))"
    using s by (simp add: steady_def sound_def account_def ac_simps)
  from balanced_drop_all [OF this] have "sound R (drop_offers s)"
    using s by (simp add: steady_def sound_def account_def drop_offers_def on_pkts_def dh_def)
  moreover have "offers_ok (drop_offers s)"
    using s offers_ok_length [of s] by (simp add: steady_def offers_ok_def map_replicate_const)
  ultimately show ?thesis by (simp add: steady_def)
qed

lemma steady_assign:
  assumes "steady R s" "room (arps s)"
  shows "\<exists>s'. assign_ip4 mac ip s = Some s' \<and> steady R s'"
proof -
  have inv: "arp_inv (arps s)"
    using assms(1) by (simp add: steady_def sound_def)
  show ?thesis
    using assign_room [OF inv assms(2), of ip "mac_addr mac (dev s)"] assms(1)
    by (auto simp: assign_ip4_def steady_def sound_def account_def offers_ok_def pk_buf_def)
qed

lemma steady_state:
  assumes s: "steady R s" and r: "room (arps s)"
  shows "\<exists>s'. dhcp_state mac n s = Some s' \<and> steady R s'"
proof -
  have reset: "\<exists>s'. (do { s \<leftarrow> assign_ip4 mac 0 t; Some (drop_offers s) }) = Some s' \<and> steady R s'"
    if "steady R t" "room (arps t)" for t
    using steady_assign [OF that, of 0] by (auto intro: steady_drop_offers)
  show ?thesis
    unfolding dhcp_state_def Let_def dh_dh comp_def
    by (auto intro!: reset steady_drop_offers steady_dh s r)
qed

text \<open>Entering states other than 1 and 4 does not touch the address table, so it needs no room.\<close>

lemma steady_state_any:
  assumes s: "steady R s" and n: "n \<noteq> 1" "n \<noteq> 4"
  shows "\<exists>s'. dhcp_state mac n s = Some s' \<and> steady R s'"
  using n unfolding dhcp_state_def Let_def dh_dh comp_def
  by (auto intro!: steady_drop_offers steady_dh s)

lemma steady_verify:
  assumes s: "steady {#} s"
  shows "\<exists>s'. dhcp_verify mac s = Some s' \<and> steady {#} s'"
proof (cases "offer_count (dhcp s) = 0")
  case True
  let ?s = "dh (\<lambda>d. d\<lparr>retry := retry d + 1\<rparr>) s"
  have s': "steady {#} ?s"
    by (rule steady_dh [OF s]) simp_all
  show ?thesis
    using True steady_state_any [OF s', of 0] steady_state_any [OF s', of 2] steady_send_packet [OF s]
    by (simp add: dhcp_verify_def Let_def)
next
  case False
  obtain rs where rs: "offers (dhcp s) = map Some rs @ replicate (4 - length rs) None" "offer_count (dhcp s) = length rs"
      "\<forall>r \<in> set rs. pk_i (pk_buf r s) 4 \<noteq> 0"
    using s by (auto simp: steady_def offers_ok_def)
  have "rs \<noteq> []"
    using False rs(2) by auto
  from select_offer_any [OF this rs(3)] obtain o1 v where o1: "select_offer s (map Some rs) (None, 0) = Some (Some o1, v)"
      "o1 \<in> set rs"
    by blast
  let ?s = "on_pkts (ref_reset None (Some o1)) s"
  have len: "o1 < length (pkts s)"
    using s o1(2) rs(1) by (auto simp: steady_def sound_def account_def balanced_def)
  have "sound {#o1#} ?s"
    using s len balanced_reset [of "pkts s" None "holds (dev s) + held (offers (dhcp s))" "Some o1"]
    by (simp add: steady_def sound_def account_def on_pkts_def)
  moreover have "offers_ok ?s"
    using s by (auto simp: steady_def on_pkts_def pk_buf_def intro!: offers_ok_same [of s])
  ultimately have s1: "steady {#o1#} ?s"
    by (simp add: steady_def)
  define s2 where "s2 = send_packet mac DHCPREQUEST (Some (pk_i (pk_buf o1 ?s) (unat (pk_w (pk_buf o1 ?s) 0) + 16)))
      (Some (pk_i (pk_buf o1 ?s) 8)) None ?s"
  have "steady {#o1#} s2"
    unfolding s2_def by (rule steady_send_packet [OF s1]) simp
  from steady_state_any [OF this, of 5] obtain s3 where s3: "dhcp_state mac 5 s2 = Some s3" "steady {#o1#} s3"
    by auto
  have "steady {#} (net_drop o1 s3)"
    using s3(2) sound_drop [of o1 "{#}" s3] by (auto simp: steady_def intro!: offers_ok_same [of s3])
  moreover have "dhcp_verify mac s = Some (net_drop o1 s3)"
    using False rs(1,2) o1(1) s3(1) by (simp add: dhcp_verify_def Let_def s2_def)
  ultimately show ?thesis by blast
qed

lemma steady_new_transaction: "steady R s \<Longrightarrow> steady R (new_transaction s)"
  unfolding new_transaction_def
  by (auto simp: steady_def sound_def account_def offers_ok_def dh_def pk_buf_def split: prod.split)

lemma steady_set_retry: "steady R s \<Longrightarrow> steady R (set_retry k s)"
  unfolding set_retry_def by (rule steady_dh) simp_all

lemma steady_wait_lease: "steady R s \<Longrightarrow> \<exists>s'. run_wait_lease mac s = Some s' \<and> steady R s'"
  by (auto simp: run_wait_lease_def intro!: steady_state_any steady_new_transaction steady_set_retry)

lemma steady_run:
  assumes s: "steady {#} s" and r: "room (arps s)"
  shows "\<exists>s'. dhcp_run mac s = Some s' \<and> steady {#} s'"
proof -
  let ?s = "dh dhcp_tick s"
  have t: "steady {#} ?s" and rt: "room (arps ?s)"
    using r by (auto intro: steady_dh [OF s])
  have "steady {#} (send_packet mac DHCPDISCOVER None None None ?s)"
    by (rule steady_send_packet [OF t]) simp
  note disc = steady_state_any [OF this, of 3]
  note retry = steady_set_retry [OF t, of "retry (dhcp ?s) + 1"]
  have rr: "room (arps (set_retry (retry (dhcp ?s) + 1) ?s))"
    using rt by simp
  consider "runstate (dhcp s) = 1" | "runstate (dhcp s) = 2" | "runstate (dhcp s) = 3" | "runstate (dhcp s) = 4"
    | "runstate (dhcp s) = 5" | "runstate (dhcp s) = 6" | "runstate (dhcp s) = 7" | "runstate (dhcp s) = 8"
    | "runstate (dhcp s) \<notin> {1, 2, 3, 4, 5, 6, 7, 8}"
    by blast
  then show ?thesis
  proof cases
    case 1
    with t steady_state_any [OF t, of 2] show ?thesis
      by (auto simp: dhcp_run_def Let_def intro!: steady_set_retry steady_new_transaction)
  next
    case 2
    with disc show ?thesis by (simp add: dhcp_run_def Let_def)
  next
    case 3
    with t steady_verify [OF t] show ?thesis by (simp add: dhcp_run_def Let_def)
  next
    case 4
    with t steady_state [OF t rt, of 1] show ?thesis by (simp add: dhcp_run_def Let_def)
  next
    case 5
    with t steady_state [OF retry rr, of 1] steady_verify [OF retry] show ?thesis
      by (simp add: dhcp_run_def Let_def)
  next
    case 6
    obtain s1 where s1: "(if timeout (dhcp s) \<le> runtime (dhcp_tick (dhcp s)) then dhcp_state mac 7 ?s else Some ?s) = Some s1"
        "steady {#} s1"
      using steady_state_any [OF t, of 7] t by (cases "timeout (dhcp s) \<le> runtime (dhcp_tick (dhcp s))") auto
    have "dhcp_run mac s = run_wait_lease mac s1"
      using 6 s1(1) by (simp add: dhcp_run_def Let_def)
    with steady_wait_lease [OF s1(2)] show ?thesis by simp
  next
    case 7
    with steady_wait_lease [OF t] show ?thesis by (simp add: dhcp_run_def Let_def)
  next
    case 8
    let ?n = "set_retry (retry (dhcp ?s) + 1) ?s"
    obtain s1 where s1: "(if 6 < retry (dhcp ?s) + 1 then dhcp_state mac 8 (new_transaction (set_retry 0 ?n)) else Some ?n) = Some s1"
        "steady {#} s1"
      using steady_state_any [OF steady_new_transaction [OF steady_set_retry [OF retry, of 0]], of 8] retry
      by (cases "6 < retry (dhcp ?s) + 1") auto
    have "dhcp_run mac s = (if lease_time (dhcp ?s) = 0 then dhcp_state mac 1 ?s
        else if timeout (dhcp s) \<le> runtime (dhcp_tick (dhcp s)) then dhcp_verify mac s1 else Some ?s)"
      using 8 s1(1) by (cases "6 < retry (dhcp ?s) + 1") (simp_all add: dhcp_run_def Let_def)
    with steady_state [OF t rt, of 1] steady_verify [OF s1(2)] t show ?thesis by simp
  next
    case 9
    with t show ?thesis by (simp add: dhcp_run_def Let_def)
  qed
qed

lemma replicate_update_first: "0 < k \<Longrightarrow> (replicate k x)[0 := y] = y # replicate (k - 1) x"
  by (cases k) simp_all

lemma steady_keep_offer:
  assumes s: "steady R s" and m: "msg \<in># R" and h: "has_options opts \<noteq> 0"
  shows "steady R (keep_offer msg ofs len opts s)"
proof (cases "offer_count (dhcp s) < 4")
  case False
  with s show ?thesis by (simp add: keep_offer_def)
next
  case True
  obtain rs where rs: "offers (dhcp s) = map Some rs @ replicate (4 - length rs) None" "offer_count (dhcp s) = length rs"
      "\<forall>r \<in> set rs. pk_i (pk_buf r s) 4 \<noteq> 0"
    using s by (auto simp: steady_def offers_ok_def)
  let ?n = "length rs"
  have n: "?n < 4" using True rs(2) by simp
  have slot: "offers (dhcp s) ! ?n = None"
    using rs(1) n by (simp add: nth_append)
  let ?f = "set_i 8 (opt_sid opts) \<circ> set_i 4 (has_options opts) \<circ> set_w 2 (of_nat len) \<circ> set_w 0 (of_nat ofs)"
  let ?s = "on_pkts (ref_reset None (Some msg)) (on_pkts (set_buf msg ?f) s)"
  let ?k = "dh (\<lambda>d. d\<lparr>offers := (offers d)[?n := Some msg], offer_count := ?n + 1\<rparr>) ?s"
  have k: "keep_offer msg ofs len opts s = ?k"
    using True rs(2) slot by (simp add: keep_offer_def Let_def)
  have os: "offers (dhcp ?k) = map Some (rs @ [msg]) @ replicate (4 - length (rs @ [msg])) None"
    using rs(1) n by (simp add: list_update_append replicate_update_first)
  have "sound R (on_pkts (set_buf msg ?f) s)"
    using s by (simp add: steady_def)
  then have b: "balanced (pkts (on_pkts (set_buf msg ?f) s)) (own None + (R + (holds (dev s) + mset rs)))"
    and len: "msg < length (pkts (on_pkts (set_buf msg ?f) s))"
    using m rs(1) by (auto simp: sound_def account_def on_pkts_def balanced_def)
  have "account holds R ?k"
    using balanced_reset [OF b, of "Some msg"] len os
    by (simp add: account_def dh_def on_pkts_def ac_simps)
  then have "sound R ?k"
    using s by (simp add: steady_def sound_def dh_def on_pkts_def)
  moreover have "offers_ok ?k"
    unfolding offers_ok_def
  proof (intro exI conjI ballI)
    show "offers (dhcp ?k) = map Some (rs @ [msg]) @ replicate (4 - length (rs @ [msg])) None"
      by (rule os)
    show "length (rs @ [msg]) \<le> 4" "offer_count (dhcp ?k) = length (rs @ [msg])"
      using n by simp_all
    fix r
    assume r: "r \<in> set (rs @ [msg])"
    show "pk_i (pk_buf r ?k) 4 \<noteq> 0"
    proof (cases "r = msg")
      case True
      have "pk_i (?f m) 4 = has_options opts" for m
        by (simp add: pk_i_def pk_w_def ld16_def set_i_def set_w_def st32_def st16_def ucast_bytes16 ucast_halves32)
      with True len h show ?thesis
        by (simp add: pk_buf_def on_pkts_def dh_def set_buf_def)
    next
      case False
      then have "pk_buf r ?k = pk_buf r s"
        by (simp add: pk_buf_def on_pkts_def dh_def set_buf_def)
      with False r rs(3) show ?thesis by simp
    qed
  qed
  ultimately show ?thesis
    unfolding k steady_def by blast
qed

lemma steady_take_lease:
  assumes s: "steady R s" and r: "room (arps s)"
  shows "\<exists>s'. take_lease mac m ofs len opts s = Some s' \<and> steady R s'"
proof -
  let ?d = "dh (\<lambda>d. d\<lparr>lease_t1 := drop_bit 1 (lease_time d), lease_t2 := drop_bit 3 (lease_time d)\<rparr>)
    (dh (\<lambda>d. d\<lparr>lease_time := lease_scan m (len + ofs) (ofs + 240) (lease_time d)\<rparr>)
      (dh (\<lambda>d. d\<lparr>lease_addr := pk_i m (ofs + 16), next_addr := pk_i m (ofs + 20), serv_addr := opt_sid opts\<rparr>) (drop_offers s)))"
  have d: "steady R ?d"
    by (intro steady_dh steady_drop_offers s) simp_all
  have rd: "room (arps ?d)"
    using r by simp
  from steady_assign [OF d rd] obtain s1 where s1: "assign_ip4 mac (pk_i m (ofs + 16)) ?d = Some s1" "steady R s1"
    by blast
  from steady_state_any [OF s1(2), of 6] s1(1) show ?thesis
    by (auto simp: take_lease_def Let_def)
qed

lemma steady_recv:
  assumes s: "steady R s" and m: "msg \<in># R" and r: "room (arps s)"
  shows "\<exists>s'. dhcp_recv mac msg ofs len s = Some s' \<and> steady R s'"
proof (cases "opt_scan (pk_buf msg s) (len + ofs) (ofs + 240) no_reply")
  case None
  with s show ?thesis by (simp add: dhcp_recv_def no_reply_def Let_def)
next
  case (Some opts)
  have "steady R (keep_offer msg ofs len opts s)" if "has_options opts AND min_options = min_options"
    using that by (intro steady_keep_offer s m) (auto simp: min_options_def has_defs)
  with Some s steady_state [OF s r, of 1] steady_take_lease [OF s r, of "pk_buf msg s" ofs len opts] show ?thesis
    by (simp add: dhcp_recv_def Let_def no_reply_def)
qed

end

section \<open>A lease\<close>


text \<open>An acknowledgement that leases address 10.0.0.5 of server 10.0.0.1 for 3600 seconds.\<close>

definition ack_message :: bytes where
  "ack_message i =
     (let opts = [53, 1, 5, 54, 4, 10, 0, 0, 1, 51, 4, 0, 0, 14, 16, 1, 4, 255, 0, 0, 0, 3, 4, 10, 0, 0, 1, 6, 4, 10, 0, 0, 1, 255]
      in if i = 0 then 2 else if i = 1 then 1 else if i = 2 then 6 else if i = 28 then 2 else if i = 33 then 1
         else if i = 16 then 10 else if i = 19 then 5
         else if i = 236 then 99 else if i = 237 then 130 else if i = 238 then 83 else if i = 239 then 99
         else if 240 \<le> i \<and> i < 274 then opts ! (i - 240) else 0)"

definition ack_net :: "unit net" where
  "ack_net = bare_net\<lparr>pkts := [\<lparr>refs = 1, pbuf = ack_message, psize = 274\<rparr>],
     dhcp := dhcp_client_init\<lparr>runstate := 5\<rparr>\<rparr>"

lemma ack_scanned: "opt_scan ack_message 274 240 no_reply =
    Some \<lparr>has_options = min_options, opt_sid = 0x0100000A, mtype = 5\<rparr>"
  by (simp add: opt_scan.simps ack_message_def no_reply_def opt_one_def Let_def pk_i_def pk_w_def ld16_def has_defs min_options_def)

lemma ack_for_us: "reply_for_us bare_mac ack_message 0 274 ack_net"
  by (simp add: reply_for_us_def ack_message_def Let_def pk_i_def pk_w_def ld16_def pk_nw_def ix_bswapi_def get_mac_def ack_net_def bare_mac_def
     bare_net_def dhcp_client_init_def ix_ldnw_def upt_rec)

lemma ack_address: "pk_i ack_message 16 = 0x0500000A"
  by (simp add: ack_message_def Let_def pk_i_def pk_w_def ld16_def)

lemma ack_accepted: "\<exists>s'. dhcp_recv bare_mac 0 0 274 ack_net = Some s' \<and> lease_addr (dhcp s') = 0x0500000A"
proof -
  have r: "room fresh_arp"
    by (simp add: fresh_arp_def room_def arp_add_def)
  from assign_room [OF fresh_arp_inv r] obtain a' where
    "arp_assign 0x0500000A (mac_addr bare_mac ()) fresh_arp = Some a'" by blast
  moreover have "pk_buf 0 ack_net = ack_message" "runstate (dhcp ack_net) = 5" "arps ack_net = fresh_arp" "system_ip ack_net = 0"
    "offers (dhcp ack_net) = replicate 4 None"
    by (simp_all add: ack_net_def bare_net_def pk_buf_def dhcp_client_init_def)
  ultimately show ?thesis
    using ack_for_us ack_scanned
    by (simp add: dhcp_recv_def no_reply_def DHCPACK_def DHCPNAK_def take_lease_def Let_def assign_ip4_def ack_address dhcp_state_def
        drop_offers_def dh_def on_pkts_def)
qed


end
