(* ===== verification/Net.thy ===== *)
theory Net
  imports Lease
begin

text \<open>
  Receiving and scheduling in \<^verbatim>\<open>net/queue.cpp\<close>: \<^verbatim>\<open>enqueue\<close> and the handlers of the protocols below it, the
  timers and \<^verbatim>\<open>runsched\<close>, and \<^verbatim>\<open>init\<close>. The messages to the log are left out, and with them the result of
  the handlers that only says whether to print the packet. A frame is handled while the caller holds a
  reference to its packet; the copies of that reference that the handlers make and drop are left out.
\<close>

section \<open>Timers\<close>

text \<open>\<^verbatim>\<open>((int)now - (int)next) >= 0\<close>; the tick counter may wrap around.\<close>

definition timer_expired :: "u32 \<Rightarrow> u32 \<Rightarrow> bool" where
  "timer_expired now nxt \<longleftrightarrow> sint (now - nxt) \<ge> 0"

definition timer_add :: "u32 \<Rightarrow> u32 \<Rightarrow> u32" where
  "timer_add t nxt = nxt + t"

definition timer_fromnow :: "u32 \<Rightarrow> u32 \<Rightarrow> u32" where
  "timer_fromnow now t = now + t"

section \<open>Handlers\<close>

definition handle_arp :: "'d mac \<Rightarrow> nat \<Rightarrow> 'd net \<Rightarrow> 'd net" where
  "handle_arp mac pkt s =
     (let m = pk_buf pkt s
      in if pk_nw m 14 \<noteq> 1 \<or> pk_nw m 16 \<noteq> 0x800 then s
         else if m 18 \<noteq> 6 \<or> m 19 \<noteq> 4 then s
         else
           (let opc = pk_nw m 20; w_ip = ld32 m 28; q_ip = ld32 m 38; src_mac = get_mac 22 m
            in if opc = 1 then
                 (let s = s\<lparr>arps := arp_hear w_ip src_mac (arps s)\<rparr>;
                      q = arp_find (arps s) q_ip
                  in if q \<ge> arp_size (arps s) then s
                     else
                       (let st = status (arp_table (arps s) ! q)
                        in if st = ARPT_STATIC then s
                           else if st = ARPT_STATIC OR ARPT_KNOWN then
                             (case net_request s of
                                (None, s) \<Rightarrow> s
                              | (Some myarp, s) \<Rightarrow> net_drop myarp (packet_send_resp_arp mac myarp pkt w_ip src_mac s))
                           else s))
               else if opc = 2 then s\<lparr>arps := arp_learn w_ip src_mac (arps s)\<rparr>
               else s))"

definition icmp_reply :: "nat \<Rightarrow> u16 \<Rightarrow> bytes \<Rightarrow> bytes \<Rightarrow> bytes" where
  "icmp_reply ofs len req m =
     (let m = copy_in 34 (unat len) (\<lambda>q. req (ofs + q)) m;
          m = set_b 34 0 m;
          m = set_w 36 0 m
      in set_w 36 (ix_bswapw (NOT (ipchksum m 34 len 0))) m)"

text \<open>Only echo requests have an effect.\<close>

definition handle_icmp :: "'d mac \<Rightarrow> nat \<Rightarrow> sockaddr \<Rightarrow> nat \<Rightarrow> u16 \<Rightarrow> 'd net \<Rightarrow> 'd net" where
  "handle_icmp mac pkt src ofs len s =
     (let m = pk_buf pkt s
      in if ofs + 8 > unat (psize (pkts s ! pkt)) then s
         else if m ofs = 8 \<and> m (ofs + 1) = 0 then
           (case net_request s of
              (None, s) \<Rightarrow> s
            | (Some msg, s) \<Rightarrow>
                (let s = on_pkts (set_buf msg (icmp_reply ofs len m)) s;
                     (failed, s) = packet_fill_ip mac msg src (ucast len) 1 s;
                     s = (if failed then s else net_transmit mac msg s)
                 in net_drop msg s))
         else s)"

definition handle_udp :: "'d mac \<Rightarrow> nat \<Rightarrow> nat \<Rightarrow> u16 \<Rightarrow> 'd net \<Rightarrow> 'd net option" where
  "handle_udp mac pkt ofs len s =
     (let m = pk_buf pkt s
      in if len < 8 then Some s
         else
           (let src = pk_nw m ofs; dst = pk_nw m (ofs + 2); length = pk_nw m (ofs + 4)
            in if length < 8 then Some s
               else if src = 67 \<and> dst = 68 then dhcp_recv mac pkt (ofs + 8) (unat length - 8) s
               else Some s))"

definition handle_ip4 :: "'d mac \<Rightarrow> nat \<Rightarrow> 'd net \<Rightarrow> 'd net option" where
  "handle_ip4 mac pkt s =
     (let m = pk_buf pkt s;
          ipvihl = m 14
      in if ipvihl AND 0xf0 \<noteq> 0x40 then Some s
         else
           (let ipvihl = push_bit 2 (ipvihl AND 0xf)
            in if ipvihl < 20 then Some s
               else
                 (let iplen = pk_nw m 16
                  in if iplen < ucast ipvihl then Some s
                     else if unat iplen + 14 > unat (psize (pkts s ! pkt)) then Some s
                     else
                       (let iplen = iplen - ucast ipvihl; proto = m 23
                        in if m 30 \<ge> 224 \<and> m 30 < 255 then Some s
                           else if proto = 17 then handle_udp mac pkt (14 + unat ipvihl) iplen s
                           else if proto = 1 then
                             Some (handle_icmp mac pkt \<lparr>sa_port = 0, v4 = pk_i m 26\<rparr> (14 + unat ipvihl) iplen s)
                           else Some s))))"

text \<open>A frame that is neither IP nor ARP, and IP version 6, are only logged.\<close>

definition enqueue :: "'d mac \<Rightarrow> nat \<Rightarrow> 'd net \<Rightarrow> 'd net option" where
  "enqueue mac pkt s =
     (let netproto = pk_nw (pk_buf pkt s) 12
      in if netproto = 0x86DD then Some s
         else if netproto = 0x800 then handle_ip4 mac pkt s
         else if netproto = 0x806 then Some (handle_arp mac pkt s)
         else Some s)"

section \<open>Scheduled work\<close>

text \<open>The counter is read for each of the three timers; interrupts may advance it in between.\<close>

definition runsched :: "'d mac \<Rightarrow> u32 \<times> u32 \<times> u32 \<Rightarrow> 'd net \<Rightarrow> 'd net option" where
  "runsched mac now s =
     (let (now1, now2, now3) = now;
          s = (if timer_expired now1 (arp_tc s) then
                 (let s = runarp mac s in s\<lparr>arp_tc := timer_add 1000 (arp_tc s)\<rparr>) else s)
      in do {
           s \<leftarrow> (if timer_expired now2 (net_tc s) then do {
                    let s = s\<lparr>net_tc := timer_add 10000 (net_tc s)\<rparr>;
                    (d, r) \<leftarrow> mac_junk mac (dev s, rng s);
                    Some (s\<lparr>dev := d, rng := r\<rparr>)
                  } else Some s);
           if timer_expired now3 (dh_tc s) then dhcp_run mac (s\<lparr>dh_tc := timer_add 100 (dh_tc s)\<rparr>) else Some s
         })"

text \<open>
  \<^verbatim>\<open>init\<close>, over the memory it was given: the entries of the table, and the packets of one block of
  the list with their buffers. The page of 4096 bytes holds 341 entries of 12 bytes, and 340 packets of 12 bytes
  behind a link.
\<close>

definition net_init :: "'d mac \<Rightarrow> u32 \<times> u32 \<times> u32 \<Rightarrow> arp_entry list \<Rightarrow> packet list \<Rightarrow> 'd net \<Rightarrow> 'd net option" where
  "net_init mac now table block s =
     (let (now1, now2, now3) = now;
          s = s\<lparr>net_tc := timer_fromnow now1 777, arp_tc := timer_fromnow now2 777\<rparr>;
          s = s\<lparr>arps := \<lparr>arp_size = 0, arp_table = table, arp_limit = 4096 div 12\<rparr>\<rparr>;
          s = s\<lparr>pkts := map (\<lambda>p. p\<lparr>refs := 0\<rparr>) (take (blockent 4096 12) block)\<rparr>;
          s = s\<lparr>dh_tc := timer_fromnow now3 6000\<rparr>
      in dhcp_start mac s)"

section \<open>Room in the address table\<close>

definition pres :: "arp_layer \<Rightarrow> nat set" where
  "pres a = {i. i < arp_size a \<and> present (arp_table a ! i)}"

definition free_slots :: "arp_layer \<Rightarrow> nat" where
  "free_slots a = arp_limit a - card (pres a)"

text \<open>At most one more entry is in use.\<close>

definition uses_one :: "arp_layer \<Rightarrow> arp_layer \<Rightarrow> bool" where
  "uses_one a a' \<longleftrightarrow> arp_limit a' = arp_limit a \<and> (\<exists>i. pres a' \<subseteq> insert i (pres a))"

lemma finite_pres [simp]: "finite (pres a)"
  by (simp add: pres_def)

lemma uses_one_refl [simp]: "uses_one a a"
  by (auto simp: uses_one_def)

lemma uses_one_free: "uses_one a a' \<Longrightarrow> free_slots a \<le> Suc (free_slots a')"
proof -
  assume u: "uses_one a a'"
  then obtain i where "pres a' \<subseteq> insert i (pres a)"
    by (auto simp: uses_one_def)
  from card_mono [OF _ this] have "card (pres a') \<le> Suc (card (pres a))"
    by (simp add: card_insert_if split: if_splits)
  then show ?thesis
    using u by (simp add: free_slots_def uses_one_def)
qed

lemma free_room: "arp_inv a \<Longrightarrow> 0 < free_slots a \<Longrightarrow> room a"
proof -
  assume inv: "arp_inv a" and f: "0 < free_slots a"
  show ?thesis
  proof (cases "first_index (\<lambda>e. \<not> present e) (take (arp_size a) (arp_table a))")
    case (Some k)
    from first_index_Some [OF Some] inv have "k < arp_limit a"
      by (simp add: arp_inv_def arp_ok_def)
    with Some show ?thesis by (simp add: room_def arp_add_def)
  next
    case None
    then have "pres a = {..<arp_size a}"
      using inv nth_mem [of _ "take (arp_size a) (arp_table a)"]
      by (fastforce simp: first_index_None pres_def arp_inv_def arp_ok_def)
    then have "arp_size a < arp_limit a"
      using f by (simp add: free_slots_def)
    with None show ?thesis by (simp add: room_def arp_add_def)
  qed
qed

lemma pres_put: "arp_ok a \<Longrightarrow> pres (put_arp i e a) \<subseteq> insert i (pres a)"
  by (auto simp: pres_def nth_list_update arp_ok_def)

lemma uses_put: "arp_ok a \<Longrightarrow> uses_one a (put_arp i e a)"
  using pres_put [of a i e] by (auto simp: uses_one_def)

lemma pres_add: "arp_ok a \<Longrightarrow> arp_add a = (i, a') \<Longrightarrow> pres a' = pres a \<and> arp_limit a' = arp_limit a \<and> arp_ok a'"
  by (auto simp: arp_add_def Let_def pres_def nth_list_update arp_ok_def less_Suc_eq dest: first_index_Some
      split: option.splits if_splits)

lemma uses_add_put: "arp_ok a \<Longrightarrow> arp_add a = (i, a') \<Longrightarrow> uses_one a (put_arp j e a') \<and> uses_one a a'"
  using pres_add [of a i a'] uses_put [of a' j e] by (auto simp: uses_one_def)

lemma arp_uses_one:
  assumes "arp_inv a"
  shows "uses_one a (arp_hear p m a)" "uses_one a (arp_learn p m a)" "uses_one a (arp_resolve p a)"
    "arp_assign p m a = Some a' \<Longrightarrow> uses_one a a'"
proof -
  have ok: "arp_ok a" using assms by (simp add: arp_inv_def)
  obtain i b where ad: "arp_add a = (i, b)" by force
  note u = uses_add_put [OF ok ad] uses_put [OF ok]
  show "uses_one a (arp_hear p m a)"
    using u by (simp add: arp_hear_def Let_def ad)
  show "uses_one a (arp_learn p m a)"
    using u by (simp add: arp_learn_def Let_def ad)
  show "uses_one a (arp_resolve p a)"
    using u by (simp add: arp_resolve_def Let_def ad)
  show "arp_assign p m a = Some a' \<Longrightarrow> uses_one a a'"
    using u by (auto simp: arp_assign_def Let_def ad split: if_splits)
qed

lemma arps_request: "net_request s = (p, s') \<Longrightarrow> arps s' = arps s"
  by (auto simp: net_request_def split: prod.splits)

lemma arps_arp_kept [simp]:
  "arps (packet_send_bc_arp mac i nani s) = arps s" "arps (packet_send_resp_arp mac i j nani doko s) = arps s"
  by (simp_all add: packet_send_bc_arp_def packet_send_resp_arp_def Let_def)

lemma uses_fill_ip: "arp_inv (arps s) \<Longrightarrow> packet_fill_ip mac i dst n proto s = (b, s') \<Longrightarrow> uses_one (arps s) (arps s')"
  by (auto simp: packet_fill_ip_def Let_def resolve_with_arp_def arp_uses_one split: if_splits)

lemma uses_handle_arp: "arp_inv (arps s) \<Longrightarrow> uses_one (arps s) (arps (handle_arp mac pkt s))"
  by (auto simp: handle_arp_def Let_def arp_uses_one dest!: arps_request split: option.split prod.split)

lemma uses_handle_icmp: "arp_inv (arps s) \<Longrightarrow> uses_one (arps s) (arps (handle_icmp mac pkt src ofs len s))"
  by (auto simp: handle_icmp_def Let_def dest!: arps_request uses_fill_ip [rotated] split: option.split prod.split)

lemma uses_assign: "arp_inv (arps s) \<Longrightarrow> assign_ip4 mac ip s = Some s' \<Longrightarrow> uses_one (arps s) (arps s')"
  by (auto simp: assign_ip4_def arp_uses_one split: if_splits bind_splits)

lemma uses_state: "arp_inv (arps s) \<Longrightarrow> dhcp_state mac n s = Some s' \<Longrightarrow> uses_one (arps s) (arps s')"
  by (auto simp: dhcp_state_def Let_def dest!: uses_assign [rotated] split: if_splits bind_splits)

lemma arps_state_6: "dhcp_state mac 6 s = Some s' \<Longrightarrow> arps s' = arps s"
  by (auto simp: dhcp_state_def Let_def)

lemma uses_take_lease: "arp_inv (arps s) \<Longrightarrow> take_lease mac m ofs len opts s = Some s' \<Longrightarrow> uses_one (arps s) (arps s')"
  by (auto simp: take_lease_def Let_def dest!: arps_state_6 uses_assign [rotated] split: bind_splits)

lemma uses_recv: "arp_inv (arps s) \<Longrightarrow> dhcp_recv mac msg ofs len s = Some s' \<Longrightarrow> uses_one (arps s) (arps s')"
  by (auto simp: dhcp_recv_def keep_offer_def Let_def intro: uses_state uses_take_lease
      split: if_splits option.splits)

lemma uses_enqueue: "arp_inv (arps s) \<Longrightarrow> enqueue mac pkt s = Some s' \<Longrightarrow> uses_one (arps s) (arps s')"
  by (auto simp: enqueue_def handle_ip4_def handle_udp_def Let_def uses_recv uses_handle_arp uses_handle_icmp
      split: if_splits)

section \<open>The account is kept by everything that happens\<close>

text \<open>What is sure before and after every event.\<close>

context network_card
begin

lemma net_request_other: "net_request s = (p, s') \<Longrightarrow> arps s' = arps s \<and> dhcp s' = dhcp s"
  by (simp add: arps_request dhcp_request)

lemma steady_arps: "steady R s \<Longrightarrow> arp_inv a \<Longrightarrow> steady R (s\<lparr>arps := a\<rparr>)"
  by (simp add: steady_def sound_arps offers_ok_def pk_buf_def)

lemma steady_sends: "steady R s \<Longrightarrow> sends R s s' \<Longrightarrow> steady R s'"
  by (auto simp: steady_def sends_def intro!: offers_ok_same [of s])

text \<open>A function that fills and sends a packet of its own.\<close>

lemma sends_own:
  assumes s: "sound R s" and small: "size R \<le> 8" "length (offers (dhcp s)) \<le> 8"
    and r: "net_request s = (Some i, s1)"
    and f: "\<And>t. sound (add_mset i R) s1 \<Longrightarrow> t = f s1 \<Longrightarrow> sound (add_mset i R) t \<and> only i s1 t \<and> dhcp t = dhcp s1"
  shows "sends R s (net_drop i (f s1))"
proof -
  have s1: "sound (add_mset i R) s1"
    using sound_request [OF s r] by simp
  note t = f [OF s1 refl]
  have "\<forall>r. r \<in># R + held (offers (dhcp s)) \<longrightarrow> pk_buf r (f s1) = pk_buf r s"
    using fresh_request [OF s small r] sound_request [OF s r] s pk_buf_request [OF r] t
    by (auto simp: only_def sound_def account_def balanced_def)
  then show ?thesis
    using sound_drop [of i R "f s1"] t net_request_other [OF r] by (simp add: sends_def)
qed

lemma sends_none: "sound R s \<Longrightarrow> net_request s = (None, s1) \<Longrightarrow> sends R s s1"
  using sound_request [of R s None s1] by (auto simp: sends_def net_request_other pk_buf_request)

lemma only_bc_arp: "sound R s \<Longrightarrow> i \<in># R \<Longrightarrow> only i s (packet_send_bc_arp mac i nani s)"
  unfolding packet_send_bc_arp_def Let_def on_pkts_comp
  by (rule only_trans [OF only_trans [OF only_set_buf only_set_size] only_transmit [of R]]) simp_all

lemma only_resp_arp: "sound R s \<Longrightarrow> i \<in># R \<Longrightarrow> only i s (packet_send_resp_arp mac i j nani doko s)"
  unfolding packet_send_resp_arp_def Let_def on_pkts_comp
  by (rule only_trans [OF only_trans [OF only_set_buf only_set_size] only_transmit [of R]]) simp_all

lemma dhcp_arp_kept [simp]:
  "dhcp (packet_send_bc_arp mac i nani s) = dhcp s" "dhcp (packet_send_resp_arp mac i j nani doko s) = dhcp s"
  by (simp_all add: packet_send_bc_arp_def packet_send_resp_arp_def Let_def)

lemma steady_handle_arp:
  assumes s: "steady R s" and small: "size R \<le> 8"
  shows "steady R (handle_arp mac pkt s)"
proof -
  let ?m = "pk_buf pkt s"
  have inv: "arp_inv (arps s)"
    using s by (simp add: steady_def sound_def)
  let ?h = "s\<lparr>arps := arp_hear (ld32 ?m 28) (get_mac 22 ?m) (arps s)\<rparr>"
  have h: "steady R ?h" and l: "steady R (s\<lparr>arps := arp_learn (ld32 ?m 28) (get_mac 22 ?m) (arps s)\<rparr>)"
    by (intro steady_arps s arp_hear_inv arp_learn_inv inv)+
  obtain p s1 where r: "net_request ?h = (p, s1)"
    by force
  have sh: "sound R ?h" and lh: "length (offers (dhcp ?h)) \<le> 8"
    using h offers_ok_length [of ?h] by (simp_all add: steady_def)
  have "steady R s1" if "p = None"
    using sends_none [OF sh] r that steady_sends [OF h] by blast
  moreover have "steady R (net_drop i (packet_send_resp_arp mac i pkt (ld32 ?m 28) (get_mac 22 ?m) s1))" if "p = Some i" for i
    using r that
    by (intro steady_sends [OF h] sends_own [OF sh small lh])
      (auto intro: sound_resp_arp only_resp_arp [of "add_mset i R"])
  ultimately show ?thesis
    using s h l r by (auto simp: handle_arp_def Let_def split: option.split)
qed

lemma steady_handle_icmp:
  assumes s: "steady R s" and small: "size R \<le> 8"
  shows "steady R (handle_icmp mac pkt src ofs len s)"
proof -
  have ss: "sound R s" and ls: "length (offers (dhcp s)) \<le> 8"
    using s offers_ok_length [of s] by (simp_all add: steady_def)
  obtain p s1 where r: "net_request s = (p, s1)"
    by force
  define g where "g = (\<lambda>i s1. let (failed, t) = packet_fill_ip mac i src (ucast len) 1
      (on_pkts (set_buf i (icmp_reply ofs len (pk_buf pkt s))) s1) in if failed then t else net_transmit mac i t)"
  have "steady R s1" if "p = None"
    using sends_none [OF ss] r that steady_sends [OF s] by blast
  moreover have "steady R (net_drop i (g i s1))" if p: "p = Some i" for i
  proof (rule steady_sends [OF s], rule sends_own [OF ss small ls, where f = "g i"])
    show "net_request s = (Some i, s1)" using r p by simp
    fix t
    assume s1: "sound (add_mset i R) s1" and t: "t = g i s1"
    let ?u = "on_pkts (set_buf i (icmp_reply ofs len (pk_buf pkt s))) s1"
    obtain b v where v: "packet_fill_ip mac i src (ucast len) 1 ?u = (b, v)"
      by force
    have sv: "sound (add_mset i R) v"
      using s1 by (intro sound_fill_ip [OF _ v]) simp
    have "only i s1 v"
      using only_trans [OF only_set_buf only_fill_ip [OF v]] .
    then show "sound (add_mset i R) t \<and> only i s1 t \<and> dhcp t = dhcp s1"
      using sv v sound_transmit [OF sv, of i] only_transmit [OF sv, of i] dhcp_fill_ip [OF v]
      by (auto simp: t g_def intro: only_trans)
  qed
  ultimately show ?thesis
    using s r by (auto simp: handle_icmp_def g_def Let_def split: option.split prod.split)
qed

lemma steady_send_via_udp: "steady {#} s \<Longrightarrow> steady {#} (send_via_udp mac sport dst msg n s)"
proof -
  assume s: "steady {#} s"
  have ss: "sound {#} s" and ls: "length (offers (dhcp s)) \<le> 8"
    using s offers_ok_length [of s] by (simp_all add: steady_def)
  obtain p s1 where r: "net_request s = (p, s1)"
    by force
  define g where "g = (\<lambda>i s1. let (failed, t) = packet_fill_udp mac i sport dst (ucast n)
      (on_pkts (set_buf i (copy_in 42 (unat n) msg)) s1) in if failed then t else net_transmit mac i t)"
  have fail: "steady {#} s1" if "p = None"
    using sends_none [OF ss] r that steady_sends [OF s] by blast
  have sent: "steady {#} (net_drop i (g i s1))" if p: "p = Some i" for i
  proof (rule steady_sends [OF s], rule sends_own [OF ss _ ls, where f = "g i"])
    show "net_request s = (Some i, s1)" using r p by simp
    fix t
    assume s1: "sound (add_mset i {#}) s1" and t: "t = g i s1"
    let ?u = "on_pkts (set_buf i (copy_in 42 (unat n) msg)) s1"
    obtain b v where v: "packet_fill_udp mac i sport dst (ucast n) ?u = (b, v)"
      by force
    have sv: "sound (add_mset i {#}) v"
      using s1 by (intro sound_fill_udp [OF _ v]) simp
    have "only i s1 v"
      using only_trans [OF only_set_buf only_fill_udp [OF v]] .
    then show "sound (add_mset i {#}) t \<and> only i s1 t \<and> dhcp t = dhcp s1"
      using sv v sound_transmit [OF sv, of i] only_transmit [OF sv, of i] dhcp_fill_udp [OF v]
      by (auto simp: t g_def intro: only_trans)
  qed simp
  show ?thesis
    using s r fail sent by (auto simp: send_via_udp_def g_def Let_def split: option.split prod.split)
qed

lemma steady_enqueue:
  assumes s: "steady R s" and m: "pkt \<in># R" and small: "size R \<le> 8" and r: "room (arps s)"
  shows "\<exists>s'. enqueue mac pkt s = Some s' \<and> steady R s'"
proof -
  have u: "\<exists>s'. handle_udp mac pkt ofs len s = Some s' \<and> steady R s'" for ofs len
    using s steady_recv [OF s m r] by (simp add: handle_udp_def Let_def)
  show ?thesis
    using s u steady_handle_arp [OF s small] steady_handle_icmp [OF s small]
    by (simp add: enqueue_def handle_ip4_def Let_def)
qed

text \<open>Ageing the table cannot fill it, so there is room for the client afterwards.\<close>

lemma steady_runarp: "steady {#} s \<Longrightarrow> steady {#} (runarp mac s)"
proof -
  assume s: "steady {#} s"
  have step: "steady {#} (run_entry mac i t) \<and> arp_size (arps (run_entry mac i t)) = arp_size (arps t)"
    if t: "steady {#} t" and i: "i < arp_size (arps t)" for i t
  proof -
    have st: "sound {#} t" and lt: "length (offers (dhcp t)) \<le> 8" and inv: "arp_inv (arps t)"
      using t offers_ok_length [of t] by (simp_all add: steady_def sound_def)
    let ?e = "arp_table (arps t) ! i"
    obtain p s1 where r: "net_request t = (p, s1)"
      by force
    have a: "arp_inv (put_arp i (age_entry ?e) (arps t))"
      using inv i by (simp add: age_inv)
    have fail: "steady {#} s1" if "p = None"
      using sends_none [OF st] r that steady_sends [OF t] by blast
    define g where "g = (\<lambda>j u. let v = packet_send_bc_arp mac j (ipa ?e) u
        in v\<lparr>arps := put_arp i (age_entry ?e) (arps v)\<rparr>)"
    have ok: "steady {#} (net_drop j (g j s1))" if p: "p = Some j" for j
    proof (rule steady_sends [OF t], rule sends_own [OF st _ lt, where f = "g j"])
      show "net_request t = (Some j, s1)" using r p by simp
      fix v
      assume s1: "sound (add_mset j {#}) s1"
        and v: "v = g j s1"
      have same: "arps s1 = arps t"
        using net_request_other [OF r] by simp
      have "sound {#j#} (packet_send_bc_arp mac j (ipa ?e) s1)" "only j s1 (packet_send_bc_arp mac j (ipa ?e) s1)"
        using sound_bc_arp [OF s1, of j] only_bc_arp [OF s1, of j] by simp_all
      then show "sound (add_mset j {#}) v \<and> only j s1 v \<and> dhcp v = dhcp s1"
        using a by (auto simp: v g_def Let_def same only_def pk_buf_def intro: sound_arps)
    qed simp
    show ?thesis
      using sound_run_entry [OF st i] t a r fail ok
      by (auto simp: run_entry_def g_def Let_def intro: steady_arps split: option.split)
  qed
  have "steady {#} (fold (run_entry mac) [0 ..< n] s) \<and> arp_size (arps (fold (run_entry mac) [0 ..< n] s)) = arp_size (arps s)"
    if "n \<le> arp_size (arps s)" for n
    using that
  proof (induction n)
    case 0
    with s show ?case by simp
  next
    case (Suc n)
    with step [of "fold (run_entry mac) [0 ..< n] s" n] show ?case by simp
  qed
  then show ?thesis by (simp add: runarp_def)
qed

lemma steady_clock [simp]:
  "steady R (s\<lparr>arp_tc := x\<rparr>) = steady R s" "steady R (s\<lparr>net_tc := x\<rparr>) = steady R s" "steady R (s\<lparr>dh_tc := x\<rparr>) = steady R s"
  by (simp_all add: steady_def sound_def account_def offers_ok_def pk_buf_def)

end

section \<open>Echo requests are answered\<close>

lemma sum_loop_cong:
  assumes "\<And>i. i < 2 * n \<Longrightarrow> m (a + i) = m' (a + i)" "j < n"
  shows "sum_loop m a (2 * j) (2 * n) h c = sum_loop m' a (2 * j) (2 * n) h c"
  using assms(2)
proof (induction "n - j" arbitrary: j h c)
  case 0
  then show ?case by simp
next
  case (Suc k)
  have eq: "m (a + 2 * j) = m' (a + 2 * j)" "m (a + 2 * j + 1) = m' (a + 2 * j + 1)"
    using assms(1) [of "2 * j"] assms(1) [of "2 * j + 1"] Suc.prems by simp_all
  show ?case
  proof (cases "2 * j + 2 \<ge> 2 * n")
    case True
    then show ?thesis
      using eq by (simp add: sum_loop.simps [of _ a "2 * j"] Let_def)
  next
    case False
    then have "sum_loop m a (2 * Suc j) (2 * n) h' c' = sum_loop m' a (2 * Suc j) (2 * n) h' c'" for h' c'
      using Suc.hyps by (intro Suc.hyps(1)) simp_all
    with False eq show ?thesis
      by (simp add: sum_loop.simps [of _ a "2 * j"] Let_def)
  qed
qed

lemma ipchksum_cong:
  assumes "unat len = 2 * n" "0 < n" "\<And>i. i < unat len \<Longrightarrow> m (a + i) = m' (a + i)"
  shows "ipchksum m a len c = ipchksum m' a len c"
proof -
  have "\<not> len AND 1 \<noteq> 0"
    using assms(1) by (simp only: and_1_even) simp
  then show ?thesis
    using sum_loop_cong [of n m a m' 0] assms by (simp add: ipchksum_def)
qed

lemma icmp_reply_bytes:
  assumes "unat len = 2 * n" "4 \<le> n" "unat len \<le> 1472"
  shows "ipchksum (icmp_reply ofs len req m) 34 len 0 = 0xffff \<and> icmp_reply ofs len req m 34 = 0
    \<and> (\<forall>k. 4 \<le> k \<and> k < unat len \<longrightarrow> icmp_reply ofs len req m (34 + k) = req (ofs + k))
    \<and> icmp_reply ofs len req m 35 = req (ofs + 1)"
proof -
  let ?m = "set_w 36 0 (set_b 34 0 (copy_in 34 (unat len) (\<lambda>q. req (ofs + q)) m))"
  have r: "icmp_reply ofs len req m = set_w (34 + 2 * 1) (ix_bswapw (NOT (ipchksum ?m 34 len 0))) ?m"
    by (simp add: icmp_reply_def Let_def)
  have "ipchksum (icmp_reply ofs len req m) 34 len 0 = 0xffff"
    unfolding r using assms(2) by (intro checksum_stored [OF assms(1)]) (simp_all add: set_w_at)
  moreover have "icmp_reply ofs len req m 34 = 0" "icmp_reply ofs len req m 35 = req (ofs + 1)"
    using assms by (simp_all add: icmp_reply_def Let_def set_w_at set_b_def copy_in_def)
  moreover have "icmp_reply ofs len req m (34 + k) = req (ofs + k)" if "4 \<le> k" "k < unat len" for k
    using assms that by (simp add: icmp_reply_def Let_def set_w_at set_b_def copy_in_def)
  ultimately show ?thesis by blast
qed

lemma ip_header_other: "i < 12 \<or> 34 \<le> i \<Longrightarrow> ip_header l p s d m i = m i"
  by (auto simp: ip_header_def ip_header_unsummed_def Let_def set_w_at set_b_def set_i_other)

lemma pk_i_set_i: "pk_i (set_i a v m) a = v"
  by (simp add: pk_i_def pk_w_def ld16_def set_i_def st32_def st16_def ucast_bytes16 ucast_halves32)

lemma pk_i_cong: "(\<And>k. k < 4 \<Longrightarrow> m (a + k) = m' (a + k)) \<Longrightarrow> pk_i m a = pk_i m' a"
proof -
  assume e: "\<And>k. k < 4 \<Longrightarrow> m (a + k) = m' (a + k)"
  from e [of 0] e [of 1] e [of 2] e [of 3] show ?thesis
    by (simp add: pk_i_def pk_w_def ld16_def numeral_2_eq_2 numeral_3_eq_3)
qed

lemma ip_header_addresses: "pk_i (ip_header l p s d m) 26 = s" "pk_i (ip_header l p s d m) 30 = d"
proof -
  define u where "u = set_w 24 0 (set_b 23 p (set_b 22 8 (set_w 20 0 (set_w 18 0 (set_w 16 (ix_bswapw l) (set_b 15 0
    (set_b 14 0x45 (set_w 12 (ix_bswapw 0x800) m))))))))"
  have h: "ip_header l p s d m = set_w 24 (ix_bswapw (NOT (ipchksum (set_i 30 d (set_i 26 s u)) 14 20 0))) (set_i 30 d (set_i 26 s u))"
    by (simp add: ip_header_def ip_header_unsummed_def Let_def u_def)
  have "pk_i (ip_header l p s d m) 26 = pk_i (set_i 26 s u) 26"
    unfolding h by (rule pk_i_cong) (simp add: set_w_at set_i_other)
  then show "pk_i (ip_header l p s d m) 26 = s"
    by (simp add: pk_i_set_i)
  have "pk_i (ip_header l p s d m) 30 = pk_i (set_i 30 d (set_i 26 s u)) 30"
    unfolding h by (rule pk_i_cong) (simp add: set_w_at)
  then show "pk_i (ip_header l p s d m) 30 = d"
    by (simp add: pk_i_set_i)
qed


definition echo_net :: "unit net" where
  "echo_net = bare_net\<lparr>pkts := [\<lparr>refs = 1, pbuf = \<lambda>_. 0, psize = 0\<rparr>],
     arps := \<lparr>arp_size = 1, arp_table = [\<lparr>ipa = 7, lla = [1, 2, 3, 4, 5, 6], info = 0x3000\<rparr>], arp_limit = 1\<rparr>\<rparr>"


end
