(* ===== verification/E1000.thy ===== *)
theory E1000
  imports Net Ring
begin

text \<open>
  The driver of the Intel 8257x network cards (\<^verbatim>\<open>dev/e1000.cpp\<close>): registers, descriptor rings with the
  packets they refer to, transmission, the interrupt handler and the processing of the queues.

  The registers are an argument of the model: reading and writing one may change the state \<open>'s\<close> of the
  card, and so does waiting for an interrupt (\<^verbatim>\<open>_ix_halt\<close>). The card writes descriptors between
  the calls of the driver. The physical addresses of the buffers and rings, which the memory manager
  knows, are part of the state. Registers that are only read to be printed are read in their order (\<open>rd_all\<close>), as
  a read may change the card.
\<close>

section \<open>State\<close>

record 's regs =
  rd :: "u32 \<Rightarrow> 's \<Rightarrow> u32 \<times> 's"
  wr :: "u32 \<Rightarrow> u32 \<Rightarrow> 's \<Rightarrow> 's"
  idle :: "'s \<Rightarrow> 's"

record recv_desc =
  rd_address :: u64
  rd_length :: u16
  rd_checksum :: u16
  rd_status :: u8
  rd_errors :: u8
  rd_vlan :: u16

record trmt_desc =
  td_address :: u64
  td_info :: u64

record 's e1000 =
  vio :: 's
  macaddr :: "u8 list"
  recv :: "recv_desc list"
  trmt :: "trmt_desc list"
  recv_slot :: "nat option list"
  trmt_slot :: "nat option list"
  rxq :: ring
  txq :: ring
  lastint :: u32
  junk_register :: u32
  last_junk :: u32
  last_itime :: u32
  phys :: "nat \<Rightarrow> u64"
  recv_phys :: u64
  trmt_phys :: u64

definition vio_rd :: "'s regs \<Rightarrow> u32 \<Rightarrow> 's e1000 \<Rightarrow> u32 \<times> 's e1000" where
  "vio_rd hw r e = (let (v, s) = rd hw r (vio e) in (v, e\<lparr>vio := s\<rparr>))"

definition rd_all :: "'s regs \<Rightarrow> u32 list \<Rightarrow> 's e1000 \<Rightarrow> 's e1000" where
  "rd_all hw rs e = fold (\<lambda>r e. snd (vio_rd hw r e)) rs e"

definition vio_wr :: "'s regs \<Rightarrow> u32 \<Rightarrow> u32 \<Rightarrow> 's e1000 \<Rightarrow> 's e1000" where
  "vio_wr hw r v e = e\<lparr>vio := wr hw r v (vio e)\<rparr>"

definition ix_halt :: "'s regs \<Rightarrow> 's e1000 \<Rightarrow> 's e1000" where
  "ix_halt hw e = e\<lparr>vio := idle hw (vio e)\<rparr>"

section \<open>Transmitting and giving buffers to receive\<close>

text \<open>The data descriptor: length, type, command and status.\<close>

definition TDC :: u64 where
  "TDC = 128 OR 32 OR 8 OR 2 OR 1"

definition tx_info :: "u32 \<Rightarrow> u64" where
  "tx_info len = (ucast len AND 0xfffff) OR push_bit 20 1 OR push_bit 24 TDC"

definition tx_dcmd :: "u64 \<Rightarrow> u64" where
  "tx_dcmd raw = drop_bit 24 raw AND 0xff"

definition tx_status :: "u64 \<Rightarrow> u64" where
  "tx_status raw = drop_bit 32 raw AND 0xff"

definition e1000_transmit :: "'s regs \<Rightarrow> nat \<Rightarrow> packet list \<times> 's e1000 \<Rightarrow> packet list \<times> 's e1000" where
  "e1000_transmit hw pkt pe =
     (let (ps, e) = pe
      in if psize (ps ! pkt) < 42 then (ps, e)
         else if ring_full (txq e) then (ps, e)
         else
           (let (txtail, q) = ring_next (txq e);
                t = unat txtail;
                ps = ref_reset (trmt_slot e ! t) (Some pkt) ps;
                e = e\<lparr>txq := q, trmt_slot := (trmt_slot e)[t := Some pkt],
                      trmt := (trmt e)[t := \<lparr>td_address = phys e pkt, td_info = tx_info (psize (ps ! pkt))\<rparr>]\<rparr>
            in (ps, vio_wr hw 0x3818 (tail (txq e)) e)))"

text \<open>A null packet is only looked at when there is room for it.\<close>

definition addreceive :: "'s regs \<Rightarrow> nat option \<Rightarrow> packet list \<times> 's e1000 \<Rightarrow> (packet list \<times> 's e1000) option" where
  "addreceive hw pkt pe =
     (let (ps, e) = pe
      in if ring_full (rxq e) then Some (ps, e)
         else do {
           p \<leftarrow> pkt;
           let (rxtail, q) = ring_next (rxq e);
           let r = unat rxtail;
           let ps = ref_reset (recv_slot e ! r) (Some p) (set_size p 0 ps);
           let e = e\<lparr>rxq := q, recv_slot := (recv_slot e)[r := Some p],
                     recv := (recv e)[r := (recv e ! r)\<lparr>rd_address := phys e p, rd_status := 0\<rparr>]\<rparr>;
           Some (ps, vio_wr hw 0x2818 (tail (rxq e)) e)
         })"

text \<open>\<^verbatim>\<open>debug_junk\<close> stirs what the interrupts have collected into the random pool.\<close>

definition e1000_junk :: "'s e1000 \<times> pool \<Rightarrow> ('s e1000 \<times> pool) option" where
  "e1000_junk er =
     (let (e, r) = er;
          iv = junk_register e - last_junk e;
          e = e\<lparr>last_junk := junk_register e\<rparr>
      in if iv = 0 then Some (e, r) else map_option (\<lambda>r. (e, r)) (crypto_Mix (\<lambda>_. iv) 1 r))"

definition e1000_mac :: "'s regs \<Rightarrow> 's e1000 mac" where
  "e1000_mac hw = \<lparr>mac_transmit = e1000_transmit hw, mac_addr = macaddr, mac_junk = e1000_junk\<rparr>"

section \<open>Interrupts\<close>

text \<open>\<^verbatim>\<open>handle_int\<close>; \<open>now1\<close> and \<open>now2\<close> are the two reads of the tick counter.\<close>

definition handle_int :: "'s regs \<Rightarrow> u32 \<Rightarrow> u32 \<Rightarrow> 's e1000 \<Rightarrow> 's e1000" where
  "handle_int hw now1 now2 e =
     (let (its, e) = vio_rd hw 0xc0 e;
          e = e\<lparr>lastint := lastint e OR its\<rparr>;
          itt = now1;
          e = e\<lparr>junk_register := junk_register e + its + now2 - last_itime e\<rparr>;
          e = e\<lparr>last_itime := itt\<rparr>;
          (v, e) = vio_rd hw 0x2810 e;
          e = e\<lparr>junk_register := junk_register e + v\<rparr>;
          (v, e) = vio_rd hw 0x3810 e
      in e\<lparr>junk_register := junk_register e + v\<rparr>)"

definition int_txdw :: "u32 \<Rightarrow> bool" where "int_txdw i \<longleftrightarrow> i AND 1 \<noteq> 0"
definition int_lsc :: "u32 \<Rightarrow> bool" where "int_lsc i \<longleftrightarrow> i AND 4 \<noteq> 0"
definition int_rxdmt0 :: "u32 \<Rightarrow> bool" where "int_rxdmt0 i \<longleftrightarrow> i AND 16 \<noteq> 0"
definition int_rxo :: "u32 \<Rightarrow> bool" where "int_rxo i \<longleftrightarrow> i AND 64 \<noteq> 0"
definition int_rxt0 :: "u32 \<Rightarrow> bool" where "int_rxt0 i \<longleftrightarrow> i AND 128 \<noteq> 0"

section \<open>The queues\<close>

type_synonym 's drv = "'s e1000 net"

definition drv_addreceive :: "'s regs \<Rightarrow> nat option \<Rightarrow> 's drv \<Rightarrow> 's drv option" where
  "drv_addreceive hw p s =
     map_option (\<lambda>(ps, e). s\<lparr>pkts := ps, dev := e\<rparr>) (addreceive hw p (pkts s, dev s))"

text \<open>\<^verbatim>\<open>for(i < n) { request_packet(p); addreceive(p); }\<close> with one reference \<open>p\<close>, dropped at the end.\<close>

fun load_buffers :: "'s regs \<Rightarrow> nat \<Rightarrow> nat option \<Rightarrow> 's drv \<Rightarrow> 's drv option" where
  "load_buffers hw 0 p s = Some (on_pkts (ref_reset p None) s)"
| "load_buffers hw (Suc n) p s =
     (let (p, ps) = request_packet p (pkts s)
      in do { s \<leftarrow> drv_addreceive hw p (s\<lparr>pkts := ps\<rparr>); load_buffers hw n p s })"

text \<open>Sent packets are released from the head of the ring on, up to the first that the card still has.\<close>

fun reap_tx :: "nat \<Rightarrow> 's drv \<Rightarrow> 's drv option" where
  "reap_tx fuel s =
     (let e = dev s; h = unat (head (txq e)); raw = td_info (trmt e ! h)
      in if ring_empty (txq e) then Some s
         else if tx_dcmd raw AND 8 \<noteq> 0 \<and> tx_status raw AND 1 = 0 then Some s
         else (case fuel of
             0 \<Rightarrow> None
           | Suc fuel \<Rightarrow>
               reap_tx fuel (s\<lparr>pkts := ref_reset (trmt_slot e ! h) None (pkts s),
                 dev := e\<lparr>txq := snd (ring_pop (txq e)), trmt_slot := (trmt_slot e)[h := None]\<rparr>\<rparr>)))"

text \<open>
  A received frame: its packet is taken out of the slot and handled; a packet that was kept is
  replaced by a free one, and the buffer is given back to the card.
\<close>

definition receive_one :: "'s regs \<Rightarrow> 's drv \<Rightarrow> 's drv option" where
  "receive_one hw s =
     (let e = dev s; h = unat (head (rxq e))
      in do {
           rxr \<leftarrow> recv_slot e ! h;
           let s = s\<lparr>dev := e\<lparr>recv_slot := (recv_slot e)[h := None]\<rparr>\<rparr>;
           let s = on_pkts (set_size rxr (ucast (rd_length (recv e ! h)))) s;
           s \<leftarrow> enqueue (e1000_mac hw) rxr s;
           let (p, ps) = (if refs (pkts s ! rxr) \<noteq> 1 then request_packet (Some rxr) (pkts s) else (Some rxr, pkts s));
           s \<leftarrow> drv_addreceive hw p (s\<lparr>pkts := ps\<rparr>);
           let s = s\<lparr>dev := (dev s)\<lparr>rxq := snd (ring_pop (rxq (dev s)))\<rparr>\<rparr>;
           Some (on_pkts (ref_reset p None) s)
         })"

fun receive_loop :: "'s regs \<Rightarrow> nat \<Rightarrow> 's drv \<Rightarrow> 's drv option" where
  "receive_loop hw fuel s =
     (let e = dev s
      in if ring_empty (rxq e) \<or> rd_status (recv e ! unat (head (rxq e))) AND 1 = 0 then Some s
         else (case fuel of
             0 \<Rightarrow> None
           | Suc fuel \<Rightarrow> do { s \<leftarrow> receive_one hw s; receive_loop hw fuel s }))"

declare reap_tx.simps [simp del] receive_loop.simps [simp del]

definition processqueues :: "'s regs \<Rightarrow> 's drv \<Rightarrow> 's drv option" where
  "processqueues hw s =
     (let fint = lastint (dev s);
          s = s\<lparr>dev := (dev s)\<lparr>lastint := 0\<rparr>\<rparr>
      in do {
           let lsc = (fint AND NOT 0x80000081 \<noteq> 0 \<and> int_lsc fint);
           let s = (if lsc then s\<lparr>dev := rd_all hw [0, 8, 0x18] (dev s)\<rparr> else s);
           s \<leftarrow> (if lsc \<and> ring_empty (rxq (dev s)) then load_buffers hw 32 None s else Some s);
           s \<leftarrow> (if int_txdw fint then reap_tx 128 s else Some s);
           if int_rxt0 fint \<or> int_rxo fint \<or> int_rxdmt0 fint then do {
             s \<leftarrow> (if int_rxo fint \<or> int_rxdmt0 fint then load_buffers hw 8 None s else Some s);
             receive_loop hw 128 s
           } else Some s
         })"

section \<open>Starting the card\<close>

definition wr_all :: "'s regs \<Rightarrow> (u32 \<times> u32) list \<Rightarrow> 's e1000 \<Rightarrow> 's e1000" where
  "wr_all hw rvs e = fold (\<lambda>(r, v). vio_wr hw r v) rvs e"

text \<open>\<^verbatim>\<open>while(vio[8] & (1 << 19)) { halt; if(++nani == 100) break; }\<close>\<close>

function wait_gio :: "'s regs \<Rightarrow> nat \<Rightarrow> 's e1000 \<Rightarrow> nat \<times> 's e1000" where
  "wait_gio hw nani e =
     (let (v, e) = vio_rd hw 8 e
      in if v AND 0x80000 \<noteq> 0 then
           (let e = ix_halt hw e; nani = nani + 1
            in if nani \<ge> 100 then (nani, e) else wait_gio hw nani e)
         else (nani, e))"
  by pat_completeness auto
termination
  by (relation "measure (\<lambda>(hw, nani, e). 100 - nani)") auto

text \<open>Waiting for the reset bit to clear: at most 11001 reads, the last thousand a tick apart.\<close>

function wait_reset :: "'s regs \<Rightarrow> nat \<Rightarrow> 's e1000 \<Rightarrow> nat \<times> 's e1000" where
  "wait_reset hw nani e =
     (let (v, e) = vio_rd hw 0 e
      in if v AND 0x4000000 \<noteq> 0 then
           (let nani = nani + 1
            in if nani > 10000 then
                 (let e = ix_halt hw e in if nani > 11000 then (nani, e) else wait_reset hw nani e)
               else wait_reset hw nani e)
         else (nani, e))"
  by pat_completeness auto
termination
  by (relation "measure (\<lambda>(hw, nani, e). 11001 - nani)") auto

text \<open>\<^verbatim>\<open>while((vio[8] & 2) == 0) { halt; if(!(--lu_wait)) break; }\<close>\<close>

fun wait_link :: "'s regs \<Rightarrow> nat \<Rightarrow> 's e1000 \<Rightarrow> 's e1000" where
  "wait_link hw 0 e = e"
| "wait_link hw (Suc lu_wait) e =
     (let (v, e) = vio_rd hw 8 e in if v AND 2 = 0 then wait_link hw lu_wait (ix_halt hw e) else e)"

text \<open>The statistics registers are stirred into the random pool, four at a time.\<close>

definition dig_step :: "'s regs \<Rightarrow> nat \<Rightarrow> (u32 list \<times> 's e1000 \<times> pool) option \<Rightarrow> (u32 list \<times> 's e1000 \<times> pool) option" where
  "dig_step hw i x = do {
     (floof, e, r) \<leftarrow> x;
     let (v, e) = vio_rd hw (0x4000 + of_nat (i * 4)) e;
     let floof = floof[i mod 4 := v];
     r \<leftarrow> (if (i + 1) mod 4 = 0 then crypto_Mix (\<lambda>k. floof ! k) 4 r else Some r);
     Some (floof, e, r)
   }"

definition dig :: "'s regs \<Rightarrow> u32 list \<Rightarrow> 's e1000 \<times> pool \<Rightarrow> (u32 list \<times> 's e1000 \<times> pool) option" where
  "dig hw floof er = fold (dig_step hw) [0 ..< 73] (Some (floof, er))"

definition flow_control :: "(u32 \<times> u32) list" where
  "flow_control = [(0x028, 0x00c28001), (0x02c, 0x0100), (0x030, 0x8808), (0x038, 0x8100), (0x170, 0xffff), (0x5808, 0)]"

definition RCTL_setup :: u32 where
  "RCTL_setup = 0x8000 OR 0x10 OR 4"

definition read_mac :: "'s regs \<Rightarrow> 's e1000 \<Rightarrow> 's e1000" where
  "read_mac hw e =
     (let (lo, e) = vio_rd hw 0x5400 e;
          (hi, e) = vio_rd hw 0x5404 e
      in e\<lparr>macaddr := bytes32 lo @ bytes16 (ucast hi)\<rparr>)"

definition setup_receive :: "'s regs \<Rightarrow> 's e1000 \<Rightarrow> 's e1000" where
  "setup_receive hw e =
     (let rdbuf = recv_phys e;
          e = wr_all hw [(0x100, RCTL_setup), (0x2160, 0), (0x2170, 16), (0x2800, ucast rdbuf),
                         (0x2804, ucast (drop_bit 32 rdbuf)), (0x2808, 128 * 16)] e;
          e = e\<lparr>rxq := \<lparr>tail = 0, head = 0, limit = drop_bit 4 (128 * 16)\<rparr>\<rparr>
      in wr_all hw [(0x2818, 0), (0x2810, 0), (0x2828, 0x1010000), (0x282c, 0), (0x2c00, 0), (0x5008, 0),
                    (0x100, RCTL_setup OR 2)] e)"

definition TCTL_setup :: u32 where
  "TCTL_setup = push_bit 4 15 OR push_bit 12 0x40 OR push_bit 24 1 OR push_bit 3 1"

definition setup_transmit :: "'s regs \<Rightarrow> 's e1000 \<Rightarrow> 's e1000" where
  "setup_transmit hw e =
     (let txbuf = trmt_phys e;
          e = wr_all hw [(0x400, TCTL_setup), (0x3800, ucast txbuf), (0x3804, ucast (drop_bit 32 txbuf)), (0x3808, 128 * 16)] e;
          e = e\<lparr>txq := \<lparr>tail = 0, head = 0, limit = drop_bit 4 (128 * 16)\<rparr>\<rparr>
      in wr_all hw [(0x3818, 0), (0x3810, 0), (0x404, push_bit 10 0x40), (0x410, 9 OR push_bit 10 8 OR push_bit 20 7),
                    (0x3828, 0x1410100), (0x382c, 103), (0x3840, 0x401), (0x400, TCTL_setup OR 2)] e)"

text \<open>Interrupts on: sent, queue empty, link, sequence, few buffers, overrun, received, MDIO, few descriptors.\<close>

definition IMS_setup :: u32 where
  "IMS_setup = 1 OR 2 OR 4 OR 8 OR 16 OR 64 OR 128 OR 512 OR 0x8000"

definition e1000_init :: "'s regs \<Rightarrow> u32 list \<Rightarrow> 's e1000 \<times> pool \<Rightarrow> ('s e1000 \<times> pool) option" where
  "e1000_init hw floof er =
     (let (e, r) = er;
          e = wr_all hw [(0xd8, 0xffffffff), (0x100, 0), (0x400, 0)] e;
          (nani, e) = wait_gio hw 0 e;
          e = vio_wr hw 0 0x8400004c e;
          (nani, e) = wait_reset hw nani e;
          e = vio_wr hw 0xd8 0xffffffff e
      in do {
           (floof, e, r) \<leftarrow> dig hw floof (e, r);
           r \<leftarrow> crypto_Mix (\<lambda>k. floof ! k) 4 r;
           let (dsr, e) = vio_rd hw 8 e;
           let e = vio_wr hw 0 0x49 e;
           let e = wait_link hw 50 e;
           let e = rd_all hw [8, 0] e;
           let e = wr_all hw flow_control e;
           let e = read_mac hw e;
           let e = setup_receive hw e;
           let e = setup_transmit hw e;
           let e = vio_wr hw 0xd0 IMS_setup e;
           (floof, e, r) \<leftarrow> dig hw floof (e, r);
           Some (e, r)
         })"

text \<open>The constructor, on a descriptor page of zeros.\<close>

definition e1000_new :: "'s \<Rightarrow> (nat \<Rightarrow> u64) \<Rightarrow> u64 \<Rightarrow> u64 \<Rightarrow> 's e1000 \<Rightarrow> 's e1000" where
  "e1000_new s ph rp tp e =
     e\<lparr>vio := s, lastint := 0, junk_register := 0, last_junk := 0, phys := ph, recv_phys := rp, trmt_phys := tp,
       recv := replicate 128 \<lparr>rd_address = 0, rd_length = 0, rd_checksum = 0, rd_status = 0, rd_errors = 0, rd_vlan = 0\<rparr>,
       trmt := replicate 128 \<lparr>td_address = 0, td_info = 0\<rparr>,
       recv_slot := replicate 128 None, trmt_slot := replicate 128 None\<rparr>"

text \<open>
  The commands of \<^verbatim>\<open>debug_cmd\<close> that are one character long; \<open>ctrl\<close>, \<open>tctl\<close> and \<open>rctl\<close> are the registers as
  they were read for the report. The packet of \<^verbatim>\<open>'a'\<close> is dropped by the command once the ring has it.
\<close>

definition debug_cmd :: "'s regs \<Rightarrow> u32 list \<Rightarrow> char \<Rightarrow> 's drv \<Rightarrow> 's drv option" where
  "debug_cmd hw floof cc s =
     (let e = dev s;
          (ctrl, e) = vio_rd hw 0 e;
          e = rd_all hw [8, 0x1000, 0xe00, 0x18, 0x5b5c, 0x178, 0x170, 0xd0] e;
          (tctl, e) = vio_rd hw 0x400 e;
          e = rd_all hw [0x3804, 0x3800, 0x3808, 0x3810, 0x3818, 0x3828, 0x3928, 0x3840, 0x3820, 0x382c] e;
          (rctl, e) = vio_rd hw 0x100 e;
          e = rd_all hw [0x180, 0x2804, 0x2800, 0x2810, 0x2818, 0x2410, 0x2420, 0x2418, 0x2428, 0x2828,
                         0x40a0, 0x40d0, 0x5008] e;
          s = s\<lparr>dev := e\<rparr>;
          write = (\<lambda>r v. Some (s\<lparr>dev := vio_wr hw r v e\<rparr>))
      in if cc = CHR ''!'' then write 0 (ctrl OR 0x84000008)
         else if cc = CHR ''n'' then
           (let (v, e) = vio_rd hw 0x178 e in Some (s\<lparr>dev := vio_wr hw 0x178 (v OR 0x80000000) e\<rparr>))
         else if cc = CHR ''i'' then map_option (\<lambda>(e, r). s\<lparr>dev := e, rng := r\<rparr>) (e1000_init hw floof (e, rng s))
         else if cc = CHR ''a'' then load_buffers hw 1 None s
         else if cc = CHR ''='' then Some (s\<lparr>dev := wr_all hw [(0x100, rctl OR 2), (0x400, tctl OR 2)] e\<rparr>)
         else if cc = CHR ''W'' then write 0x3818 (tail (txq e))
         else if cc = CHR ''w'' then
           (let (t, q) = ring_next (txq e); t = unat t
            in Some (s\<lparr>pkts := ref_reset (trmt_slot e ! t) None (pkts s),
                 dev := e\<lparr>txq := q, trmt := (trmt e)[t := \<lparr>td_address = 0, td_info = 0\<rparr>], trmt_slot := (trmt_slot e)[t := None]\<rparr>\<rparr>))
         else if cc = CHR ''.'' then
           (let e = e\<lparr>txq := snd (ring_pop (txq e))\<rparr> in Some (s\<lparr>dev := vio_wr hw 0x3810 (head (txq e)) e\<rparr>))
         else if cc = CHR '','' then
           (let e = e\<lparr>rxq := snd (ring_pop (rxq e))\<rparr> in Some (s\<lparr>dev := vio_wr hw 0x2810 (head (rxq e)) e\<rparr>))
         else if cc = CHR ''>'' then write 0x3810 (head (txq e))
         else if cc = CHR ''<'' then write 0x2810 (head (rxq e))
         else if cc = CHR ''R'' then write 0x2818 (tail (rxq e))
         else if cc = CHR ''r'' then
           (let (t, q) = ring_next (rxq e); t = unat t
            in Some (s\<lparr>dev := e\<lparr>rxq := q, recv := (recv e)[t := (recv e ! t)\<lparr>rd_address := 0, rd_status := 0\<rparr>]\<rparr>\<rparr>))
         else if cc = CHR ''g'' then write 0 (ctrl XOR 4)
         else if cc = CHR ''l'' then write 0 (ctrl XOR 0x40)
         else if cc = CHR ''L'' then write 0 (ctrl XOR 8)
         else Some s)"

section \<open>The driver is a network card\<close>

definition e1000_holds :: "'s e1000 \<Rightarrow> nat multiset" where
  "e1000_holds e = held (recv_slot e) + held (trmt_slot e)"

definition e1000_good :: "'s e1000 \<Rightarrow> bool" where
  "e1000_good e \<longleftrightarrow> length (macaddr e) = 6 \<and> length (recv_slot e) = 128 \<and> length (trmt_slot e) = 128
     \<and> length (recv e) = 128 \<and> length (trmt e) = 128
     \<and> ring_ok (rxq e) \<and> ring_ok (txq e) \<and> limit (rxq e) = 128 \<and> limit (txq e) = 128"

lemma held_update: "i < length xs \<Longrightarrow> held (xs[i := v]) + own (xs ! i) = held xs + own v"
proof (induction xs arbitrary: i)
  case Nil
  then show ?case by simp
next
  case (Cons x xs)
  show ?case
  proof (cases i)
    case 0
    then show ?thesis by (cases x; cases v) simp_all
  next
    case (Suc j)
    with Cons show ?thesis by (cases x) simp_all
  qed
qed

lemma rd_all_vio: "\<exists>v. rd_all hw rs e = e\<lparr>vio := v\<rparr>"
proof (induction rs arbitrary: e)
  case Nil
  show ?case by (rule exI [of _ "vio e"]) (simp add: rd_all_def)
next
  case (Cons r rs)
  obtain v where "snd (vio_rd hw r e) = e\<lparr>vio := v\<rparr>"
    by (cases "rd hw r (vio e)") (simp add: vio_rd_def)
  with Cons [of "e\<lparr>vio := v\<rparr>"] show ?case by (auto simp: rd_all_def)
qed

lemma rd_all_frame [simp]:
  "macaddr (rd_all hw rs e) = macaddr e" "recv_slot (rd_all hw rs e) = recv_slot e" "trmt_slot (rd_all hw rs e) = trmt_slot e"
  "recv (rd_all hw rs e) = recv e" "trmt (rd_all hw rs e) = trmt e" "rxq (rd_all hw rs e) = rxq e" "txq (rd_all hw rs e) = txq e"
  using rd_all_vio [of hw rs e] by auto

lemma vio_wr_frame [simp]:
  "macaddr (vio_wr hw r v e) = macaddr e" "recv_slot (vio_wr hw r v e) = recv_slot e" "trmt_slot (vio_wr hw r v e) = trmt_slot e"
  "recv (vio_wr hw r v e) = recv e" "trmt (vio_wr hw r v e) = trmt e" "rxq (vio_wr hw r v e) = rxq e" "txq (vio_wr hw r v e) = txq e"
  by (simp_all add: vio_wr_def)

lemma good_slot: "e1000_good e \<Longrightarrow> unat (tail (txq e)) < 128 \<and> unat (tail (rxq e)) < 128
    \<and> unat (head (txq e)) < 128 \<and> unat (head (rxq e)) < 128"
  by (auto simp: e1000_good_def ring_ok_nat)

lemma e1000_transmit_law:
  assumes g: "e1000_good e" and i: "i < length ps" and t: "e1000_transmit hw i (ps, e) = (ps', e')"
  shows "e1000_good e' \<and> length ps' = length ps \<and> macaddr e' = macaddr e
    \<and> (\<forall>R. i \<in># R \<longrightarrow> balanced ps (R + e1000_holds e) \<longrightarrow> balanced ps' (R + e1000_holds e'))
    \<and> (\<forall>j < length ps. pbuf (ps' ! j) = pbuf (ps ! j) \<and> psize (ps' ! j) = psize (ps ! j))"
proof (cases "psize (ps ! i) < 42 \<or> ring_full (txq e)")
  case True
  with t g show ?thesis by (auto simp: e1000_transmit_def split: if_splits)
next
  case False
  let ?t = "unat (tail (txq e))"
  obtain q where q: "ring_next (txq e) = (tail (txq e), q)"
    by (metis prod.collapse ring_next_frame(3))
  have rq: "ring_ok q" "limit q = 128"
    using g ring_next_ok [of "txq e"] ring_next_frame(2) [of "txq e"] by (simp_all add: q e1000_good_def)
  have e': "ps' = ref_reset (trmt_slot e ! ?t) (Some i) ps" "recv_slot e' = recv_slot e" "trmt_slot e' = (trmt_slot e)[?t := Some i]"
      "macaddr e' = macaddr e" "recv e' = recv e" "length (trmt e') = length (trmt e)" "rxq e' = rxq e" "txq e' = q"
    using t False by (auto simp: e1000_transmit_def q Let_def)
  have good: "e1000_good e'"
    using g rq by (simp add: e1000_good_def e')
  have len: "?t < length (trmt_slot e)"
    using good_slot [OF g] g by (simp add: e1000_good_def)
  have "balanced ps' (R + e1000_holds e')" if b: "balanced ps (R + e1000_holds e)" for R
  proof -
    let ?rest = "R + held (recv_slot e) + held ((trmt_slot e)[?t := None])"
    have "held ((trmt_slot e)[?t := None]) + own (trmt_slot e ! ?t) = held (trmt_slot e)"
      using held_update [OF len, of None] by simp
    then have "balanced ps (own (trmt_slot e ! ?t) + ?rest)"
      using b by (metis (no_types, lifting) add.assoc add.commute e1000_holds_def)
    from balanced_reset [OF this, of "Some i"] i have "balanced ps' (own (Some i) + ?rest)"
      by (simp add: e')
    moreover have "held ((trmt_slot e)[?t := Some i]) = held ((trmt_slot e)[?t := None]) + own (Some i)"
      using held_update [of ?t "(trmt_slot e)[?t := None]" "Some i"] len by simp
    ultimately show ?thesis
      by (simp add: e1000_holds_def e' ac_simps)
  qed
  then show ?thesis
    using good by (simp add: e')
qed

text \<open>
  What the network layer does with the card never touches the receive ring, so the contract also holds
  with the receive ring fixed at \<open>rx\<close>.
\<close>

definition rx_of :: "'s e1000 \<Rightarrow> recv_desc list \<times> nat option list \<times> ring" where
  "rx_of e = (recv e, recv_slot e, rxq e)"

definition e1000_at :: "recv_desc list \<times> nat option list \<times> ring \<Rightarrow> 's e1000 \<Rightarrow> bool" where
  "e1000_at rx e \<longleftrightarrow> e1000_good e \<and> rx_of e = rx"

lemma e1000_transmit_rx: "e1000_transmit hw i (ps, e) = (ps', e') \<Longrightarrow> rx_of e' = rx_of e"
  by (auto simp: e1000_transmit_def Let_def rx_of_def split: if_splits prod.splits)

interpretation nic: network_card "e1000_mac hw" e1000_holds "e1000_at rx"
proof (unfold_locales, goal_cases)
  case (1 d)
  then show ?case by (simp add: e1000_mac_def e1000_at_def e1000_good_def)
next
  case (2 d)
  then show ?case
    using size_held [of "recv_slot d"] size_held [of "trmt_slot d"]
    by (simp add: e1000_holds_def e1000_at_def e1000_good_def)
next
  case (3 d i ps ps' d')
  then show ?case
    using e1000_transmit_law [of d i ps hw ps' d'] e1000_transmit_rx [of hw i ps d ps' d']
    by (simp add: e1000_mac_def e1000_at_def)
next
  case (4 d r d' r')
  then show ?case
    by (auto simp: e1000_mac_def e1000_junk_def Let_def e1000_holds_def e1000_at_def rx_of_def e1000_good_def split: if_splits)
qed

end
