(* ===== verification/Nic.thy ===== *)
theory Nic
  imports E1000
begin

text \<open>
  The queues of the network card with the network layer on top: every interrupt is handled without a fault,
  the reference counts stay right, and the loops over the rings end.
\<close>

section \<open>The state of the driver between events\<close>

definition driver_ok :: "nat multiset \<Rightarrow> 's drv \<Rightarrow> bool" where
  "driver_ok R s \<longleftrightarrow> account e1000_holds R s \<and> e1000_good (dev s) \<and> arp_inv (arps s) \<and> 300 \<le> length (pkts s) \<and> offers_ok s"

text \<open>Every slot of the receive ring that is in use has a packet.\<close>

definition rx_ready :: "'s e1000 \<Rightarrow> bool" where
  "rx_ready e \<longleftrightarrow> (\<forall>k \<in> set (ring_slots (rxq e)). recv_slot e ! k \<noteq> None)"

text \<open>The frames that the card has received and the driver has not handled.\<close>

definition arrived :: "'s e1000 \<Rightarrow> nat" where
  "arrived e = length (filter (\<lambda>k. rd_status (recv e ! k) AND 1 \<noteq> 0) (ring_slots (rxq e)))"

lemma driver_steady: "driver_ok R s \<longleftrightarrow> nic.steady (rx_of (dev s)) R s"
  by (auto simp: driver_ok_def nic.steady_def nic.sound_def e1000_at_def)

lemma steady_driver: "nic.steady rx R s \<Longrightarrow> driver_ok R s \<and> rx_of (dev s) = rx"
  by (auto simp: driver_ok_def nic.steady_def nic.sound_def e1000_at_def)

lemma rx_of_eq: "rx_of e = rx_of e' \<longleftrightarrow> recv e = recv e' \<and> recv_slot e = recv_slot e' \<and> rxq e = rxq e'"
  by (auto simp: rx_of_def)

lemma rx_ready_cong: "rx_of e = rx_of e' \<Longrightarrow> rx_ready e = rx_ready e' \<and> arrived e = arrived e'"
  by (simp add: rx_of_eq rx_ready_def arrived_def)

lemma driver_request:
  assumes "driver_ok (own old + R) s" "size R \<le> 4"
  shows "\<exists>i ps. request_packet old (pkts s) = (Some i, ps) \<and> driver_ok (own (Some i) + R) (s\<lparr>pkts := ps\<rparr>)"
proof -
  have sd: "nic.sound (rx_of (dev s)) (own old + R) s" and len: "length (offers (dhcp s)) \<le> 8"
    using assms(1) nic.offers_ok_length [of s] by (simp_all add: driver_steady nic.steady_def)
  have "size (own old + R) \<le> 8"
    using assms(2) by (cases old) simp_all
  from nic.request_available [OF sd this len, of old] obtain i ps where r: "request_packet old (pkts s) = (Some i, ps)"
    by blast
  have b: "balanced (pkts s) (own old + (R + (e1000_holds (dev s) + held (offers (dhcp s)))))"
    using assms(1) by (simp add: driver_ok_def account_def add.assoc)
  have buf: "pbuf (ps ! k) = pbuf (pkts s ! k)" for k
    using r by (auto simp: request_packet_def Let_def)
  have "driver_ok (own (Some i) + R) (s\<lparr>pkts := ps\<rparr>)"
    using assms(1) balanced_request [OF b r] request_length [OF r] buf
    by (simp add: driver_ok_def account_def add.assoc offers_ok_def pk_buf_def)
  with r show ?thesis by blast
qed

lemma driver_drop:
  assumes "driver_ok (own p + R) s"
  shows "driver_ok R (on_pkts (ref_reset p None) s)"
proof -
  have "balanced (pkts s) (own p + (R + (e1000_holds (dev s) + held (offers (dhcp s)))))"
    using assms by (simp add: driver_ok_def account_def add.assoc)
  from balanced_reset [OF this, of None] assms show ?thesis
    by (simp add: driver_ok_def account_def on_pkts_def offers_ok_def pk_buf_def)
qed

lemma set_size_frame [simp]: "pbuf (set_size i n ps ! r) = pbuf (ps ! r)"
  by (cases "r = i"; cases "i < length ps") (auto simp: set_size_def list_update_beyond)

section \<open>Giving buffers to the card\<close>

lemma addreceive_cases:
  assumes g: "e1000_good e" and r: "addreceive hw (Some p) (ps, e) = Some (ps', e')"
  shows "ring_full (rxq e) \<and> ps' = ps \<and> e' = e
    \<or> \<not> ring_full (rxq e) \<and> (let t = unat (tail (rxq e)) in
        ps' = ref_reset (recv_slot e ! t) (Some p) (set_size p 0 ps) \<and> e1000_good e'
        \<and> recv_slot e' = (recv_slot e)[t := Some p] \<and> trmt_slot e' = trmt_slot e
        \<and> recv e' = (recv e)[t := (recv e ! t)\<lparr>rd_address := phys e p, rd_status := 0\<rparr>]
        \<and> ring_slots (rxq e') = ring_slots (rxq e) @ [t])"
proof (cases "ring_full (rxq e)")
  case True
  with r show ?thesis by (simp add: addreceive_def)
next
  case False
  have ok: "ring_ok (rxq e)" using g by (simp add: e1000_good_def)
  obtain q where q: "ring_next (rxq e) = (tail (rxq e), q)"
    by (metis prod.collapse ring_next_frame(3))
  have "ring_ok q" "limit q = 128"
    using g ring_next_ok [of "rxq e"] ring_next_frame(2) [of "rxq e"] by (simp_all add: q e1000_good_def)
  with False r g ring_slots_next [OF ok False] show ?thesis
    by (auto simp: addreceive_def Let_def q e1000_good_def)
qed

lemma addreceive_some: "\<exists>x. addreceive hw (Some p) pe = Some x"
  by (cases pe) (simp add: addreceive_def Let_def split: prod.split)

text \<open>A buffer that is added appends at most one slot, which holds a packet and no frame, to those in use.\<close>

definition rx_grows :: "'s e1000 \<Rightarrow> 's e1000 \<Rightarrow> bool" where
  "rx_grows e e' \<longleftrightarrow> (\<exists>new. ring_slots (rxq e') = ring_slots (rxq e) @ new
     \<and> (\<forall>k \<in> set new. recv_slot e' ! k \<noteq> None \<and> rd_status (recv e' ! k) AND 1 = 0)
     \<and> (\<forall>k \<in> set (ring_slots (rxq e)). recv_slot e' ! k = recv_slot e ! k \<and> recv e' ! k = recv e ! k))"

lemma rx_grows_ready:
  assumes "rx_grows e e'"
  shows "rx_ready e \<Longrightarrow> rx_ready e'" "arrived e' = arrived e"
proof -
  obtain new where n: "ring_slots (rxq e') = ring_slots (rxq e) @ new"
      "\<forall>k \<in> set new. recv_slot e' ! k \<noteq> None \<and> rd_status (recv e' ! k) AND 1 = 0"
      "\<forall>k \<in> set (ring_slots (rxq e)). recv_slot e' ! k = recv_slot e ! k \<and> recv e' ! k = recv e ! k"
    using assms by (auto simp: rx_grows_def)
  show "rx_ready e \<Longrightarrow> rx_ready e'"
    using n by (auto simp: rx_ready_def)
  have "filter (\<lambda>k. rd_status (recv e' ! k) AND 1 \<noteq> 0) (ring_slots (rxq e))
      = filter (\<lambda>k. rd_status (recv e ! k) AND 1 \<noteq> 0) (ring_slots (rxq e))"
    using n(3) by (intro filter_cong) auto
  moreover have "filter (\<lambda>k. rd_status (recv e' ! k) AND 1 \<noteq> 0) new = []"
    using n(2) by (simp add: filter_empty_conv)
  ultimately show "arrived e' = arrived e"
    by (simp add: arrived_def n(1))
qed

lemma drv_addreceive_ok:
  assumes d: "driver_ok R s" and p: "p \<in># R"
  shows "\<exists>s'. drv_addreceive hw (Some p) s = Some s' \<and> driver_ok R s' \<and> rx_grows (dev s) (dev s') \<and> arps s' = arps s"
proof -
  let ?e = "dev s"
  obtain ps e where r: "addreceive hw (Some p) (pkts s, ?e) = Some (ps, e)"
    using addreceive_some by (metis surj_pair)
  let ?s = "s\<lparr>pkts := ps, dev := e\<rparr>"
  have g: "e1000_good ?e" using d by (simp add: driver_ok_def)
  have res: "drv_addreceive hw (Some p) s = Some ?s"
    by (simp add: drv_addreceive_def r)
  show ?thesis
  proof (cases "ring_full (rxq ?e)")
    case True
    then have "?s = s"
      using addreceive_cases [OF g r] by simp
    moreover have "rx_grows ?e ?e"
      unfolding rx_grows_def by (rule exI [of _ "[]"]) simp
    ultimately show ?thesis
      using res d by metis
  next
    case False
    define t where "t = unat (tail (rxq ?e))"
    have e: "ps = ref_reset (recv_slot ?e ! t) (Some p) (set_size p 0 (pkts s))" "e1000_good e"
        "recv_slot e = (recv_slot ?e)[t := Some p]" "trmt_slot e = trmt_slot ?e"
        "recv e = (recv ?e)[t := (recv ?e ! t)\<lparr>rd_address := phys ?e p, rd_status := 0\<rparr>]"
        "ring_slots (rxq e) = ring_slots (rxq ?e) @ [t]"
      using addreceive_cases [OF g r] False by (simp_all add: Let_def t_def)
    have t: "t < length (recv_slot ?e)" "t < length (recv ?e)"
      using good_slot [OF g] g by (simp_all add: t_def e1000_good_def)
    have new: "t \<notin> set (ring_slots (rxq ?e))"
      using ring_tail_unused [of "rxq ?e"] False g by (simp add: t_def e1000_good_def)
    let ?rest = "R + held ((recv_slot ?e)[t := None]) + held (trmt_slot ?e) + held (offers (dhcp s))"
    have out: "held ((recv_slot ?e)[t := None]) + own (recv_slot ?e ! t) = held (recv_slot ?e)"
      using held_update [OF t(1), of None] by simp
    have put: "held (recv_slot e) = held ((recv_slot ?e)[t := None]) + own (Some p)"
      using held_update [of t "(recv_slot ?e)[t := None]" "Some p"] t by (simp add: e(3))
    have "balanced (set_size p 0 (pkts s)) (own (recv_slot ?e ! t) + ?rest)"
      using d unfolding driver_ok_def account_def e1000_holds_def out [symmetric] by (simp add: ac_simps)
    moreover have "p < length (pkts s)"
      using d p by (auto simp: driver_ok_def account_def balanced_def)
    ultimately have "balanced ps (own (Some p) + ?rest)"
      unfolding e(1) by (intro balanced_reset) simp_all
    then have "account e1000_holds R ?s"
      by (simp add: account_def e1000_holds_def put e(4) ac_simps)
    moreover have "offers_ok ?s"
      using d by (auto simp: driver_ok_def pk_buf_def e(1) intro!: offers_ok_same [of s])
    ultimately have "driver_ok R ?s"
      using d e(2) by (simp add: driver_ok_def e(1))
    moreover have "recv_slot e ! k = recv_slot ?e ! k \<and> recv e ! k = recv ?e ! k" if "k \<in> set (ring_slots (rxq ?e))" for k
      using that new by (cases "k = t") (simp_all add: e(3,5))
    then have "rx_grows ?e e"
      unfolding rx_grows_def using t by (intro exI [of _ "[t]"]) (simp add: e(3,5,6))
    ultimately show ?thesis
      using res by simp
  qed
qed

lemma load_buffers_ok:
  assumes "driver_ok (own p + R) s" "size R \<le> 4" "rx_ready (dev s)"
  shows "\<exists>s'. load_buffers hw n p s = Some s' \<and> driver_ok R s' \<and> rx_ready (dev s') \<and> arps s' = arps s"
  using assms
proof (induction n arbitrary: p s)
  case 0
  then show ?case by (simp add: driver_drop) (simp add: on_pkts_def)
next
  case (Suc n)
  obtain i ps where r: "request_packet p (pkts s) = (Some i, ps)" "driver_ok (own (Some i) + R) (s\<lparr>pkts := ps\<rparr>)"
    using driver_request [OF Suc.prems(1,2)] by blast
  obtain s1 where s1: "drv_addreceive hw (Some i) (s\<lparr>pkts := ps\<rparr>) = Some s1" "driver_ok (own (Some i) + R) s1"
      "rx_ready (dev s1)" "arps s1 = arps s"
    using drv_addreceive_ok [OF r(2), of i hw] rx_grows_ready(1) Suc.prems(3) by fastforce
  from Suc.IH [OF s1(2) Suc.prems(2) s1(3)] r(1) s1 show ?case
    by simp
qed

section \<open>Releasing what was sent\<close>

lemma reap_tx_ok:
  assumes "driver_ok R s" "ring_used (txq (dev s)) \<le> fuel"
  shows "\<exists>s'. reap_tx fuel s = Some s' \<and> driver_ok R s' \<and> rx_of (dev s') = rx_of (dev s) \<and> arps s' = arps s"
  using assms
proof (induction fuel arbitrary: s)
  case 0
  then have "ring_empty (txq (dev s))"
    using ring_empty_used [of "txq (dev s)"] by (simp add: driver_ok_def e1000_good_def)
  with 0 show ?case by (simp add: reap_tx.simps)
next
  case (Suc fuel)
  let ?e = "dev s"
  let ?h = "unat (head (txq ?e))"
  let ?e' = "?e\<lparr>txq := snd (ring_pop (txq ?e)), trmt_slot := (trmt_slot ?e)[?h := None]\<rparr>"
  let ?s = "s\<lparr>pkts := ref_reset (trmt_slot ?e ! ?h) None (pkts s), dev := ?e'\<rparr>"
  have g: "e1000_good ?e" using Suc.prems by (simp add: driver_ok_def)
  have h: "?h < length (trmt_slot ?e)"
    using good_slot [OF g] g by (simp add: e1000_good_def)
  show ?case
  proof (cases "ring_empty (txq ?e) \<or> tx_dcmd (td_info (trmt ?e ! ?h)) AND 8 \<noteq> 0 \<and> tx_status (td_info (trmt ?e ! ?h)) AND 1 = 0")
    case True
    then have "reap_tx (Suc fuel) s = Some s"
      by (subst reap_tx.simps) (auto simp: Let_def)
    with Suc.prems show ?thesis by simp
  next
    case False
    have out: "held ((trmt_slot ?e)[?h := None]) + own (trmt_slot ?e ! ?h) = held (trmt_slot ?e)"
      using held_update [OF h, of None] by simp
    have "balanced (pkts s) (own (trmt_slot ?e ! ?h) + (R + (held (recv_slot ?e) + held ((trmt_slot ?e)[?h := None])
        + held (offers (dhcp s)))))"
      using Suc.prems(1) unfolding driver_ok_def account_def e1000_holds_def out [symmetric] by (simp add: ac_simps)
    from balanced_reset [OF this, of None] have "account e1000_holds R ?s"
      by (simp add: account_def e1000_holds_def)
    moreover have "e1000_good ?e'"
      using g ring_pop_ok [of "txq ?e"] by (simp add: e1000_good_def)
    ultimately have d: "driver_ok R ?s"
      using Suc.prems(1) by (simp add: driver_ok_def offers_ok_def pk_buf_def)
    have "ring_used (txq (dev ?s)) \<le> fuel"
      using ring_used_pop [of "txq ?e"] False g Suc.prems(2) by (simp add: e1000_good_def)
    from Suc.IH [OF d this] obtain s' where s': "reap_tx fuel ?s = Some s'" "driver_ok R s'" "rx_of (dev s') = rx_of (dev ?s)"
        "arps s' = arps ?s"
      by blast
    have "reap_tx (Suc fuel) s = reap_tx fuel ?s"
      using False by (subst reap_tx.simps) (auto simp: Let_def)
    with s' show ?thesis by (simp add: rx_of_def)
  qed
qed

section \<open>Receiving\<close>

lemma driver_enqueue:
  assumes d: "driver_ok R s" and p: "p \<in># R" and n: "size R \<le> 4" and f: "0 < free_slots (arps s)"
  shows "\<exists>s'. enqueue (e1000_mac hw) p s = Some s' \<and> driver_ok R s' \<and> rx_of (dev s') = rx_of (dev s)
    \<and> free_slots (arps s) \<le> Suc (free_slots (arps s'))"
proof -
  have inv: "arp_inv (arps s)" using d by (simp add: driver_ok_def)
  have st: "nic.steady (rx_of (dev s)) R s" using d by (simp add: driver_steady)
  have n8: "size R \<le> 8" using n by simp
  from nic.steady_enqueue [OF st p n8 free_room [OF inv f]] obtain s' where
    s': "enqueue (e1000_mac hw) p s = Some s'" "nic.steady (rx_of (dev s)) R s'"
    by blast
  from steady_driver [OF s'(2)] uses_one_free [OF uses_enqueue [OF inv s'(1)]] s'(1) show ?thesis
    by blast
qed

lemma receive_one_ok:
  assumes d: "driver_ok {#} s" and rx: "rx_ready (dev s)" and ne: "\<not> ring_empty (rxq (dev s))"
    and hot: "rd_status (recv (dev s) ! unat (head (rxq (dev s)))) AND 1 \<noteq> 0" and f: "0 < free_slots (arps s)"
  shows "\<exists>s'. receive_one hw s = Some s' \<and> driver_ok {#} s' \<and> rx_ready (dev s') \<and> Suc (arrived (dev s')) = arrived (dev s)
    \<and> free_slots (arps s) \<le> Suc (free_slots (arps s'))"
proof -
  let ?e = "dev s"
  define h where "h = unat (head (rxq ?e))"
  have g: "e1000_good ?e" using d by (simp add: driver_ok_def)
  have ok: "ring_ok (rxq ?e)" using g by (simp add: e1000_good_def)
  have h: "h < length (recv_slot ?e)"
    using good_slot [OF g] g by (simp add: e1000_good_def h_def)
  define rest where "rest = ring_slots (snd (ring_pop (rxq ?e)))"
  have slots: "ring_slots (rxq ?e) = h # rest"
    using ring_slots_pop [OF ok ne] by (simp add: h_def rest_def)
  have fresh: "h \<notin> set rest"
    using ring_slots_distinct [OF ok] by (simp add: slots)
  obtain p where p: "recv_slot ?e ! h = Some p"
    using rx by (auto simp: rx_ready_def slots)
  let ?e1 = "?e\<lparr>recv_slot := (recv_slot ?e)[h := None]\<rparr>"
  let ?s1 = "on_pkts (set_size p (ucast (rd_length (recv ?e ! h)))) (s\<lparr>dev := ?e1\<rparr>)"
  have "held ((recv_slot ?e)[h := None]) + own (Some p) = held (recv_slot ?e)"
    using held_update [OF h, of None] by (simp add: p)
  then have "account e1000_holds {#p#} ?s1"
    using d unfolding driver_ok_def account_def e1000_holds_def
    by (simp add: on_pkts_def) (metis (no_types, lifting) add_mset_add_single union_assoc union_commute)
  then have d1: "driver_ok {#p#} ?s1"
    using d by (auto simp: driver_ok_def on_pkts_def e1000_good_def pk_buf_def intro!: offers_ok_same [of s])
  have f1: "0 < free_slots (arps ?s1)" using f by simp
  obtain s2 where s2: "enqueue (e1000_mac hw) p ?s1 = Some s2" "driver_ok {#p#} s2" "rx_of (dev s2) = rx_of ?e1"
      "free_slots (arps s) \<le> Suc (free_slots (arps s2))"
    using driver_enqueue [OF d1 _ _ f1, of p hw] by (auto simp: on_pkts_def)
  obtain q ps where q: "(if refs (pkts s2 ! p) \<noteq> 1 then request_packet (Some p) (pkts s2) else (Some p, pkts s2)) = (Some q, ps)"
      "driver_ok {#q#} (s2\<lparr>pkts := ps\<rparr>)"
    using driver_request [of "Some p" "{#}" s2] s2(2) by (cases "refs (pkts s2 ! p) = 1") auto
  have rest_ok: "\<forall>k \<in> set rest. recv_slot ?e ! k \<noteq> None"
    using rx by (simp add: rx_ready_def slots)
  let ?s3 = "s2\<lparr>pkts := ps\<rparr>"
  have d3: "driver_ok {#q#} ?s3" using q(2) .
  obtain s4 where s4: "drv_addreceive hw (Some q) ?s3 = Some s4" "driver_ok {#q#} s4" "rx_grows (dev s2) (dev s4)"
      "arps s4 = arps s2"
    using drv_addreceive_ok [OF d3, of q hw] by auto
  obtain new where n: "ring_slots (rxq (dev s4)) = h # rest @ new"
      "\<forall>k \<in> set new. recv_slot (dev s4) ! k \<noteq> None \<and> rd_status (recv (dev s4) ! k) AND 1 = 0"
      "\<forall>k \<in> set (h # rest). recv_slot (dev s4) ! k = recv_slot (dev s2) ! k \<and> recv (dev s4) ! k = recv (dev s2) ! k"
    using s4(3) s2(3) slots by (auto simp: rx_grows_def rx_of_eq)
  have g4: "e1000_good (dev s4)" and ok4: "ring_ok (rxq (dev s4))"
    using s4(2) by (simp_all add: driver_ok_def e1000_good_def)
  have ne4: "\<not> ring_empty (rxq (dev s4))"
    using n(1) ring_empty_used [OF ok4] by (auto simp: ring_slots_def)
  let ?e5 = "(dev s4)\<lparr>rxq := snd (ring_pop (rxq (dev s4)))\<rparr>"
  let ?s5 = "s4\<lparr>dev := ?e5\<rparr>"
  have slots5: "ring_slots (snd (ring_pop (rxq (dev s4)))) = rest @ new"
    using ring_slots_pop [OF ok4 ne4] n(1) by simp
  have d5: "driver_ok {#q#} ?s5"
    using s4(2) ring_pop_ok [OF ok4]
    by (auto simp: driver_ok_def account_def e1000_holds_def e1000_good_def offers_ok_def pk_buf_def)
  let ?s6 = "on_pkts (ref_reset (Some q) None) ?s5"
  have d6: "driver_ok {#} ?s6"
    using driver_drop [of "Some q" "{#}" ?s5] d5 by simp
  have same: "recv_slot (dev s4) ! k = recv_slot ?e ! k \<and> recv (dev s4) ! k = recv ?e ! k" if "k \<in> set rest" for k
    using that n(3) s2(3) fresh by (cases "k = h") (auto simp: rx_of_eq)
  have ready: "rx_ready ?e5"
    using n(2) rest_ok same by (auto simp: rx_ready_def slots5)
  have "filter (\<lambda>k. rd_status (recv (dev s4) ! k) AND 1 \<noteq> 0) rest = filter (\<lambda>k. rd_status (recv ?e ! k) AND 1 \<noteq> 0) rest"
    using same by (intro filter_cong) auto
  moreover have "filter (\<lambda>k. rd_status (recv (dev s4) ! k) AND 1 \<noteq> 0) new = []"
    using n(2) by (simp add: filter_empty_conv)
  ultimately have "Suc (arrived ?e5) = arrived ?e"
    using hot by (simp add: arrived_def slots slots5 h_def [symmetric])
  moreover have "receive_one hw s = Some ?s6"
    using p s2(1) q(1) s4(1) by (simp add: receive_one_def Let_def h_def [symmetric])
  ultimately show ?thesis
    using d6 ready s2(4) s4(4) by (auto simp: on_pkts_def)
qed

lemma arrived_pos:
  "ring_ok (rxq e) \<Longrightarrow> \<not> ring_empty (rxq e) \<Longrightarrow> rd_status (recv e ! unat (head (rxq e))) AND 1 \<noteq> 0 \<Longrightarrow> 0 < arrived e"
  using ring_slots_pop [of "rxq e"] by (simp add: arrived_def)

lemma receive_loop_ok:
  assumes "driver_ok {#} s" "rx_ready (dev s)" "arrived (dev s) \<le> fuel" "arrived (dev s) \<le> free_slots (arps s)"
  shows "\<exists>s'. receive_loop hw fuel s = Some s' \<and> driver_ok {#} s' \<and> rx_ready (dev s')"
  using assms
proof (induction fuel arbitrary: s)
  case 0
  have ok: "ring_ok (rxq (dev s))" using 0 by (simp add: driver_ok_def e1000_good_def)
  have "ring_empty (rxq (dev s)) \<or> rd_status (recv (dev s) ! unat (head (rxq (dev s)))) AND 1 = 0"
    using 0 arrived_pos [OF ok] by auto
  with 0 show ?case by (subst receive_loop.simps) (simp add: Let_def)
next
  case (Suc fuel)
  show ?case
  proof (cases "ring_empty (rxq (dev s)) \<or> rd_status (recv (dev s) ! unat (head (rxq (dev s)))) AND 1 = 0")
    case True
    with Suc.prems show ?thesis by (subst receive_loop.simps) (simp add: Let_def)
  next
    case False
    have ok: "ring_ok (rxq (dev s))" using Suc.prems by (simp add: driver_ok_def e1000_good_def)
    have "0 < arrived (dev s)"
      using False arrived_pos [OF ok] by auto
    then have f: "0 < free_slots (arps s)" using Suc.prems(4) by simp
    obtain s1 where s1: "receive_one hw s = Some s1" "driver_ok {#} s1" "rx_ready (dev s1)"
        "Suc (arrived (dev s1)) = arrived (dev s)" "free_slots (arps s) \<le> Suc (free_slots (arps s1))"
      using receive_one_ok [OF Suc.prems(1,2) _ _ f, of hw] False by auto
    have "arrived (dev s1) \<le> fuel" "arrived (dev s1) \<le> free_slots (arps s1)"
      using s1(4,5) Suc.prems(3,4) by simp_all
    from Suc.IH [OF s1(2,3) this] False s1(1) show ?thesis
      by (subst receive_loop.simps) (simp add: Let_def)
  qed
qed

lemma arrived_bound: "e1000_good e \<Longrightarrow> arrived e < 128"
proof -
  assume g: "e1000_good e"
  have "arrived e \<le> length (ring_slots (rxq e))"
    by (simp add: arrived_def)
  also have "\<dots> < 128"
    using ring_used_less [of "rxq e"] g by (simp add: ring_slots_def e1000_good_def)
  finally show ?thesis .
qed

lemma processqueues_ok:
  assumes d: "driver_ok {#} s" and rx: "rx_ready (dev s)" and f: "128 \<le> free_slots (arps s)"
  shows "\<exists>s'. processqueues hw s = Some s' \<and> driver_ok {#} s' \<and> rx_ready (dev s')"
proof -
  define fint where "fint = lastint (dev s)"
  define lsc where "lsc \<longleftrightarrow> fint AND NOT 0x80000081 \<noteq> 0 \<and> int_lsc fint"
  let ?s1 = "s\<lparr>dev := (dev s)\<lparr>lastint := 0\<rparr>\<rparr>"
  let ?s = "if lsc then ?s1\<lparr>dev := rd_all hw [0, 8, 0x18] (dev ?s1)\<rparr> else ?s1"
  have d0: "driver_ok {#} ?s" and rx0: "rx_ready (dev ?s)"
    using d rx by (auto simp: driver_ok_def account_def e1000_holds_def e1000_good_def rx_ready_def offers_ok_def pk_buf_def)
  have arps: "arps ?s = arps s" by simp
  let ?a = "lsc \<and> ring_empty (rxq (dev ?s))"
  obtain s1 where s1: "(if ?a then load_buffers hw 32 None ?s else Some ?s) = Some s1" "driver_ok {#} s1" "rx_ready (dev s1)"
      "arps s1 = arps s"
    using load_buffers_ok [of None "{#}" ?s hw 32] d0 rx0 arps by (cases ?a) (auto split del: if_split)
  obtain s2 where s2: "(if int_txdw fint then reap_tx 128 s1 else Some s1) = Some s2" "driver_ok {#} s2" "rx_ready (dev s2)"
      "arps s2 = arps s"
  proof (cases "int_txdw fint")
    case True
    have "ring_used (txq (dev s1)) \<le> 128"
      using ring_used_less [of "txq (dev s1)"] s1(2) by (simp add: driver_ok_def e1000_good_def)
    from reap_tx_ok [OF s1(2) this] True s1 that show ?thesis
      by (metis rx_ready_cong)
  qed (use s1 that in simp)
  obtain s3 where s3: "(if int_rxo fint \<or> int_rxdmt0 fint then load_buffers hw 8 None s2 else Some s2) = Some s3"
      "driver_ok {#} s3" "rx_ready (dev s3)" "arps s3 = arps s"
    using load_buffers_ok [of None "{#}" s2 hw 8] s2 by (cases "int_rxo fint \<or> int_rxdmt0 fint") auto
  have "arrived (dev s3) < 128"
    using arrived_bound [of "dev s3"] s3(2) by (simp add: driver_ok_def)
  then obtain s4 where s4: "receive_loop hw 128 s3 = Some s4" "driver_ok {#} s4" "rx_ready (dev s4)"
    using receive_loop_ok [OF s3(2,3), of 128 hw] f s3(4) by auto
  have "processqueues hw s = (if int_rxt0 fint \<or> int_rxo fint \<or> int_rxdmt0 fint then Some s4 else Some s2)"
    using s1(1) s2(1) s3(1) s4(1) unfolding processqueues_def Let_def fint_def [symmetric] lsc_def [symmetric]
    by (simp split del: if_split) simp
  with s2 s4 show ?thesis by simp
qed

section \<open>Scheduled work and sending\<close>

lemma age_frees: "arp_ok a \<Longrightarrow> i < arp_size a \<Longrightarrow> pres (put_arp i (age_entry (arp_table a ! i)) a) \<subseteq> pres a"
  by (auto simp: pres_def nth_list_update arp_ok_def dest: age_present split: if_splits)

lemma run_entry_frees:
  assumes "arp_ok (arps s)" "i < arp_size (arps s)"
  shows "pres (arps (run_entry mac i s)) \<subseteq> pres (arps s) \<and> arp_limit (arps (run_entry mac i s)) = arp_limit (arps s)
    \<and> arp_size (arps (run_entry mac i s)) = arp_size (arps s) \<and> arp_ok (arps (run_entry mac i s))"
proof -
  have "arp_ok (put_arp i e (arps s))" for e
    using assms(1) by (simp add: arp_ok_def)
  with assms age_frees [OF assms] show ?thesis
    by (auto simp: run_entry_def Let_def dest!: arps_request split: option.splits prod.splits)
qed

lemma runarp_frees: "arp_ok (arps s) \<Longrightarrow> free_slots (arps s) \<le> free_slots (arps (runarp mac s))"
proof -
  assume ok: "arp_ok (arps s)"
  let ?f = "\<lambda>n. arps (fold (run_entry mac) [0 ..< n] s)"
  have "pres (?f n) \<subseteq> pres (arps s) \<and> arp_limit (?f n) = arp_limit (arps s) \<and> arp_size (?f n) = arp_size (arps s) \<and> arp_ok (?f n)"
    if "n \<le> arp_size (arps s)" for n
    using that
  proof (induction n)
    case 0
    with ok show ?case by simp
  next
    case (Suc n)
    with run_entry_frees [of "fold (run_entry mac) [0 ..< n] s" n mac] show ?case by auto
  qed
  from this [of "arp_size (arps s)"] show ?thesis
    unfolding free_slots_def runarp_def by (metis card_mono diff_le_mono2 finite_pres order_refl)
qed

lemma junk_some: "\<exists>x. e1000_junk er = Some x"
  by (cases er) (simp add: e1000_junk_def Let_def crypto_Mix_def mix_eq_spec)

lemma driver_runsched:
  assumes d: "driver_ok {#} s" and f: "0 < free_slots (arps s)"
  shows "\<exists>s'. runsched (e1000_mac hw) now s = Some s' \<and> driver_ok {#} s' \<and> rx_of (dev s') = rx_of (dev s)"
proof -
  obtain now1 now2 now3 where now: "now = (now1, now2, now3)"
    by (cases now)
  let ?rx = "rx_of (dev s)"
  have st: "nic.steady ?rx {#} s" and ok: "arp_ok (arps s)"
    using d by (simp add: driver_steady, simp add: driver_ok_def arp_inv_def)
  define s1 where "s1 = (if timer_expired now1 (arp_tc s)
    then (runarp (e1000_mac hw) s)\<lparr>arp_tc := timer_add 1000 (arp_tc (runarp (e1000_mac hw) s))\<rparr> else s)"
  have s1: "nic.steady ?rx {#} s1" "0 < free_slots (arps s1)"
    using st nic.steady_runarp [OF st, of hw] f runarp_frees [OF ok, of "e1000_mac hw"] by (auto simp: s1_def)
  obtain s2 where s2: "(if timer_expired now2 (net_tc s1) then do {
        let s = s1\<lparr>net_tc := timer_add 10000 (net_tc s1)\<rparr>;
        (d, r) \<leftarrow> mac_junk (e1000_mac hw) (dev s, rng s);
        Some (s\<lparr>dev := d, rng := r\<rparr>) } else Some s1) = Some s2"
      "nic.steady ?rx {#} s2" "arps s2 = arps s1"
  proof (cases "timer_expired now2 (net_tc s1)")
    case True
    obtain d r where j: "e1000_junk (dev s1, rng s1) = Some (d, r)"
      using junk_some by (metis surj_pair)
    have g: "e1000_at ?rx (dev s1)"
      using s1(1) by (simp add: nic.steady_def nic.sound_def)
    have "e1000_at ?rx d \<and> e1000_holds d = e1000_holds (dev s1)"
      using nic.junk [OF g, of hw "rng s1" d r] j by (simp add: e1000_mac_def)
    then have "nic.steady ?rx {#} (s1\<lparr>net_tc := timer_add 10000 (net_tc s1), dev := d, rng := r\<rparr>)"
      using s1(1) by (simp add: nic.steady_def nic.sound_def account_def offers_ok_def pk_buf_def)
    with True j that show ?thesis
      by (simp add: e1000_mac_def Let_def)
  next
    case False
    with s1 that show ?thesis by simp
  qed
  have inv: "arp_inv (arps s2)"
    using s2(2) by (simp add: nic.steady_def nic.sound_def)
  have r: "room (arps (s2\<lparr>dh_tc := timer_add 100 (dh_tc s2)\<rparr>))"
    using free_room [OF inv] s1(2) s2(3) by simp
  have t: "nic.steady ?rx {#} (s2\<lparr>dh_tc := timer_add 100 (dh_tc s2)\<rparr>)"
    using s2(2) by simp
  obtain s3 where s3: "(if timer_expired now3 (dh_tc s2) then dhcp_run (e1000_mac hw) (s2\<lparr>dh_tc := timer_add 100 (dh_tc s2)\<rparr>)
      else Some s2) = Some s3" "nic.steady ?rx {#} s3"
    using nic.steady_run [OF t r, of hw] s2(2) by (cases "timer_expired now3 (dh_tc s2)") auto
  have "runsched (e1000_mac hw) now s = Some s3"
    using s2(1) s3(1) unfolding runsched_def now Let_def prod.case s1_def [symmetric] by simp
  with steady_driver [OF s3(2)] show ?thesis by blast
qed

lemma driver_send:
  assumes d: "driver_ok {#} s"
  shows "driver_ok {#} (send_via_udp (e1000_mac hw) sport dst msg n s)
    \<and> rx_of (dev (send_via_udp (e1000_mac hw) sport dst msg n s)) = rx_of (dev s)"
proof -
  have st: "nic.steady (rx_of (dev s)) {#} s" using d by (simp add: driver_steady)
  show ?thesis
    using steady_driver [OF nic.steady_send_via_udp [OF st]] by simp
qed

section \<open>Every event\<close>

text \<open>
  What happens to the driver and the network layer between two moments: the card writes descriptors, raises an
  interrupt, the driver's task processes the queues, the network layer does its scheduled work or sends a datagram.
\<close>

datatype event =
    Dma "recv_desc list" "trmt_desc list"
  | Interrupt u32 u32
  | Queues
  | Sched "u32 \<times> u32 \<times> u32"
  | Datagram u16 sockaddr "nat \<Rightarrow> u8" u32

definition net_event :: "'s regs \<Rightarrow> event \<Rightarrow> 's drv \<Rightarrow> 's drv option" where
  "net_event hw ev s =
     (case ev of
        Dma rs ts \<Rightarrow> Some (s\<lparr>dev := (dev s)\<lparr>recv := take 128 (rs @ drop (length rs) (recv (dev s))),
          trmt := take 128 (ts @ drop (length ts) (trmt (dev s)))\<rparr>\<rparr>)
      | Interrupt n1 n2 \<Rightarrow> Some (s\<lparr>dev := handle_int hw n1 n2 (dev s)\<rparr>)
      | Queues \<Rightarrow> processqueues hw s
      | Sched now \<Rightarrow> runsched (e1000_mac hw) now s
      | Datagram sport dst msg n \<Rightarrow> Some (send_via_udp (e1000_mac hw) sport dst msg n s))"

lemma handle_int_frame [simp]:
  "macaddr (handle_int hw n1 n2 e) = macaddr e" "recv (handle_int hw n1 n2 e) = recv e" "trmt (handle_int hw n1 n2 e) = trmt e"
  "recv_slot (handle_int hw n1 n2 e) = recv_slot e" "trmt_slot (handle_int hw n1 n2 e) = trmt_slot e"
  "rxq (handle_int hw n1 n2 e) = rxq e" "txq (handle_int hw n1 n2 e) = txq e"
  by (simp_all add: handle_int_def vio_rd_def Let_def split: prod.split)

text \<open>C26 
  No event makes the network layer fault, while 128 entries of the address table are free: no null packet is
  followed, no write goes behind the address table, the pool of packets is never exhausted, the loops over the rings end, and
  afterwards every reference count is again the number of references there are.
\<close>

theorem events_safe:
  assumes d: "driver_ok {#} s" and rx: "rx_ready (dev s)" and f: "128 \<le> free_slots (arps s)"
  shows "\<exists>s'. net_event hw ev s = Some s' \<and> driver_ok {#} s' \<and> rx_ready (dev s')"
proof (cases ev)
  case (Dma rs ts)
  then show ?thesis
    using d rx by (auto simp: net_event_def driver_ok_def account_def e1000_holds_def e1000_good_def rx_ready_def
        offers_ok_def pk_buf_def)
next
  case (Interrupt n1 n2)
  then show ?thesis
    using d rx by (auto simp: net_event_def driver_ok_def account_def e1000_holds_def e1000_good_def rx_ready_def
        offers_ok_def pk_buf_def)
next
  case Queues
  with processqueues_ok [OF d rx f, of hw] show ?thesis by (simp add: net_event_def)
next
  case (Sched now)
  with driver_runsched [OF d, of hw now] f rx show ?thesis
    by (fastforce simp: net_event_def dest: rx_ready_cong)
next
  case (Datagram sport dst msg n)
  with driver_send [OF d, of hw sport dst msg n] rx show ?thesis
    by (auto simp: net_event_def dest: rx_ready_cong)
qed

definition quiet_card :: "unit regs" where
  "quiet_card = \<lparr>rd = \<lambda>_ s. (0, s), wr = \<lambda>_ _ s. s, idle = \<lambda>s. s\<rparr>"

definition started :: "unit drv" where
  "started = \<lparr>pkts = replicate 340 \<lparr>refs = 0, pbuf = \<lambda>_. 0, psize = 0\<rparr>,
     dev = \<lparr>vio = (), macaddr = [2, 0, 0, 0, 0, 1],
       recv = replicate 128 \<lparr>rd_address = 0, rd_length = 0, rd_checksum = 0, rd_status = 0, rd_errors = 0, rd_vlan = 0\<rparr>,
       trmt = replicate 128 \<lparr>td_address = 0, td_info = 0\<rparr>,
       recv_slot = replicate 128 None, trmt_slot = replicate 128 None,
       rxq = \<lparr>tail = 0, head = 0, limit = 128\<rparr>, txq = \<lparr>tail = 0, head = 0, limit = 128\<rparr>,
       lastint = 0x85, junk_register = 0, last_junk = 0, last_itime = 0, phys = \<lambda>i. of_nat (2048 * i), recv_phys = 0, trmt_phys = 0\<rparr>,
     ethdev = True, arps = fresh_arp, system_ip = 0, arp_tc = 0, net_tc = 0, dh_tc = 0,
     dhcp = dhcp_client_init\<lparr>runstate := 1\<rparr>, rng = \<lparr>prng1 = replicate 16 0, prng_index = 0\<rparr>\<rparr>"

lemma started_ok: "driver_ok {#} started" "rx_ready (dev started)" "128 \<le> free_slots (arps started)"
proof -
  have "offers_ok started"
    unfolding offers_ok_def by (rule exI [of _ "[]"]) (simp add: started_def dhcp_client_init_def)
  then show "driver_ok {#} started"
    using fresh_arp_inv
    by (simp add: driver_ok_def started_def account_def balanced_def e1000_holds_def e1000_good_def ring_ok_def dhcp_client_init_def)
  show "rx_ready (dev started)"
    by (simp add: rx_ready_def started_def ring_slots_def ring_used_def)
  show "128 \<le> free_slots (arps started)"
    by (simp add: started_def free_slots_def fresh_arp_def pres_def)
qed

text \<open>The link comes up on a fresh driver: 32 buffers are given to the card, and the account holds.\<close>

lemma events_safe_witness: "\<exists>s'. net_event quiet_card Queues started = Some s' \<and> driver_ok {#} s' \<and> rx_ready (dev s')"
  by (rule events_safe [OF started_ok])

end
