(* ===== verification/Sched.thy ===== *)
theory Sched
  imports Prelude MemTypes
begin

text \<open>
  The scheduler (\<^verbatim>\<open>scheduler.cpp\<close>): task slots, the loop that hands the processor to them, waiting for
  interrupts, and the interrupt that takes the processor away.

  The task switches of the assembly file save and load a \<^verbatim>\<open>BaseRegisterSave\<close>; the registers
  of the processor are a field of the state. Where the loop of \<^verbatim>\<open>Scheduler::run\<close> stands, which the
  code keeps on the stack of the core task, is a field as well. Messages are left out.
\<close>

section \<open>Tasks and slots\<close>

record base_regs =
  r_edi :: u32
  r_esi :: u32
  r_ebp :: u32
  r_esp :: u32
  r_ebx :: u32
  r_edx :: u32
  r_ecx :: u32
  r_eax :: u32
  r_eip :: u32
  r_cs :: u32
  r_eflags :: u32

record task_block =
  reg_save :: base_regs
  stack_base :: u32
  wait_ints :: "u32 list"

datatype task_state = TASK_EMPTY | TASK_NEW | TASK_RUN | TASK_RUNNING | TASK_WAIT_INT

record task_slot =
  task :: "task_block option"
  tstate :: task_state

definition TASK_LIMIT :: nat where
  "TASK_LIMIT = 32"

definition slot_init :: task_slot where
  "slot_init = \<lparr>task = None, tstate = TASK_EMPTY\<rparr>"

definition task_list_init :: "task_slot list" where
  "task_list_init = replicate TASK_LIMIT slot_init"

text \<open>\<^verbatim>\<open>TaskBlock::init\<close>; \<open>base\<close> is the stack that the memory manager gave.\<close>

definition zero_regs :: base_regs where
  "zero_regs = \<lparr>r_edi = 0, r_esi = 0, r_ebp = 0, r_esp = 0, r_ebx = 0, r_edx = 0, r_ecx = 0, r_eax = 0,
     r_eip = 0, r_cs = 0, r_eflags = 0\<rparr>"

definition task_init :: "u32 \<Rightarrow> task_block" where
  "task_init base = \<lparr>reg_save = zero_regs\<lparr>r_esp := base + 0x10000\<rparr>, stack_base = base, wait_ints = [0, 0, 0, 0]\<rparr>"

text \<open>\<^verbatim>\<open>TaskBlock::start\<close>: the parameter and a null return address are put on the new stack.\<close>

definition task_start :: "u32 \<Rightarrow> u32 \<Rightarrow> u32 \<Rightarrow> task_block \<Rightarrow> (u32 \<Rightarrow> u32) \<Rightarrow> task_block \<times> (u32 \<Rightarrow> u32)" where
  "task_start eflags entry param t m =
     (let r = (reg_save t)\<lparr>r_eip := entry, r_eflags := eflags, r_cs := 0x10\<rparr>;
          sp = r_esp r;
          m = m(sp - 4 := param);
          m = m(sp - 8 := 0)
      in (t\<lparr>reg_save := r\<lparr>r_esp := sp - 8\<rparr>\<rparr>, m))"

text \<open>\<^verbatim>\<open>_ixa_cmpxchg\<close> on the state of a slot.\<close>

definition cmpxchg :: "task_state \<Rightarrow> task_state \<Rightarrow> task_slot \<Rightarrow> bool \<times> task_slot" where
  "cmpxchg c n s = (if tstate s = c then (True, s\<lparr>tstate := n\<rparr>) else (False, s))"

definition get_free :: "task_slot list \<Rightarrow> nat option \<times> task_slot list" where
  "get_free ts =
     (case first_index (\<lambda>s. fst (cmpxchg TASK_EMPTY TASK_NEW s)) ts of
        Some i \<Rightarrow> (Some i, ts[i := snd (cmpxchg TASK_EMPTY TASK_NEW (ts ! i))])
      | None \<Rightarrow> (None, ts))"

section \<open>The scheduler\<close>

text \<open>A pointer to a slot: the slot of the core task, or one of the list.\<close>

datatype slot_ptr = CoreSlot | ListSlot nat

text \<open>
  \<open>Visit i n\<close>: \<^verbatim>\<open>run\<close> is about to look at slot \<open>i\<close> and has run \<open>n\<close> tasks in this pass; \<open>Switched i n\<close>: it is in
  the task switch to slot \<open>i\<close>; \<open>Returned\<close>: it is not running.
\<close>

datatype run_pc = Visit nat nat | Switched nat nat | Returned

record scheduler =
  core_task :: task_slot
  active_task :: "slot_ptr option"
  tasks :: "task_slot list"
  cpu :: base_regs
  stacks :: "u32 \<Rightarrow> u32"
  pc :: run_pc

definition on_task :: "(task_block \<Rightarrow> task_block) \<Rightarrow> task_slot \<Rightarrow> task_slot" where
  "on_task f s = s\<lparr>task := map_option f (task s)\<rparr>"

definition get_slot :: "slot_ptr \<Rightarrow> scheduler \<Rightarrow> task_slot" where
  "get_slot p s = (case p of CoreSlot \<Rightarrow> core_task s | ListSlot i \<Rightarrow> tasks s ! i)"

definition upd_slot :: "slot_ptr \<Rightarrow> (task_slot \<Rightarrow> task_slot) \<Rightarrow> scheduler \<Rightarrow> scheduler" where
  "upd_slot p f s =
     (case p of
        CoreSlot \<Rightarrow> s\<lparr>core_task := f (core_task s)\<rparr>
      | ListSlot i \<Rightarrow> s\<lparr>tasks := (tasks s)[i := f (tasks s ! i)]\<rparr>)"

definition saved :: "slot_ptr \<Rightarrow> scheduler \<Rightarrow> base_regs" where
  "saved p s = reg_save (the (task (get_slot p s)))"

text \<open>
  The two task switches. The call of \<^verbatim>\<open>_ix_task_switch\<close> does not save \<^verbatim>\<open>eax\<close>, which its caller does not
  expect to be kept, and saves the code segment as \<^verbatim>\<open>0x10\<close>; \<open>cpu\<close> is what the caller has after the
  return. From an interrupt every register of the interrupted code is saved.
\<close>

definition task_switch :: "slot_ptr \<Rightarrow> slot_ptr \<Rightarrow> scheduler \<Rightarrow> scheduler" where
  "task_switch from to s =
     (let s = upd_slot from (on_task (\<lambda>t. t\<lparr>reg_save := (cpu s)\<lparr>r_eax := r_eax (reg_save t), r_cs := 0x10\<rparr>\<rparr>)) s
      in s\<lparr>cpu := saved to s\<rparr>)"

definition task_switch_from_int :: "slot_ptr \<Rightarrow> slot_ptr \<Rightarrow> scheduler \<Rightarrow> scheduler" where
  "task_switch_from_int from to s =
     (let s = upd_slot from (on_task (\<lambda>t. t\<lparr>reg_save := cpu s\<rparr>)) s
      in s\<lparr>cpu := saved to s\<rparr>)"

definition sched_start :: "u32 \<Rightarrow> u32 \<Rightarrow> u32 \<Rightarrow> u32 \<Rightarrow> scheduler \<Rightarrow> scheduler" where
  "sched_start base eflags entry param s =
     (case get_free (tasks s) of
        (None, _) \<Rightarrow> s
      | (Some i, ts) \<Rightarrow>
          (let (t, m) = task_start eflags entry param (task_init base) (stacks s)
           in s\<lparr>tasks := ts[i := \<lparr>task = Some t, tstate = TASK_RUN\<rparr>], stacks := m\<rparr>))"

definition wake_tasks :: "u32 \<Rightarrow> nat \<Rightarrow> scheduler \<Rightarrow> scheduler" where
  "wake_tasks int_mask offset s =
     s\<lparr>tasks := map (\<lambda>slot.
         if tstate slot = TASK_WAIT_INT \<and> wait_ints (the (task slot)) ! offset AND int_mask \<noteq> 0
         then slot\<lparr>tstate := TASK_RUN\<rparr> else slot) (tasks s)\<rparr>"

definition sched_init :: "base_regs \<Rightarrow> (u32 \<Rightarrow> u32) \<Rightarrow> task_block \<Rightarrow> scheduler" where
  "sched_init c m core =
     \<lparr>core_task = \<lparr>task = Some core, tstate = TASK_EMPTY\<rparr>, active_task = None, tasks = task_list_init,
      cpu = c, stacks = m, pc = Returned\<rparr>"

text \<open>The word and the bit of an interrupt number; a shift uses the low five bits of its count.\<close>

definition int_word :: "u8 \<Rightarrow> nat \<times> nat" where
  "int_word inum =
     (if inum \<ge> 0x60 then (3, unat (inum - 0x60) mod 32)
      else if inum \<ge> 0x40 then (2, unat (inum - 0x40))
      else if inum \<ge> 0x20 then (1, unat (inum - 0x20))
      else (0, unat inum))"

definition wake_on_interrupt :: "u8 \<Rightarrow> scheduler \<Rightarrow> scheduler" where
  "wake_on_interrupt inum s =
     (case active_task s of
        None \<Rightarrow> s
      | Some p \<Rightarrow>
          (let (w, b) = int_word inum
           in upd_slot p (on_task (\<lambda>t. t\<lparr>wait_ints := (wait_ints t)[w := wait_ints t ! w OR push_bit b 1]\<rparr>)) s))"

section \<open>The loop\<close>

text \<open>What \<^verbatim>\<open>run\<close> does when the task switch it is in returns.\<close>

definition run_resume :: "scheduler \<Rightarrow> scheduler" where
  "run_resume s =
     (case pc s of
        Switched i n \<Rightarrow> (upd_slot (ListSlot i) (\<lambda>slot. snd (cmpxchg TASK_RUNNING TASK_RUN slot)) s)\<lparr>pc := Visit (i + 1) n\<rparr>
      | _ \<Rightarrow> s)"

definition run_enter :: "scheduler \<Rightarrow> scheduler" where
  "run_enter s = s\<lparr>pc := Visit 0 0\<rparr>"

text \<open>One iteration, up to the task switch where there is one.\<close>

definition run_visit :: "scheduler \<Rightarrow> scheduler" where
  "run_visit s =
     (case pc s of
        Visit i n \<Rightarrow>
          if i \<ge> TASK_LIMIT then (if n = 0 then s\<lparr>pc := Returned\<rparr> else s\<lparr>pc := Visit 0 0\<rparr>)
          else
            (let (ok, slot) = cmpxchg TASK_RUN TASK_RUNNING (tasks s ! i)
             in if ok then
                  task_switch CoreSlot (ListSlot i)
                    (s\<lparr>tasks := (tasks s)[i := slot], active_task := Some (ListSlot i), pc := Switched i (n + 1)\<rparr>)
                else s\<lparr>pc := Visit (i + 1) n\<rparr>)
      | _ \<Rightarrow> s)"

definition wait_for_interrupts :: "scheduler \<Rightarrow> scheduler" where
  "wait_for_interrupts s =
     (case active_task s of
        None \<Rightarrow> s
      | Some p \<Rightarrow>
          (let s = upd_slot p (\<lambda>slot. slot\<lparr>tstate := TASK_WAIT_INT\<rparr>) s;
               s = s\<lparr>active_task := Some CoreSlot\<rparr>
           in run_resume (task_switch p CoreSlot s)))"

definition scheduler_from_interrupt :: "u8 \<Rightarrow> scheduler \<Rightarrow> scheduler" where
  "scheduler_from_interrupt inum s =
     (case active_task s of
        None \<Rightarrow> s
      | Some p \<Rightarrow>
          (let (w, b) = int_word inum;
               s = wake_tasks (push_bit b 1) w s
           in if inum \<noteq> 0x28 then s
              else
                (let s = s\<lparr>active_task := Some CoreSlot\<rparr>
                 in run_resume (task_switch_from_int p CoreSlot s))))"

text \<open>
  The steps of the machine. The core task calls \<^verbatim>\<open>run\<close> again after it has halted; a task computes, asks for
  interrupts, starts tasks and waits; an interrupt may come between any two steps.
\<close>

inductive sched_step :: "scheduler \<Rightarrow> scheduler \<Rightarrow> bool" where
  core_enters: "pc s = Returned \<Longrightarrow> sched_step s (run_enter s)"
| core_visits: "pc s = Visit i n \<Longrightarrow> sched_step s (run_visit s)"
| works: "sched_step s (s\<lparr>cpu := c\<rparr>)"
| task_asks: "pc s = Switched i n \<Longrightarrow> sched_step s (wake_on_interrupt inum s)"
| task_waits: "pc s = Switched i n \<Longrightarrow> sched_step s (wait_for_interrupts s)"
| starts: "sched_step s (sched_start base eflags entry param s)"
| interrupted: "sched_step s (scheduler_from_interrupt inum s)"

section \<open>What the scheduler keeps\<close>

definition dispatched :: "nat \<Rightarrow> scheduler \<Rightarrow> bool" where
  "dispatched i s \<longleftrightarrow> active_task s = Some (ListSlot i)"

definition sched_ok :: "scheduler \<Rightarrow> bool" where
  "sched_ok s \<longleftrightarrow> length (tasks s) = TASK_LIMIT \<and> task (core_task s) \<noteq> None
     \<and> (\<forall>i < TASK_LIMIT. (tstate (tasks s ! i) \<noteq> TASK_EMPTY \<longrightarrow> task (tasks s ! i) \<noteq> None)
          \<and> (\<forall>t. task (tasks s ! i) = Some t \<longrightarrow> length (wait_ints t) = 4)
          \<and> (tstate (tasks s ! i) = TASK_RUNNING \<longleftrightarrow> dispatched i s))
     \<and> (case pc s of
          Switched i n \<Rightarrow> i < TASK_LIMIT \<and> dispatched i s
        | _ \<Rightarrow> active_task s = None \<or> active_task s = Some CoreSlot)"

lemma cmpxchg_simps [simp]:
  "fst (cmpxchg c n s) \<longleftrightarrow> tstate s = c" "snd (cmpxchg c n s) = (if tstate s = c then s\<lparr>tstate := n\<rparr> else s)"
  by (simp_all add: cmpxchg_def)

lemma on_task_simps [simp]:
  "task (on_task f s) = map_option f (task s)" "tstate (on_task f s) = tstate s"
  by (simp_all add: on_task_def)

lemma upd_slot_simps [simp]:
  "pc (upd_slot p f s) = pc s" "active_task (upd_slot p f s) = active_task s" "cpu (upd_slot p f s) = cpu s"
  "stacks (upd_slot p f s) = stacks s"
  "tasks (upd_slot CoreSlot f s) = tasks s" "core_task (upd_slot CoreSlot f s) = f (core_task s)"
  "tasks (upd_slot (ListSlot i) f s) = (tasks s)[i := f (tasks s ! i)]" "core_task (upd_slot (ListSlot i) f s) = core_task s"
  by (simp_all add: upd_slot_def split: slot_ptr.split)

text \<open>The slot that a new task gets is one that had none.\<close>

lemma get_free_cases:
  assumes "get_free ts = (r, ts')"
  obtains "r = None" "ts' = ts"
  | i where "r = Some i" "i < length ts" "tstate (ts ! i) = TASK_EMPTY" "ts' = ts[i := (ts ! i)\<lparr>tstate := TASK_NEW\<rparr>]"
proof (cases "first_index (\<lambda>s. tstate s = TASK_EMPTY) ts")
  case None
  have "get_free ts = (None, ts)"
    by (simp add: get_free_def None)
  with assms have "r = None" "ts' = ts" by simp_all
  then show ?thesis by (rule that(1))
next
  case (Some i)
  note i = first_index_Some [OF Some]
  then have "get_free ts = (Some i, ts[i := (ts ! i)\<lparr>tstate := TASK_NEW\<rparr>])"
    by (simp add: get_free_def Some)
  with assms have "r = Some i" "ts' = ts[i := (ts ! i)\<lparr>tstate := TASK_NEW\<rparr>]" by simp_all
  from that(2) [OF this(1) _ _ this(2)] i show ?thesis by simp
qed

lemma start_cases:
  obtains "sched_start base eflags entry param s = s"
  | i t m where "i < length (tasks s)" "tstate (tasks s ! i) = TASK_EMPTY" "length (wait_ints t) = 4"
      "sched_start base eflags entry param s = s\<lparr>tasks := (tasks s)[i := \<lparr>task = Some t, tstate = TASK_RUN\<rparr>], stacks := m\<rparr>"
proof -
  obtain r ts where g: "get_free (tasks s) = (r, ts)" by fastforce
  from g show ?thesis
  proof (cases rule: get_free_cases)
    case 1
    with g have "sched_start base eflags entry param s = s" by (simp only: sched_start_def prod.case option.case)
    then show ?thesis by (rule that(1))
  next
    case (2 i)
    obtain t m where t: "task_start eflags entry param (task_init base) (stacks s) = (t, m)" by fastforce
    then have "length (wait_ints t) = 4"
      by (auto simp: task_start_def task_init_def Let_def)
    moreover have "sched_start base eflags entry param s = s\<lparr>tasks := (tasks s)[i := \<lparr>task = Some t, tstate = TASK_RUN\<rparr>], stacks := m\<rparr>"
      unfolding sched_start_def g 2(1) prod.case option.case t 2(4) by simp
    ultimately show ?thesis using that(2) [of i t m] 2 by simp
  qed
qed

lemma sched_okI:
  assumes "length (tasks s) = TASK_LIMIT" "task (core_task s) \<noteq> None"
    and "\<And>i. i < TASK_LIMIT \<Longrightarrow> tstate (tasks s ! i) \<noteq> TASK_EMPTY \<Longrightarrow> task (tasks s ! i) \<noteq> None"
    and "\<And>i t. i < TASK_LIMIT \<Longrightarrow> task (tasks s ! i) = Some t \<Longrightarrow> length (wait_ints t) = 4"
    and "\<And>i. i < TASK_LIMIT \<Longrightarrow> tstate (tasks s ! i) = TASK_RUNNING \<longleftrightarrow> dispatched i s"
    and "\<And>i n. pc s = Switched i n \<Longrightarrow> i < TASK_LIMIT \<and> dispatched i s"
    and "\<forall>i n. pc s \<noteq> Switched i n \<Longrightarrow> active_task s = None \<or> active_task s = Some CoreSlot"
  shows "sched_ok s"
  using assms unfolding sched_ok_def by (auto split: run_pc.split)

lemma sched_okD:
  assumes "sched_ok s"
  shows "length (tasks s) = TASK_LIMIT" "task (core_task s) \<noteq> None"
    and "i < TASK_LIMIT \<Longrightarrow> tstate (tasks s ! i) \<noteq> TASK_EMPTY \<Longrightarrow> task (tasks s ! i) \<noteq> None"
    and "i < TASK_LIMIT \<Longrightarrow> task (tasks s ! i) = Some t \<Longrightarrow> length (wait_ints t) = 4"
    and "i < TASK_LIMIT \<Longrightarrow> tstate (tasks s ! i) = TASK_RUNNING \<longleftrightarrow> dispatched i s"
    and "pc s = Switched j n \<Longrightarrow> j < TASK_LIMIT \<and> active_task s = Some (ListSlot j)"
    and "\<forall>i n. pc s \<noteq> Switched i n \<Longrightarrow> active_task s = None \<or> active_task s = Some CoreSlot"
  using assms unfolding sched_ok_def by (auto simp: dispatched_def split: run_pc.splits)

lemma pc_cases:
  assumes "sched_ok s"
  obtains i n where "pc s = Switched i n" "i < TASK_LIMIT" "active_task s = Some (ListSlot i)"
  | "\<forall>i n. pc s \<noteq> Switched i n" "active_task s = None \<or> active_task s = Some CoreSlot"
  using sched_okD(6,7) [OF assms] by (metis)

lemma start_ok: "sched_ok s \<Longrightarrow> sched_ok (sched_start base eflags entry param s)"
proof (rule start_cases [of base eflags entry param s])
  fix i t m
  assume ok: "sched_ok s" and i: "i < length (tasks s)" "tstate (tasks s ! i) = TASK_EMPTY" "length (wait_ints t) = 4"
    and eq: "sched_start base eflags entry param s = s\<lparr>tasks := (tasks s)[i := \<lparr>task = Some t, tstate = TASK_RUN\<rparr>], stacks := m\<rparr>"
  have "\<not> dispatched i s"
    using sched_okD(1) [OF ok] sched_okD(5) [OF ok, of i] i by auto
  then show ?thesis
    unfolding eq using i sched_okD [OF ok]
    by (intro sched_okI) (auto simp: nth_list_update dispatched_def split: if_splits)
qed simp

lemma wake_tasks_simps [simp]:
  "length (tasks (wake_tasks k w s)) = length (tasks s)" "pc (wake_tasks k w s) = pc s" "cpu (wake_tasks k w s) = cpu s"
  "active_task (wake_tasks k w s) = active_task s" "core_task (wake_tasks k w s) = core_task s"
  "stacks (wake_tasks k w s) = stacks s"
  by (simp_all add: wake_tasks_def)

lemma wake_tasks_nth:
  "i < length (tasks s) \<Longrightarrow> tasks (wake_tasks k w s) ! i =
     (if tstate (tasks s ! i) = TASK_WAIT_INT \<and> wait_ints (the (task (tasks s ! i))) ! w AND k \<noteq> 0
      then (tasks s ! i)\<lparr>tstate := TASK_RUN\<rparr> else tasks s ! i)"
  by (simp add: wake_tasks_def)

lemma wake_ok: "sched_ok s \<Longrightarrow> sched_ok (wake_tasks k w s)"
proof -
  assume ok: "sched_ok s"
  show ?thesis
  proof (rule sched_okI)
    fix i assume i: "i < TASK_LIMIT"
    note d = sched_okD(3-5) [OF ok i] sched_okD(1) [OF ok]
    show "tstate (tasks (wake_tasks k w s) ! i) = TASK_RUNNING \<longleftrightarrow> dispatched i (wake_tasks k w s)"
      using d i by (auto simp: wake_tasks_nth dispatched_def)
    show "task (tasks (wake_tasks k w s) ! i) \<noteq> None" if "tstate (tasks (wake_tasks k w s) ! i) \<noteq> TASK_EMPTY"
      using d i that by (auto simp: wake_tasks_nth split: if_splits)
    show "length (wait_ints t) = 4" if "task (tasks (wake_tasks k w s) ! i) = Some t" for t
      using d i that by (auto simp: wake_tasks_nth split: if_splits)
  qed (use sched_okD(1,2,6,7) [OF ok] in \<open>simp_all add: dispatched_def\<close>)
qed

lemma ask_ok: "sched_ok s \<Longrightarrow> sched_ok (wake_on_interrupt inum s)"
proof -
  assume ok: "sched_ok s"
  obtain w b where wb: "int_word inum = (w, b)" by fastforce
  from ok show ?thesis
  proof (cases rule: pc_cases)
    case (1 i n)
    with sched_okD [OF ok] wb show ?thesis
      by (intro sched_okI) (auto simp: wake_on_interrupt_def nth_list_update dispatched_def split: if_splits)
  next
    case 2
    with sched_okD [OF ok] wb show ?thesis
      by (intro sched_okI) (auto simp: wake_on_interrupt_def nth_list_update dispatched_def split: if_splits option.splits)
  qed
qed

lemma visit_ok:
  assumes ok: "sched_ok s" and p: "pc s = Visit i n"
  shows "sched_ok (run_visit s)"
proof -
  have na: "active_task s = None \<or> active_task s = Some CoreSlot"
    using sched_okD(7) [OF ok] p by simp
  then have nr: "\<not> dispatched j s" for j by (auto simp: dispatched_def)
  show ?thesis
  proof (cases "i \<ge> TASK_LIMIT")
    case True
    with p have "run_visit s = s\<lparr>pc := if n = 0 then Returned else Visit 0 0\<rparr>"
      by (simp add: run_visit_def)
    with na nr sched_okD(1-5) [OF ok] show ?thesis
      by (intro sched_okI) (auto simp: dispatched_def split: if_splits)
  next
    case False
    show ?thesis
    proof (cases "tstate (tasks s ! i) = TASK_RUN")
      case True
      with False nr sched_okD [OF ok] p show ?thesis
        by (intro sched_okI) (auto simp: run_visit_def cmpxchg_def task_switch_def Let_def dispatched_def nth_list_update split: if_splits)
    next
      case run: False
      with False na nr sched_okD [OF ok] p show ?thesis
        by (intro sched_okI) (auto simp: run_visit_def cmpxchg_def dispatched_def)
    qed
  qed
qed

text \<open>What leaving the processor does to the state of the scheduler.\<close>

lemma wait_eq:
  assumes ok: "sched_ok s" and p: "pc s = Switched i n"
  shows "\<exists>r. wait_for_interrupts s = s\<lparr>tasks := (tasks s)[i := on_task (\<lambda>t. t\<lparr>reg_save := (cpu s)\<lparr>r_eax := r, r_cs := 0x10\<rparr>\<rparr>)
      ((tasks s ! i)\<lparr>tstate := TASK_WAIT_INT\<rparr>)], active_task := Some CoreSlot, cpu := saved CoreSlot s, pc := Visit (i + 1) n\<rparr>"
proof -
  have i: "i < length (tasks s)" "active_task s = Some (ListSlot i)"
    using sched_okD(1,6) [OF ok] p by auto
  obtain t where t: "task (tasks s ! i) = Some t"
    using sched_okD(3,5,6) [OF ok] p by (fastforce simp: dispatched_def)
  show ?thesis
    by (intro exI [of _ "r_eax (reg_save t)"])
      (simp add: wait_for_interrupts_def task_switch_def run_resume_def i p t Let_def saved_def get_slot_def upd_slot_def on_task_def)
qed

lemma wake_running: "tstate (tasks s ! i) = TASK_RUNNING \<Longrightarrow> i < length (tasks s) \<Longrightarrow> tasks (wake_tasks k w s) ! i = tasks s ! i"
  by (simp add: wake_tasks_nth)

lemma preempt_eq:
  assumes ok: "sched_ok s" and p: "pc s = Switched i n" and w: "int_word 0x28 = (w, b)"
  shows "scheduler_from_interrupt 0x28 s =
    (let s1 = wake_tasks (push_bit b 1) w s
     in s1\<lparr>tasks := (tasks s1)[i := on_task (\<lambda>t. t\<lparr>reg_save := cpu s\<rparr>) ((tasks s ! i)\<lparr>tstate := TASK_RUN\<rparr>)],
           active_task := Some CoreSlot, cpu := saved CoreSlot s, pc := Visit (i + 1) n\<rparr>)"
proof -
  have i: "i < length (tasks s)" "active_task s = Some (ListSlot i)" "tstate (tasks s ! i) = TASK_RUNNING"
    using sched_okD(1,6) [OF ok] sched_okD(5) [OF ok, of i] p by (auto simp: dispatched_def)
  have swap: "(x :: scheduler)\<lparr>active_task := a, cpu := c, tasks := ts, pc := q\<rparr> = x\<lparr>tasks := ts, active_task := a, cpu := c, pc := q\<rparr>"
    "(y :: task_slot)\<lparr>task := t, tstate := u\<rparr> = y\<lparr>tstate := u, task := t\<rparr>" for x a c ts q y t u
    by (cases x, simp) (cases y, simp)
  from i show ?thesis
    by (simp add: swap scheduler_from_interrupt_def w task_switch_from_int_def run_resume_def p Let_def wake_running
        saved_def get_slot_def upd_slot_def on_task_def)
qed

lemma core_interrupt_eq:
  assumes "\<forall>i n. pc s \<noteq> Switched i n" "active_task s = Some CoreSlot" and w: "int_word 0x28 = (w, b)" and ok: "sched_ok s"
  shows "scheduler_from_interrupt 0x28 s = (wake_tasks (push_bit b 1) w s)
    \<lparr>core_task := on_task (\<lambda>t. t\<lparr>reg_save := cpu s\<rparr>) (core_task s)\<rparr>"
  using assms(1,2) sched_okD(2) [OF ok]
  by (auto simp: scheduler_from_interrupt_def w task_switch_from_int_def run_resume_def Let_def saved_def
      get_slot_def on_task_def split: run_pc.split)

lemma wake_interrupt_eq: "inum \<noteq> 0x28 \<Longrightarrow> scheduler_from_interrupt inum s =
    (if active_task s = None then s else wake_tasks (push_bit (snd (int_word inum)) 1) (fst (int_word inum)) s)"
  by (auto simp: scheduler_from_interrupt_def Let_def split: option.split prod.split)

lemma wait_ok:
  assumes ok: "sched_ok s" and p: "pc s = Switched i n"
  shows "sched_ok (wait_for_interrupts s)"
proof -
  obtain r where eq: "wait_for_interrupts s = s\<lparr>tasks := (tasks s)[i := on_task (\<lambda>t. t\<lparr>reg_save := (cpu s)\<lparr>r_eax := r, r_cs := 0x10\<rparr>\<rparr>)
      ((tasks s ! i)\<lparr>tstate := TASK_WAIT_INT\<rparr>)], active_task := Some CoreSlot, cpu := saved CoreSlot s, pc := Visit (i + 1) n\<rparr>"
    using wait_eq [OF ok p] by blast
  have i: "i < TASK_LIMIT" "active_task s = Some (ListSlot i)" using sched_okD(6) [OF ok p] by simp_all
  then have "task (tasks s ! i) \<noteq> None"
    using sched_okD(3,5) [OF ok i(1)] by (auto simp: dispatched_def)
  with i sched_okD(1-5) [OF ok] show ?thesis
    unfolding eq by (intro sched_okI) (auto simp: nth_list_update dispatched_def split: if_splits)
qed

lemma interrupt_ok:
  assumes ok: "sched_ok s"
  shows "sched_ok (scheduler_from_interrupt inum s)"
proof (cases "inum = 0x28")
  case False
  with ok show ?thesis by (simp add: wake_interrupt_eq wake_ok)
next
  case True
  obtain w b where wb: "int_word 0x28 = (w, b)" by fastforce
  let ?s = "wake_tasks (push_bit b 1) w s"
  have ok1: "sched_ok ?s" by (rule wake_ok [OF ok])
  from ok show ?thesis
  proof (cases rule: pc_cases)
    case (1 i n)
    then have "task (tasks s ! i) \<noteq> None"
      using sched_okD(3,5) [OF ok, of i] by (auto simp: dispatched_def)
    then show ?thesis
      unfolding True preempt_eq [OF ok 1(1) wb] Let_def
      using sched_okD(1-5) [OF ok1] sched_okD(4) [OF ok 1(2)] 1
      by (intro sched_okI) (auto simp: nth_list_update dispatched_def split: if_splits)
  next
    case 2
    show ?thesis
    proof (cases "active_task s = None")
      case True
      with ok \<open>inum = 0x28\<close> show ?thesis by (simp add: scheduler_from_interrupt_def)
    next
      case False
      with 2(2) have a: "active_task s = Some CoreSlot" by auto
      have "sched_ok (?s\<lparr>core_task := on_task (\<lambda>t. t\<lparr>reg_save := cpu s\<rparr>) (core_task s)\<rparr>)"
        using sched_okD [OF ok1] by (intro sched_okI) (simp_all add: dispatched_def)
      with True a show ?thesis by (simp add: core_interrupt_eq [OF 2(1) a wb ok])
    qed
  qed
qed

lemma step_ok: "sched_step s s' \<Longrightarrow> sched_ok s \<Longrightarrow> sched_ok s'"
proof (induction rule: sched_step.induct)
  case (core_enters s)
  with sched_okD [OF core_enters(2)] show ?case
    by (intro sched_okI) (auto simp: run_enter_def dispatched_def)
next
  case (works s c)
  from sched_okD [OF works] show ?case
    by (intro sched_okI) (simp_all add: dispatched_def)
qed (auto intro: visit_ok ask_ok wait_ok start_ok interrupt_ok)

lemma reachable_ok: "sched_step\<^sup>*\<^sup>* s s' \<Longrightarrow> sched_ok s \<Longrightarrow> sched_ok s'"
  by (induction rule: rtranclp_induct) (auto intro: step_ok)

lemma init_ok: "length (wait_ints core) = 4 \<Longrightarrow> sched_ok (sched_init c m core)"
  by (intro sched_okI) (auto simp: sched_init_def task_list_init_def slot_init_def dispatched_def)

section \<open>One task at a time\<close>


section \<open>The registers of a task\<close>

text \<open>What a step does to a slot that is in use and is not the active one: it keeps its task, and stays ready if it is.\<close>

lemma keeps_other:
  assumes "sched_step s s'" "sched_ok s" "i < TASK_LIMIT" "tstate (tasks s ! i) \<noteq> TASK_EMPTY" "\<not> dispatched i s" "\<not> dispatched i s'"
  shows "task (tasks s' ! i) = task (tasks s ! i) \<and> tstate (tasks s' ! i) \<noteq> TASK_EMPTY
    \<and> (tstate (tasks s ! i) = TASK_RUN \<longrightarrow> tstate (tasks s' ! i) = TASK_RUN)"
  using assms
proof (induction rule: sched_step.induct)
  case (core_enters s)
  then show ?case by (simp add: run_enter_def)
next
  case (core_visits s k n)
  with sched_okD(1) [OF core_visits(2)] show ?case
    by (auto simp: run_visit_def cmpxchg_def task_switch_def Let_def dispatched_def nth_list_update)
next
  case (task_asks s k n inum)
  obtain w b where wb: "int_word inum = (w, b)" by fastforce
  with sched_okD(6) [OF task_asks(2,1)] sched_okD(1) [OF task_asks(2)] task_asks(3-) show ?case
    by (auto simp: wake_on_interrupt_def dispatched_def nth_list_update)
next
  case (task_waits s k n)
  then obtain r where "wait_for_interrupts s = s\<lparr>tasks := (tasks s)[k := on_task (\<lambda>t. t\<lparr>reg_save := (cpu s)\<lparr>r_eax := r, r_cs := 0x10\<rparr>\<rparr>)
      ((tasks s ! k)\<lparr>tstate := TASK_WAIT_INT\<rparr>)], active_task := Some CoreSlot, cpu := saved CoreSlot s, pc := Visit (k + 1) n\<rparr>"
    using wait_eq by blast
  with sched_okD(6) [OF task_waits(2,1)] sched_okD(1) [OF task_waits(2)] task_waits(3-) show ?case
    by (auto simp: dispatched_def nth_list_update)
next
  case (starts s base eflags entry param)
  show ?case
  proof (rule start_cases [of base eflags entry param s])
    fix k t m
    assume "k < length (tasks s)" "tstate (tasks s ! k) = TASK_EMPTY"
      "sched_start base eflags entry param s = s\<lparr>tasks := (tasks s)[k := \<lparr>task = Some t, tstate = TASK_RUN\<rparr>], stacks := m\<rparr>"
    moreover from this(2) have "i \<noteq> k" using starts(3) by auto
    ultimately show ?thesis using starts(3) by simp
  qed (use starts in simp)
next
  case (interrupted s inum)
  have len: "i < length (tasks s)" using sched_okD(1) [OF interrupted(1)] interrupted(2) by simp
  have woken: "task (tasks (wake_tasks k w s) ! i) = task (tasks s ! i)
      \<and> tstate (tasks (wake_tasks k w s) ! i) \<noteq> TASK_EMPTY
      \<and> (tstate (tasks s ! i) = TASK_RUN \<longrightarrow> tstate (tasks (wake_tasks k w s) ! i) = TASK_RUN)" for k w
    using interrupted(3) len by (auto simp: wake_tasks_nth)
  show ?case
  proof (cases "inum = 0x28")
    case False
    then show ?thesis using woken interrupted(3) by (simp add: wake_interrupt_eq)
  next
    case True
    obtain w b where wb: "int_word 0x28 = (w, b)" by fastforce
    from interrupted(1) show ?thesis
    proof (cases rule: pc_cases)
      case (1 k n)
      with interrupted(4) have "k \<noteq> i" by (auto simp: dispatched_def)
      with woken show ?thesis unfolding True preempt_eq [OF interrupted(1) 1(1) wb] Let_def by simp
    next
      case 2
      then consider "active_task s = None" | "active_task s = Some CoreSlot" by auto
      then show ?thesis
      proof cases
        case 1
        with interrupted(3) show ?thesis by (simp add: scheduler_from_interrupt_def)
      next
        case a: 2
        from woken show ?thesis
          unfolding True core_interrupt_eq [OF 2(1) a wb interrupted(1)] by simp
      qed
    qed
  qed
qed simp

text \<open>Losing and getting the processor.\<close>

lemma leaves:
  assumes s: "sched_step s s'" and ok: "sched_ok s" and d: "dispatched i s" "\<not> dispatched i s'"
  shows "tstate (tasks s' ! i) \<noteq> TASK_EMPTY \<and> (saved (ListSlot i) s' = cpu s
    \<or> (\<exists>r. saved (ListSlot i) s' = (cpu s)\<lparr>r_eax := r, r_cs := 0x10\<rparr>))"
proof -
  obtain n where p: "pc s = Switched i n" "i < TASK_LIMIT"
    using ok d(1) by (cases rule: pc_cases) (auto simp: dispatched_def)
  then have t: "task (tasks s ! i) \<noteq> None" "i < length (tasks s)"
    using sched_okD(3,5) [OF ok, of i] sched_okD(1) [OF ok] d(1) by auto
  from s ok d p t show ?thesis
  proof (induction rule: sched_step.induct)
    case (task_waits s k n')
    then have [simp]: "k = i" by simp
    from wait_eq [OF task_waits(2,5)] task_waits(7,8) show ?case
      by (auto simp: saved_def get_slot_def)
  next
    case (starts s base eflags entry param)
    then show ?case by (cases rule: start_cases [of base eflags entry param s]) (simp_all add: dispatched_def)
  next
    case (interrupted s inum)
    show ?case
    proof (cases "inum = 0x28")
      case False
      with interrupted(2,3) show ?thesis by (auto simp: wake_interrupt_eq dispatched_def split: if_splits)
    next
      case True
      obtain w b where wb: "int_word 0x28 = (w, b)" by fastforce
      show ?thesis
        unfolding True preempt_eq [OF interrupted(1,4) wb] Let_def
        using interrupted(6,7) by (auto simp: saved_def get_slot_def)
    qed
  qed (auto simp: dispatched_def wake_on_interrupt_def Let_def run_enter_def split: prod.splits option.splits)
qed

lemma gets:
  assumes s: "sched_step s s'" and ok: "sched_ok s" and d: "\<not> dispatched i s" "dispatched i s'"
  shows "cpu s' = saved (ListSlot i) s"
  using s ok d
proof (induction rule: sched_step.induct)
  case (core_visits s k n)
  with sched_okD(1) [OF core_visits(2)] show ?case
    by (auto simp: run_visit_def cmpxchg_def task_switch_def Let_def dispatched_def saved_def get_slot_def nth_list_update
        split: if_splits)
next
  case (task_waits s k n)
  with wait_eq [OF task_waits(2,1)] show ?case by (auto simp: dispatched_def)
next
  case (starts s base eflags entry param)
  then show ?case by (cases rule: start_cases [of base eflags entry param s]) (simp_all add: dispatched_def)
next
  case (interrupted s inum)
  then show ?case
    by (auto simp: scheduler_from_interrupt_def dispatched_def Let_def task_switch_from_int_def run_resume_def
        split: option.splits prod.splits if_splits run_pc.splits)
qed (auto simp: dispatched_def wake_on_interrupt_def Let_def run_enter_def split: prod.splits option.splits)


section \<open>Every ready task gets its turn\<close>

text \<open>A step inside a pass over the slots: the loop has not come to its end.\<close>

definition in_pass :: "scheduler \<Rightarrow> scheduler \<Rightarrow> bool" where
  "in_pass a b \<longleftrightarrow> sched_step a b \<and> (case pc a of Visit k n \<Rightarrow> k < 32 | Switched k n \<Rightarrow> True | Returned \<Rightarrow> False)"

lemma pc_interrupt: "sched_ok s \<Longrightarrow> pc (scheduler_from_interrupt inum s) = pc s
    \<or> (\<exists>k n. pc s = Switched k n \<and> pc (scheduler_from_interrupt inum s) = Visit (k + 1) n)"
  by (auto simp: scheduler_from_interrupt_def Let_def task_switch_from_int_def run_resume_def
      split: option.split prod.split run_pc.split)

lemma pc_start [simp]: "pc (sched_start base eflags entry param s) = pc s"
  by (rule start_cases [of base eflags entry param s]) simp_all

lemma pc_ask [simp]: "pc (wake_on_interrupt inum s) = pc s"
  by (simp add: wake_on_interrupt_def split: option.split prod.split)

lemma pc_step:
  assumes "in_pass a b" and ok: "sched_ok a"
  shows "pc b = pc a \<or> (\<exists>k n. k < 32 \<and> pc a = Visit k n \<and> pc b = Switched k (n + 1))
    \<or> (\<exists>k n. k < 32 \<and> pc a = Visit k n \<and> tstate (tasks a ! k) \<noteq> TASK_RUN \<and> pc b = Visit (k + 1) n)
    \<or> (\<exists>k n. pc a = Switched k n \<and> pc b = Visit (k + 1) n)"
proof -
  have st: "sched_step a b" and p: "case pc a of Visit k n \<Rightarrow> k < 32 | Switched k n \<Rightarrow> True | Returned \<Rightarrow> False"
    using assms(1) by (simp_all add: in_pass_def)
  from st ok p show ?thesis
  proof (induction rule: sched_step.induct)
    case (core_visits s k n)
    then show ?case
      by (auto simp: run_visit_def TASK_LIMIT_def cmpxchg_def task_switch_def Let_def)
  next
    case (task_waits s k n)
    with wait_eq [OF task_waits(2,1)] show ?case by auto
  next
    case (interrupted s inum)
    with pc_interrupt [OF interrupted(1), of inum] show ?case by blast
  qed simp_all
qed

text \<open>C34 A task that is ready when the loop has not yet passed its slot is given the processor before the loop comes to the end
  of the pass, whatever the tasks and the interrupts do in between.\<close>

theorem no_ready_skipped:
  assumes reach: "sched_step\<^sup>*\<^sup>* (sched_init c m core) s" "length (wait_ints core) = 4"
    and ready: "pc s = Visit k n" "k \<le> i" "i < 32" "tstate (tasks s ! i) = TASK_RUN"
    and pass: "in_pass\<^sup>*\<^sup>* s t" "pc t = Visit 32 n'"
  shows "\<exists>u. in_pass\<^sup>*\<^sup>* s u \<and> active_task u = Some (ListSlot i) \<and> in_pass\<^sup>*\<^sup>* u t"
proof -
  have ok: "sched_ok s" by (rule reachable_ok [OF reach(1) init_ok [OF reach(2)]])
  let ?pos = "\<lambda>q. case q of Visit k n \<Rightarrow> k \<le> i | Switched k n \<Rightarrow> k < i | Returned \<Rightarrow> False"
  have i: "i < TASK_LIMIT" using ready(3) by (simp add: TASK_LIMIT_def)
  from pass(1) have "sched_ok t \<and> ((\<exists>u. in_pass\<^sup>*\<^sup>* s u \<and> active_task u = Some (ListSlot i) \<and> in_pass\<^sup>*\<^sup>* u t)
      \<or> (\<not> dispatched i t \<and> tstate (tasks t ! i) = TASK_RUN \<and> ?pos (pc t)))"
  proof (induction rule: rtranclp_induct)
    case base
    have "\<not> dispatched i s" using sched_okD(5) [OF ok i] ready(4) by simp
    with ok ready show ?case by simp
  next
    case (step a b)
    have st: "sched_step a b" and okb: "sched_ok b"
      using step(2,3) step_ok by (auto simp: in_pass_def)
    show ?case
    proof (cases "(\<exists>u. in_pass\<^sup>*\<^sup>* s u \<and> active_task u = Some (ListSlot i) \<and> in_pass\<^sup>*\<^sup>* u a)")
      case True
      with step(2) okb show ?thesis by (meson rtranclp.rtrancl_into_rtrancl)
    next
      case False
      with step(3) have a: "sched_ok a" "\<not> dispatched i a" "tstate (tasks a ! i) = TASK_RUN" "?pos (pc a)" by auto
      show ?thesis
      proof (cases "dispatched i b")
        case True
        with step(1,2) okb show ?thesis
          by (metis dispatched_def rtranclp.rtrancl_into_rtrancl rtranclp.rtrancl_refl)
      next
        case nb: False
        have "?pos (pc b)"
          using pc_step [OF step(2) a(1)] a(3,4) sched_okD(6) [OF okb] nb by (fastforce simp: dispatched_def le_less)
        with keeps_other [OF st a(1) i _ a(2) nb] a(3) nb okb show ?thesis by simp
      qed
    qed
  qed
  with pass(2) ready(3) show ?thesis by auto
qed

section \<open>Waiting for interrupts\<close>

definition asked :: "nat \<Rightarrow> scheduler \<Rightarrow> u8 \<Rightarrow> bool" where
  "asked i s inum \<longleftrightarrow> bit (wait_ints (the (task (tasks s ! i))) ! fst (int_word inum)) (snd (int_word inum))"

lemma int_word_div: "inum < 0x80 \<Longrightarrow> int_word inum = (unat inum div 32, unat inum mod 32)"
proof -
  assume lt: "inum < 0x80"
  then have n: "unat inum < 128" by (simp add: word_less_nat_alt)
  have sub: "unat (inum - c) = unat inum - unat c" if "c \<le> inum" for c
    using that by (rule unat_sub)
  have split: "unat inum div 32 = q \<and> unat inum mod 32 = r" if "unat inum = 32 * q + r" "r < 32" for q r
    using that by simp
  consider "unat inum < 32" | "32 \<le> unat inum" "unat inum < 64" | "64 \<le> unat inum" "unat inum < 96" | "96 \<le> unat inum"
    by linarith
  then show ?thesis
  proof cases
    case 1
    with split [of 0 "unat inum"] show ?thesis by (simp add: int_word_def word_le_nat_alt)
  next
    case 2
    with split [of 1 "unat inum - 32"] sub [of "0x20"] show ?thesis by (simp add: int_word_def word_le_nat_alt)
  next
    case 3
    with split [of 2 "unat inum - 64"] sub [of "0x40"] show ?thesis by (simp add: int_word_def word_le_nat_alt)
  next
    case 4
    with split [of 3 "unat inum - 96"] sub [of "0x60"] n show ?thesis by (simp add: int_word_def word_le_nat_alt)
  qed
qed

lemma int_word_inj: "j < 0x80 \<Longrightarrow> k < 0x80 \<Longrightarrow> int_word j = int_word k \<longleftrightarrow> j = k"
  by (auto simp: int_word_div) (metis div_mod_decomp word_unat_eq_iff)


text \<open>C35 A task that asks for interrupt \<open>k\<close> and waits is made ready by interrupt \<open>j\<close> exactly when \<open>j\<close> is \<open>k\<close> or one it had
  asked for before; otherwise it goes on waiting.\<close>

theorem interrupt_wakes_registered:
  assumes reach: "sched_step\<^sup>*\<^sup>* (sched_init c m core) s" "length (wait_ints core) = 4"
    and run: "active_task s = Some (ListSlot i)" and jk: "j < 0x80" "k < 0x80"
  shows "tstate (tasks (scheduler_from_interrupt j (wait_for_interrupts (wake_on_interrupt k s))) ! i)
    = (if j = k \<or> asked i s j then TASK_RUN else TASK_WAIT_INT)"
proof -
  have ok: "sched_ok s" by (rule reachable_ok [OF reach(1) init_ok [OF reach(2)]])
  obtain n where p: "pc s = Switched i n" "i < TASK_LIMIT"
    using ok run by (cases rule: pc_cases) auto
  then obtain t where t: "task (tasks s ! i) = Some t" "i < length (tasks s)" "length (wait_ints t) = 4"
    using sched_okD(3,4,5) [OF ok, of i] sched_okD(1) [OF ok] run by (fastforce simp: dispatched_def)
  define s1 where "s1 = wake_on_interrupt k s"
  obtain wk bk where wk: "int_word k = (wk, bk)" by fastforce
  obtain wj bj where wj: "int_word j = (wj, bj)" by fastforce
  have lt: "wk < 4" "wj < 4" "bk < 32" "bj < 32"
    using wk wj jk by (auto simp: int_word_div word_less_nat_alt)
  have s1: "sched_ok s1" "pc s1 = Switched i n" "task (tasks s1 ! i) = Some (t\<lparr>wait_ints := (wait_ints t)[wk := wait_ints t ! wk OR push_bit bk 1]\<rparr>)"
    using ask_ok [OF ok, of k] p t run by (simp_all add: s1_def) (simp_all add: wake_on_interrupt_def wk)
  obtain r where w: "wait_for_interrupts s1 = s1\<lparr>tasks := (tasks s1)[i := on_task (\<lambda>t. t\<lparr>reg_save := (cpu s1)\<lparr>r_eax := r, r_cs := 0x10\<rparr>\<rparr>)
      ((tasks s1 ! i)\<lparr>tstate := TASK_WAIT_INT\<rparr>)], active_task := Some CoreSlot, cpu := saved CoreSlot s1, pc := Visit (i + 1) n\<rparr>"
    using wait_eq [OF s1(1,2)] by blast
  let ?s2 = "wait_for_interrupts s1"
  have ok2: "sched_ok ?s2" by (rule wait_ok [OF s1(1,2)])
  have len: "i < length (tasks s1)" using sched_okD(1) [OF s1(1)] p by simp
  have s2: "active_task ?s2 = Some CoreSlot" "\<forall>k n'. pc ?s2 \<noteq> Switched k n'" "i < length (tasks ?s2)"
      "tstate (tasks ?s2 ! i) = TASK_WAIT_INT"
      "wait_ints (the (task (tasks ?s2 ! i))) = (wait_ints t)[wk := wait_ints t ! wk OR push_bit bk 1]"
    using len s1(3) by (simp_all add: w)
  have tst: "tstate (tasks (scheduler_from_interrupt j ?s2) ! i) = tstate (tasks (wake_tasks (push_bit bj 1) wj ?s2) ! i)"
    using wj core_interrupt_eq [OF s2(2,1) _ ok2] s2(1) by (cases "j = 0x28") (simp_all add: wake_interrupt_eq)
  have "(x :: u32) AND push_bit bj 1 \<noteq> 0 \<longleftrightarrow> bit x bj" for x
    by (simp add: bit_iff_and_push_bit_not_eq_0)
  then have "tstate (tasks (wake_tasks (push_bit bj 1) wj ?s2) ! i) =
      (if bit ((wait_ints t)[wk := wait_ints t ! wk OR push_bit bk 1] ! wj) bj then TASK_RUN else TASK_WAIT_INT)"
    using s2(3-5) by (simp add: wake_tasks_nth)
  moreover have "bit ((wait_ints t)[wk := wait_ints t ! wk OR push_bit bk 1] ! wj) bj \<longleftrightarrow>
      (wk = wj \<and> bk = bj) \<or> bit (wait_ints t ! wj) bj"
    using lt t(3) by (auto simp: nth_list_update bit_simps)
  moreover have "(wk = wj \<and> bk = bj) \<longleftrightarrow> j = k"
    using int_word_inj [OF jk] wk wj by auto
  ultimately show ?thesis
    using tst t(1) wj by (simp add: asked_def s1_def)
qed

text \<open>An interrupt that comes before the task waits is not remembered for it.\<close>

lemma interrupt_before_wait_lost:
  assumes ok: "sched_ok s" and p: "pc s = Switched i n" and j: "j \<noteq> 0x28"
  shows "tstate (tasks (wait_for_interrupts (scheduler_from_interrupt j s)) ! i) = TASK_WAIT_INT"
proof -
  have i: "i < length (tasks s)" using sched_okD(1,6) [OF ok] p by auto
  have "pc (scheduler_from_interrupt j s) = Switched i n"
    using p j by (simp add: wake_interrupt_eq)
  moreover have "i < length (tasks (scheduler_from_interrupt j s))"
    using i j by (simp add: wake_interrupt_eq)
  ultimately show ?thesis
    using wait_eq [OF interrupt_ok [OF ok, of j]] by fastforce
qed

text \<open>When a task itself calls \<^verbatim>\<open>run\<close>, as the command line does, its registers are put over those of the core task.\<close>

lemma nested_run_loses_core:
  assumes ok: "sched_ok s" and p: "pc s = Switched i n" and k: "k < 32" "tstate (tasks s ! k) = TASK_RUN"
  shows "\<exists>r. saved CoreSlot (run_visit (s\<lparr>pc := Visit k 0\<rparr>)) = (cpu s)\<lparr>r_eax := r, r_cs := 0x10\<rparr>"
  using k sched_okD(2) [OF ok]
  by (auto simp: run_visit_def TASK_LIMIT_def cmpxchg_def task_switch_def Let_def saved_def get_slot_def)

section \<open>A run\<close>

definition demo :: scheduler where
  "demo = sched_start 0x4000 0x202 0x1000 7 (sched_init zero_regs (\<lambda>_. 0) (task_init 0))"

lemma demo_reached: "sched_step\<^sup>*\<^sup>* (sched_init zero_regs (\<lambda>_. 0) (task_init 0)) (run_visit (run_enter demo))"
proof -
  have "sched_step (sched_init zero_regs (\<lambda>_. 0) (task_init 0)) demo"
    unfolding demo_def by (rule starts)
  moreover have "pc demo = Returned" by (simp add: demo_def sched_init_def)
  then have "sched_step demo (run_enter demo)" by (rule core_enters)
  moreover have "sched_step (run_enter demo) (run_visit (run_enter demo))"
    by (rule core_visits [of _ 0 0]) (simp add: run_enter_def)
  ultimately show ?thesis by (meson rtranclp.rtrancl_into_rtrancl rtranclp.rtrancl_refl)
qed

lemma demo_free: "get_free (replicate TASK_LIMIT slot_init) = (Some 0, (replicate TASK_LIMIT slot_init)[0 := slot_init\<lparr>tstate := TASK_NEW\<rparr>])"
proof -
  have "first_index (\<lambda>s. tstate s = TASK_EMPTY) (replicate (Suc n) slot_init) = Some 0" for n
    by (simp add: slot_init_def)
  from this [of 31] show ?thesis
    by (simp add: get_free_def TASK_LIMIT_def slot_init_def del: replicate_Suc)
qed

lemma demo_tasks: "length (tasks demo) = 32" "tstate (tasks demo ! 0) = TASK_RUN" "pc demo = Returned" "active_task demo = None"
    "\<And>k. 0 < k \<Longrightarrow> k < 32 \<Longrightarrow> tstate (tasks demo ! k) = TASK_EMPTY"
  by (simp_all add: demo_def sched_start_def sched_init_def task_list_init_def demo_free split: prod.split)
    (simp_all add: TASK_LIMIT_def slot_init_def)

lemma demo_dispatched: "active_task (run_visit (run_enter demo)) = Some (ListSlot 0)" "pc (run_visit (run_enter demo)) = Switched 0 1"
  by (simp_all add: run_visit_def run_enter_def demo_tasks cmpxchg_def TASK_LIMIT_def task_switch_def Let_def)


lemma interrupt_wakes_registered_witness:
  "tstate (tasks (scheduler_from_interrupt 0x21 (wait_for_interrupts (wake_on_interrupt 0x21 (run_visit (run_enter demo))))) ! 0) = TASK_RUN"
  using interrupt_wakes_registered [OF demo_reached _ demo_dispatched(1), of "0x21" "0x21"] by (simp add: task_init_def)

text \<open>A pass over slots that are not ready.\<close>

lemma skip_idle:
  assumes "k \<le> 32" "\<forall>j. k \<le> j \<and> j < 32 \<longrightarrow> tstate (tasks s ! j) \<noteq> TASK_RUN" "pc s = Visit k n"
  shows "(\<lambda>a b. in_pass a b \<and> active_task b = active_task s)\<^sup>*\<^sup>* s (s\<lparr>pc := Visit 32 n\<rparr>)"
  using assms
proof (induction "32 - k" arbitrary: k s)
  case 0
  then have "s\<lparr>pc := Visit 32 n\<rparr> = s" by simp
  then show ?case by simp
next
  case (Suc m)
  let ?t = "s\<lparr>pc := Visit (k + 1) n\<rparr>"
  have k: "k < 32" using Suc.hyps(2) by simp
  then have "run_visit s = ?t"
    using Suc.prems by (simp add: run_visit_def TASK_LIMIT_def cmpxchg_def)
  then have "in_pass s ?t"
    using core_visits [OF Suc.prems(3)] Suc.prems(3) k by (simp add: in_pass_def)
  moreover have "(\<lambda>a b. in_pass a b \<and> active_task b = active_task ?t)\<^sup>*\<^sup>* ?t (?t\<lparr>pc := Visit 32 n\<rparr>)"
    using Suc k by (intro Suc.hyps(1) [of "k + 1"]) auto
  ultimately show ?case
    by (auto intro: converse_rtranclp_into_rtranclp)
qed

text \<open>The first task is switched to, loses the processor to the timer, and the pass goes on to its end.\<close>

definition demo_run :: scheduler where
  "demo_run = run_visit (run_enter demo)"

definition demo_out :: scheduler where
  "demo_out = scheduler_from_interrupt 0x28 demo_run"

lemma demo_ok: "sched_ok demo_run"
  using reachable_ok [OF demo_reached init_ok] by (simp add: demo_run_def task_init_def)

lemma demo_empty: "0 < k \<Longrightarrow> k < 32 \<Longrightarrow> tstate (tasks demo_run ! k) = TASK_EMPTY"
  by (simp add: demo_run_def run_visit_def run_enter_def demo_tasks cmpxchg_def TASK_LIMIT_def task_switch_def Let_def)

lemma demo_preempted:
  "pc demo_out = Visit 1 1" "active_task demo_out = Some CoreSlot" "tstate (tasks demo_out ! 0) = TASK_RUN"
  "0 < k \<Longrightarrow> k < 32 \<Longrightarrow> tstate (tasks demo_out ! k) = TASK_EMPTY"
proof -
  obtain w b where wb: "int_word 0x28 = (w, b)" by fastforce
  have p: "pc demo_run = Switched 0 1" by (simp add: demo_run_def demo_dispatched)
  have len: "length (tasks demo_run) = 32"
    using sched_okD(1) [OF demo_ok] by (simp add: TASK_LIMIT_def)
  show "pc demo_out = Visit 1 1" "active_task demo_out = Some CoreSlot" "tstate (tasks demo_out ! 0) = TASK_RUN"
    "0 < k \<Longrightarrow> k < 32 \<Longrightarrow> tstate (tasks demo_out ! k) = TASK_EMPTY"
    unfolding demo_out_def preempt_eq [OF demo_ok p wb] Let_def
    using len demo_empty [of k] by (simp_all add: wake_tasks_nth)
qed

lemma demo_pass: "(\<lambda>a b. in_pass a b \<and> active_task b = Some CoreSlot)\<^sup>*\<^sup>* demo_out (demo_out\<lparr>pc := Visit 32 1\<rparr>)"
  using skip_idle [of 1 demo_out 1] demo_preempted by simp

lemma demo_steps: "sched_step (run_enter demo) demo_run" "sched_step demo_run demo_out"
  unfolding demo_run_def demo_out_def by (rule core_visits [of _ 0 0], simp add: run_enter_def) (rule interrupted)

lemma no_ready_skipped_witness: "\<exists>u. in_pass\<^sup>*\<^sup>* (run_enter demo) u \<and> active_task u = Some (ListSlot 0)"
proof -
  have "in_pass (run_enter demo) demo_run" "in_pass demo_run demo_out"
    using demo_steps demo_dispatched(2) by (simp_all add: in_pass_def demo_run_def) (simp add: run_enter_def)
  moreover have "in_pass\<^sup>*\<^sup>* demo_out (demo_out\<lparr>pc := Visit 32 1\<rparr>)"
    using demo_pass by (rule rtranclp_mono [THEN predicate2D, rotated]) blast
  ultimately have pass: "in_pass\<^sup>*\<^sup>* (run_enter demo) (demo_out\<lparr>pc := Visit 32 1\<rparr>)"
    by (meson converse_rtranclp_into_rtranclp)
  have "sched_step (sched_init zero_regs (\<lambda>_. 0) (task_init 0)) demo"
    unfolding demo_def by (rule starts)
  then have reach: "sched_step\<^sup>*\<^sup>* (sched_init zero_regs (\<lambda>_. 0) (task_init 0)) (run_enter demo)"
    using core_enters [of demo] demo_tasks(3) by (meson rtranclp.rtrancl_into_rtrancl rtranclp.rtrancl_refl)
  have "length (wait_ints (task_init 0)) = 4" "pc (run_enter demo) = Visit 0 0" "tstate (tasks (run_enter demo) ! 0) = TASK_RUN"
    by (simp_all add: task_init_def run_enter_def demo_tasks)
  with no_ready_skipped [OF reach _ _ _ _ _ pass, of 0 0 0 1] show ?thesis by auto
qed

end
