(* ===== verification/Console.thy ===== *)
theory Console
  imports Prelude "HOL-Library.Monad_Syntax"
begin

text \<open>
  The consoles (\<^verbatim>\<open>textio.hpp\<close>, \<^verbatim>\<open>vterm.cpp\<close>, \<^verbatim>\<open>dev/vgatext.cpp\<close>): the interface of a text output, the virtual
  terminal with its buffer of cells, and the text mode of the display. A write outside the buffer of the
  terminal is \<^const>\<open>None\<close>.
\<close>

section \<open>The interface\<close>

text \<open>What the printing functions use of a console: characters and new lines, which keep its invariant.\<close>

locale text_io =
  fixes ok :: "'s \<Rightarrow> bool"
    and tputc :: "char \<Rightarrow> 's \<Rightarrow> 's option"
    and tnext :: "'s \<Rightarrow> 's option"
  assumes putc_law: "ok s \<Longrightarrow> \<exists>s'. tputc c s = Some s' \<and> ok s'"
    and next_law: "ok s \<Longrightarrow> \<exists>s'. tnext s = Some s' \<and> ok s'"

definition newline :: char where
  "newline = CHR 0x0A"

text \<open>A text sent to a console, as \<^verbatim>\<open>iputc\<close> does it for one that is not the selected one.\<close>

fun emit :: "(char \<Rightarrow> 's \<Rightarrow> 's option) \<Rightarrow> ('s \<Rightarrow> 's option) \<Rightarrow> string \<Rightarrow> 's \<Rightarrow> 's option" where
  "emit pc nl [] s = Some s"
| "emit pc nl (c # cs) s = do { s \<leftarrow> (if c = newline then nl s else pc c s); emit pc nl cs s }"

context text_io
begin

lemma emit_law: "ok s \<Longrightarrow> \<exists>s'. emit tputc tnext cs s = Some s' \<and> ok s'"
proof (induction cs arbitrary: s)
  case (Cons c cs)
  obtain s1 where "(if c = newline then tnext s else tputc c s) = Some s1" "ok s1"
    using putc_law [OF Cons.prems, of c] next_law [OF Cons.prems] by (cases "c = newline") auto
  with Cons.IH [of s1] show ?case by simp
qed simp

end

section \<open>The virtual terminal\<close>

record vtcell =
  code :: u32
  attr :: u32

definition ATTR_UPDATE :: u32 where
  "ATTR_UPDATE = 0x80000000"

record vterm =
  col :: u16
  row :: u16
  buffer :: "vtcell list"
  height :: u16
  width :: u16
  cattr :: u32

text \<open>An assignment to a cell of the buffer.\<close>

definition put_cell :: "nat \<Rightarrow> vtcell \<Rightarrow> vterm \<Rightarrow> vterm option" where
  "put_cell i c v = (if i < length (buffer v) then Some (v\<lparr>buffer := (buffer v)[i := c]\<rparr>) else None)"

definition vt_reset :: "vterm \<Rightarrow> vterm option" where
  "vt_reset v =
     (let v = v\<lparr>col := 0, row := 0, cattr := 0\<rparr>;
          sz = unat (width v) * unat (height v)
      in if sz \<le> length (buffer v)
         then Some (v\<lparr>buffer := replicate sz \<lparr>code = 32, attr = ATTR_UPDATE\<rparr> @ drop sz (buffer v)\<rparr>) else None)"

definition vt_new :: "u16 \<Rightarrow> u16 \<Rightarrow> vtcell list \<Rightarrow> vterm option" where
  "vt_new w h cells = vt_reset \<lparr>col = 0, row = 0, buffer = take (unat w * unat h) cells, height = h, width = w, cattr = 0\<rparr>"

definition clamp :: "u16 \<Rightarrow> u16 \<Rightarrow> u16" where
  "clamp x lim = (if x \<ge> lim then lim - 1 else x)"

definition vt_setto :: "u16 \<Rightarrow> u16 \<Rightarrow> vterm \<Rightarrow> vterm" where
  "vt_setto x y v = v\<lparr>col := clamp x (width v), row := clamp y (height v)\<rparr>"

definition vt_setattr :: "u32 \<Rightarrow> vterm \<Rightarrow> vterm" where
  "vt_setattr a v = v\<lparr>cattr := a AND 0x00ffffff\<rparr>"

text \<open>The scrolling loop: \<open>p\<close> is the cell that \<^verbatim>\<open>pr\<close> points to, a line above that of \<^verbatim>\<open>cr\<close>.\<close>

definition scroll_cell :: "nat \<Rightarrow> nat \<Rightarrow> vtcell list \<Rightarrow> vtcell list" where
  "scroll_cell w p b =
     (let pr = b ! p; cr = b ! (p + w);
          cr = (if code pr \<noteq> code cr \<or> (attr pr XOR attr cr) AND 0xffffff \<noteq> 0
                then cr\<lparr>attr := attr cr OR ATTR_UPDATE\<rparr> else cr)
      in b[p + w := cr, p := cr])"

definition scroll :: "nat \<Rightarrow> nat \<Rightarrow> u32 \<Rightarrow> vtcell list \<Rightarrow> vtcell list" where
  "scroll w h a b =
     (let b = fold (scroll_cell w) [0 ..< (h - 1) * w] b
      in fold (\<lambda>p b. b[p := \<lparr>code = 32, attr = a OR ATTR_UPDATE\<rparr>]) [(h - 1) * w ..< (h - 1) * w + w] b)"

definition vt_nextline :: "vterm \<Rightarrow> vterm option" where
  "vt_nextline v =
     (let v = v\<lparr>col := 0, row := row v + 1\<rparr>;
          w = unat (width v); h = unat (height v)
      in if row v \<ge> height v then
           (if h * w \<le> length (buffer v)
            then Some (v\<lparr>row := height v - 1, buffer := scroll w h (cattr v) (buffer v)\<rparr>) else None)
         else Some v)"

definition cell_index :: "u16 \<Rightarrow> u16 \<Rightarrow> vterm \<Rightarrow> nat" where
  "cell_index x y v = unat ((ucast x :: u32) + ucast (width v) * ucast y)"

definition vt_cell :: "char \<Rightarrow> vterm \<Rightarrow> vtcell" where
  "vt_cell c v = \<lparr>code = of_char c, attr = cattr v OR ATTR_UPDATE\<rparr>"

definition vt_putc :: "char \<Rightarrow> vterm \<Rightarrow> vterm option" where
  "vt_putc c v = do {
     v \<leftarrow> put_cell (cell_index (col v) (row v) v) (vt_cell c v) v;
     let v = v\<lparr>col := col v + 1\<rparr>;
     if col v \<ge> width v then vt_nextline (v\<lparr>col := 0\<rparr>) else Some v
   }"

definition vt_putat :: "u16 \<Rightarrow> u16 \<Rightarrow> char \<Rightarrow> vterm \<Rightarrow> vterm option" where
  "vt_putat x y c v = put_cell (cell_index (clamp x (width v)) (clamp y (height v)) v) (vt_cell c v) v"

section \<open>The text mode of the display\<close>

record vgatext =
  vcol :: u16
  vrow :: u16
  vheight :: u16
  vwidth :: u16
  attrib :: u16
  vgabase :: "nat \<Rightarrow> u16"

definition vga_new :: "(nat \<Rightarrow> u16) \<Rightarrow> vgatext" where
  "vga_new m = \<lparr>vcol = 0, vrow = 0, vheight = 25, vwidth = 80, attrib = 0x0c00, vgabase = m\<rparr>"

text \<open>The index is computed as an \<^verbatim>\<open>int\<close>; the character is a signed one.\<close>

definition vga_store :: "u16 \<Rightarrow> u16 \<Rightarrow> char \<Rightarrow> vgatext \<Rightarrow> vgatext" where
  "vga_store c r ch v =
     v\<lparr>vgabase := (vgabase v)(unat c + unat (vwidth v) * unat r := attrib v OR scast (of_char ch :: u8))\<rparr>"

definition vga_nextline :: "vgatext \<Rightarrow> vgatext" where
  "vga_nextline v =
     (let v = v\<lparr>vcol := 0, vrow := vrow v + 1\<rparr>
      in if vrow v \<ge> vheight v then v\<lparr>vrow := 0\<rparr> else v)"

definition vga_putc :: "char \<Rightarrow> vgatext \<Rightarrow> vgatext" where
  "vga_putc c v =
     (let v = vga_store (vcol v) (vrow v) c v;
          v = v\<lparr>vcol := vcol v + 1\<rparr>
      in if vcol v \<ge> vwidth v then vga_nextline v else v)"

definition vga_setfg :: "u8 \<Rightarrow> vgatext \<Rightarrow> vgatext" where
  "vga_setfg clr v = v\<lparr>attrib := (attrib v AND 0xf000) OR push_bit 8 (ucast (clr AND 0xf))\<rparr>"

definition vga_setbg :: "u8 \<Rightarrow> vgatext \<Rightarrow> vgatext" where
  "vga_setbg clr v = v\<lparr>attrib := (attrib v AND 0xf00) OR push_bit 12 (ucast (clr AND 0xf))\<rparr>"

definition vga_setattrib :: "u8 \<Rightarrow> vgatext \<Rightarrow> vgatext" where
  "vga_setattrib clr v = v\<lparr>attrib := push_bit 8 (ucast clr)\<rparr>"

definition vga_setto :: "u16 \<Rightarrow> u16 \<Rightarrow> vgatext \<Rightarrow> vgatext" where
  "vga_setto c r v = v\<lparr>vrow := min r (vheight v), vcol := min c (vwidth v)\<rparr>"

definition vga_putat :: "u16 \<Rightarrow> u16 \<Rightarrow> char \<Rightarrow> vgatext \<Rightarrow> vgatext" where
  "vga_putat c r ch v = vga_store (min c (vwidth v)) (min r (vheight v)) ch v"

section \<open>The terminal keeps to its buffer\<close>

definition vt_ok :: "vterm \<Rightarrow> bool" where
  "vt_ok v \<longleftrightarrow> col v < width v \<and> row v < height v \<and> length (buffer v) = unat (width v) * unat (height v)"

lemma length_scroll_cell [simp]: "length (scroll_cell w p b) = length b"
  by (simp add: scroll_cell_def Let_def)

lemma length_fold_scroll [simp]: "length (fold (scroll_cell w) ps b) = length b"
  by (induction ps arbitrary: b) simp_all

lemma length_scroll [simp]: "length (scroll w h a b) = length b"
proof -
  have "length (fold (\<lambda>p b. b[p := f p]) ps b) = length b" for ps and f :: "nat \<Rightarrow> vtcell" and b
    by (induction ps arbitrary: b) simp_all
  then show ?thesis by (simp add: scroll_def)
qed

lemma cell_index_nat: "unat (cell :: u16) < unat w \<Longrightarrow> unat r < h \<Longrightarrow> w = width v \<Longrightarrow>
    cell_index cell r v = unat cell + unat w * unat r"
proof -
  assume a: "unat cell < unat w" "unat r < h" "w = width v"
  have b: "unat cell < 2 ^ 16" "unat w < 2 ^ 16" "unat r < 2 ^ 16"
    using unsigned_less [of cell] unsigned_less [of w] unsigned_less [of r] by simp_all
  have "unat w * unat r \<le> (2 ^ 16 - 1) * (2 ^ 16 - 1)"
    using b by (intro mult_le_mono) simp_all
  with a b show ?thesis
    by (simp add: cell_index_def unat_add_no_wrap unat_mult_no_wrap unat_ucast_up)
qed

lemma vt_index: "vt_ok v \<Longrightarrow> cell_index (col v) (row v) v = unat (col v) + unat (width v) * unat (row v)
    \<and> unat (col v) + unat (width v) * unat (row v) < length (buffer v)"
proof -
  assume ok: "vt_ok v"
  then have lt: "unat (col v) < unat (width v)" "unat (row v) < unat (height v)"
    and len: "length (buffer v) = unat (width v) * unat (height v)"
    by (simp_all add: vt_ok_def word_less_nat_alt)
  have "unat (width v) * (unat (row v) + 1) \<le> unat (width v) * unat (height v)"
    using lt(2) by (intro mult_le_mono) simp_all
  with lt len cell_index_nat [OF lt(1,2) refl] show ?thesis by simp
qed

lemma vt_nextline_ok: "width v \<noteq> 0 \<Longrightarrow> row v < height v \<Longrightarrow> length (buffer v) = unat (width v) * unat (height v) \<Longrightarrow>
    \<exists>v'. vt_nextline v = Some v' \<and> vt_ok v' \<and> width v' = width v \<and> height v' = height v \<and> cattr v' = cattr v"
proof -
  assume w: "width v \<noteq> 0" "row v < height v" "length (buffer v) = unat (width v) * unat (height v)"
  have "(0 :: u16) < width v" using w(1) by (simp add: word_neq_0_conv)
  moreover have "height v - 1 < height v"
    using w(2) by (cases "height v = 0") (auto simp: word_less_nat_alt unat_sub_no_wrap word_le_nat_alt unat_gt_0)
  ultimately show ?thesis
    using w by (auto simp: vt_nextline_def Let_def vt_ok_def mult.commute not_le)
qed

lemma vt_putc_ok: "vt_ok v \<Longrightarrow> \<exists>v'. vt_putc c v = Some v' \<and> vt_ok v' \<and> width v' = width v \<and> height v' = height v \<and> cattr v' = cattr v"
proof -
  assume ok: "vt_ok v"
  let ?p = "v\<lparr>buffer := (buffer v)[cell_index (col v) (row v) v := vt_cell c v], col := col v + 1\<rparr>"
  have e: "vt_putc c v = (if col v + 1 \<ge> width v then vt_nextline (?p\<lparr>col := 0\<rparr>) else Some ?p)"
    using vt_index [OF ok] by (simp add: vt_putc_def put_cell_def Let_def)
  have w: "width (?p\<lparr>col := 0\<rparr>) \<noteq> 0"
    using ok by (auto simp: vt_ok_def)
  show ?thesis
  proof (cases "col v + 1 \<ge> width v")
    case True
    with vt_nextline_ok [OF w] ok e show ?thesis by (auto simp: vt_ok_def)
  next
    case False
    with ok e show ?thesis by (auto simp: vt_ok_def)
  qed
qed

lemma vt_setto_ok: "vt_ok v \<Longrightarrow> vt_ok (vt_setto x y v)"
proof -
  have "clamp a n < n" if "b < n" for a b n :: u16
    using that by (cases "n = 0") (auto simp: clamp_def word_less_nat_alt unat_sub_no_wrap word_le_nat_alt unat_gt_0)
  then show "vt_ok v \<Longrightarrow> vt_ok (vt_setto x y v)"
    by (auto simp: vt_ok_def vt_setto_def)
qed

interpretation vterm: text_io vt_ok vt_putc vt_nextline
proof
  fix v c
  assume ok: "vt_ok v"
  show "\<exists>s'. vt_putc c v = Some s' \<and> vt_ok s'" using vt_putc_ok [OF ok] by blast
  have "width v \<noteq> 0" using ok by (auto simp: vt_ok_def)
  from vt_nextline_ok [OF this] ok show "\<exists>s'. vt_nextline v = Some s' \<and> vt_ok s'"
    by (auto simp: vt_ok_def)
qed

section \<open>The text mode stays on its screen\<close>

definition vga_ok :: "(nat \<Rightarrow> u16) \<Rightarrow> vgatext \<Rightarrow> bool" where
  "vga_ok m v \<longleftrightarrow> vwidth v = 80 \<and> vheight v = 25 \<and> vcol v < 80 \<and> vrow v < 25 \<and> (\<forall>i \<ge> 2000. vgabase v i = m i)"

lemma vga_store_ok: "vga_ok m v \<Longrightarrow> vga_ok m (vga_store (vcol v) (vrow v) c v)"
proof -
  assume ok: "vga_ok m v"
  then have "unat (vcol v) < 80" "unat (vrow v) < 25"
    by (simp_all add: vga_ok_def word_less_nat_alt)
  then have "unat (vcol v) + 80 * unat (vrow v) < 2000" by simp
  with ok show ?thesis by (auto simp: vga_ok_def vga_store_def)
qed

lemma vga_nextline_ok: "vga_ok m (v\<lparr>vcol := 0\<rparr>) \<Longrightarrow> vga_ok m (vga_nextline v)"
  by (auto simp: vga_ok_def vga_nextline_def Let_def)

lemma vga_putc_ok: "vga_ok m v \<Longrightarrow> vga_ok m (vga_putc c v)"
proof -
  assume ok: "vga_ok m v"
  then have s: "vga_ok m (vga_store (vcol v) (vrow v) c v)" by (rule vga_store_ok)
  moreover have "vcol (vga_store (vcol v) (vrow v) c v) = vcol v" by (simp add: vga_store_def)
  ultimately show ?thesis
    by (auto simp: vga_putc_def Let_def not_le intro!: vga_nextline_ok) (auto simp: vga_ok_def)
qed

interpretation vgatext: text_io "vga_ok m" "\<lambda>c v. Some (vga_putc c v)" "\<lambda>v. Some (vga_nextline v)"
proof
  fix v :: vgatext and c
  assume ok: "vga_ok m v"
  show "\<exists>s'. Some (vga_putc c v) = Some s' \<and> vga_ok m s'" using vga_putc_ok [OF ok] by simp
  have "vga_ok m (v\<lparr>vcol := 0\<rparr>)" using ok by (simp add: vga_ok_def)
  from vga_nextline_ok [OF this] show "\<exists>s'. Some (vga_nextline v) = Some s' \<and> vga_ok m s'" by simp
qed

text \<open>The clamping of \<^verbatim>\<open>setto\<close> lets the cursor leave the screen by one column and one row.\<close>

lemma vga_setto_outside:
  assumes "vwidth v = 80" "vheight v = 25"
  shows "vgabase (vga_putc c (vga_setto 80 25 v)) 2080 = attrib v OR scast (of_char c :: u8)"
  using assms by (simp add: vga_putc_def vga_setto_def vga_store_def vga_nextline_def Let_def)

section \<open>Scrolling\<close>

definition same_glyph :: "vtcell \<Rightarrow> vtcell \<Rightarrow> bool" where
  "same_glyph c d \<longleftrightarrow> code c = code d \<and> attr c AND 0xffffff = attr d AND 0xffffff"

definition flagged :: "vtcell \<Rightarrow> bool" where
  "flagged c \<longleftrightarrow> attr c AND ATTR_UPDATE \<noteq> 0"

lemma flagged_bit: "flagged c \<longleftrightarrow> bit (attr c) 31"
proof -
  have "ATTR_UPDATE = push_bit 31 1" by (simp add: ATTR_UPDATE_def)
  then show ?thesis by (simp add: flagged_def bit_iff_and_push_bit_not_eq_0)
qed

lemma attr_update_simps [simp]:
  "(x OR ATTR_UPDATE) AND 0xffffff = x AND (0xffffff :: u32)" "(x OR ATTR_UPDATE) AND ATTR_UPDATE = ATTR_UPDATE"
  by (simp_all add: ATTR_UPDATE_def bit.conj_disj_distrib2)

lemma xor_mask_zero: "(x XOR y) AND m = 0 \<longleftrightarrow> x AND m = y AND (m :: u32)"
proof
  assume z: "(x XOR y) AND m = 0"
  show "x AND m = y AND m"
  proof (rule bit_word_eqI)
    fix n assume "n < LENGTH(32)"
    from z have "bit ((x XOR y) AND m) n = False" by simp
    then show "bit (x AND m) n = bit (y AND m) n" by (auto simp: bit_simps)
  qed
next
  assume "x AND m = y AND m"
  then show "(x XOR y) AND m = 0"
    by (metis bit.conj_xor_distrib2 xor_self_eq)
qed

text \<open>The cell that a line above gets.\<close>

definition moved :: "vtcell \<Rightarrow> vtcell \<Rightarrow> vtcell" where
  "moved pr cr = (if same_glyph pr cr then cr else cr\<lparr>attr := attr cr OR ATTR_UPDATE\<rparr>)"

lemma moved_glyph [simp]: "same_glyph (moved pr cr) d \<longleftrightarrow> same_glyph cr d" "same_glyph d (moved pr cr) \<longleftrightarrow> same_glyph d cr"
  by (auto simp: moved_def same_glyph_def)

lemma same_glyph_refl [simp]: "same_glyph c c"
  by (simp add: same_glyph_def)

lemma same_glyph_trans: "same_glyph c d \<Longrightarrow> same_glyph d e \<Longrightarrow> same_glyph c e"
  by (simp add: same_glyph_def)

lemma same_glyph_sym: "same_glyph c d \<longleftrightarrow> same_glyph d c"
  by (auto simp: same_glyph_def)

lemma scroll_cell_moved: "scroll_cell w p b = b[p + w := moved (b ! p) (b ! (p + w)), p := moved (b ! p) (b ! (p + w))]"
  by (auto simp: scroll_cell_def moved_def same_glyph_def Let_def xor_mask_zero)

lemma fold_scroll:
  assumes "0 < w" "n + w \<le> length b"
  shows "(\<forall>i < n. fold (scroll_cell w) [0 ..< n] b ! i = moved (b ! i) (b ! (i + w)))
    \<and> (\<forall>i. n \<le> i \<and> i < n + w \<longrightarrow> same_glyph (fold (scroll_cell w) [0 ..< n] b ! i) (b ! i))
    \<and> (\<forall>i \<ge> n + w. fold (scroll_cell w) [0 ..< n] b ! i = b ! i)"
  using assms(2)
proof (induction n)
  case 0
  then show ?case by simp
next
  case (Suc n)
  let ?b = "fold (scroll_cell w) [0 ..< n] b"
  have IH: "\<forall>i < n. ?b ! i = moved (b ! i) (b ! (i + w))"
      "\<forall>i. n \<le> i \<and> i < n + w \<longrightarrow> same_glyph (?b ! i) (b ! i)" "\<forall>i \<ge> n + w. ?b ! i = b ! i"
    using Suc by auto
  have step: "fold (scroll_cell w) [0 ..< Suc n] b = ?b[n + w := moved (?b ! n) (b ! (n + w)), n := moved (?b ! n) (b ! (n + w))]"
    using IH(3) by (simp add: scroll_cell_moved)
  have "moved (?b ! n) (b ! (n + w)) = moved (b ! n) (b ! (n + w))"
    using IH(2) assms(1) by (auto simp: moved_def same_glyph_def)
  with step have step: "fold (scroll_cell w) [0 ..< Suc n] b = ?b[n + w := moved (b ! n) (b ! (n + w)), n := moved (b ! n) (b ! (n + w))]"
    by simp
  have len: "n + w < length ?b" using Suc.prems by simp
  show ?case
    unfolding step using IH len assms(1) by (auto simp: nth_list_update less_Suc_eq)
qed

lemma fold_blank: "fold (\<lambda>p b. b[p := c]) [m ..< n] b ! i = (if m \<le> i \<and> i < n \<and> i < length b then c else b ! i)"
proof (induction n)
  case (Suc n)
  have len: "length (fold (\<lambda>p b. b[p := c]) ps b) = length b" for ps
    by (induction ps arbitrary: b) simp_all
  show ?case
  proof (cases "m \<le> n \<and> n < length b")
    case True
    with Suc len show ?thesis by (auto simp: nth_list_update)
  next
    case False
    with Suc len show ?thesis by (cases "m \<le> n") (auto simp: list_update_beyond)
  qed
qed simp

text \<open>Scrolling moves every line up by one and blanks the last.\<close>

lemma scroll_nth:
  assumes "0 < w" "0 < h" "length b = h * w" "i < h * w"
  shows "scroll w h a b ! i =
    (if i < (h - 1) * w then moved (b ! i) (b ! (i + w)) else \<lparr>code = 32, attr = a OR ATTR_UPDATE\<rparr>)"
proof -
  obtain h' where h: "h = Suc h'" using assms(2) by (cases h) simp_all
  let ?n = "h' * w"
  have "?n + w = length b" using assms(3) h by simp
  with fold_scroll [of w ?n b] assms(1,4) h show ?thesis
    by (auto simp: scroll_def fold_blank add.commute)
qed
end
