(* ===== verification/Framebuf.thy ===== *)
theory Framebuf
  imports Console
begin

text \<open>
  The graphical console (\<^verbatim>\<open>dev/fbtext.cpp\<close>): characters drawn as blocks of 6 by 8 pixels of four bytes, and
  the drawing of the cells of a virtual terminal that have changed. The video memory is a map of bytes;
  the bitmap of the font (\<^verbatim>\<open>ec-font.inc\<close>) is data and an argument.
\<close>

record uvec2 =
  vx :: u32
  vy :: u32

definition uvec_minus :: "uvec2 \<Rightarrow> uvec2 \<Rightarrow> uvec2" where
  "uvec_minus a b = \<lparr>vx = vx a - vx b, vy = vy a - vy b\<rparr>"

definition uvec_shr :: "uvec2 \<Rightarrow> nat \<Rightarrow> uvec2" where
  "uvec_shr a n = \<lparr>vx = drop_bit n (vx a), vy = drop_bit n (vy a)\<rparr>"

definition center_align :: "uvec2 \<Rightarrow> uvec2 \<Rightarrow> uvec2" where
  "center_align sz within = uvec_minus (uvec_shr within 1) (uvec_shr sz 1)"

record fbtext =
  fbb :: u32
  pitch :: u32
  bitmode :: u32
  fcol :: u32
  frow :: u32
  hlim :: u32
  vlim :: u32
  fgcolor :: u32
  bgcolor :: u32
  origin :: uvec2

definition ec_font_w :: u32 where "ec_font_w = 6"
definition ec_font_h :: u32 where "ec_font_h = 8"

definition ufgcolors :: "u32 \<Rightarrow> u32" where
  "ufgcolors i = (if i = 0 then 0x00888888 else if i = 1 then 0x00ee4444 else 0)"

definition ubgcolors :: "u32 \<Rightarrow> u32" where
  "ubgcolors i = (if i = 0 then 0x00000022 else 0)"

text \<open>The constructor leaves \<^verbatim>\<open>bitmode\<close> as it is for other depths.\<close>

definition fb_new :: "u32 \<Rightarrow> u32 \<Rightarrow> u8 \<Rightarrow> fbtext \<Rightarrow> fbtext" where
  "fb_new vm p bits f =
     f\<lparr>fbb := vm, pitch := p,
       bitmode := (if bits = 32 then 0 else if bits = 24 then 1 else if bits = 16 then 2 else if bits = 15 then 3
                   else if bits = 8 then 4 else bitmode f),
       fcol := 0, frow := 0, hlim := 90, vlim := 90, fgcolor := ufgcolors 0, bgcolor := ubgcolors 0,
       origin := \<lparr>vx = 0, vy = 0\<rparr>\<rparr>"

definition fb_setoffset :: "u32 \<Rightarrow> u32 \<Rightarrow> fbtext \<Rightarrow> fbtext" where
  "fb_setoffset x y f = f\<lparr>origin := \<lparr>vx = x, vy = y\<rparr>\<rparr>"

definition fb_resetpointer :: "u32 \<Rightarrow> fbtext \<Rightarrow> fbtext" where
  "fb_resetpointer vm f = f\<lparr>fbb := vm\<rparr>"

text \<open>The pixels of one line of a character, from bit 1 of the byte of the font on.\<close>

fun disp_pixels :: "fbtext \<Rightarrow> nat \<Rightarrow> u32 \<Rightarrow> u32 \<Rightarrow> bytes \<Rightarrow> bytes" where
  "disp_pixels f 0 ev cp m = m"
| "disp_pixels f (Suc ix) ev cp m =
     disp_pixels f ix (drop_bit 1 ev) (cp + 4) (st32 m (unat cp) (if ev AND 1 \<noteq> 0 then fgcolor f else bgcolor f))"

definition dispchar32 :: "(u8 \<Rightarrow> u32 \<Rightarrow> u8) \<Rightarrow> fbtext \<Rightarrow> u8 \<Rightarrow> u32 \<Rightarrow> u32 \<Rightarrow> bytes \<Rightarrow> bytes" where
  "dispchar32 font f c lp scanline m = disp_pixels f (unat ec_font_w) (drop_bit 1 (ucast (font c scanline))) lp m"

text \<open>One cell of a line of pixels; the state is the console with its colours, the attribute they are for,
  the pointer, the index of the cell and the memory.\<close>

type_synonym cell_state = "fbtext \<times> u32 \<times> u32 \<times> nat \<times> bytes"

definition render_cell :: "(u8 \<Rightarrow> u32 \<Rightarrow> u8) \<Rightarrow> vtcell list \<Rightarrow> u32 \<Rightarrow> cell_state \<Rightarrow> cell_state" where
  "render_cell font buf scanline st =
     (let (f, lastatt, lcp, ro, m) = st;
          att = attr (buf ! ro);
          (f, lastatt, m) =
            (if att AND ATTR_UPDATE \<noteq> 0 then
               (let (f, lastatt) =
                  (if att AND 0xff \<noteq> lastatt
                   then (f\<lparr>fgcolor := ufgcolors (att AND 0xf), bgcolor := ubgcolors (drop_bit 4 att AND 0xf)\<rparr>, att AND 0xff)
                   else (f, lastatt))
                in (f, lastatt, dispchar32 font f (ucast (code (buf ! ro))) lcp scanline m))
             else (f, lastatt, m))
      in (f, lastatt, lcp + 4 * ec_font_w, ro + 1, m))"

record render =
  rfb :: fbtext
  lastatt :: u32
  rlp :: u32
  scanline :: u32
  roline :: nat
  rbuf :: "vtcell list"
  rmem :: bytes

definition clear_flags :: "nat \<Rightarrow> nat \<Rightarrow> vtcell list \<Rightarrow> vtcell list" where
  "clear_flags ro w buf = fold (\<lambda>i b. b[i := (b ! i)\<lparr>attr := attr (b ! i) AND NOT ATTR_UPDATE\<rparr>]) [ro ..< ro + w] buf"

definition render_line :: "(u8 \<Rightarrow> u32 \<Rightarrow> u8) \<Rightarrow> u32 \<Rightarrow> nat \<Rightarrow> render \<Rightarrow> render" where
  "render_line font xco w r =
     (let (f, la, lcp, ro, m) = (render_cell font (rbuf r) (scanline r) ^^ w) (rfb r, lastatt r, rlp r + xco, roline r, rmem r);
          r = r\<lparr>rfb := f, lastatt := la, rmem := m, rlp := rlp r + pitch f, scanline := scanline r + 1\<rparr>
      in if scanline r = ec_font_h
         then r\<lparr>rbuf := clear_flags (roline r) w (rbuf r), scanline := 0, roline := roline r + w\<rparr>
         else r)"

definition render_vc :: "(u8 \<Rightarrow> u32 \<Rightarrow> u8) \<Rightarrow> fbtext \<Rightarrow> vterm \<Rightarrow> bytes \<Rightarrow> (fbtext \<times> vterm \<times> bytes) option" where
  "render_vc font f vc m =
     (if unat (width vc) * unat (height vc) > length (buffer vc) then None
      else
        (let xco = vx (origin f) * 4;
             fheight = ucast (height vc) * ec_font_h;
             lp = fbb f + pitch f * vy (origin f);
             r = (render_line font xco (unat (width vc)) ^^ unat fheight)
                   \<lparr>rfb = f, lastatt = 0x100, rlp = lp, scanline = 0, roline = 0, rbuf = buffer vc, rmem = m\<rparr>
         in Some (rfb r, vc\<lparr>buffer := rbuf r\<rparr>, rmem r)))"

definition fb_setto :: "u16 \<Rightarrow> u16 \<Rightarrow> fbtext \<Rightarrow> fbtext" where
  "fb_setto c r f =
     f\<lparr>frow := (if ucast r > vlim f then vlim f else ucast r), fcol := (if ucast c > hlim f then hlim f else ucast c)\<rparr>"

definition fb_nextline :: "fbtext \<Rightarrow> fbtext" where
  "fb_nextline f =
     (let f = f\<lparr>fcol := 0, frow := frow f + 1\<rparr>
      in if frow f \<ge> vlim f then f\<lparr>frow := 0\<rparr> else f)"

text \<open>\<^verbatim>\<open>putat\<close>, eight lines of pixels; \<open>y\<close> counts them.\<close>

definition fb_putat :: "(u8 \<Rightarrow> u32 \<Rightarrow> u8) \<Rightarrow> u16 \<Rightarrow> u16 \<Rightarrow> char \<Rightarrow> fbtext \<Rightarrow> bytes \<Rightarrow> bytes" where
  "fb_putat font c r ch f m =
     (let lp = fbb f + pitch f * (vy (origin f) + ucast r * ec_font_h) + (vx (origin f) * 4 + 4 * ec_font_w * ucast c)
      in fold (\<lambda>y m. dispchar32 font f (of_char ch) (lp + of_nat y * pitch f) (of_nat y) m) [0 ..< unat ec_font_h] m)"

definition fb_putc :: "(u8 \<Rightarrow> u32 \<Rightarrow> u8) \<Rightarrow> char \<Rightarrow> fbtext \<times> bytes \<Rightarrow> fbtext \<times> bytes" where
  "fb_putc font c fm =
     (let (f, m) = fm;
          m = fb_putat font (ucast (fcol f)) (ucast (frow f)) c f m;
          f = f\<lparr>fcol := fcol f + 1\<rparr>
      in (if fcol f \<ge> hlim f then fb_nextline f else f, m))"

section \<open>What is drawn\<close>

lemma st32_other: "i < a \<or> a + 4 \<le> i \<Longrightarrow> st32 m a v i = m i"
  by (auto simp: st32_def st16_apply)

lemma ld32_cong: "(\<And>j. j < 4 \<Longrightarrow> m (a + j) = m' (a + j)) \<Longrightarrow> ld32 m a = ld32 m' a"
proof -
  assume e: "\<And>j. j < 4 \<Longrightarrow> m (a + j) = m' (a + j)"
  from e [of 0] e [of 1] e [of 2] e [of 3] show ?thesis
    by (simp add: ld32_def ld16_def numeral_2_eq_2 numeral_3_eq_3)
qed

lemma disp_pixels_spec:
  assumes "unat cp + 4 * n < 2 ^ 32"
  shows "(\<forall>a. a < unat cp \<or> unat cp + 4 * n \<le> a \<longrightarrow> disp_pixels f n ev cp m a = m a)
    \<and> (\<forall>k < n. ld32 (disp_pixels f n ev cp m) (unat cp + 4 * k) = (if bit ev k then fgcolor f else bgcolor f))"
  using assms
proof (induction n arbitrary: ev cp m)
  case 0
  then show ?case by simp
next
  case (Suc n)
  let ?m = "st32 m (unat cp) (if ev AND 1 \<noteq> 0 then fgcolor f else bgcolor f)"
  have cp4: "unat (cp + 4) = unat cp + 4"
    using Suc.prems by (subst unat_add_no_wrap) simp_all
  note IH = Suc.IH [of "cp + 4" "drop_bit 1 ev" ?m, unfolded cp4]
  have out: "\<forall>a. a < unat cp \<or> unat cp + 4 * Suc n \<le> a \<longrightarrow> disp_pixels f (Suc n) ev cp m a = m a"
    using IH Suc.prems by (auto simp: st32_other split del: if_split)
  have first: "ld32 (disp_pixels f (Suc n) ev cp m) (unat cp) = (if bit ev 0 then fgcolor f else bgcolor f)"
  proof -
    have "ld32 (disp_pixels f (Suc n) ev cp m) (unat cp) = ld32 ?m (unat cp)"
      using IH Suc.prems by (intro ld32_cong) simp
    then show ?thesis by (simp add: bit_iff_and_drop_bit_eq_1 and_one_eq odd_iff_mod_2_eq_one)
  qed
  show ?case
  proof (intro conjI allI impI)
    fix k assume k: "k < Suc n"
    show "ld32 (disp_pixels f (Suc n) ev cp m) (unat cp + 4 * k) = (if bit ev k then fgcolor f else bgcolor f)"
    proof (cases k)
      case 0
      with first show ?thesis by simp
    next
      case (Suc j)
      with IH k Suc.prems show ?thesis by (simp add: bit_simps add.assoc)
    qed
  qed (use out in blast)
qed

definition pixel_color :: "(u8 \<Rightarrow> u32 \<Rightarrow> u8) \<Rightarrow> vtcell \<Rightarrow> nat \<Rightarrow> nat \<Rightarrow> u32" where
  "pixel_color font c s k =
     (if bit (font (ucast (code c)) (of_nat s)) (k + 1) then ufgcolors (attr c AND 0xf) else ubgcolors (drop_bit 4 (attr c) AND 0xf))"

text \<open>The colours that are set are those of the last attribute.\<close>

definition colors_of :: "fbtext \<Rightarrow> u32 \<Rightarrow> bool" where
  "colors_of f la \<longleftrightarrow> la = 0x100 \<or> (fgcolor f = ufgcolors (la AND 0xf) \<and> bgcolor f = ubgcolors (drop_bit 4 la AND 0xf))"

lemma attr_colors [simp]: "(att AND 0xff) AND 0xf = att AND (0xf :: u32)" "drop_bit 4 (att AND 0xff) AND 0xf = drop_bit 4 att AND (0xf :: u32)"
  "att AND 0xff \<noteq> (0x100 :: u32)"
proof -
  show "(att AND 0xff) AND 0xf = att AND 0xf"
    by (simp add: and.assoc)
  show "drop_bit 4 (att AND 0xff) AND 0xf = drop_bit 4 att AND 0xf"
    by (simp add: drop_bit_and and.assoc)
  show "att AND 0xff \<noteq> 0x100"
  proof
    assume "att AND 0xff = 0x100"
    then have "bit (att AND 0xff) 8 = bit (0x100 :: u32) 8" by simp
    then show False by (simp add: bit_simps)
  qed
qed

lemma render_cell_spec:
  assumes "unat lcp + 24 < 2 ^ 32" and c: "colors_of f la"
    and r: "render_cell font buf (of_nat s) (f, la, lcp, ro, m) = (f', la', lcp', ro', m')"
  shows "colors_of f' la' \<and> (\<exists>x y. f' = f\<lparr>fgcolor := x, bgcolor := y\<rparr>) \<and> lcp' = lcp + 24 \<and> ro' = ro + 1
    \<and> (\<forall>a. a < unat lcp \<or> unat lcp + 24 \<le> a \<longrightarrow> m' a = m a)
    \<and> (\<forall>k < 6. ld32 m' (unat lcp + 4 * k) = (if flagged (buf ! ro) then pixel_color font (buf ! ro) s k else ld32 m (unat lcp + 4 * k)))"
proof (cases "flagged (buf ! ro)")
  case False
  have "\<exists>x y. f = f\<lparr>fgcolor := x, bgcolor := y\<rparr>"
    by (intro exI [of _ "fgcolor f"] exI [of _ "bgcolor f"]) simp
  with r c False show ?thesis
    by (auto simp: render_cell_def flagged_def Let_def ec_font_w_def)
next
  case True
  let ?att = "attr (buf ! ro)"
  define g where "g = (if ?att AND 0xff \<noteq> la then f\<lparr>fgcolor := ufgcolors (?att AND 0xf), bgcolor := ubgcolors (drop_bit 4 ?att AND 0xf)\<rparr> else f)"
  have g: "fgcolor g = ufgcolors (?att AND 0xf) \<and> bgcolor g = ubgcolors (drop_bit 4 ?att AND 0xf)"
    using c attr_colors [of ?att] by (auto simp: g_def colors_of_def)
  have eq: "f' = g" "la' = ?att AND 0xff" "lcp' = lcp + 24" "ro' = ro + 1"
      "m' = disp_pixels g 6 (drop_bit 1 (ucast (font (ucast (code (buf ! ro))) (of_nat s)))) lcp m"
    using r True by (auto simp: render_cell_def flagged_def Let_def g_def dispchar32_def ec_font_w_def split: if_splits)
  have gx: "\<exists>x y. g = f\<lparr>fgcolor := x, bgcolor := y\<rparr>"
  proof (cases "?att AND 0xff = la")
    case True
    then have "g = f\<lparr>fgcolor := fgcolor f, bgcolor := bgcolor f\<rparr>" by (simp add: g_def)
    then show ?thesis by blast
  qed (auto simp: g_def)
  have bits: "bit (drop_bit (Suc 0) (ucast (b :: u8)) :: u32) k = bit b (Suc k)" if "k < 6" for b k
    using that by (auto simp: bit_simps)
  from disp_pixels_spec [of lcp 6 g "drop_bit 1 (ucast (font (ucast (code (buf ! ro))) (of_nat s)))" m] assms(1) g gx True
  show ?thesis
    unfolding eq by (simp add: bits pixel_color_def colors_of_def)
qed

lemma render_cells_spec:
  assumes "unat lcp + 24 * w < 2 ^ 32" and c: "colors_of f la"
    and r: "(render_cell font buf (of_nat s) ^^ w) (f, la, lcp, ro, m) = (f', la', lcp', ro', m')"
  shows "colors_of f' la' \<and> (\<exists>x y. f' = f\<lparr>fgcolor := x, bgcolor := y\<rparr>) \<and> unat lcp' = unat lcp + 24 * w \<and> ro' = ro + w
    \<and> (\<forall>a. a < unat lcp \<or> unat lcp + 24 * w \<le> a \<longrightarrow> m' a = m a)
    \<and> (\<forall>x < w. \<forall>k < 6. ld32 m' (unat lcp + 24 * x + 4 * k) =
        (if flagged (buf ! (ro + x)) then pixel_color font (buf ! (ro + x)) s k else ld32 m (unat lcp + 24 * x + 4 * k)))"
  using assms(1) r
proof (induction w arbitrary: f' la' lcp' ro' m')
  case 0
  have "\<exists>x y. f = f\<lparr>fgcolor := x, bgcolor := y\<rparr>"
    by (intro exI [of _ "fgcolor f"] exI [of _ "bgcolor f"]) simp
  with 0 c show ?case by auto
next
  case (Suc w)
  obtain f1 la1 lcp1 ro1 m1 where s1: "(render_cell font buf (of_nat s) ^^ w) (f, la, lcp, ro, m) = (f1, la1, lcp1, ro1, m1)"
    by (metis prod_cases5)
  from Suc.IH [OF _ s1] Suc.prems(1) have IH: "colors_of f1 la1" "\<exists>x y. f1 = f\<lparr>fgcolor := x, bgcolor := y\<rparr>"
      "unat lcp1 = unat lcp + 24 * w" "ro1 = ro + w" "\<forall>a. a < unat lcp \<or> unat lcp + 24 * w \<le> a \<longrightarrow> m1 a = m a"
      "\<forall>x < w. \<forall>k < 6. ld32 m1 (unat lcp + 24 * x + 4 * k) =
        (if flagged (buf ! (ro + x)) then pixel_color font (buf ! (ro + x)) s k else ld32 m (unat lcp + 24 * x + 4 * k))"
    by simp_all
  have s2: "render_cell font buf (of_nat s) (f1, la1, lcp1, ro1, m1) = (f', la', lcp', ro', m')"
    using Suc.prems(2) s1 by simp
  have lt: "unat lcp1 + 24 < 2 ^ 32" using Suc.prems(1) IH(3) by simp
  note spec = render_cell_spec [OF lt IH(1) s2]
  have lcp': "unat lcp' = unat lcp + 24 * Suc w"
    using spec IH(3) lt by (simp add: unat_add_no_wrap)
  obtain x1 y1 x2 y2 where "f1 = f\<lparr>fgcolor := x1, bgcolor := y1\<rparr>" "f' = f1\<lparr>fgcolor := x2, bgcolor := y2\<rparr>"
    using spec IH(2) by blast
  then have "f' = f\<lparr>fgcolor := x2, bgcolor := y2\<rparr>" by simp
  then have fs: "\<exists>x y. f' = f\<lparr>fgcolor := x, bgcolor := y\<rparr>" by blast
  have out: "m' a = m a" if "a < unat lcp \<or> unat lcp + 24 * Suc w \<le> a" for a
    using that spec IH(3,5) by auto
  have px: "ld32 m' (unat lcp + 24 * x + 4 * k) =
        (if flagged (buf ! (ro + x)) then pixel_color font (buf ! (ro + x)) s k else ld32 m (unat lcp + 24 * x + 4 * k))"
    if x: "x < Suc w" and k: "k < 6" for x k
  proof (cases "x = w")
    case True
    have "ld32 m1 (unat lcp1 + 4 * k) = ld32 m (unat lcp1 + 4 * k)"
      using IH(3,5) by (intro ld32_cong) simp
    with spec k True IH(3,4) show ?thesis by simp
  next
    case False
    with x have lt: "x < w" by simp
    have "24 * x + 4 * k + 4 \<le> 24 * w" using lt k by linarith
    then have "ld32 m' (unat lcp + 24 * x + 4 * k) = ld32 m1 (unat lcp + 24 * x + 4 * k)"
      using spec IH(3) by (intro ld32_cong) simp
    with IH(6) lt k show ?thesis by simp
  qed
  from spec lcp' fs out px IH(4) show ?case by simp
qed

lemma clear_flags_nth:
  "clear_flags ro w buf ! i = (if ro \<le> i \<and> i < ro + w \<and> i < length buf then (buf ! i)\<lparr>attr := attr (buf ! i) AND NOT ATTR_UPDATE\<rparr> else buf ! i)
    \<and> length (clear_flags ro w buf) = length buf"
proof -
  let ?f = "\<lambda>i b. b[i := (b ! i)\<lparr>attr := attr (b ! i) AND NOT ATTR_UPDATE\<rparr>]"
  have len: "length (fold ?f ps b) = length b" for ps and b :: "vtcell list"
    by (induction ps arbitrary: b) simp_all
  have "fold ?f [ro ..< ro + k] buf ! i =
      (if ro \<le> i \<and> i < ro + k \<and> i < length buf then (buf ! i)\<lparr>attr := attr (buf ! i) AND NOT ATTR_UPDATE\<rparr> else buf ! i)" for k
  proof (induction k arbitrary: i)
    case (Suc k)
    then show ?case
      by (cases "ro + k < length buf") (auto simp: len nth_list_update list_update_beyond less_Suc_eq)
  qed auto
  with len show ?thesis by (simp add: clear_flags_def)
qed

definition cleared :: "vtcell \<Rightarrow> vtcell" where
  "cleared c = c\<lparr>attr := attr c AND NOT ATTR_UPDATE\<rparr>"

text \<open>Where the drawing of a terminal of \<open>h\<close> lines stays in the video memory.\<close>

definition fits_screen :: "fbtext \<Rightarrow> nat \<Rightarrow> nat \<Rightarrow> bool" where
  "fits_screen f w h \<longleftrightarrow> unat (fbb f) + unat (pitch f) * (unat (vy (origin f)) + 8 * h) < 2 ^ 32
     \<and> 4 * unat (vx (origin f)) + 24 * w \<le> unat (pitch f)"

definition pixel_at :: "fbtext \<Rightarrow> nat \<Rightarrow> nat \<Rightarrow> nat \<Rightarrow> nat" where
  "pixel_at f y x k = unat (fbb f) + unat (pitch f) * (unat (vy (origin f)) + y) + 4 * unat (vx (origin f)) + 24 * x + 4 * k"

lemma line_after: "y < Y \<Longrightarrow> x < w \<Longrightarrow> k < 6 \<Longrightarrow> 4 * unat (vx (origin f)) + 24 * w \<le> unat (pitch f) \<Longrightarrow>
    pixel_at f y x k + 4 \<le> unat (fbb f) + unat (pitch f) * (unat (vy (origin f)) + Y)"
proof -
  assume a: "y < Y" "x < w" "k < 6" "4 * unat (vx (origin f)) + 24 * w \<le> unat (pitch f)"
  have "unat (pitch f) * (unat (vy (origin f)) + Suc y) \<le> unat (pitch f) * (unat (vy (origin f)) + Y)"
    using a(1) by (intro mult_le_mono) simp_all
  moreover have "24 * x + 4 * k + 4 \<le> 24 * w" using a(2,3) by linarith
  ultimately show ?thesis using a(4) by (simp add: pixel_at_def)
qed

text \<open>The state of the drawing after \<open>Y\<close> lines of pixels.\<close>

definition drawn :: "(u8 \<Rightarrow> u32 \<Rightarrow> u8) \<Rightarrow> fbtext \<Rightarrow> nat \<Rightarrow> vtcell list \<Rightarrow> bytes \<Rightarrow> nat \<Rightarrow> render \<Rightarrow> bool" where
  "drawn font f w buf m Y r \<longleftrightarrow>
     unat (rlp r) = unat (fbb f) + unat (pitch f) * (unat (vy (origin f)) + Y) \<and> scanline r = of_nat (Y mod 8) \<and> roline r = w * (Y div 8)
     \<and> colors_of (rfb r) (lastatt r) \<and> (\<exists>x y. rfb r = f\<lparr>fgcolor := x, bgcolor := y\<rparr>) \<and> length (rbuf r) = length buf
     \<and> (\<forall>i < length buf. rbuf r ! i = (if i < w * (Y div 8) then cleared (buf ! i) else buf ! i))
     \<and> (\<forall>a. a < unat (fbb f) + unat (pitch f) * unat (vy (origin f)) \<or> unat (rlp r) \<le> a \<longrightarrow> rmem r a = m a)
     \<and> (\<forall>y < Y. \<forall>x < w. \<forall>k < 6. ld32 (rmem r) (pixel_at f y x k) =
          (if flagged (buf ! (w * (y div 8) + x)) then pixel_color font (buf ! (w * (y div 8) + x)) (y mod 8) k
           else ld32 m (pixel_at f y x k)))"

lemma drawn_step:
  assumes d: "drawn font f w buf m Y r" and fit: "fits_screen f w h" and Y: "Y < 8 * h" and len: "w * h \<le> length buf"
  shows "drawn font f w buf m (Suc Y) (render_line font (vx (origin f) * 4) w r)"
proof -
  let ?B = "unat (fbb f) + unat (pitch f) * (unat (vy (origin f)) + Y)"
  have D: "unat (rlp r) = ?B" "scanline r = of_nat (Y mod 8)" "roline r = w * (Y div 8)" "colors_of (rfb r) (lastatt r)"
      "length (rbuf r) = length buf"
      "\<And>i. i < length buf \<Longrightarrow> rbuf r ! i = (if i < w * (Y div 8) then cleared (buf ! i) else buf ! i)"
      "\<And>a. a < unat (fbb f) + unat (pitch f) * unat (vy (origin f)) \<or> ?B \<le> a \<Longrightarrow> rmem r a = m a"
      "\<And>y x k. y < Y \<Longrightarrow> x < w \<Longrightarrow> k < 6 \<Longrightarrow> ld32 (rmem r) (pixel_at f y x k) =
          (if flagged (buf ! (w * (y div 8) + x)) then pixel_color font (buf ! (w * (y div 8) + x)) (y mod 8) k
           else ld32 m (pixel_at f y x k))"
    using d unfolding drawn_def by simp_all (elim disjE; simp)
  obtain fx fy where rf: "rfb r = f\<lparr>fgcolor := fx, bgcolor := fy\<rparr>" using d by (auto simp: drawn_def)
  have P: "4 * unat (vx (origin f)) + 24 * w \<le> unat (pitch f)" using fit by (simp add: fits_screen_def)
  have BY: "?B + unat (pitch f) \<le> unat (fbb f) + unat (pitch f) * (unat (vy (origin f)) + 8 * h)"
  proof -
    have "unat (pitch f) * (unat (vy (origin f)) + Suc Y) \<le> unat (pitch f) * (unat (vy (origin f)) + 8 * h)"
      using Y by (intro mult_le_mono) simp_all
    then show ?thesis by simp
  qed
  then have lt: "?B + unat (pitch f) < 2 ^ 32" using fit by (simp add: fits_screen_def)
  have x4: "unat (vx (origin f) * 4) = 4 * unat (vx (origin f))"
    using P lt by (subst unat_mult_no_wrap) simp_all
  have lcp: "unat (rlp r + vx (origin f) * 4) = ?B + 4 * unat (vx (origin f))"
    using P lt D(1) x4 by (subst unat_add_no_wrap) simp_all
  have B0: "unat (fbb f) + unat (pitch f) * unat (vy (origin f)) \<le> ?B" by simp
  obtain f' la' lcp' ro' m' where cells: "(render_cell font (rbuf r) (scanline r) ^^ w) (rfb r, lastatt r, rlp r + vx (origin f) * 4, roline r, rmem r)
      = (f', la', lcp', ro', m')"
    by (metis prod_cases5)
  have lt24: "unat (rlp r + vx (origin f) * 4) + 24 * w < 2 ^ 32"
    using lcp P lt by simp
  note spec = render_cells_spec [OF lt24 D(4) cells [unfolded D(2)], unfolded lcp]
  obtain gx gy where f': "f' = f\<lparr>fgcolor := gx, bgcolor := gy\<rparr>"
    using spec rf by auto
  then have fs: "\<exists>x y. f' = f\<lparr>fgcolor := x, bgcolor := y\<rparr>" by blast
  have col: "colors_of f' la'" using spec by blast
  have lp': "unat (rlp r + pitch f) = ?B + unat (pitch f)"
    using lt D(1) by (subst unat_add_no_wrap) simp_all
  have mem: "m' a = m a" if "a < unat (fbb f) + unat (pitch f) * unat (vy (origin f)) \<or> ?B + unat (pitch f) \<le> a" for a
  proof -
    have "a < ?B + 4 * unat (vx (origin f)) \<or> ?B + 4 * unat (vx (origin f)) + 24 * w \<le> a"
      using that P B0 by linarith
    with spec have "m' a = rmem r a" by blast
    moreover have "a < unat (fbb f) + unat (pitch f) * unat (vy (origin f)) \<or> ?B \<le> a"
      using that by linarith
    ultimately show ?thesis using D(7) by simp
  qed
  have div8: "Y div 8 < h" using Y by simp
  have px: "ld32 m' (pixel_at f y x k) =
          (if flagged (buf ! (w * (y div 8) + x)) then pixel_color font (buf ! (w * (y div 8) + x)) (y mod 8) k
           else ld32 m (pixel_at f y x k))" if y: "y < Suc Y" and x: "x < w" and k: "k < 6" for y x k
  proof (cases "y = Y")
    case True
    have idx: "w * (Y div 8) + x < length buf"
    proof -
      have "w * (Y div 8) + x < w * Suc (Y div 8)" using x by simp
      also have "\<dots> \<le> w * h" using div8 by (intro mult_le_mono) simp_all
      finally show ?thesis using len by simp
    qed
    have "ld32 (rmem r) (pixel_at f Y x k) = ld32 m (pixel_at f Y x k)"
      using D(7) by (intro ld32_cong) (simp add: pixel_at_def)
    with spec x k D(3) D(6) [OF idx] True show ?thesis
      by (simp add: pixel_at_def)
  next
    case False
    with y have "y < Y" by simp
    moreover have "ld32 m' (pixel_at f y x k) = ld32 (rmem r) (pixel_at f y x k)"
      using spec line_after [OF \<open>y < Y\<close> x k P] by (intro ld32_cong) simp
    ultimately show ?thesis using D(8) x k by simp
  qed
  let ?r = "r\<lparr>rfb := f', lastatt := la', rmem := m', rlp := rlp r + pitch f, scanline := scanline r + 1\<rparr>"
  have line: "render_line font (vx (origin f) * 4) w r =
      (if scanline r + 1 = 8 then ?r\<lparr>rbuf := clear_flags (roline r) w (rbuf r), scanline := 0, roline := roline r + w\<rparr> else ?r)"
    by (simp add: render_line_def cells f' ec_font_h_def)
  have small: "scanline r + 1 = of_nat (Y mod 8 + 1)" using D(2) by simp
  have s8: "scanline r + 1 = 8 \<longleftrightarrow> Y mod 8 = 7"
  proof -
    have "Y mod 8 + 1 < 2 ^ 32" by (rule less_trans [of _ 10]) (simp_all add: less_Suc_eq_le)
    then have "unat (of_nat (Y mod 8 + 1) :: u32) = Y mod 8 + 1"
      by (simp only: unat_of_nat) simp
    with small show ?thesis by (simp add: word_unat_eq_iff)
  qed
  let ?L = "render_line font (vx (origin f) * 4) w r"
  have same: "rlp ?L = rlp r + pitch f" "rfb ?L = f'" "lastatt ?L = la'" "rmem ?L = m'"
    unfolding line by simp_all
  have next_row: "scanline ?L = of_nat (Suc Y mod 8) \<and> roline ?L = w * (Suc Y div 8) \<and> length (rbuf ?L) = length buf
      \<and> (\<forall>i < length buf. rbuf ?L ! i = (if i < w * (Suc Y div 8) then cleared (buf ! i) else buf ! i))"
  proof -
    define t where "t = roline r"
    have t: "w * (Y div 8) = t" using D(3) by (simp add: t_def)
    have keep: "\<And>i. i < length buf \<Longrightarrow> rbuf r ! i = (if i < t then cleared (buf ! i) else buf ! i)"
      using D(6) unfolding t .
    show ?thesis
    proof (cases "Y mod 8 = 7")
      case True
      then have q: "Suc Y mod 8 = 0" "Suc Y div 8 = Suc (Y div 8)" by (simp_all add: mod_Suc div_Suc)
      have wq: "w * (Suc Y div 8) = t + w" unfolding q mult_Suc_right t by (rule add.commute)
      have eq: "?L = ?r\<lparr>rbuf := clear_flags t w (rbuf r), scanline := 0, roline := t + w\<rparr>"
        using line s8 True by (simp add: t_def)
      have "clear_flags t w (rbuf r) ! i = (if i < t + w then cleared (buf ! i) else buf ! i)" if "i < length buf" for i
        using keep [OF that] that D(5) clear_flags_nth [of t w "rbuf r" i] by (cases "i < t") (simp_all add: cleared_def)
      moreover have "length (clear_flags t w (rbuf r)) = length buf"
        using D(5) clear_flags_nth [of t w "rbuf r"] by simp
      ultimately show ?thesis unfolding eq wq q(1) by simp
    next
      case False
      then have q: "Suc Y mod 8 = Suc (Y mod 8)" "Suc Y div 8 = Y div 8" by (simp_all add: mod_Suc div_Suc)
      have "?L = ?r" using line s8 False by simp
      then show ?thesis
        unfolding q t using small D(2,5) keep by (simp add: t_def [symmetric])
    qed
  qed
  have lpY: "unat (rlp ?L) = unat (fbb f) + unat (pitch f) * (unat (vy (origin f)) + Suc Y)"
    using lp' same(1) by simp
  have memY: "\<forall>a. a < unat (fbb f) + unat (pitch f) * unat (vy (origin f)) \<or> unat (rlp ?L) \<le> a \<longrightarrow> rmem ?L a = m a"
    using mem lpY same(4) by simp
  have pxY: "\<forall>y < Suc Y. \<forall>x < w. \<forall>k < 6. ld32 (rmem ?L) (pixel_at f y x k) =
          (if flagged (buf ! (w * (y div 8) + x)) then pixel_color font (buf ! (w * (y div 8) + x)) (y mod 8) k
           else ld32 m (pixel_at f y x k))"
    using px same(4) by simp
  show ?thesis
    unfolding drawn_def same(2,3)
    by (intro conjI lpY next_row [THEN conjunct1] next_row [THEN conjunct2, THEN conjunct1]
      next_row [THEN conjunct2, THEN conjunct2, THEN conjunct1] next_row [THEN conjunct2, THEN conjunct2, THEN conjunct2]
      col fs memY pxY)
qed

theorem render_draws:
  assumes fit: "fits_screen f (unat (width v)) (unat (height v))" and len: "length (buffer v) = unat (width v) * unat (height v)"
  shows "\<exists>f' m'. render_vc font f v m = Some (f', v\<lparr>buffer := map cleared (buffer v)\<rparr>, m')
    \<and> (\<exists>x y. f' = f\<lparr>fgcolor := x, bgcolor := y\<rparr>)
    \<and> (\<forall>r < unat (height v). \<forall>x < unat (width v). \<forall>s < 8. \<forall>k < 6.
         let c = buffer v ! (unat (width v) * r + x) in
         ld32 m' (pixel_at f (8 * r + s) x k) = (if flagged c then pixel_color font c s k else ld32 m (pixel_at f (8 * r + s) x k)))
    \<and> (\<forall>a. a < unat (fbb f) \<or> unat (fbb f) + unat (pitch f) * (unat (vy (origin f)) + 8 * unat (height v)) \<le> a \<longrightarrow> m' a = m a)"
proof -
  let ?w = "unat (width v)" and ?h = "unat (height v)" and ?xco = "vx (origin f) * 4"
  let ?start = "\<lparr>rfb = f, lastatt = 0x100, rlp = fbb f + pitch f * vy (origin f), scanline = 0, roline = 0, rbuf = buffer v, rmem = m\<rparr>"
  let ?r = "\<lambda>n. (render_line font ?xco ?w ^^ n) ?start"
  have lt: "unat (fbb f) + unat (pitch f) * (unat (vy (origin f)) + 8 * ?h) < 2 ^ 32"
    using fit by (simp add: fits_screen_def)
  have py: "unat (pitch f * vy (origin f)) = unat (pitch f) * unat (vy (origin f))"
    using lt by (intro unat_mult_no_wrap) (simp add: distrib_left)
  have "unat (fbb f + pitch f * vy (origin f)) = unat (fbb f) + unat (pitch f) * unat (vy (origin f))"
    using lt py by (subst unat_add_no_wrap) (simp_all add: distrib_left)
  moreover have "\<exists>x y. f = f\<lparr>fgcolor := x, bgcolor := y\<rparr>"
    by (intro exI [of _ "fgcolor f"] exI [of _ "bgcolor f"]) simp
  ultimately have "drawn font f ?w (buffer v) m 0 ?start"
    by (simp add: drawn_def colors_of_def)
  then have D: "drawn font f ?w (buffer v) m n (?r n)" if "n \<le> 8 * ?h" for n
    using that
  proof (induction n)
    case (Suc n)
    with drawn_step [OF Suc.IH fit] len show ?case by simp
  qed simp
  have "?h < 2 ^ 16" using unsigned_less [of "height v"] by simp
  then have "unat (ucast (height v) * ec_font_h) = 8 * ?h"
    by (subst unat_mult_no_wrap) (simp_all add: ec_font_h_def unat_ucast_up)
  then have r: "render_vc font f v m = Some (rfb (?r (8 * ?h)), v\<lparr>buffer := rbuf (?r (8 * ?h))\<rparr>, rmem (?r (8 * ?h)))"
    using len by (simp add: render_vc_def Let_def)
  note d = D [of "8 * ?h", simplified]
  have buf: "rbuf (?r (8 * ?h)) = map cleared (buffer v)"
    using d len by (intro nth_equalityI) (auto simp: drawn_def)
  have px: "\<forall>r < ?h. \<forall>x < ?w. \<forall>s < 8. \<forall>k < 6.
         let c = buffer v ! (?w * r + x) in
         ld32 (rmem (?r (8 * ?h))) (pixel_at f (8 * r + s) x k) =
           (if flagged c then pixel_color font c s k else ld32 m (pixel_at f (8 * r + s) x k))"
    using d by (auto simp: drawn_def Let_def)
  have "rmem (?r (8 * ?h)) a = m a"
    if "a < unat (fbb f) \<or> unat (fbb f) + unat (pitch f) * (unat (vy (origin f)) + 8 * ?h) \<le> a" for a
    using d that by (auto simp: drawn_def)
  moreover have "\<exists>x y. rfb (?r (8 * ?h)) = f\<lparr>fgcolor := x, bgcolor := y\<rparr>"
    using d by (simp add: drawn_def)
  ultimately show ?thesis using r buf px by auto
qed
end
