(* ===== verification/Ktext.thy ===== *)
theory Ktext
  imports Framebuf
begin

text \<open>
  Formatted printing (\<^verbatim>\<open>ktext.cpp\<close>). The printing functions hand characters one by one to \<^verbatim>\<open>iputc\<close>
  and read nothing back, so what they print is a string; \<open>iprints\<close> and \<open>kprints\<close> are what \<^verbatim>\<open>iputc\<close> and \<^verbatim>\<open>putc\<close> do
  with it. Reading a variable argument that is not there, writing outside the buffer of digits and
  shifting by more than the width of a number are \<^const>\<open>None\<close>.
\<close>

section \<open>Numbers\<close>

definition digit_char :: "nat \<Rightarrow> char" where
  "digit_char n = char_of (n + 48)"

text \<open>The loop of \<^verbatim>\<open>iprintdec\<close>: the digits are put into the buffer from its end.\<close>

function dec_loop :: "string \<Rightarrow> nat \<Rightarrow> u64 \<Rightarrow> (string \<times> nat) option" where
  "dec_loop num l d =
     (if d = 0 then Some (num, l)
      else if l > 19 then None
      else dec_loop (num[19 - l := digit_char (unat (d mod 10))]) (l + 1) (d div 10))"
  by pat_completeness auto
termination
proof (relation "measure (\<lambda>(num, l, d). unat d)")
  fix num :: string and l :: nat and d :: u64
  assume "d \<noteq> 0"
  then have "0 < unat d" by (simp add: unat_gt_0)
  then show "((num[19 - l := digit_char (unat (d mod 10))], l + 1, d div 10), (num, l, d)) \<in> measure (\<lambda>(num, l, d). unat d)"
    by (simp add: unat_div)
qed simp

declare dec_loop.simps [simp del]

definition iprintdec :: "u64 \<Rightarrow> nat \<Rightarrow> char \<Rightarrow> string option" where
  "iprintdec d s sf = do {
     let num = replicate 20 CHR 0x00;
     (num, l) \<leftarrow> (if d = 0 then Some (num[19 := CHR ''0''], 1) else dec_loop num 0 d);
     Some (replicate (s - l) sf @ take l (drop (20 - l) num))
   }"

text \<open>A digit of four bits; \<^verbatim>\<open>v >> k\<close> for \<open>k\<close> below the width.\<close>

definition nibble :: "'a::len word \<Rightarrow> nat \<Rightarrow> nat option" where
  "nibble v k = (if k < LENGTH('a) then Some (unat (drop_bit k v AND 0xf)) else None)"

definition hex_char :: "nat \<Rightarrow> char" where
  "hex_char c = char_of ((if c > 9 then c + 7 else c) + 48)"

text \<open>\<^verbatim>\<open>for(; i > 4 && ((v >> (i-4)) & 0x0f) == 0; i -= 4)\<close>; the result is \<open>i\<close> and how often the body ran.\<close>

function hex_len :: "'a::len word \<Rightarrow> nat \<Rightarrow> (nat \<times> nat) option" where
  "hex_len v i =
     (if i > 4 then do {
        c \<leftarrow> nibble v (i - 4);
        if c = 0 then map_option (\<lambda>(i, n). (i, n + 1)) (hex_len v (i - 4)) else Some (i, 0)
      }
      else Some (i, 0))"
  by pat_completeness auto
termination by (relation "measure (\<lambda>(v, i). i)") auto

text \<open>\<^verbatim>\<open>do { i -= 4; ... } while(i > 0)\<close>; a count below four makes the shift negative.\<close>

function hex_out :: "'a::len word \<Rightarrow> nat \<Rightarrow> string option" where
  "hex_out v i =
     (if i < 4 then None
      else do {
        c \<leftarrow> nibble v (i - 4);
        if i - 4 > 0 then map_option ((#) (hex_char c)) (hex_out v (i - 4)) else Some [hex_char c]
      })"
  by pat_completeness auto
termination by (relation "measure (\<lambda>(v, i). i)") auto

declare hex_len.simps [simp del] hex_out.simps [simp del]

text \<open>The overloads of \<^verbatim>\<open>iprinthex\<close> and \<^verbatim>\<open>iprinthexs\<close> for 32 and 64 bits.\<close>

definition iprinthex :: "'a::len word \<Rightarrow> string option" where
  "iprinthex v = do { (i, _) \<leftarrow> hex_len v LENGTH('a); hex_out v i }"

definition iprinthexs32 :: "u32 \<Rightarrow> string option" where
  "iprinthexs32 v = do { (i, n) \<leftarrow> hex_len v 32; s \<leftarrow> hex_out v i; Some (replicate n CHR '' '' @ s) }"

definition iprinthexs :: "u64 \<Rightarrow> nat \<Rightarrow> char \<Rightarrow> string option" where
  "iprinthexs v s sf = do { (i, n) \<leftarrow> hex_len v (s * 4); d \<leftarrow> hex_out v i; Some (replicate n sf @ d) }"

definition iprinthex_bits :: "u32 \<Rightarrow> nat \<Rightarrow> string option" where
  "iprinthex_bits v bits = (let bits = min bits 32 in hex_out v (bits - bits mod 4))"

definition iprinthexx :: "u64 \<Rightarrow> nat \<Rightarrow> string option" where
  "iprinthexx v bits = (let bits = min bits 64 in hex_out v (bits - bits mod 4))"

section \<open>Formats\<close>

text \<open>The arguments as the caller passes them, after the default promotions; a string stands for the pointer to it.\<close>

datatype varg = Arg32 u32 | Arg64 u64 | ArgStr string

fun va_u32 :: "varg list \<Rightarrow> (u32 \<times> varg list) option" where
  "va_u32 (Arg32 n # v) = Some (n, v)"
| "va_u32 _ = None"

fun va_u64 :: "varg list \<Rightarrow> (u64 \<times> varg list) option" where
  "va_u64 (Arg64 n # v) = Some (n, v)"
| "va_u64 _ = None"

fun va_str :: "varg list \<Rightarrow> (string \<times> varg list) option" where
  "va_str (ArgStr s # v) = Some (s, v)"
| "va_str _ = None"

definition pad_char :: "nat \<Rightarrow> char" where
  "pad_char pad = (if pad = 2 then CHR '' '' else CHR ''0'')"

definition print_d :: "nat \<Rightarrow> nat \<Rightarrow> varg list \<Rightarrow> (string \<times> varg list) option" where
  "print_d pad padl v = do { (num, v) \<leftarrow> va_u32 v; s \<leftarrow> iprintdec (ucast num) padl (pad_char pad); Some (s, v) }"

definition print_x :: "nat \<Rightarrow> nat \<Rightarrow> varg list \<Rightarrow> (string \<times> varg list) option" where
  "print_x pad padl v = do {
     (num, v) \<leftarrow> va_u32 v;
     s \<leftarrow> (if pad \<noteq> 0 then iprinthexs (ucast num) padl (pad_char pad) else iprinthex num);
     Some (s, v)
   }"

definition print_ld :: "nat \<Rightarrow> nat \<Rightarrow> varg list \<Rightarrow> (string \<times> varg list) option" where
  "print_ld pad padl v = do { (num, v) \<leftarrow> va_u64 v; s \<leftarrow> iprintdec num padl (pad_char pad); Some (s, v) }"

definition print_lx :: "nat \<Rightarrow> nat \<Rightarrow> varg list \<Rightarrow> (string \<times> varg list) option" where
  "print_lx pad padl v = do {
     (num, v) \<leftarrow> va_u64 v;
     s \<leftarrow> (if pad \<noteq> 0 then iprinthexs num padl (pad_char pad) else iprinthex num);
     Some (s, v)
   }"

definition print_c :: "varg list \<Rightarrow> (string \<times> varg list) option" where
  "print_c v = do { (n, v) \<leftarrow> va_u32 v; Some ([char_of (unat n)], v) }"

text \<open>The states of the automaton of \<^verbatim>\<open>ivprintf\<close>, its variable \<^verbatim>\<open>rs\<close>.\<close>

datatype pmode = Literal | Directive | Digits | Long

definition is_digit :: "char \<Rightarrow> bool" where
  "is_digit c \<longleftrightarrow> c \<in> set ''0123456789''"

definition digit_val :: "char \<Rightarrow> nat" where
  "digit_val c = of_char c - 48"

text \<open>One character: what is printed, the state, the padding and its length, and the arguments that are left.\<close>

type_synonym pstep = "(string \<times> pmode \<times> nat \<times> nat \<times> varg list) option"

definition pending :: "pmode \<Rightarrow> nat \<Rightarrow> nat \<Rightarrow> varg list \<Rightarrow> pstep" where
  "pending m pad padl v = Some ([], m, pad, padl, v)"

definition printed :: "nat \<Rightarrow> nat \<Rightarrow> (string \<times> varg list) option \<Rightarrow> pstep" where
  "printed pad padl r = map_option (\<lambda>(s, v). (s, Literal, pad, padl, v)) r"

definition step_directive :: "char \<Rightarrow> nat \<Rightarrow> nat \<Rightarrow> varg list \<Rightarrow> pstep" where
  "step_directive c pad padl v =
     (if c = CHR ''0'' then pending Directive 1 8 v
      else if c = CHR '' '' then pending Directive 2 8 v
      else if is_digit c then pending Digits pad (digit_val c) v
      else if c = CHR ''l'' then pending Long pad padl v
      else if c = CHR ''%'' then printed pad padl (Some (''%'', v))
      else if c = CHR ''c'' then printed pad padl (print_c v)
      else if c = CHR ''d'' then printed pad padl (print_d pad padl v)
      else if c = CHR ''s'' then printed pad padl (va_str v)
      else if c = CHR ''x'' then printed pad padl (print_x pad padl v)
      else printed pad padl (Some ([CHR ''%'', c], v)))"

definition step_digits :: "char \<Rightarrow> nat \<Rightarrow> nat \<Rightarrow> varg list \<Rightarrow> pstep" where
  "step_digits c pad padl v =
     (if is_digit c then pending Digits pad (padl * 10 + digit_val c) v
      else if c = CHR ''l'' then pending Long pad padl v
      else if c = CHR ''d'' then printed pad padl (print_d pad padl v)
      else if c = CHR ''s'' then printed pad padl (va_str v)
      else if c = CHR ''x'' then printed pad padl (print_x pad padl v)
      else printed pad padl (Some ([CHR ''%'', c], v)))"

definition step_long :: "char \<Rightarrow> nat \<Rightarrow> nat \<Rightarrow> varg list \<Rightarrow> pstep" where
  "step_long c pad padl v =
     (if c = CHR ''0'' then pending Digits 1 padl v
      else if c = CHR '' '' then pending Digits 2 padl v
      else if c = CHR ''d'' then printed pad padl (print_ld pad padl v)
      else if c = CHR ''x'' then printed pad padl (print_lx pad padl v)
      else printed pad padl (Some ([CHR ''%'', c], v)))"

definition pstep :: "char \<Rightarrow> pmode \<Rightarrow> nat \<Rightarrow> nat \<Rightarrow> varg list \<Rightarrow> pstep" where
  "pstep c m pad padl v =
     (case m of
        Literal \<Rightarrow> if c = CHR ''%'' then pending Directive 0 padl v else printed pad padl (Some ([c], v))
      | Directive \<Rightarrow> step_directive c pad padl v
      | Digits \<Rightarrow> step_digits c pad padl v
      | Long \<Rightarrow> step_long c pad padl v)"

fun prun :: "string \<Rightarrow> pmode \<Rightarrow> nat \<Rightarrow> nat \<Rightarrow> varg list \<Rightarrow> (string \<times> pmode \<times> nat \<times> nat \<times> varg list) option" where
  "prun [] m pad padl v = Some ([], m, pad, padl, v)"
| "prun (c # ftr) m pad padl v = do {
     (s, m, pad, padl, v) \<leftarrow> pstep c m pad padl v;
     (t, r) \<leftarrow> prun ftr m pad padl v;
     Some (s @ t, r)
   }"

definition ivprintf :: "string \<Rightarrow> varg list \<Rightarrow> string option" where
  "ivprintf ftr v = map_option fst (prun ftr Literal 0 0 v)"

section \<open>What is printed for a number\<close>

fun decimal :: "nat \<Rightarrow> string" where
  "decimal n = (if n < 10 then [digit_char n] else decimal (n div 10) @ [digit_char (n mod 10)])"

fun hexadecimal :: "nat \<Rightarrow> string" where
  "hexadecimal n = (if n < 16 then [hex_char n] else hexadecimal (n div 16) @ [hex_char (n mod 16)])"

declare decimal.simps [simp del] hexadecimal.simps [simp del]

lemma decimal_length: "n < 10 ^ k \<Longrightarrow> 0 < k \<Longrightarrow> length (decimal n) \<le> k"
proof (induction n arbitrary: k rule: decimal.induct)
  case (1 n)
  show ?case
  proof (cases "n < 10")
    case True
    with 1 show ?thesis by (simp add: decimal.simps [of n])
  next
    case False
    with 1(2,3) obtain j where k: "k = Suc j" "0 < j"
      by (cases k; cases "k - 1") auto
    have "n div 10 < 10 ^ j" using 1(2) k by (simp add: div_less_iff_less_mult mult.commute)
    from 1(1) [OF False this k(2)] False k show ?thesis
      by (simp add: decimal.simps [of n])
  qed
qed

lemma dec_loop_spec:
  assumes "length num = 20" "l \<le> 20" "d = 0 \<or> l + length (decimal (unat d)) \<le> 20"
  shows "\<exists>num' l'. dec_loop num l d = Some (num', l') \<and> length num' = 20 \<and> l' \<le> 20
    \<and> l' = l + (if d = 0 then 0 else length (decimal (unat d)))
    \<and> drop (20 - l') num' = (if d = 0 then [] else decimal (unat d)) @ drop (20 - l) num"
  using assms
proof (induction num l d rule: dec_loop.induct)
  case (1 num l d)
  show ?case
  proof (cases "d = 0")
    case True
    with 1(2,3) show ?thesis by (subst dec_loop.simps) simp
  next
    case False
    let ?n = "unat d"
    let ?num = "num[19 - l := digit_char (unat (d mod 10))]"
    have pos: "0 < length (decimal ?n)" by (subst decimal.simps) simp
    with False 1(4) have l: "\<not> l > 19" by linarith
    have dm: "unat (d mod 10) = ?n mod 10" "unat (d div 10) = ?n div 10"
      by (simp_all add: unat_mod unat_div)
    have d0: "d div 10 = 0 \<longleftrightarrow> ?n < 10"
      by (simp add: word_unat_eq_iff unat_div div_eq_0_iff)
    have len: "d div 10 = 0 \<or> l + 1 + length (decimal (unat (d div 10))) \<le> 20"
      using 1(4) False dm d0 by (subst (asm) decimal.simps) auto
    have up: "drop (20 - (l + 1)) ?num = digit_char (?n mod 10) # drop (20 - l) num"
    proof -
      have "drop (19 - l) ?num = ?num ! (19 - l) # drop (Suc (19 - l)) ?num"
        using 1(2) l by (intro Cons_nth_drop_Suc [symmetric]) simp
      moreover have "Suc (19 - l) = 20 - l" using l by simp
      ultimately show ?thesis using 1(2) l dm by simp
    qed
    from 1(1) [OF False l _ _ len] 1(2) l obtain num' l' where IH:
      "dec_loop ?num (l + 1) (d div 10) = Some (num', l')" "length num' = 20" "l' \<le> 20"
      "l' = l + 1 + (if d div 10 = 0 then 0 else length (decimal (unat (d div 10))))"
      "drop (20 - l') num' = (if d div 10 = 0 then [] else decimal (unat (d div 10))) @ drop (20 - (l + 1)) ?num"
      by auto
    have "dec_loop num l d = Some (num', l')"
      using False l IH(1) by (subst dec_loop.simps) simp
    moreover have "l' = l + length (decimal ?n)" "drop (20 - l') num' = decimal ?n @ drop (20 - l) num"
      using IH(4,5) up d0 dm decimal.simps [of ?n] by (auto split: if_splits)
    ultimately show ?thesis using IH(2,3) False by simp
  qed
qed

text \<open>C38 Every number is printed in decimal, padded on the left to the length that is asked for; the buffer of twenty
  digits is large enough.\<close>

theorem decimal_printed:
  "iprintdec d s sf = Some (replicate (s - length (decimal (unat d))) sf @ decimal (unat d))"
proof (cases "d = 0")
  case True
  have "drop 19 ((replicate 20 CHR 0x00)[19 := CHR ''0'']) = [CHR ''0'']"
    by (simp add: numeral_eq_Suc)
  moreover have "decimal 0 = ''0''" by (simp add: decimal.simps digit_char_def char_of_def) (simp add: bit_0)
  ultimately show ?thesis using True by (simp add: iprintdec_def)
next
  case False
  have "unat d < 2 ^ 64"
    using unsigned_less [of d] by simp
  then have "unat d < 10 ^ 20" by simp
  then have "length (decimal (unat d)) \<le> 20" by (rule decimal_length) simp
  with False dec_loop_spec [of "replicate 20 CHR 0x00" 0 d] obtain num' where
    "dec_loop (replicate 20 CHR 0x00) 0 d = Some (num', length (decimal (unat d)))"
    "drop (20 - length (decimal (unat d))) num' = decimal (unat d)"
    by auto
  with False show ?thesis by (simp add: iprintdec_def)
qed

text \<open>The digits of a number in base 16, of \<open>k\<close> digits; and without leading zeros.\<close>

primrec hex_fixed :: "nat \<Rightarrow> nat \<Rightarrow> string" where
  "hex_fixed 0 n = []"
| "hex_fixed (Suc k) n = hex_char (n div 16 ^ k mod 16) # hex_fixed k n"

lemma nibble_nat: "k < LENGTH('a) \<Longrightarrow> nibble (v :: 'a::len word) k = Some (unat v div 2 ^ k mod 16)"
proof -
  have "unat (w AND 0xf) = unat w mod 16" for w :: "'a word"
    using and_mask_nat [of w 4] by (simp add: mask_eq_exp_minus_1)
  moreover have "unat (drop_bit k v) = unat v div 2 ^ k"
    by (simp only: unat_drop_bit_eq drop_bit_eq_div [where 'a = nat])
  ultimately show "k < LENGTH('a) \<Longrightarrow> nibble v k = Some (unat v div 2 ^ k mod 16)"
    by (simp only: nibble_def if_True)
qed

lemma hex_out_fixed: "4 * k \<le> LENGTH('a) \<Longrightarrow> 0 < k \<Longrightarrow> hex_out (v :: 'a::len word) (4 * k) = Some (hex_fixed k (unat v))"
proof (induction k)
  case (Suc k)
  have "16 ^ k = (2 :: nat) ^ (4 * k)" by (simp add: power_mult)
  with Suc show ?case
    by (cases k) (subst hex_out.simps; simp add: nibble_nat)+
qed simp

lemma hexadecimal_fixed: "n < 16 ^ k \<Longrightarrow> 0 < k \<Longrightarrow> k = 1 \<or> 16 ^ (k - 1) \<le> n \<Longrightarrow> hexadecimal n = hex_fixed k n"
proof (induction n arbitrary: k rule: hexadecimal.induct)
  case (1 n)
  have snoc: "hex_fixed (Suc j) n = hex_fixed j (n div 16) @ [hex_char (n mod 16)]" for j
    by (induction j) (simp_all add: div_mult2_eq [symmetric] mult.commute)
  show ?case
  proof (cases "n < 16")
    case True
    then have "k = 1"
    proof -
      have "k - 1 = 0" if "16 ^ (k - 1) \<le> n"
        using that True by (cases "k - 1") (auto dest: order_trans [of 16, rotated])
      with 1(3,4) show ?thesis by auto
    qed
    with True show ?thesis by (simp add: hexadecimal.simps [of n])
  next
    case False
    with 1(2-4) obtain j where k: "k = Suc j" "0 < j" "16 ^ j \<le> n"
      by (cases k; cases "k - 1") auto
    have "n div 16 < 16 ^ j" using 1(2) k by (simp add: div_less_iff_less_mult mult.commute)
    moreover have "j = 1 \<or> 16 ^ (j - 1) \<le> n div 16"
      using k(2,3) by (cases j) (auto simp: less_eq_div_iff_mult_less_eq mult.commute)
    ultimately show ?thesis
      using 1(1) [OF False _ k(2)] False k(1) snoc [of j] by (simp add: hexadecimal.simps [of n])
  qed
qed

text \<open>The count of digits that the first loop finds.\<close>

lemma hex_len_spec:
  assumes "4 * k \<le> LENGTH('a)" "0 < k" "unat (v :: 'a::len word) < 16 ^ k"
  shows "\<exists>j. 0 < j \<and> j \<le> k \<and> hex_len v (4 * k) = Some (4 * j, k - j) \<and> unat v < 16 ^ j \<and> (j = 1 \<or> 16 ^ (j - 1) \<le> unat v)"
  using assms
proof (induction k)
  case (Suc k)
  have p: "(2 :: nat) ^ (4 * k) = 16 ^ k" by (simp add: power_mult)
  show ?case
  proof (cases "k = 0")
    case True
    then show ?thesis using Suc.prems by (subst hex_len.simps) simp
  next
    case False
    have "unat v div 16 ^ k < 16" using Suc.prems(3) by (simp add: div_less_iff_less_mult)
    then have nib: "nibble v (4 * k) = Some (unat v div 16 ^ k)"
      using Suc.prems(1) by (simp add: nibble_nat p)
    show ?thesis
    proof (cases "unat v < 16 ^ k")
      case True
      with Suc.IH Suc.prems(1) False obtain j where "0 < j" "j \<le> k" "hex_len v (4 * k) = Some (4 * j, k - j)" "unat v < 16 ^ j"
          "j = 1 \<or> 16 ^ (j - 1) \<le> unat v" by auto
      with True nib False show ?thesis
        by (intro exI [of _ j]) (subst hex_len.simps, simp add: Suc_diff_le)
    next
      case big: False
      then have "unat v div 16 ^ k \<noteq> 0" by (simp add: div_eq_0_iff)
      with big nib False Suc.prems(3) show ?thesis
        by (intro exI [of _ "Suc k"]) (subst hex_len.simps, simp)
    qed
  qed
qed simp

lemma hexadecimal_length: "0 < j \<Longrightarrow> n < 16 ^ j \<Longrightarrow> j = 1 \<or> 16 ^ (j - 1) \<le> n \<Longrightarrow> length (hexadecimal n) = j"
proof -
  have "length (hex_fixed j n) = j" by (induction j) simp_all
  then show "0 < j \<Longrightarrow> n < 16 ^ j \<Longrightarrow> j = 1 \<or> 16 ^ (j - 1) \<le> n \<Longrightarrow> length (hexadecimal n) = j"
    by (simp add: hexadecimal_fixed)
qed

text \<open>A number that fits into \<open>s\<close> digits is printed in base 16 and padded on the left to that length.\<close>

theorem hexadecimal_printed:
  assumes "0 < s" "s \<le> 16" "unat v < 16 ^ s"
  shows "iprinthexs v s sf = Some (replicate (s - length (hexadecimal (unat v))) sf @ hexadecimal (unat v))"
proof -
  from assms obtain j where j: "0 < j" "j \<le> s" "hex_len v (4 * s) = Some (4 * j, s - j)" "unat v < 16 ^ j"
      "j = 1 \<or> 16 ^ (j - 1) \<le> unat v"
    using hex_len_spec [of s v] by auto
  from j(1,2) assms(2) have "hex_out v (4 * j) = Some (hex_fixed j (unat v))"
    by (intro hex_out_fixed) simp_all
  with j show ?thesis
    using hexadecimal_fixed [OF j(4,1,5)] hexadecimal_length [OF j(1,4,5)]
    by (simp add: iprinthexs_def mult.commute)
qed

lemma iprinthex_printed: "LENGTH('a) = 4 * k \<Longrightarrow> iprinthex (v :: 'a::len word) = Some (hexadecimal (unat v))"
proof -
  assume L: "LENGTH('a) = 4 * k"
  have k: "0 < k" using L len_gt_0 [where 'a = 'a] by (cases k) simp_all
  have "unat v < 16 ^ k" using unsigned_less [of v] L by (simp add: power_mult)
  from hex_len_spec [OF _ k this] L obtain j where j: "0 < j" "j \<le> k" "hex_len v (4 * k) = Some (4 * j, k - j)" "unat v < 16 ^ j"
      "j = 1 \<or> 16 ^ (j - 1) \<le> unat v" by auto
  moreover have "hex_out v (4 * j) = Some (hex_fixed j (unat v))"
    using j L by (intro hex_out_fixed) simp_all
  ultimately show ?thesis
    using hexadecimal_fixed [OF j(4,1,5)] L by (simp add: iprinthex_def)
qed

lemma hexadecimal_printed_witness: "iprinthexs 0x2f 4 CHR ''0'' = Some ''002F''"
proof -
  have "hexadecimal 47 = [hex_char 2, hex_char 15]"
    by (subst hexadecimal.simps, simp, subst hexadecimal.simps, simp)
  moreover have "hex_char 2 = CHR ''2''" "hex_char 15 = CHR ''F''"
    by code_simp+
  ultimately have h: "hexadecimal 47 = ''2F''" by simp
  have two: "replicate 2 c = [c, c]" for c :: char
    by (simp add: numeral_2_eq_2)
  have "iprinthexs 0x2f 4 CHR ''0'' = Some (replicate 2 CHR ''0'' @ ''2F'')"
    using hexadecimal_printed [of 4 "0x2f" "CHR ''0''"] by (simp add: h)
  then show ?thesis by (simp add: two)
qed

text \<open>A number with more digits loses the upper ones.\<close>

lemma hexadecimal_truncated: "iprinthexs 0x1234 2 CHR ''0'' = iprinthexs 0x34 2 CHR ''0''"
  by (simp add: iprinthexs_def hex_len.simps hex_out.simps nibble_def)

section \<open>What a format means\<close>

text \<open>
  A format as a list of items. \<open>Wide pad w lng conv\<close> is \<^verbatim>\<open>%<pad><w>l<conv>\<close>, where \<open>pad\<close> is 1 for a zero, 2 for a space and 0
  for none; the width \<open>w\<close> is at least 1.
\<close>

datatype conversion = ConvD | ConvX

datatype item = Chars char | Percent | ItemChar | ItemStr | Plain conversion | Wide nat nat bool conversion

fun conv_char :: "conversion \<Rightarrow> char" where
  "conv_char ConvD = CHR ''d''" | "conv_char ConvX = CHR ''x''"

fun unparse :: "item \<Rightarrow> string" where
  "unparse (Chars c) = [c]"
| "unparse Percent = ''%%''"
| "unparse ItemChar = ''%c''"
| "unparse ItemStr = ''%s''"
| "unparse (Plain c) = [CHR ''%'', conv_char c]"
| "unparse (Wide pad w lng c) = CHR ''%'' # (if pad = 1 then ''0'' else if pad = 2 then '' '' else '''') @ decimal w
     @ (if lng then ''l'' else '''') @ [conv_char c]"

fun item_ok :: "item \<Rightarrow> bool" where
  "item_ok (Chars c) \<longleftrightarrow> c \<noteq> CHR ''%''"
| "item_ok (Wide pad w lng c) \<longleftrightarrow> pad \<le> 2 \<and> 0 < w"
| "item_ok _ \<longleftrightarrow> True"

text \<open>What one item prints. The length \<open>padl\<close> of the last padded item still holds for the next \<^verbatim>\<open>%d\<close>.\<close>

fun item_prints :: "nat \<Rightarrow> varg list \<Rightarrow> item \<Rightarrow> (string \<times> nat \<times> varg list) option" where
  "item_prints padl v (Chars c) = Some ([c], padl, v)"
| "item_prints padl v Percent = Some (''%'', padl, v)"
| "item_prints padl v ItemChar = map_option (\<lambda>(s, v). (s, padl, v)) (print_c v)"
| "item_prints padl v ItemStr = map_option (\<lambda>(s, v). (s, padl, v)) (va_str v)"
| "item_prints padl v (Plain ConvD) = map_option (\<lambda>(s, v). (s, padl, v)) (print_d 0 padl v)"
| "item_prints padl v (Plain ConvX) = map_option (\<lambda>(s, v). (s, padl, v)) (print_x 0 padl v)"
| "item_prints padl v (Wide pad w False ConvD) = map_option (\<lambda>(s, v). (s, w, v)) (print_d pad w v)"
| "item_prints padl v (Wide pad w False ConvX) = map_option (\<lambda>(s, v). (s, w, v)) (print_x pad w v)"
| "item_prints padl v (Wide pad w True ConvD) = map_option (\<lambda>(s, v). (s, w, v)) (print_ld pad w v)"
| "item_prints padl v (Wide pad w True ConvX) = map_option (\<lambda>(s, v). (s, w, v)) (print_lx pad w v)"

fun items_print :: "nat \<Rightarrow> varg list \<Rightarrow> item list \<Rightarrow> string option" where
  "items_print padl v [] = Some ''''"
| "items_print padl v (i # is) = do {
     (s, padl, v) \<leftarrow> item_prints padl v i;
     map_option ((@) s) (items_print padl v is)
   }"

lemma prun_append:
  "prun (f @ g) m pad padl v = do {
     (s, m, pad, padl, v) \<leftarrow> prun f m pad padl v;
     (t, r) \<leftarrow> prun g m pad padl v;
     Some (s @ t, r)
   }"
proof (induction f m pad padl v rule: prun.induct)
  case (1 m pad padl v)
  then show ?case by (cases "prun g m pad padl v") auto
next
  case (2 c f m pad padl v)
  show ?case
  proof (cases "pstep c m pad padl v")
    case (Some x)
    obtain s m' pad' padl' v' where x: "x = (s, m', pad', padl', v')" by (metis prod_cases5)
    with Some 2 show ?thesis
      by (cases "prun f m' pad' padl' v'") (auto split: bind_splits)
  qed simp
qed

lemma digit_char_simps: "n < 10 \<Longrightarrow> is_digit (digit_char n)" "n < 10 \<Longrightarrow> digit_val (digit_char n) = n"
proof -
  have "\<forall>n \<in> set [0 ..< 10]. is_digit (digit_char n) \<and> digit_val (digit_char n) = n"
    by code_simp
  then show "n < 10 \<Longrightarrow> is_digit (digit_char n)" "n < 10 \<Longrightarrow> digit_val (digit_char n) = n"
    by auto
qed

lemma digit_char_nonzero: "0 < n \<Longrightarrow> n < 10 \<Longrightarrow> digit_char n \<noteq> CHR ''0''"
proof -
  have "\<forall>n \<in> set [1 ..< 10]. digit_char n \<noteq> CHR ''0''" by code_simp
  then show "0 < n \<Longrightarrow> n < 10 \<Longrightarrow> digit_char n \<noteq> CHR ''0''" by auto
qed

lemma is_digit_not: "is_digit c \<Longrightarrow> c \<noteq> CHR '' '' \<and> c \<noteq> CHR ''%''"
  by (auto simp: is_digit_def)

text \<open>The digits of a width, read after the percent sign and the padding.\<close>

lemma width_read:
  "0 < n \<Longrightarrow> prun (decimal n) Directive pad padl v = Some ([], Digits, pad, n, v)"
proof (induction n rule: decimal.induct)
  case (1 n)
  show ?case
  proof (cases "n < 10")
    case True
    with 1(2) show ?thesis
      using digit_char_nonzero [of n] digit_char_simps [of n] is_digit_not [of "digit_char n"]
      by (simp add: decimal.simps [of n] pstep_def step_directive_def pending_def)
  next
    case False
    then have "0 < n div 10" by simp
    from 1(1) [OF False this] False show ?thesis
      using digit_char_simps [of "n mod 10"]
      by (simp add: decimal.simps [of n] prun_append pstep_def step_digits_def pending_def mult.commute)
  qed
qed

lemma item_run:
  assumes "item_ok i"
  shows "case item_prints padl v i of
      None \<Rightarrow> prun (unparse i) Literal pad padl v = None
    | Some (s, padl', v') \<Rightarrow> \<exists>pad'. prun (unparse i) Literal pad padl v = Some (s, Literal, pad', padl', v')"
proof (cases i)
  case (Plain c)
  then show ?thesis
    by (cases c) (auto simp: pstep_def step_directive_def pending_def printed_def is_digit_def map_option_case split: option.split)
next
  case (Wide p w lng c)
  then have pw: "p \<le> 2" "0 < w" using assms by simp_all
  have start: "prun (CHR ''%'' # (if p = 1 then ''0'' else if p = 2 then '' '' else '''') @ decimal w @ r) Literal pad padl v
      = prun r Digits p w v" for r
  proof -
    have "p = 0 \<or> p = 1 \<or> p = 2" using pw(1) by linarith
    then show ?thesis
      using width_read [OF pw(2)] by (auto simp: pstep_def step_directive_def pending_def prun_append split: bind_splits)
  qed
  have "prun (unparse i) Literal pad padl v = prun ((if lng then ''l'' else '''') @ [conv_char c]) Digits p w v"
    using Wide start by simp
  then show ?thesis
    using Wide by (cases c; cases lng)
      (auto simp: pstep_def step_digits_def step_long_def pending_def printed_def is_digit_def map_option_case split: option.split)
qed (use assms in \<open>auto simp: pstep_def step_directive_def pending_def printed_def is_digit_def map_option_case split: option.split\<close>)


end
