(* ===== verification/Screen.thy ===== *)
theory Screen
  imports Ktext
begin

text \<open>
  The console of the kernel (\<^verbatim>\<open>putc\<close>, \<^verbatim>\<open>iputc\<close> and \<^verbatim>\<open>print\<close> of \<^verbatim>\<open>ktext.cpp\<close>): characters go to the serial
  line and to the console that is selected, and a new line on the virtual terminal draws it. What is
  printed is shown on the screen.
\<close>

section \<open>The consoles of the kernel\<close>

datatype tio = Lvga | Svt | Fbt | FbtStatus

text \<open>\<open>txtvc\<close> and \<open>txtfb\<close> tell whether the pointers to the terminal and to the graphical console are set; \<open>comm\<close> is what
  has been sent over the serial line.\<close>

record kio =
  lvga :: vgatext
  svt :: vterm
  fbt :: fbtext
  fbt_status :: fbtext
  video :: bytes
  use_comm :: bool
  comm :: string
  txtout :: "tio option"
  txtvc :: bool
  txtfb :: bool

type_synonym font = "u8 \<Rightarrow> u32 \<Rightarrow> u8"

text \<open>The virtual functions of the consoles.\<close>

definition tio_putc :: "font \<Rightarrow> tio \<Rightarrow> char \<Rightarrow> kio \<Rightarrow> kio option" where
  "tio_putc font t c k =
     (case t of
        Lvga \<Rightarrow> Some (k\<lparr>lvga := vga_putc c (lvga k)\<rparr>)
      | Svt \<Rightarrow> map_option (\<lambda>v. k\<lparr>svt := v\<rparr>) (vt_putc c (svt k))
      | Fbt \<Rightarrow> (let (f, m) = fb_putc font c (fbt k, video k) in Some (k\<lparr>fbt := f, video := m\<rparr>))
      | FbtStatus \<Rightarrow> (let (f, m) = fb_putc font c (fbt_status k, video k) in Some (k\<lparr>fbt_status := f, video := m\<rparr>)))"

definition tio_nextline :: "tio \<Rightarrow> kio \<Rightarrow> kio option" where
  "tio_nextline t k =
     (case t of
        Lvga \<Rightarrow> Some (k\<lparr>lvga := vga_nextline (lvga k)\<rparr>)
      | Svt \<Rightarrow> map_option (\<lambda>v. k\<lparr>svt := v\<rparr>) (vt_nextline (svt k))
      | Fbt \<Rightarrow> Some (k\<lparr>fbt := fb_nextline (fbt k)\<rparr>)
      | FbtStatus \<Rightarrow> Some (k\<lparr>fbt_status := fb_nextline (fbt_status k)\<rparr>))"

definition draw_terminal :: "font \<Rightarrow> kio \<Rightarrow> kio option" where
  "draw_terminal font k =
     map_option (\<lambda>(f, v, m). k\<lparr>fbt := f, svt := v, video := m\<rparr>) (render_vc font (fbt k) (svt k) (video k))"

definition togglecomm :: "kio \<Rightarrow> kio" where
  "togglecomm k = k\<lparr>use_comm := \<not> use_comm k\<rparr>"

definition kputc :: "font \<Rightarrow> char \<Rightarrow> kio \<Rightarrow> kio option" where
  "kputc font c k =
     (let k = (if use_comm k then k\<lparr>comm := comm k @ [c]\<rparr> else k)
      in case txtout k of
           None \<Rightarrow> Some k
         | Some t \<Rightarrow>
             if c = newline then do {
               k \<leftarrow> tio_nextline t k;
               if txtfb k \<and> t = Svt \<and> txtvc k then draw_terminal font k else Some k
             }
             else tio_putc font t c k)"

text \<open>To a null pointer other than that of the selected console nothing can be printed.\<close>

definition iputc :: "font \<Rightarrow> tio option \<Rightarrow> char \<Rightarrow> kio \<Rightarrow> kio option" where
  "iputc font out c k =
     (if out = txtout k then kputc font c k
      else case out of
             None \<Rightarrow> None
           | Some t \<Rightarrow> if c = newline then tio_nextline t k else tio_putc font t c k)"

fun iprints :: "font \<Rightarrow> tio option \<Rightarrow> string \<Rightarrow> kio \<Rightarrow> kio option" where
  "iprints font out [] k = Some k"
| "iprints font out (c # s) k = do { k \<leftarrow> iputc font out c k; iprints font out s k }"

fun kprints :: "font \<Rightarrow> string \<Rightarrow> kio \<Rightarrow> kio option" where
  "kprints font [] k = Some k"
| "kprints font (c # s) k = do { k \<leftarrow> kputc font c k; kprints font s k }"

definition iprintf :: "font \<Rightarrow> tio option \<Rightarrow> string \<Rightarrow> varg list \<Rightarrow> kio \<Rightarrow> kio option" where
  "iprintf font out ftr v k = do { s \<leftarrow> ivprintf ftr v; iprints font out s k }"

definition kprintf :: "font \<Rightarrow> string \<Rightarrow> varg list \<Rightarrow> kio \<Rightarrow> kio option" where
  "kprintf font ftr v k = iprintf font (txtout k) ftr v k"

definition printattr :: "u32 \<Rightarrow> kio \<Rightarrow> kio" where
  "printattr x k = (if txtvc k then k\<lparr>svt := vt_setattr x (svt k)\<rparr> else k)"

section \<open>Cells that the screen shows\<close>

definition cell_shown :: "font \<Rightarrow> fbtext \<Rightarrow> vterm \<Rightarrow> bytes \<Rightarrow> nat \<Rightarrow> nat \<Rightarrow> vtcell \<Rightarrow> bool" where
  "cell_shown font f v m r x c \<longleftrightarrow> (\<forall>s < 8. \<forall>k < 6. ld32 m (pixel_at f (8 * r + s) x k) = pixel_color font c s k)"

definition cell_at :: "vterm \<Rightarrow> nat \<Rightarrow> nat \<Rightarrow> vtcell" where
  "cell_at v r x = buffer v ! (unat (width v) * r + x)"

text \<open>Every cell that is not marked as changed is what the screen shows in its place.\<close>

definition consistent :: "font \<Rightarrow> fbtext \<Rightarrow> vterm \<Rightarrow> bytes \<Rightarrow> bool" where
  "consistent font f v m \<longleftrightarrow>
     (\<forall>r < unat (height v). \<forall>x < unat (width v). \<not> flagged (cell_at v r x) \<longrightarrow> cell_shown font f v m r x (cell_at v r x))"

lemma same_glyph_color: "same_glyph c d \<Longrightarrow> pixel_color font c s k = pixel_color font d s k"
proof -
  assume s: "same_glyph c d"
  have a: "x AND 0xf = (x AND 0xffffff) AND (0xf :: u32)" "drop_bit 4 x AND 0xf = drop_bit 4 (x AND 0xffffff) AND (0xf :: u32)" for x
    by (simp_all add: and.assoc drop_bit_and)
  show ?thesis
    using s a [of "attr c"] a [of "attr d"] by (simp add: same_glyph_def pixel_color_def)
qed

lemma same_glyph_shown: "same_glyph c d \<Longrightarrow> cell_shown font f v m r x c \<Longrightarrow> cell_shown font f v m r x d"
  using same_glyph_color [of c d] by (simp add: cell_shown_def)

lemma flagged_new: "flagged (vt_cell c v)" "flagged \<lparr>code = n, attr = a OR ATTR_UPDATE\<rparr>"
  by (simp_all add: flagged_def vt_cell_def) (simp_all add: ATTR_UPDATE_def)

lemma flagged_moved: "\<not> same_glyph p c \<Longrightarrow> flagged (moved p c)" "same_glyph p c \<Longrightarrow> moved p c = c"
  by (simp_all add: moved_def flagged_def) (simp_all add: ATTR_UPDATE_def)

lemma not_flagged_cleared: "\<not> flagged (cleared c)" "same_glyph (cleared c) c"
proof -
  show "\<not> flagged (cleared c)"
    by (simp add: flagged_bit cleared_def ATTR_UPDATE_def bit_simps)
  have "(NOT 0x80000000) AND 0xffffff = (0xffffff :: u32)" by simp
  then have "(a AND NOT 0x80000000) AND 0xffffff = a AND (0xffffff :: u32)" for a
    by (simp only: and.assoc)
  then show "same_glyph (cleared c) c"
    by (simp only: same_glyph_def cleared_def ATTR_UPDATE_def) simp
qed

lemma cell_less: "vt_ok v \<Longrightarrow> r < unat (height v) \<Longrightarrow> x < unat (width v) \<Longrightarrow> unat (width v) * r + x < length (buffer v)"
proof -
  assume a: "vt_ok v" "r < unat (height v)" "x < unat (width v)"
  have "unat (width v) * r + x < unat (width v) * Suc r" using a(3) by simp
  also have "\<dots> \<le> unat (width v) * unat (height v)" using a(2) by (intro mult_le_mono) simp_all
  finally show ?thesis using a(1) by (simp add: vt_ok_def)
qed

lemma cell_unique: "x < w \<Longrightarrow> x' < w \<Longrightarrow> w * r + x = w * r' + x' \<longleftrightarrow> r = r' \<and> x = (x' :: nat)"
proof -
  assume a: "x < w" "x' < w"
  have "(w * r + x) div w = r" "(w * r' + x') div w = r'" "(w * r + x) mod w = x" "(w * r' + x') mod w = x'"
    using a by simp_all
  then show ?thesis by metis
qed

section \<open>Printing to the terminal\<close>

definition screen_ok :: "font \<Rightarrow> kio \<Rightarrow> bool" where
  "screen_ok font k \<longleftrightarrow> vt_ok (svt k) \<and> fits_screen (fbt k) (unat (width (svt k))) (unat (height (svt k)))
     \<and> txtout k = Some Svt \<and> txtvc k \<and> txtfb k \<and> consistent font (fbt k) (svt k) (video k)
     \<and> (\<forall>r < unat (row (svt k)). \<forall>x < unat (width (svt k)). \<not> flagged (cell_at (svt k) r x))"

lemma unat_inc16: "unat (a :: u16) + 1 < 2 ^ 16 \<or> unat a < unat (b :: u16) \<Longrightarrow> unat (a + 1) = unat a + 1"
proof -
  have "unat b < 2 ^ 16" using unsigned_less [of b] by simp
  then show "unat a + 1 < 2 ^ 16 \<or> unat a < unat b \<Longrightarrow> unat (a + 1) = unat a + 1"
    by (subst unat_add_no_wrap) auto
qed

lemma vt_putc_inside:
  assumes ok: "vt_ok v" and room: "unat (col v) + 1 < unat (width v)"
  shows "vt_putc c v = Some (v\<lparr>buffer := (buffer v)[unat (width v) * unat (row v) + unat (col v) := vt_cell c v], col := col v + 1\<rparr>)
    \<and> unat (col v + 1) = unat (col v) + 1"
proof -
  have c1: "unat (col v + 1) = unat (col v) + 1"
    using room by (intro unat_inc16 [of _ "width v"]) simp
  have "\<not> col v + 1 \<ge> width v"
    using room c1 by (simp add: word_le_nat_alt)
  with vt_index [OF ok] c1 show ?thesis
    by (simp add: vt_putc_def put_cell_def Let_def add.commute)
qed

lemma putc_shown:
  assumes ok: "screen_ok font k" and c: "c \<noteq> newline" and room: "unat (col (svt k)) + 1 < unat (width (svt k))"
  shows "\<exists>k'. kputc font c k = Some k' \<and> screen_ok font k' \<and> fbt k' = fbt k
    \<and> svt k' = (svt k)\<lparr>buffer := (buffer (svt k))[unat (width (svt k)) * unat (row (svt k)) + unat (col (svt k)) := vt_cell c (svt k)],
        col := col (svt k) + 1\<rparr> \<and> unat (col (svt k')) = unat (col (svt k)) + 1"
proof -
  let ?v = "svt k"
  let ?i = "unat (width ?v) * unat (row ?v) + unat (col ?v)"
  let ?v' = "?v\<lparr>buffer := (buffer ?v)[?i := vt_cell c ?v], col := col ?v + 1\<rparr>"
  let ?k = "(if use_comm k then k\<lparr>comm := comm k @ [c]\<rparr> else k)\<lparr>svt := ?v'\<rparr>"
  have vok: "vt_ok ?v" using ok by (simp add: screen_ok_def)
  have put: "vt_putc c ?v = Some ?v'" and c1: "unat (col ?v + 1) = unat (col ?v) + 1"
    using vt_putc_inside [OF vok room, of c] by simp_all
  have k: "kputc font c k = Some ?k"
    using ok c put by (simp add: kputc_def screen_ok_def tio_putc_def Let_def)
  have lt: "unat (row ?v) < unat (height ?v)" "unat (col ?v) < unat (width ?v)"
    using vok by (simp_all add: vt_ok_def word_less_nat_alt)
  have i: "?i < length (buffer ?v)" by (rule cell_less [OF vok lt])
  have cells: "cell_at ?v' r x = (if r = unat (row ?v) \<and> x = unat (col ?v) then vt_cell c ?v else cell_at ?v r x)"
    if "x < unat (width ?v)" for r x
    using i cell_unique [OF that lt(2), of r "unat (row ?v)"] by (auto simp: cell_at_def nth_list_update)
  have vok': "vt_ok ?v'"
    using vok room c1 by (simp add: vt_ok_def word_less_nat_alt)
  have sh: "cell_shown font (fbt k) ?v' m r x = cell_shown font (fbt k) ?v m r x" for m r x
    by (simp add: cell_shown_def fun_eq_iff)
  have cons: "consistent font (fbt k) ?v' (video k)"
    unfolding consistent_def
  proof (intro allI impI)
    fix r x assume r: "r < unat (height ?v')" "x < unat (width ?v')" "\<not> flagged (cell_at ?v' r x)"
    then have "\<not> (r = unat (row ?v) \<and> x = unat (col ?v))"
      using cells [of x r] flagged_new(1) by auto
    then have "cell_at ?v' r x = cell_at ?v r x"
      using cells [of x r] r(2) by (simp only: if_False) simp
    with r ok show "cell_shown font (fbt k) ?v' (video k) r x (cell_at ?v' r x)"
      by (simp add: sh screen_ok_def consistent_def)
  qed
  have above: "\<not> flagged (cell_at ?v' r x)" if "r < unat (row ?v)" "x < unat (width ?v)" for r x
    using that cells [of x r] ok by (simp add: screen_ok_def)
  have "screen_ok font ?k"
    using ok vok' cons above by (auto simp: screen_ok_def)
  with k c1 show ?thesis by simp
qed

lemma nextline_cases:
  assumes ok: "vt_ok v"
  obtains "unat (row v) + 1 < unat (height v)" "vt_nextline v = Some (v\<lparr>col := 0, row := row v + 1\<rparr>)"
      "unat (row v + 1) = unat (row v) + 1"
  | "unat (row v) + 1 = unat (height v)"
      "vt_nextline v = Some (v\<lparr>col := 0, row := row v, buffer := scroll (unat (width v)) (unat (height v)) (cattr v) (buffer v)\<rparr>)"
proof -
  have lt: "unat (row v) < unat (height v)" using ok by (simp add: vt_ok_def word_less_nat_alt)
  have c1: "unat (row v + 1) = unat (row v) + 1"
    using lt by (intro unat_inc16 [of _ "height v"]) simp
  show thesis
  proof (cases "unat (row v) + 1 < unat (height v)")
    case True
    then have "\<not> row v + 1 \<ge> height v" using c1 by (simp add: word_le_nat_alt)
    with True c1 that(1) show thesis by (simp add: vt_nextline_def Let_def)
  next
    case False
    then have h: "unat (row v) + 1 = unat (height v)" using lt by simp
    then have "row v + 1 = height v" using c1 by (simp add: word_unat_eq_iff)
    then have "height v - 1 = row v" "row v + 1 \<ge> height v" by (metis add_diff_cancel_right', simp)
    with ok h that(2) show thesis by (simp add: vt_nextline_def Let_def vt_ok_def mult.commute)
  qed
qed

text \<open>Where the line of the cursor is after a new line: the lines stay, or move up by one.\<close>

definition line_shift :: "vterm \<Rightarrow> nat" where
  "line_shift v = (if unat (row v) + 1 < unat (height v) then 0 else 1)"

lemma nextline_shown:
  assumes vok: "vt_ok v" and cons: "consistent font f v m" and above: "\<forall>r < unat (row v). \<forall>x < unat (width v). \<not> flagged (cell_at v r x)"
  shows "\<exists>v'. vt_nextline v = Some v' \<and> vt_ok v' \<and> width v' = width v \<and> height v' = height v \<and> cattr v' = cattr v
    \<and> consistent font f v' m \<and> col v' = 0 \<and> unat (row v') + line_shift v = unat (row v) + 1
    \<and> (\<forall>r x. r + line_shift v < unat (height v) \<and> x < unat (width v) \<longrightarrow> same_glyph (cell_at v' r x) (cell_at v (r + line_shift v) x))"
  using vok
proof (cases rule: nextline_cases)
  case 1
  let ?v = "v\<lparr>col := 0, row := row v + 1\<rparr>"
  have "vt_ok ?v"
    using vok 1 by (auto simp: vt_ok_def word_less_nat_alt)
  moreover have "consistent font f ?v m"
    using cons by (simp add: consistent_def cell_at_def cell_shown_def)
  ultimately show ?thesis using 1 by (simp add: line_shift_def cell_at_def)
next
  case 2
  let ?w = "unat (width v)" and ?h = "unat (height v)"
  let ?v = "v\<lparr>col := 0, row := row v, buffer := scroll ?w ?h (cattr v) (buffer v)\<rparr>"
  have w: "0 < ?w" "0 < ?h" "length (buffer v) = ?h * ?w"
    using vok 2(1) by (auto simp: vt_ok_def word_less_nat_alt)
  have cells: "cell_at ?v r x = (if r + 1 < ?h then moved (cell_at v r x) (cell_at v (r + 1) x)
      else \<lparr>code = 32, attr = cattr v OR ATTR_UPDATE\<rparr>)" if r: "r < ?h" and x: "x < ?w" for r x
  proof -
    obtain h' where h: "?h = Suc h'" using w(2) by (cases ?h) simp_all
    have lt: "?w * r + x < ?h * ?w"
      using cell_less [OF vok r x] w(3) by simp
    have "?w * r + x < (?h - 1) * ?w \<longleftrightarrow> r + 1 < ?h"
    proof
      assume "?w * r + x < (?h - 1) * ?w"
      then have "?w * r + x < ?w * h'" using h by (simp add: mult.commute)
      then have "?w * r < ?w * h'" by (rule le_less_trans [rotated]) simp
      then show "r + 1 < ?h" using h by simp
    next
      assume "r + 1 < ?h"
      then have "?w * Suc r \<le> ?w * h'" using h by (intro mult_le_mono) simp_all
      then show "?w * r + x < (?h - 1) * ?w" using x h by (simp add: mult.commute)
    qed
    with scroll_nth [OF w lt, of "cattr v"] show ?thesis
      by (simp add: cell_at_def algebra_simps)
  qed
  have "vt_ok ?v" using vok by (auto simp: vt_ok_def word_less_nat_alt)
  moreover have "consistent font f ?v m"
    unfolding consistent_def
  proof (intro allI impI)
    fix r x assume r: "r < unat (height ?v)" "x < unat (width ?v)" "\<not> flagged (cell_at ?v r x)"
    then have e: "cell_at ?v r x = (if r + 1 < ?h then moved (cell_at v r x) (cell_at v (r + 1) x)
      else \<lparr>code = 32, attr = cattr v OR ATTR_UPDATE\<rparr>)" using cells [of r x] by simp
    with r(3) flagged_new(2) have r1: "r + 1 < ?h" by (auto split: if_splits)
    with e r(3) flagged_moved have g: "same_glyph (cell_at v r x) (cell_at v (r + 1) x)" by auto
    with e r1 flagged_moved(2) have e: "cell_at ?v r x = cell_at v (r + 1) x" by simp
    have "\<not> flagged (cell_at v r x)" using above r r1 2(1) by simp
    then have "cell_shown font f v m r x (cell_at v r x)"
      using cons r by (simp add: consistent_def)
    with same_glyph_shown [OF g] e show "cell_shown font f ?v m r x (cell_at ?v r x)"
      by (simp add: cell_shown_def)
  qed
  moreover have "same_glyph (cell_at ?v r x) (cell_at v (r + 1) x)" if "r + 1 < ?h" "x < ?w" for r x
    using cells [of r x] that by simp
  ultimately show ?thesis using 2 by (simp add: line_shift_def)
qed

lemma newline_shown:
  assumes ok: "screen_ok font k"
  shows "\<exists>k'. kputc font newline k = Some k' \<and> screen_ok font k' \<and> (\<exists>x y. fbt k' = (fbt k)\<lparr>fgcolor := x, bgcolor := y\<rparr>)
    \<and> (\<forall>r < unat (height (svt k')). \<forall>x < unat (width (svt k')). cell_shown font (fbt k') (svt k') (video k') r x (cell_at (svt k') r x))
    \<and> width (svt k') = width (svt k) \<and> height (svt k') = height (svt k) \<and> col (svt k') = 0 \<and> cattr (svt k') = cattr (svt k)
    \<and> unat (row (svt k')) + line_shift (svt k) = unat (row (svt k)) + 1
    \<and> (\<forall>r x. r + line_shift (svt k) < unat (height (svt k)) \<and> x < unat (width (svt k)) \<longrightarrow>
         same_glyph (cell_at (svt k') r x) (cell_at (svt k) (r + line_shift (svt k)) x))"
proof -
  let ?v = "svt k"
  let ?k = "if use_comm k then k\<lparr>comm := comm k @ [newline]\<rparr> else k"
  obtain v' where v': "vt_nextline ?v = Some v'" "vt_ok v'" "width v' = width ?v" "height v' = height ?v" "cattr v' = cattr ?v"
      "consistent font (fbt k) v' (video k)" "col v' = 0" "unat (row v') + line_shift ?v = unat (row ?v) + 1"
      "\<forall>r x. r + line_shift ?v < unat (height ?v) \<and> x < unat (width ?v) \<longrightarrow> same_glyph (cell_at v' r x) (cell_at ?v (r + line_shift ?v) x)"
    using nextline_shown [of ?v font "fbt k" "video k"] ok by (auto simp: screen_ok_def)
  have fit: "fits_screen (fbt k) (unat (width v')) (unat (height v'))"
    using ok v' by (simp add: screen_ok_def)
  have len: "length (buffer v') = unat (width v') * unat (height v')"
    using v'(2) by (simp add: vt_ok_def)
  obtain f' m' where r: "render_vc font (fbt k) v' (video k) = Some (f', v'\<lparr>buffer := map cleared (buffer v')\<rparr>, m')"
      "\<exists>x y. f' = (fbt k)\<lparr>fgcolor := x, bgcolor := y\<rparr>"
      "\<forall>r < unat (height v'). \<forall>x < unat (width v'). \<forall>s < 8. \<forall>p < 6.
         let c = buffer v' ! (unat (width v') * r + x) in
         ld32 m' (pixel_at (fbt k) (8 * r + s) x p) =
           (if flagged c then pixel_color font c s p else ld32 (video k) (pixel_at (fbt k) (8 * r + s) x p))"
    using render_draws [OF fit len, of font "video k"] by blast
  let ?v' = "v'\<lparr>buffer := map cleared (buffer v')\<rparr>"
  let ?k' = "?k\<lparr>fbt := f', svt := ?v', video := m'\<rparr>"
  have k: "kputc font newline k = Some ?k'"
    using ok v'(1) r(1) by (simp add: kputc_def screen_ok_def tio_nextline_def draw_terminal_def Let_def)
  have px: "pixel_at f' y x p = pixel_at (fbt k) y x p" for y x p
    using r(2) by (auto simp: pixel_at_def)
  have cell: "cell_at ?v' r x = cleared (cell_at v' r x)" if "r < unat (height v')" "x < unat (width v')" for r x
    using cell_less [OF v'(2) that] by (simp add: cell_at_def)
  have shown: "cell_shown font f' ?v' m' r x (cell_at ?v' r x)" if rx: "r < unat (height v')" "x < unat (width v')" for r x
  proof -
    have c: "same_glyph (cell_at v' r x) (cell_at ?v' r x)"
      using cell [OF rx] not_flagged_cleared(2) same_glyph_sym by simp
    have "cell_shown font f' ?v' m' r x (cell_at v' r x)"
    proof (cases "flagged (cell_at v' r x)")
      case True
      with r(3) rx show ?thesis by (simp add: cell_shown_def px cell_at_def Let_def)
    next
      case False
      then have "cell_shown font (fbt k) v' (video k) r x (cell_at v' r x)"
        using v'(6) rx by (simp add: consistent_def)
      with r(3) rx False show ?thesis by (simp add: cell_shown_def px cell_at_def Let_def)
    qed
    with same_glyph_shown [OF c] show ?thesis by blast
  qed
  have "vt_ok ?v'" using v'(2) by (simp add: vt_ok_def)
  moreover have "consistent font f' ?v' m'" using shown by (simp add: consistent_def)
  moreover have "\<not> flagged (cell_at ?v' r x)" if "r < unat (height v')" "x < unat (width v')" for r x
    using cell [OF that] not_flagged_cleared(1) by simp
  moreover have "fits_screen f' (unat (width v')) (unat (height v'))"
    using fit r(2) by (auto simp: fits_screen_def)
  moreover have "unat (row v') < unat (height v')"
    using v'(2) by (simp add: vt_ok_def word_less_nat_alt)
  ultimately have "screen_ok font ?k'" using ok by (simp add: screen_ok_def)
  moreover have "same_glyph (cell_at ?v' r x) (cell_at ?v (r + line_shift ?v) x)"
    if "r + line_shift ?v < unat (height ?v)" "x < unat (width ?v)" for r x
    using v'(3,4,9) that cell [of r x] not_flagged_cleared(2) [of "cell_at v' r x"] same_glyph_trans by simp
  ultimately show ?thesis using k v' r(2) shown by simp
qed

section \<open>A line of text appears on the screen\<close>

lemma line_shift_cong: "row v' = row v \<Longrightarrow> height v' = height v \<Longrightarrow> line_shift v' = line_shift v"
  by (simp add: line_shift_def)

lemma chars_shown:
  assumes "screen_ok font k" "newline \<notin> set cs" "unat (col (svt k)) + length cs < unat (width (svt k))"
  shows "\<exists>k'. kprints font cs k = Some k' \<and> screen_ok font k' \<and> fbt k' = fbt k \<and> width (svt k') = width (svt k)
    \<and> height (svt k') = height (svt k) \<and> row (svt k') = row (svt k) \<and> cattr (svt k') = cattr (svt k)
    \<and> unat (col (svt k')) = unat (col (svt k)) + length cs
    \<and> (\<forall>r x. x < unat (width (svt k)) \<longrightarrow> cell_at (svt k') r x =
         (if r = unat (row (svt k)) \<and> unat (col (svt k)) \<le> x \<and> x < unat (col (svt k)) + length cs
          then vt_cell (cs ! (x - unat (col (svt k)))) (svt k) else cell_at (svt k) r x))"
  using assms
proof (induction cs arbitrary: k)
  case Nil
  then show ?case by auto
next
  case (Cons c cs)
  let ?v = "svt k"
  from Cons.prems have c: "c \<noteq> newline" "unat (col ?v) + 1 < unat (width ?v)" by auto
  from putc_shown [OF Cons.prems(1) c] obtain k1 where k1: "kputc font c k = Some k1" "screen_ok font k1" "fbt k1 = fbt k"
      "svt k1 = ?v\<lparr>buffer := (buffer ?v)[unat (width ?v) * unat (row ?v) + unat (col ?v) := vt_cell c ?v], col := col ?v + 1\<rparr>"
      "unat (col (svt k1)) = unat (col ?v) + 1" by blast
  have "unat (col (svt k1)) + length cs < unat (width (svt k1))"
    using Cons.prems(3) k1(4,5) by simp
  with Cons.IH [OF k1(2)] Cons.prems(2) obtain k' where k': "kprints font cs k1 = Some k'" "screen_ok font k'" "fbt k' = fbt k1"
      "width (svt k') = width (svt k1)" "height (svt k') = height (svt k1)" "row (svt k') = row (svt k1)" "cattr (svt k') = cattr (svt k1)"
      "unat (col (svt k')) = unat (col (svt k1)) + length cs"
      "\<And>r x. x < unat (width (svt k1)) \<Longrightarrow> cell_at (svt k') r x =
         (if r = unat (row (svt k1)) \<and> unat (col (svt k1)) \<le> x \<and> x < unat (col (svt k1)) + length cs
          then vt_cell (cs ! (x - unat (col (svt k1)))) (svt k1) else cell_at (svt k1) r x)"
    by auto
  have ok: "vt_ok ?v" using Cons.prems(1) by (simp add: screen_ok_def)
  then have lt: "unat (row ?v) < unat (height ?v)" "unat (col ?v) < unat (width ?v)"
    by (simp_all add: vt_ok_def word_less_nat_alt)
  have cell1: "cell_at (svt k1) r x = (if r = unat (row ?v) \<and> x = unat (col ?v) then vt_cell c ?v else cell_at ?v r x)"
    if "x < unat (width ?v)" for r x
    using cell_less [OF ok lt] cell_unique [OF that lt(2), of r "unat (row ?v)"] k1(4) by (auto simp: cell_at_def nth_list_update)
  have same: "vt_cell d (svt k1) = vt_cell d ?v" for d
    using k1(4) by (simp add: vt_cell_def)
  have "cell_at (svt k') r x =
         (if r = unat (row ?v) \<and> unat (col ?v) \<le> x \<and> x < unat (col ?v) + length (c # cs)
          then vt_cell ((c # cs) ! (x - unat (col ?v))) ?v else cell_at ?v r x)" if x: "x < unat (width ?v)" for r x
  proof -
    have w: "width (svt k1) = width ?v" "row (svt k1) = row ?v" using k1(4) by simp_all
    have d: "x - unat (col ?v) = Suc (x - Suc (unat (col ?v)))" if "unat (col ?v) < x" using that by simp
    consider "x < unat (col ?v)" | "x = unat (col ?v)" | "unat (col ?v) < x" by linarith
    then show ?thesis
      using k'(9) [of x r] x w cell1 [OF x, of r] d k1(5) by cases (auto simp: same)
  qed
  with k1 k' show ?case by simp
qed

text \<open>C36 A line that is shorter than what is left of the line of the cursor, printed with a new line after it, is on the
  screen afterwards, in the line above the cursor: every pixel of its characters has the colour that the
  font and the attribute give it, and the rest of the screen shows the rest of the terminal.\<close>

theorem line_shown:
  assumes ok: "screen_ok font k" and cs: "newline \<notin> set cs" "unat (col (svt k)) + length cs < unat (width (svt k))"
    and h: "1 < unat (height (svt k))"
  shows "\<exists>k'. kprints font (cs @ [newline]) k = Some k' \<and> screen_ok font k' \<and> col (svt k') = 0 \<and> 0 < unat (row (svt k'))
    \<and> (\<forall>r < unat (height (svt k')). \<forall>x < unat (width (svt k')). cell_shown font (fbt k') (svt k') (video k') r x (cell_at (svt k') r x))
    \<and> (\<forall>j < length cs. \<forall>s < 8. \<forall>p < 6.
         ld32 (video k') (pixel_at (fbt k') (8 * (unat (row (svt k')) - 1) + s) (unat (col (svt k)) + j) p)
         = pixel_color font (vt_cell (cs ! j) (svt k)) s p)"
proof -
  let ?v = "svt k"
  obtain k1 where k1: "kprints font cs k = Some k1" "screen_ok font k1" "width (svt k1) = width ?v" "height (svt k1) = height ?v"
      "row (svt k1) = row ?v" "cattr (svt k1) = cattr ?v"
      "\<And>r x. x < unat (width ?v) \<Longrightarrow> cell_at (svt k1) r x =
         (if r = unat (row ?v) \<and> unat (col ?v) \<le> x \<and> x < unat (col ?v) + length cs
          then vt_cell (cs ! (x - unat (col ?v))) ?v else cell_at ?v r x)"
    using chars_shown [OF ok cs] by auto
  obtain k' where k': "kputc font newline k1 = Some k'" "screen_ok font k'"
      "\<And>r x. r < unat (height (svt k')) \<Longrightarrow> x < unat (width (svt k')) \<Longrightarrow> cell_shown font (fbt k') (svt k') (video k') r x (cell_at (svt k') r x)"
      "width (svt k') = width (svt k1)" "height (svt k') = height (svt k1)" "col (svt k') = 0"
      "unat (row (svt k')) + line_shift (svt k1) = unat (row (svt k1)) + 1"
      "\<And>r x. r + line_shift (svt k1) < unat (height (svt k1)) \<Longrightarrow> x < unat (width (svt k1)) \<Longrightarrow>
         same_glyph (cell_at (svt k') r x) (cell_at (svt k1) (r + line_shift (svt k1)) x)"
    using newline_shown [OF k1(2)] by auto
  have run: "kprints font (cs @ [newline]) k = Some k'"
  proof -
    have "kprints font (cs @ d) k = Option.bind (kprints font cs k) (kprints font d)" for d
      by (induction cs arbitrary: k) (simp_all split: bind_split)
    with k1(1) k'(1) show ?thesis by simp
  qed
  have lt: "unat (row ?v) < unat (height ?v)"
    using ok by (simp add: screen_ok_def vt_ok_def word_less_nat_alt)
  have sh: "line_shift (svt k1) \<le> 1" "line_shift (svt k1) = 1 \<Longrightarrow> unat (row ?v) + 1 = unat (height ?v)"
    using k1(4,5) lt by (auto simp: line_shift_def split: if_splits)
  have pos: "0 < unat (row (svt k'))"
    using k'(7) k1(5) sh h by (cases "line_shift (svt k1)") auto
  let ?r = "unat (row (svt k')) - 1"
  have r: "?r + line_shift (svt k1) = unat (row ?v)" using k'(7) k1(5) pos by simp
  have px: "ld32 (video k') (pixel_at (fbt k') (8 * ?r + s) (unat (col ?v) + j) p) = pixel_color font (vt_cell (cs ! j) ?v) s p"
    if j: "j < length cs" and s: "s < 8" and p: "p < 6" for j s p
  proof -
    have x: "unat (col ?v) + j < unat (width ?v)" using cs(2) j by simp
    then have x1: "unat (col ?v) + j < unat (width (svt k1))" using k1(3) by simp
    have "same_glyph (cell_at (svt k') ?r (unat (col ?v) + j)) (cell_at (svt k1) (?r + line_shift (svt k1)) (unat (col ?v) + j))"
      using k'(8) [OF _ x1, of ?r] r lt k1(4) by simp
    moreover have "cell_at (svt k1) (?r + line_shift (svt k1)) (unat (col ?v) + j) = vt_cell (cs ! j) ?v"
      unfolding r using k1(7) [OF x] j by simp
    ultimately have g: "same_glyph (cell_at (svt k') ?r (unat (col ?v) + j)) (vt_cell (cs ! j) ?v)" by simp
    have "cell_shown font (fbt k') (svt k') (video k') ?r (unat (col ?v) + j) (cell_at (svt k') ?r (unat (col ?v) + j))"
      using k'(3,4,5) k1(3,4) x r lt by simp
    then have "cell_shown font (fbt k') (svt k') (video k') ?r (unat (col ?v) + j) (vt_cell (cs ! j) ?v)"
      by (rule same_glyph_shown [OF g])
    with s p show ?thesis by (simp add: cell_shown_def)
  qed
  from run k'(2,3,6) pos px show ?thesis by blast
qed

text \<open>A terminal of 4 by 2 cells on a screen of 4 by 2 characters.\<close>

definition demo_kio :: kio where
  "demo_kio =
     \<lparr>lvga = vga_new (\<lambda>_. 0),
      svt = \<lparr>col = 0, row = 0, buffer = replicate 8 \<lparr>code = 32, attr = ATTR_UPDATE\<rparr>, height = 2, width = 4, cattr = 0\<rparr>,
      fbt = \<lparr>fbb = 0, pitch = 96, bitmode = 0, fcol = 0, frow = 0, hlim = 90, vlim = 90, fgcolor = 0, bgcolor = 0,
              origin = \<lparr>vx = 0, vy = 0\<rparr>\<rparr>,
      fbt_status = \<lparr>fbb = 0, pitch = 96, bitmode = 0, fcol = 0, frow = 0, hlim = 90, vlim = 90, fgcolor = 0, bgcolor = 0,
              origin = \<lparr>vx = 0, vy = 0\<rparr>\<rparr>,
      video = (\<lambda>_. 0), use_comm = False, comm = [], txtout = Some Svt, txtvc = True, txtfb = True\<rparr>"

lemma demo_screen: "screen_ok font demo_kio"
proof -
  have cell: "cell_at (svt demo_kio) r x = \<lparr>code = 32, attr = ATTR_UPDATE\<rparr>" if "r < 2" "x < 4" for r x
  proof -
    have "4 * r + x < 8" using that by linarith
    then show ?thesis by (simp add: cell_at_def demo_kio_def)
  qed
  have "flagged \<lparr>code = 32, attr = ATTR_UPDATE\<rparr>"
    by (simp add: flagged_def) (simp add: ATTR_UPDATE_def)
  with cell have "consistent font (fbt demo_kio) (svt demo_kio) m" for m
    by (auto simp: consistent_def demo_kio_def)
  then show ?thesis
    by (simp add: screen_ok_def) (simp add: demo_kio_def vt_ok_def fits_screen_def)
qed

lemma line_shown_witness:
  "\<forall>font. \<exists>k'. kprints font (''Hi'' @ [newline]) demo_kio = Some k' \<and> 0 < unat (row (svt k'))
    \<and> ld32 (video k') (pixel_at (fbt k') (8 * (unat (row (svt k')) - 1) + 2) 1 3) = pixel_color font (vt_cell CHR ''i'' (svt demo_kio)) 2 3"
proof
  fix font
  have "newline \<notin> set ''Hi''" by (simp add: newline_def)
  moreover have "unat (col (svt demo_kio)) + length ''Hi'' < unat (width (svt demo_kio))" "1 < unat (height (svt demo_kio))"
    by (simp_all add: demo_kio_def)
  ultimately obtain k' where k': "kprints font (''Hi'' @ [newline]) demo_kio = Some k'" "0 < unat (row (svt k'))"
    "\<forall>j < length ''Hi''. \<forall>s < 8. \<forall>p < 6.
         ld32 (video k') (pixel_at (fbt k') (8 * (unat (row (svt k')) - 1) + s) (unat (col (svt demo_kio)) + j) p)
         = pixel_color font (vt_cell (''Hi'' ! j) (svt demo_kio)) s p"
    using line_shown [OF demo_screen] by blast
  have col: "unat (col (svt demo_kio)) = 0" by (simp add: demo_kio_def)
  have "ld32 (video k') (pixel_at (fbt k') (8 * (unat (row (svt k')) - 1) + 2) (unat (col (svt demo_kio)) + 1) 3)
      = pixel_color font (vt_cell (''Hi'' ! 1) (svt demo_kio)) 2 3"
    by (rule k'(3) [rule_format]) simp_all
  with k'(1,2) col show "\<exists>k'. kprints font (''Hi'' @ [newline]) demo_kio = Some k' \<and> 0 < unat (row (svt k'))
    \<and> ld32 (video k') (pixel_at (fbt k') (8 * (unat (row (svt k')) - 1) + 2) 1 3) = pixel_color font (vt_cell CHR ''i'' (svt demo_kio)) 2 3"
    by auto
qed

text \<open>Two new lines without a drawing between them lose the mark of a changed cell: the first line shows \<open>x\<close> for good, though
  the terminal has \<open>y\<close> there.\<close>

lemma scroll_loses_update:
  assumes "code x \<noteq> code y" "\<not> flagged x" "\<not> flagged y"
  shows "scroll 1 3 a (scroll 1 3 a [x, y, y]) ! 0 = y"
proof -
  have m: "moved x y = y\<lparr>attr := attr y OR ATTR_UPDATE\<rparr>" "moved y y = y" "moved (y\<lparr>attr := attr y OR ATTR_UPDATE\<rparr>) y = y"
    using assms(1) by (auto simp: moved_def same_glyph_def)
  have "scroll 1 3 a [x, y, y] ! 0 = y\<lparr>attr := attr y OR ATTR_UPDATE\<rparr>" "scroll 1 3 a [x, y, y] ! 1 = y"
    using scroll_nth [of 1 3 "[x, y, y]"] m by simp_all
  then show ?thesis
    using scroll_nth [of 1 3 "scroll 1 3 a [x, y, y]"] m by simp
qed

text \<open>Nothing that is printed to the terminal makes the kernel write outside its buffer.\<close>

lemma iprints_other: "txtout k \<noteq> Some Svt \<Longrightarrow>
    iprints font (Some Svt) cs k = map_option (\<lambda>v. k\<lparr>svt := v\<rparr>) (emit vt_putc vt_nextline cs (svt k))"
proof (induction cs arbitrary: k)
  case (Cons c cs)
  then show ?case
    by (cases "if c = newline then vt_nextline (svt k) else vt_putc c (svt k)")
      (auto simp: iputc_def tio_putc_def tio_nextline_def option.map_comp comp_def)
qed simp

lemma kprints_terminal:
  assumes "vt_ok (svt k)"
  shows "txtout k = Some Svt \<Longrightarrow> \<not> txtfb k \<Longrightarrow> \<exists>k'. kprints font cs k = Some k' \<and> vt_ok (svt k')"
    and "txtout k \<noteq> Some Svt \<Longrightarrow> \<exists>k'. iprints font (Some Svt) cs k = Some k' \<and> vt_ok (svt k')"
proof -
  show "txtout k \<noteq> Some Svt \<Longrightarrow> \<exists>k'. iprints font (Some Svt) cs k = Some k' \<and> vt_ok (svt k')"
    using vterm.emit_law [OF assms, of cs] by (auto simp: iprints_other)
  show "txtout k = Some Svt \<Longrightarrow> \<not> txtfb k \<Longrightarrow> \<exists>k'. kprints font cs k = Some k' \<and> vt_ok (svt k')"
  using assms
proof (induction cs arbitrary: k)
  case (Cons c cs)
  have "\<exists>k1. kputc font c k = Some k1 \<and> vt_ok (svt k1) \<and> txtout k1 = Some Svt \<and> \<not> txtfb k1"
    using vterm.putc_law [OF Cons.prems(3), of c] vterm.next_law [OF Cons.prems(3)] Cons.prems(1,2)
    by (auto simp: kputc_def tio_putc_def tio_nextline_def Let_def)
  with Cons.IH show ?case by fastforce
qed simp
qed

end
