(* ===== verification/Names.thy ===== *)
theory Names
  imports Prelude
begin

text \<open>
  The ACPI namespace (\<open>NSEntry\<close>, \<open>NameBlock\<close> and \<open>AMLName\<close> of \<open>src/kernel/aml.cpp\<close>).

  The entries lie in blocks of \<open>ECOUNT\<close>; a pointer to an entry is its number, counted through the blocks in the order in
  which they were asked for, and \<open>curr_block\<close> is the last of them. An entry has a list of children: \<open>inner\<close> points to the
  first, \<open>next\<close> (here \<open>sibling\<close>) to the following one, \<open>up\<close> back to the parent. The page that \<open>init_block\<close> asks of
  \<open>vmm_request\<close> is taken to be there (the code does not look at a null answer).

  The lemmas show what the pointers promise: the children of each entry are a list without repetition whose names differ,
  \<open>find\<close> looks a name up in it, \<open>find_or_new\<close> adds one entry at its end and leaves every other list as it was.
\<close>

subsection \<open>Entries\<close>

type_synonym seg = "u8 \<times> u8 \<times> u8 \<times> u8"

record ns_entry =
  ename :: seg
  e_type :: u8
  aml_length :: u32
  aml_source :: "nat option"
  up :: "nat option"
  inner :: "nat option"
  sibling :: "nat option"

text \<open>\<open>init\<close> leaves \<open>aml_length\<close> alone.\<close>

definition entry_init :: "ns_entry \<Rightarrow> ns_entry" where
  "entry_init e = e\<lparr>ename := (0, 0, 0, 0), e_type := 0, aml_source := None, up := None, sibling := None, inner := None\<rparr>"

definition ECOUNT :: nat where
  "ECOUNT = 144"

text \<open>A fresh page holds zeroes before the entries are initialised.\<close>

definition zero_entry :: ns_entry where
  "zero_entry = \<lparr>ename = (0, 0, 0, 0), e_type = 0, aml_length = 0, aml_source = None, up = None, inner = None, sibling = None\<rparr>"

definition block_init :: "ns_entry list" where
  "block_init = map entry_init (replicate ECOUNT zero_entry)"

definition init_block :: "ns_entry list \<Rightarrow> ns_entry list" where
  "init_block es = (if es = [] then block_init[0 := (block_init ! 0)\<lparr>ename := (0x5c, 0, 0, 0)\<rparr>] else es @ block_init)"

definition get_root :: nat where
  "get_root = 0"

subsection \<open>Looking a name up\<close>

abbreviation seg_null :: "seg \<Rightarrow> bool" where
  "seg_null n \<equiv> fst n = 0"

partial_function (option) find_in :: "ns_entry list \<Rightarrow> seg \<Rightarrow> nat option \<Rightarrow> nat option option" where
  "find_in es n s = (case s of
      None \<Rightarrow> Some None
    | Some i \<Rightarrow> if ename (es ! i) = n then Some (Some i) else find_in es n (sibling (es ! i)))"

definition find_entry :: "ns_entry list \<Rightarrow> seg \<Rightarrow> nat option \<Rightarrow> nat option option" where
  "find_entry es n ctx = (if seg_null n then Some None
     else find_in es n (case ctx of None \<Rightarrow> None | Some c \<Rightarrow> inner (es ! c)))"

subsection \<open>Making an entry\<close>

fun free_from :: "ns_entry list \<Rightarrow> nat \<Rightarrow> nat \<Rightarrow> nat option" where
  "free_from es i 0 = None"
| "free_from es i (Suc n) = (if seg_null (ename (es ! i)) then Some i else free_from es (Suc i) n)"

partial_function (option) make :: "seg \<Rightarrow> ns_entry list \<Rightarrow> (nat \<times> ns_entry list) option" where
  "make n es = (case free_from es (length es - ECOUNT) ECOUNT of
      Some i \<Rightarrow> Some (i, es[i := (entry_init (es ! i))\<lparr>ename := n\<rparr>])
    | None \<Rightarrow> make n (init_block es))"

text \<open>The pointer to a pointer that walks the list (\<open>s_in\<close>): the list's head in the parent, or the link of an entry.\<close>

datatype slot = Inner nat | Next nat

fun slot_get :: "ns_entry list \<Rightarrow> slot \<Rightarrow> nat option" where
  "slot_get es (Inner i) = inner (es ! i)"
| "slot_get es (Next i) = sibling (es ! i)"

fun slot_set :: "ns_entry list \<Rightarrow> slot \<Rightarrow> nat option \<Rightarrow> ns_entry list" where
  "slot_set es (Inner i) p = es[i := (es ! i)\<lparr>inner := p\<rparr>]"
| "slot_set es (Next i) p = es[i := (es ! i)\<lparr>sibling := p\<rparr>]"

partial_function (option) locate :: "ns_entry list \<Rightarrow> seg \<Rightarrow> slot \<Rightarrow> (nat + slot) option" where
  "locate es n s_in = (case slot_get es s_in of
      None \<Rightarrow> Some (Inr s_in)
    | Some i \<Rightarrow> if ename (es ! i) = n then Some (Inl i) else locate es n (Next i))"

declare find_in.simps [code] make.simps [code] locate.simps [code]

definition blank_seg :: "seg \<Rightarrow> seg" where
  "blank_seg n = (if seg_null n then (0x5f, 0x5f, 0x5f, 0x5f) else n)"

text \<open>The answer, the name as it is left behind, and the entries.\<close>

definition find_or_new :: "seg \<Rightarrow> nat option \<Rightarrow> ns_entry list \<Rightarrow> (nat \<times> seg \<times> ns_entry list) option" where
  "find_or_new n0 ctx es = (let root = (case ctx of None \<Rightarrow> get_root | Some c \<Rightarrow> c); n = blank_seg n0 in
     case locate es n (Inner root) of
       None \<Rightarrow> None
     | Some (Inl i) \<Rightarrow> Some (i, n, es)
     | Some (Inr s_in) \<Rightarrow> (case make n es of
           None \<Rightarrow> None
         | Some (i, es1) \<Rightarrow> Some (i, n, slot_set (es1[i := (es1 ! i)\<lparr>up := Some root\<rparr>]) s_in (Some i))))"

subsection \<open>What the pointers promise\<close>

primrec chain :: "ns_entry list \<Rightarrow> nat option \<Rightarrow> nat list \<Rightarrow> bool" where
  "chain es s [] \<longleftrightarrow> s = None"
| "chain es s (x # xs) \<longleftrightarrow> s = Some x \<and> chain es (sibling (es ! x)) xs"

text \<open>The first \<open>n\<close> entries are in use; \<open>kids\<close> are the children of each: a list, without a name twice, of younger entries that
  point back. Every entry but the root is the child of an older one, so that the entries are a tree.\<close>

definition ns_rel :: "nat \<Rightarrow> (nat \<Rightarrow> nat list) \<Rightarrow> ns_entry list \<Rightarrow> bool" where
  "ns_rel n kids es \<longleftrightarrow> ECOUNT \<le> length es \<and> length es < n + ECOUNT \<and> n \<le> length es \<and> 0 < n
     \<and> (\<forall>i < length es. seg_null (ename (es ! i)) \<longleftrightarrow> n \<le> i)
     \<and> (\<forall>i < n. chain es (inner (es ! i)) (kids i))
     \<and> (\<forall>i < n. distinct (map (\<lambda>x. ename (es ! x)) (kids i)))
     \<and> (\<forall>i < n. \<forall>x \<in> set (kids i). i < x \<and> x < n \<and> up (es ! x) = Some i)
     \<and> (\<forall>x < n. 0 < x \<longrightarrow> (\<exists>i < x. x \<in> set (kids i)))"


definition in_use :: "ns_entry list \<Rightarrow> nat \<Rightarrow> bool" where
  "in_use es i \<longleftrightarrow> i < length es \<and> \<not> seg_null (ename (es ! i))"

text \<open>An entry's type is an index of \<open>e_types\<close>, the six texts that the display prints for it.\<close>

definition types_ok :: "ns_entry list \<Rightarrow> bool" where
  "types_ok es \<longleftrightarrow> (\<forall>i. in_use es i \<longrightarrow> e_type (es ! i) < 6)"

definition ns_ok :: "ns_entry list \<Rightarrow> bool" where
  "ns_ok es \<longleftrightarrow> (\<exists>n kids. ns_rel n kids es) \<and> types_ok es"

lemma ns_rel_sizes:
  assumes "ns_rel n kids es"
  shows "0 < n" "n \<le> length es" "length es < n + ECOUNT" "ECOUNT \<le> length es"
  using assms unfolding ns_rel_def by blast+

lemma ns_rel_null: "ns_rel n kids es \<Longrightarrow> i < length es \<Longrightarrow> seg_null (ename (es ! i)) \<longleftrightarrow> n \<le> i"
  unfolding ns_rel_def by blast

lemma ns_rel_chain: "ns_rel n kids es \<Longrightarrow> i < n \<Longrightarrow> chain es (inner (es ! i)) (kids i)"
  unfolding ns_rel_def by blast

lemma ns_rel_names: "ns_rel n kids es \<Longrightarrow> i < n \<Longrightarrow> distinct (map (\<lambda>x. ename (es ! x)) (kids i))"
  unfolding ns_rel_def by blast

lemma ns_rel_kid: "ns_rel n kids es \<Longrightarrow> i < n \<Longrightarrow> x \<in> set (kids i) \<Longrightarrow> i < x \<and> x < n \<and> up (es ! x) = Some i"
  unfolding ns_rel_def by blast

lemma ns_rel_parent: "ns_rel n kids es \<Longrightarrow> x < n \<Longrightarrow> 0 < x \<Longrightarrow> \<exists>i < x. x \<in> set (kids i)"
  unfolding ns_rel_def by blast

lemma ns_rel_in_use: "ns_rel n kids es \<Longrightarrow> in_use es i \<longleftrightarrow> i < n"
  using ns_rel_null [of n kids es i] ns_rel_sizes [of n kids es] by (auto simp: in_use_def)

subsection \<open>The searches end and answer from the list\<close>

definition named_in :: "ns_entry list \<Rightarrow> seg \<Rightarrow> nat list \<Rightarrow> nat option" where
  "named_in es n xs = List.find (\<lambda>x. ename (es ! x) = n) xs"

lemma find_in_chain: "chain es s xs \<Longrightarrow> find_in es n s = Some (named_in es n xs)"
  by (induction xs arbitrary: s) (simp_all add: find_in.simps named_in_def)

lemma find_entry_kids:
  assumes "ns_rel n kids es" "c < n" "\<not> seg_null nm"
  shows "find_entry es nm (Some c) = Some (named_in es nm (kids c))"
  using find_in_chain [OF ns_rel_chain [OF assms(1,2)]] assms(3) by (simp add: find_entry_def)

lemma find_entry_no_context: "find_entry es nm None = Some None"
  by (simp add: find_entry_def find_in.simps)

lemma named_in_Some: "named_in es n xs = Some x \<Longrightarrow> x \<in> set xs \<and> ename (es ! x) = n"
  by (auto simp: named_in_def find_Some_iff)

lemma named_in_None: "named_in es n xs = None \<longleftrightarrow> (\<forall>x \<in> set xs. ename (es ! x) \<noteq> n)"
  by (auto simp: named_in_def find_None_iff)

lemma named_in_iff:
  assumes "distinct (map (\<lambda>x. ename (es ! x)) xs)"
  shows "named_in es n xs = Some x \<longleftrightarrow> x \<in> set xs \<and> ename (es ! x) = n"
proof
  assume R: "x \<in> set xs \<and> ename (es ! x) = n"
  then obtain y where y: "named_in es n xs = Some y" 
    using named_in_None [of es n xs] by (cases "named_in es n xs") blast+
  then have "y \<in> set xs" "ename (es ! y) = n" using named_in_Some by blast+
  with R assms have "y = x" by (auto simp: distinct_map dest: inj_onD)
  with y show "named_in es n xs = Some x" by simp
qed (simp add: named_in_Some)

definition end_slot :: "slot \<Rightarrow> nat list \<Rightarrow> slot" where
  "end_slot sl xs = (if xs = [] then sl else Next (last xs))"

lemma locate_chain:
  "chain es (slot_get es sl) xs \<Longrightarrow>
   locate es n sl = Some (case named_in es n xs of Some x \<Rightarrow> Inl x | None \<Rightarrow> Inr (end_slot sl xs))"
proof (induction xs arbitrary: sl)
  case Nil
  then show ?case by (simp add: locate.simps named_in_def end_slot_def)
next
  case (Cons x xs)
  then have s: "slot_get es sl = Some x" "chain es (slot_get es (Next x)) xs" by simp_all
  show ?case
    using Cons.IH [OF s(2)] s(1) by (simp add: locate.simps [of es n sl] named_in_def end_slot_def split: option.split)
qed

subsection \<open>Making an entry takes the next one\<close>

lemma free_from_first:
  assumes "i \<le> j" "j < i + n" "\<forall>k. i \<le> k \<and> k < j \<longrightarrow> \<not> seg_null (ename (es ! k))" "seg_null (ename (es ! j))"
  shows "free_from es i n = Some j"
  using assms
proof (induction n arbitrary: i)
  case (Suc n)
  then show ?case by (cases "i = j") (auto simp: Suc_le_eq le_neq_implies_less)
qed simp

lemma free_from_full:
  "\<forall>k. i \<le> k \<and> k < i + n \<longrightarrow> \<not> seg_null (ename (es ! k)) \<Longrightarrow> free_from es i n = None"
  by (induction n arbitrary: i) auto

lemma block_init_nth: "k < ECOUNT \<Longrightarrow> block_init ! k = entry_init zero_entry"
  by (simp add: block_init_def)

lemma block_init_length: "length block_init = ECOUNT"
  by (simp add: block_init_def)

lemma entry_init_null: "seg_null (ename (entry_init e))"
  by (simp add: entry_init_def)

definition fresh_entry :: "seg \<Rightarrow> ns_entry \<Rightarrow> bool" where
  "fresh_entry nm e \<longleftrightarrow> ename e = nm \<and> e_type e = 0 \<and> aml_source e = None \<and> up e = None \<and> inner e = None \<and> sibling e = None"

text \<open>Whether the last block has room or a new one is asked for, the first \<open>n\<close> entries stay and entry \<open>n\<close> is the new one.\<close>

lemma make_next:
  assumes R: "ns_rel n kids es" and nm: "\<not> seg_null nm"
  obtains es1 where "make nm es = Some (n, es1)" "n < length es1" "length es1 < Suc n + ECOUNT" "ECOUNT \<le> length es1"
    "\<forall>i < n. es1 ! i = es ! i" "fresh_entry nm (es1 ! n)" "\<forall>i < length es1. n < i \<longrightarrow> seg_null (ename (es1 ! i))"
    "length es \<le> length es1"
proof (cases "n < length es")
  case True
  have "free_from es (length es - ECOUNT) ECOUNT = Some n"
    using ns_rel_sizes [OF R] True ns_rel_null [OF R] by (intro free_from_first) auto
  then have "make nm es = Some (n, es[n := (entry_init (es ! n))\<lparr>ename := nm\<rparr>])" (is "_ = Some (n, ?es)")
    by (simp add: make.simps)
  moreover have "fresh_entry nm (?es ! n)"
    using True by (simp add: fresh_entry_def entry_init_def)
  moreover have "\<forall>i < length ?es. n < i \<longrightarrow> seg_null (ename (?es ! i))"
    using ns_rel_null [OF R] by simp
  ultimately show ?thesis using that [of ?es] True ns_rel_sizes [OF R] by simp
next
  case False
  with ns_rel_sizes [OF R] have n: "n = length es" by simp
  have es: "es \<noteq> []" using n ns_rel_sizes [OF R] by auto
  have len: "length (init_block es) = n + ECOUNT" using es n by (simp add: init_block_def block_init_length)
  have old: "init_block es ! i = es ! i" if "i < n" for i using es n that by (simp add: init_block_def nth_append)
  have new: "init_block es ! i = entry_init zero_entry" if "n \<le> i" "i < n + ECOUNT" for i
    using es n that by (simp add: init_block_def nth_append block_init_nth)
  have E: "0 < ECOUNT" by (simp add: ECOUNT_def)
  have "free_from es (length es - ECOUNT) ECOUNT = None"
    using ns_rel_null [OF R] n ns_rel_sizes [OF R] by (intro free_from_full) auto
  moreover have "free_from (init_block es) (length (init_block es) - ECOUNT) ECOUNT = Some n"
    using new [of n] len E by (intro free_from_first) (auto simp: entry_init_null)
  ultimately have "make nm es = Some (n, (init_block es)[n := (entry_init (init_block es ! n))\<lparr>ename := nm\<rparr>])" (is "_ = Some (n, ?es)")
    by (simp add: make.simps [of nm es] make.simps [of nm "init_block es"])
  moreover have "fresh_entry nm (?es ! n)"
    using len E by (simp add: fresh_entry_def entry_init_def)
  moreover have "\<forall>i < length ?es. n < i \<longrightarrow> seg_null (ename (?es ! i))"
    using new len by (simp add: entry_init_null)
  ultimately show ?thesis using that [of ?es] len E old n by simp
qed


subsection \<open>Finding or adding a name refines a tree of names\<close>

text \<open>What \<open>find_or_new\<close> leaves alone of the entries in use: all but the links to children and siblings.\<close>

definition same_entry :: "ns_entry \<Rightarrow> ns_entry \<Rightarrow> bool" where
  "same_entry e e' \<longleftrightarrow> ename e' = ename e \<and> e_type e' = e_type e \<and> aml_length e' = aml_length e \<and> aml_source e' = aml_source e \<and> up e' = up e"

definition kept :: "ns_entry list \<Rightarrow> ns_entry list \<Rightarrow> bool" where
  "kept es es' \<longleftrightarrow> length es \<le> length es' \<and> (\<forall>i. in_use es i \<longrightarrow> in_use es' i \<and> same_entry (es ! i) (es' ! i))"

lemma same_entry_refl [simp]: "same_entry e e"
  by (simp add: same_entry_def)

lemma same_entry_trans: "same_entry a b \<Longrightarrow> same_entry b c \<Longrightarrow> same_entry a c"
  by (simp add: same_entry_def)

lemma kept_refl [simp]: "kept es es"
  by (simp add: kept_def)

lemma kept_trans: "kept a b \<Longrightarrow> kept b c \<Longrightarrow> kept a c"
  unfolding kept_def by (meson order_trans same_entry_trans)

lemma kept_in_use: "kept es es' \<Longrightarrow> in_use es i \<Longrightarrow> in_use es' i"
  by (simp add: kept_def)

lemma kept_name: "kept es es' \<Longrightarrow> in_use es i \<Longrightarrow> ename (es' ! i) = ename (es ! i)"
  by (simp add: kept_def same_entry_def)

lemma blank_seg_not_null [simp]: "\<not> seg_null (blank_seg n)"
  by (simp add: blank_seg_def)

lemma blank_seg_id [simp]: "\<not> seg_null n \<Longrightarrow> blank_seg n = n"
  by (simp add: blank_seg_def)

lemma chain_cong:
  "chain es s xs \<Longrightarrow> \<forall>x \<in> set xs. sibling (es' ! x) = sibling (es ! x) \<Longrightarrow> chain es' s xs"
  by (induction xs arbitrary: s) simp_all

text \<open>Writing the end slot of a list adds an element to it.\<close>

lemma chain_append:
  assumes "chain es s xs" "distinct xs" "n \<notin> set xs" "sibling (es' ! n) = None"
    "\<forall>x \<in> set xs. x \<noteq> last xs \<longrightarrow> sibling (es' ! x) = sibling (es ! x)" "xs \<noteq> [] \<Longrightarrow> sibling (es' ! last xs) = Some n"
  shows "chain es' (if xs = [] then Some n else s) (xs @ [n])"
  using assms
proof (induction xs arbitrary: s)
  case (Cons x xs)
  show ?case
  proof (cases "xs = []")
    case False
    then have "x \<noteq> last xs" using Cons.prems(2) by auto
    moreover have "chain es' (if xs = [] then Some n else sibling (es ! x)) (xs @ [n])"
      using Cons.prems False by (intro Cons.IH) auto
    ultimately show ?thesis using Cons.prems(1,5) False by simp
  qed (use Cons.prems in simp)
qed simp

lemma update_same:
  assumes "same_entry (es ! k) e"
  shows "same_entry (es ! i) (es[k := e] ! i)"
  using assms by (cases "i = k"; cases "k < length es") (simp_all add: list_update_beyond)

lemma slot_set_same: "same_entry (es ! i) (slot_set es sl p ! i)"
proof (cases sl)
  case (Inner k)
  show ?thesis unfolding Inner slot_set.simps by (rule update_same) (simp add: same_entry_def)
next
  case (Next k)
  show ?thesis unfolding Next slot_set.simps by (rule update_same) (simp add: same_entry_def)
qed

lemma slot_set_length [simp]: "length (slot_set es sl p) = length es"
  by (cases sl) simp_all

lemma ns_rel_distinct: "ns_rel n kids es \<Longrightarrow> i < n \<Longrightarrow> distinct (kids i)"
  using ns_rel_names distinct_map by blast

lemma ns_relI:
  assumes "ECOUNT \<le> length es" "length es < n + ECOUNT" "n \<le> length es" "0 < n"
    "\<And>i. i < length es \<Longrightarrow> seg_null (ename (es ! i)) \<longleftrightarrow> n \<le> i"
    "\<And>i. i < n \<Longrightarrow> chain es (inner (es ! i)) (kids i)"
    "\<And>i. i < n \<Longrightarrow> distinct (map (\<lambda>x. ename (es ! x)) (kids i))"
    "\<And>i x. i < n \<Longrightarrow> x \<in> set (kids i) \<Longrightarrow> i < x \<and> x < n \<and> up (es ! x) = Some i"
    "\<And>x. x < n \<Longrightarrow> 0 < x \<Longrightarrow> \<exists>i < x. x \<in> set (kids i)"
  shows "ns_rel n kids es"
  unfolding ns_rel_def using assms by blast

text \<open>The links after an insertion: only the list that grows has a new link.\<close>

lemma slot_set_end:
  fixes es :: "ns_entry list"
  assumes "sl = end_slot (Inner c) xs" "c < length es" "\<forall>x \<in> set xs. x < length es"
  shows "sibling (slot_set es sl p ! i) = (if xs \<noteq> [] \<and> i = last xs then p else sibling (es ! i))"
    "inner (slot_set es sl p ! i) = (if xs = [] \<and> i = c then p else inner (es ! i))"
  using assms by (cases "xs = []"; cases "i = c"; cases "i = last xs"; simp add: end_slot_def)+

lemma insert_links:
  assumes R: "ns_rel n kids es" and c: "c < n" and nm: "\<not> seg_null nm"
    and new: "\<forall>x \<in> set (kids c). ename (es ! x) \<noteq> nm"
    and len: "n < length es1" "length es1 < Suc n + ECOUNT" "ECOUNT \<le> length es1"
    and old: "\<forall>i < n. es1 ! i = es ! i" and e: "fresh_entry nm (es1 ! n)"
    and rest: "\<forall>i < length es1. n < i \<longrightarrow> seg_null (ename (es1 ! i))"
    and es': "es' = slot_set (es1[n := (es1 ! n)\<lparr>up := Some c\<rparr>]) (end_slot (Inner c) (kids c)) (Some n)"
  shows "ns_rel (Suc n) (kids(c := kids c @ [n], n := [])) es'"
proof -
  let ?es2 = "es1[n := (es1 ! n)\<lparr>up := Some c\<rparr>]" and ?kids = "kids(c := kids c @ [n], n := [])"
  have kid: "x \<in> set (kids i) \<Longrightarrow> i < n \<Longrightarrow> i < x \<and> x < n \<and> up (es ! x) = Some i" for i x using ns_rel_kid [OF R] by blast
  have fields: "same_entry (?es2 ! i) (es' ! i)" for i unfolding es' by (rule slot_set_same)
  have nth2: "?es2 ! i = es ! i" if "i < n" for i using old that by simp
  have newent: "ename (es' ! n) = nm" "up (es' ! n) = Some c"
    using fields [of n] len(1) e by (simp_all add: same_entry_def fresh_entry_def)
  have oldent: "ename (es' ! i) = ename (es ! i)" "up (es' ! i) = up (es ! i)" if "i < n" for i
    using fields [of i] nth2 [OF that] by (simp_all add: same_entry_def)
  have lim: "c < length ?es2" "\<forall>x \<in> set (kids c). x < length ?es2" using c len(1) kid [OF _ c] by (auto intro: less_trans)
  note links = slot_set_end [OF refl lim, where p = "Some n", folded es']
  have sib: "sibling (es' ! i) = (if kids c \<noteq> [] \<and> i = last (kids c) then Some n else sibling (?es2 ! i))" for i by (rule links)
  have inn: "inner (es' ! i) = (if kids c = [] \<and> i = c then Some n else inner (?es2 ! i))" for i by (rule links)
  have sib_old: "sibling (es' ! x) = sibling (es ! x)" if "x < n" "kids c = [] \<or> x \<noteq> last (kids c)" for x
    using sib [of x] nth2 [OF that(1)] that(2) by auto
  have last: "last (kids c) \<in> set (kids c)" if "kids c \<noteq> []" using that by simp
  have other: "last (kids c) \<notin> set (kids i)" if "i < n" "i \<noteq> c" "kids c \<noteq> []" for i
    using kid [OF _ that(1)] kid [OF last [OF that(3)] c] that(2) by auto
  have L: "length es' = length es1" by (simp add: es')
  have chains: "chain es' (inner (es' ! i)) (?kids i)" if i: "i < Suc n" for i
  proof -
    consider "i = n" | "i = c" "i < n" | "i \<noteq> c" "i < n" using i less_antisym by blast
    then show ?thesis
    proof cases
      case 1
      then show ?thesis using inn [of n] c e len(1) by (simp add: fresh_entry_def)
    next
      case 2
      have "kids c \<noteq> [] \<Longrightarrow> n \<noteq> last (kids c)" using kid [OF last c] by auto
      then have s: "sibling (es' ! n) = None" using sib [of n] e len(1) by (auto simp: fresh_entry_def)
      have nn: "n \<notin> set (kids c)" using kid [OF _ c] by auto
      have "chain es' (if kids c = [] then Some n else inner (es ! c)) (kids c @ [n])"
      proof (rule chain_append [OF ns_rel_chain [OF R c] ns_rel_distinct [OF R c] nn s])
        show "\<forall>x \<in> set (kids c). x \<noteq> last (kids c) \<longrightarrow> sibling (es' ! x) = sibling (es ! x)"
          using sib_old kid [OF _ c] by blast
        show "sibling (es' ! last (kids c)) = Some n" if "kids c \<noteq> []" using sib that by simp
      qed
      then show ?thesis using 2 inn [of c] nth2 [OF c] by (auto split: if_splits)
    next
      case 3
      have "chain es' (inner (es ! i)) (kids i)"
        using sib_old other [OF 3(2,1)] kid [OF _ 3(2)]
        by (intro chain_cong [OF ns_rel_chain [OF R 3(2)]] ballI) blast
      then show ?thesis using 3 inn [of i] nth2 by simp
    qed
  qed
  have names: "distinct (map (\<lambda>x. ename (es' ! x)) (?kids i))" if "i < Suc n" for i
  proof (cases "i = n")
    case False
    with that have i: "i < n" by simp
    have m: "map (\<lambda>x. ename (es' ! x)) (kids i) = map (\<lambda>x. ename (es ! x)) (kids i)"
      using oldent(1) kid [OF _ i] by auto
    have d: "distinct (map (\<lambda>x. ename (es' ! x)) (kids i))" unfolding m by (rule ns_rel_names [OF R i])
    show ?thesis
    proof (cases "i = c")
      case True
      have "nm \<notin> (\<lambda>x. ename (es' ! x)) ` set (kids c)"
        using new oldent(1) kid [OF _ c] by (metis (no_types, lifting) image_iff)
      then show ?thesis using d True False newent(1) by simp
    qed (use d False in simp)
  qed simp
  have kids': "\<forall>x \<in> set (?kids i). i < x \<and> x < Suc n \<and> up (es' ! x) = Some i" if "i < Suc n" for i
    using that kid oldent(2) newent(2) c by (auto simp: less_Suc_eq)
  have parents: "\<exists>i < x. x \<in> set (?kids i)" if xn: "x < Suc n" and x0: "0 < x" for x
  proof (cases "x = n")
    case True
    then show ?thesis using c by auto
  next
    case False
    with xn have "x < n" by simp
    then obtain i where "i < x" "x \<in> set (kids i)" using ns_rel_parent [OF R] x0 by blast
    then show ?thesis using \<open>x < n\<close> by (intro exI [of _ i]) auto
  qed
  have nulls: "seg_null (ename (es' ! i)) \<longleftrightarrow> Suc n \<le> i" if "i < length es'" for i
  proof -
    consider "i < n" | "i = n" | "n < i" by linarith
    then show ?thesis
    proof cases
      case 1
      then show ?thesis using oldent(1) ns_rel_null [OF R, of i] ns_rel_sizes [OF R] by simp
    next
      case 2
      then show ?thesis using newent(1) nm by simp
    next
      case 3
      then show ?thesis using fields [of i] rest that L by (simp add: same_entry_def)
    qed
  qed
  show ?thesis
  proof (rule ns_relI)
    show "ECOUNT \<le> length es'" "length es' < Suc n + ECOUNT" "Suc n \<le> length es'" using len L by simp_all
    show "\<exists>i < x. x \<in> set (?kids i)" if "x < Suc n" "0 < x" for x using parents that by blast
  qed (use nulls chains names kids' in blast)+
qed

text \<open>The abstract operation: the child with that name if there is one, otherwise a new last child.\<close>

definition abs_find_or_new ::
  "(nat \<Rightarrow> seg) \<Rightarrow> seg \<Rightarrow> nat \<Rightarrow> nat \<times> (nat \<Rightarrow> nat list) \<Rightarrow> nat \<times> (nat \<times> (nat \<Rightarrow> nat list))" where
  "abs_find_or_new name_of nm c t = (case List.find (\<lambda>x. name_of x = nm) (snd t c) of
      Some x \<Rightarrow> (x, t)
    | None \<Rightarrow> (fst t, Suc (fst t), (snd t)(c := snd t c @ [fst t], fst t := [])))"

lemma find_or_new_refines:
  assumes R: "ns_rel n kids es" and c: "(case ctx of None \<Rightarrow> get_root | Some c \<Rightarrow> c) = c" "c < n"
  obtains x es' n' kids' where "find_or_new nm ctx es = Some (x, blank_seg nm, es')"
    "abs_find_or_new (\<lambda>i. ename (es ! i)) (blank_seg nm) c (n, kids) = (x, n', kids')"
    "ns_rel n' kids' es'" "kept es es'" "x \<in> set (kids' c)" "ename (es' ! x) = blank_seg nm"
    "es' = es \<or> n' = Suc n \<and> e_type (es' ! n) = 0"
proof (cases "named_in es (blank_seg nm) (kids c)")
  case (Some x)
  then have "locate es (blank_seg nm) (Inner c) = Some (Inl x)"
    using locate_chain [of es "Inner c"] ns_rel_chain [OF R c(2)] by simp
  then have F: "find_or_new nm ctx es = Some (x, blank_seg nm, es)" using c(1) by (simp add: find_or_new_def Let_def)
  have A: "abs_find_or_new (\<lambda>i. ename (es ! i)) (blank_seg nm) c (n, kids) = (x, n, kids)"
    using Some by (simp add: abs_find_or_new_def named_in_def)
  show ?thesis
    by (rule that [OF F A R]) (use named_in_Some [OF Some] in simp_all)
next
  case None
  let ?nm = "blank_seg nm"
  obtain es1 where m: "make ?nm es = Some (n, es1)" "n < length es1" "length es1 < Suc n + ECOUNT" "ECOUNT \<le> length es1"
    "\<forall>i < n. es1 ! i = es ! i" "fresh_entry ?nm (es1 ! n)" "\<forall>i < length es1. n < i \<longrightarrow> seg_null (ename (es1 ! i))"
    "length es \<le> length es1"
    using make_next [OF R blank_seg_not_null] by blast
  define es' where "es' = slot_set (es1[n := (es1 ! n)\<lparr>up := Some c\<rparr>]) (end_slot (Inner c) (kids c)) (Some n)"
  have "locate es ?nm (Inner c) = Some (Inr (end_slot (Inner c) (kids c)))"
    using locate_chain [of es "Inner c"] ns_rel_chain [OF R c(2)] None by simp
  then have F: "find_or_new nm ctx es = Some (n, ?nm, es')"
    using c(1) m(1) by (simp add: find_or_new_def Let_def es'_def)
  have A: "abs_find_or_new (\<lambda>i. ename (es ! i)) ?nm c (n, kids) = (n, Suc n, kids(c := kids c @ [n], n := []))"
    using None by (simp add: abs_find_or_new_def named_in_def)
  have R': "ns_rel (Suc n) (kids(c := kids c @ [n], n := [])) es'"
    using None by (intro insert_links [OF R c(2) blank_seg_not_null _ m(2-7) es'_def]) (simp add: named_in_None)
  have same: "same_entry (es1[n := (es1 ! n)\<lparr>up := Some c\<rparr>] ! i) (es' ! i)" for i
    unfolding es'_def by (rule slot_set_same)
  have "same_entry (es ! i) (es' ! i)" if "i < n" for i using same [of i] m(5) that by simp
  then have K: "kept es es'"
    using ns_rel_in_use [OF R] ns_rel_in_use [OF R'] ns_rel_sizes [OF R] ns_rel_sizes [OF R'] m(2-4,8)
    by (auto simp: kept_def es'_def)
  have E: "ename (es' ! n) = ?nm" "e_type (es' ! n) = 0" "aml_source (es' ! n) = None"
    using same [of n] m(2,6) by (simp_all add: same_entry_def fresh_entry_def)
  show ?thesis by (rule that [OF F A R' K]) (use E c(2) in simp_all)
qed

text \<open>The namespace starts as the root alone.\<close>

lemma root_namespace: "ns_rel 1 (\<lambda>_. []) (init_block [])"
proof -
  have E: "0 < ECOUNT" by (simp add: ECOUNT_def)
  have nth: "init_block [] ! i = (if i = 0 then (entry_init zero_entry)\<lparr>ename := (0x5c, 0, 0, 0)\<rparr> else entry_init zero_entry)"
    if "i < ECOUNT" for i
    using that by (simp add: init_block_def block_init_length block_init_nth nth_list_update)
  have L: "length (init_block []) = ECOUNT" by (simp add: init_block_def block_init_length)
  have "seg_null (ename (init_block [] ! i)) \<longleftrightarrow> 1 \<le> i" if "i < ECOUNT" for i
    using nth [OF that] entry_init_null by simp
  moreover have "inner (init_block [] ! 0) = None" using nth [of 0] E by (simp add: entry_init_def)
  ultimately show ?thesis using L E by (intro ns_relI) simp_all
qed


subsection \<open>The namespace as it is used\<close>

fun valid_ctx :: "ns_entry list \<Rightarrow> nat option \<Rightarrow> bool" where
  "valid_ctx es None = True"
| "valid_ctx es (Some c) = in_use es c"

text \<open>What may happen to the entries in use: they keep their names and parents, and more come.\<close>

definition grown :: "ns_entry list \<Rightarrow> ns_entry list \<Rightarrow> bool" where
  "grown es es' \<longleftrightarrow> (\<forall>i. in_use es i \<longrightarrow> in_use es' i \<and> ename (es' ! i) = ename (es ! i) \<and> up (es' ! i) = up (es ! i))"

lemma grown_refl [simp]: "grown es es"
  by (simp add: grown_def)

lemma grown_trans: "grown a b \<Longrightarrow> grown b c \<Longrightarrow> grown a c"
  unfolding grown_def by metis

lemma kept_grown: "kept es es' \<Longrightarrow> grown es es'"
  by (simp add: kept_def grown_def same_entry_def)

lemma grown_in_use: "grown es es' \<Longrightarrow> in_use es i \<Longrightarrow> in_use es' i"
  by (simp add: grown_def)

lemma grown_ctx: "grown es es' \<Longrightarrow> valid_ctx es c \<Longrightarrow> valid_ctx es' c"
  by (cases c) (simp_all add: grown_def)

lemma ns_ok_root: "ns_ok es \<Longrightarrow> in_use es get_root"
  using ns_rel_in_use ns_rel_sizes(1) unfolding ns_ok_def get_root_def by blast

lemma find_entry_ok:
  assumes "ns_ok es" "valid_ctx es ctx"
  obtains r where "find_entry es nm ctx = Some r" "valid_ctx es r" "\<And>x. r = Some x \<Longrightarrow> ename (es ! x) = nm"
proof (cases "ctx = None \<or> seg_null nm")
  case True
  then show ?thesis using that [of None] by (auto simp: find_entry_def find_in.simps)
next
  case False
  from assms(1) obtain n kids where R: "ns_rel n kids es" unfolding ns_ok_def by blast
  from False assms(2) obtain c where c: "ctx = Some c" "c < n" using ns_rel_in_use [OF R] by auto
  have F: "find_entry es nm ctx = Some (named_in es nm (kids c))" using find_entry_kids [OF R c(2)] False c(1) by simp
  show ?thesis
  proof (cases "named_in es nm (kids c)")
    case None
    then show ?thesis using that [of None] F by simp
  next
    case (Some x)
    then have "x \<in> set (kids c)" "ename (es ! x) = nm" using named_in_Some by blast+
    then show ?thesis using that [of "Some x"] F Some ns_rel_kid [OF R c(2)] ns_rel_in_use [OF R] by simp
  qed
qed

lemma find_or_new_ok:
  assumes "ns_ok es" "valid_ctx es ctx"
  obtains x es' where "find_or_new nm ctx es = Some (x, blank_seg nm, es')" "ns_ok es'" "kept es es'" "in_use es' x"
    "ename (es' ! x) = blank_seg nm"
proof -
  from assms(1) obtain n kids where R: "ns_rel n kids es" unfolding ns_ok_def by blast
  define c where "c = (case ctx of None \<Rightarrow> get_root | Some c \<Rightarrow> c)"
  have c: "c < n" using assms ns_rel_in_use [OF R] ns_rel_sizes(1) [OF R] by (cases ctx) (simp_all add: c_def get_root_def)
  obtain x es' n' kids' where f: "find_or_new nm ctx es = Some (x, blank_seg nm, es')" "ns_rel n' kids' es'" "kept es es'"
    "x \<in> set (kids' c)" "ename (es' ! x) = blank_seg nm"
    "es' = es \<or> n' = Suc n \<and> e_type (es' ! n) = 0"
    using find_or_new_refines [OF R c_def [symmetric] c, of nm] by metis
  have "types_ok es'"
  proof (cases "es' = es")
    case False
    with f(6) have n': "n' = Suc n" "e_type (es' ! n) = 0" by simp_all
    have "e_type (es' ! i) < 6" if "in_use es' i" for i
    proof (cases "i = n")
      case False
      then have "in_use es i" using that ns_rel_in_use [OF f(2)] ns_rel_in_use [OF R] n'(1) by simp
      then show ?thesis using f(3) assms(1) by (simp add: kept_def same_entry_def ns_ok_def types_ok_def)
    qed (use n'(2) in simp)
    then show ?thesis by (simp add: types_ok_def)
  qed (use assms(1) in \<open>simp add: ns_ok_def\<close>)
  have "in_use es' c" using kept_in_use [OF f(3)] c ns_rel_in_use [OF R] by simp
  then have "in_use es' x" using ns_rel_kid [OF f(2) _ f(4)] ns_rel_in_use [OF f(2)] by simp
  with f that \<open>types_ok es'\<close> show ?thesis unfolding ns_ok_def by blast
qed

text \<open>A change of an entry's type and source leaves the tree as it is.\<close>

definition same_links :: "ns_entry \<Rightarrow> ns_entry \<Rightarrow> bool" where
  "same_links e e' \<longleftrightarrow> ename e' = ename e \<and> up e' = up e \<and> inner e' = inner e \<and> sibling e' = sibling e"

lemma same_links_update:
  assumes "same_links (es ! k) e"
  shows "same_links (es ! i) (es[k := e] ! i)"
  using assms by (cases "i = k"; cases "k < length es") (simp_all add: list_update_beyond same_links_def)

lemma ns_rel_cong:
  assumes R: "ns_rel n kids es" and L: "length es' = length es" and same: "\<And>i. same_links (es ! i) (es' ! i)"
  shows "ns_rel n kids es'"
proof (rule ns_relI)
  have f: "ename (es' ! i) = ename (es ! i)" "up (es' ! i) = up (es ! i)" "inner (es' ! i) = inner (es ! i)"
    "sibling (es' ! i) = sibling (es ! i)" for i
    using same [of i] by (simp_all add: same_links_def)
  show "ECOUNT \<le> length es'" "length es' < n + ECOUNT" "n \<le> length es'" "0 < n" using ns_rel_sizes [OF R] L by simp_all
  show "seg_null (ename (es' ! i)) \<longleftrightarrow> n \<le> i" if "i < length es'" for i using ns_rel_null [OF R] that L f by simp
  show "chain es' (inner (es' ! i)) (kids i)" if "i < n" for i
    using chain_cong [OF ns_rel_chain [OF R that]] f by simp
  show "distinct (map (\<lambda>x. ename (es' ! x)) (kids i))" if "i < n" for i using ns_rel_names [OF R that] f by simp
  show "i < x \<and> x < n \<and> up (es' ! x) = Some i" if "i < n" "x \<in> set (kids i)" for i x using ns_rel_kid [OF R that] f by simp
  show "\<exists>i < x. x \<in> set (kids i)" if "x < n" "0 < x" for x by (rule ns_rel_parent [OF R that])
qed

lemma set_entry_ok:
  assumes "ns_ok es" "same_links (es ! k) e" "e_type e < 6"
  shows "ns_ok (es[k := e])" "grown es (es[k := e])"
proof -
  have same: "same_links (es ! i) (es[k := e] ! i)" for i by (rule same_links_update [OF assms(2)])
  have f: "ename (es[k := e] ! i) = ename (es ! i)" "up (es[k := e] ! i) = up (es ! i)" for i
    using same [of i] by (simp_all add: same_links_def)
  have "e_type (es[k := e] ! i) < 6" if "in_use es i" for i
    using that assms(1,3) by (cases "i = k"; cases "k < length es") (simp_all add: list_update_beyond ns_ok_def types_ok_def)
  then have "types_ok (es[k := e])" using f by (simp add: types_ok_def in_use_def)
  then show "ns_ok (es[k := e])" using assms(1) ns_rel_cong [OF _ _ same] unfolding ns_ok_def by (metis length_list_update)
  show "grown es (es[k := e])" using f by (simp add: grown_def in_use_def)
qed


text \<open>The root alone is a namespace in order.\<close>

lemma root_ok: "ns_ok (init_block [])"
proof -
  have "i = 0" if "in_use (init_block []) i" for i using that ns_rel_in_use [OF root_namespace] by simp
  moreover have "e_type (init_block [] ! 0) = 0"
    by (simp add: init_block_def block_init_length block_init_nth entry_init_def ECOUNT_def)
  ultimately have "e_type (init_block [] ! i) < 6" if "in_use (init_block []) i" for i using that by fastforce
  then have "types_ok (init_block [])" by (simp add: types_ok_def)
  then show ?thesis using root_namespace unfolding ns_ok_def by blast
qed



end
