(* ===== verification/Aml.thy ===== *)
theory Aml
  imports Names "HOL-Library.Monad_Syntax"
begin

text \<open>
  The reader of the ACPI machine language (\<open>AMLReader\<close> of \<open>src/kernel/aml.cpp\<close>).

  The memory is a function from addresses to bytes and a pointer into the table an address; an end of a package may lie beyond
  the table, and is not wrapped at 4 GB. An operation takes the reader's state and gives its result with the state it leaves;
  \<open>None\<close> is an operation that does not end. The recursive descent is tied by a fuel that each call of \<open>super_name\<close>,
  \<open>term_arg\<close> and \<open>term_obj\<close> uses one of; the theory \<open>AmlSafe\<close> shows that one more than the bytes left is always enough.
  The handler of each opcode is a definition of its own that takes the calls it makes as arguments. What is printed on the
  way is not modelled (the printing of a field's last byte reads one byte that may lie outside the table).
\<close>

subsection \<open>Names being read\<close>

text \<open>A name points up to an earlier part of its path, in \<open>name_path\<close>, and down to a later one there or to the variable of
  the caller that holds the last part (\<open>Here\<close>).\<close>

datatype nref = Here | Path nat

record aml_name =
  nseg :: seg
  success :: bool
  is_root :: bool
  ascend :: bool
  upper :: "nat option"
  lower :: "nref option"
  entry :: "nat option"

definition invalid_name :: aml_name where
  "invalid_name = \<lparr>nseg = (0, 0, 0, 0), success = False, is_root = False, ascend = False, upper = None, lower = None, entry = None\<rparr>"

definition NAME_PATH_LIMIT :: nat where
  "NAME_PATH_LIMIT = 16"

record aml_data =
  value_lo :: u32
  value_hi :: u32
  dstart :: nat
  dend :: nat
  d_type :: u8

text \<open>A local variable before it is set.\<close>

definition no_data :: aml_data where
  "no_data = \<lparr>value_lo = 0, value_hi = 0, dstart = 0, dend = 0, d_type = 0\<rparr>"

subsection \<open>The reader's state\<close>

record aml =
  current :: nat
  end_at :: nat
  depth :: int
  scope :: "nat option"
  named_scope :: "nat option"
  name_path :: "aml_name list"
  ns :: "ns_entry list"

type_synonym 'r act = "aml \<Rightarrow> ('r \<times> aml) option"

type_synonym save = "nat \<times> nat option"

definition AMLReader :: "ns_entry list \<Rightarrow> nat \<Rightarrow> nat \<Rightarrow> aml" where
  "AMLReader es c e = \<lparr>current = c, end_at = e, depth = 0, scope = None, named_scope = None,
     name_path = replicate NAME_PATH_LIMIT invalid_name, ns = es\<rparr>"

definition save :: "aml \<Rightarrow> save" where
  "save s = (current s, scope s)"

definition cancel :: "save \<Rightarrow> aml \<Rightarrow> aml" where
  "cancel v s = s\<lparr>current := fst v, scope := snd v\<rparr>"

definition enter_scope :: "nat option \<Rightarrow> aml \<Rightarrow> aml" where
  "enter_scope e s = s\<lparr>scope := e, depth := depth s + 1\<rparr>"

definition leave_scope :: "save \<Rightarrow> aml \<Rightarrow> aml" where
  "leave_scope v s = (cancel v s)\<lparr>depth := depth s - 1\<rparr>"

definition get :: "bytes \<Rightarrow> aml \<Rightarrow> u8 option \<times> aml" where
  "get m s = (if current s < end_at s then (Some (m (current s)), s\<lparr>current := Suc (current s)\<rparr>) else (None, s))"

subsection \<open>How operations are put together\<close>

text \<open>\<open>c = get(); if(c == -1) return r;\<close>\<close>

definition on_byte :: "bytes \<Rightarrow> 'r \<Rightarrow> (u8 \<Rightarrow> 'r act) \<Rightarrow> 'r act" where
  "on_byte m r k s = (case get m s of (None, s') \<Rightarrow> Some (r, s') | (Some c, s') \<Rightarrow> k c s')"

definition give :: "'r \<Rightarrow> 'r act" where
  "give r s = Some (r, s)"

text \<open>\<open>f && g\<close>, \<open>if(f()) return true; cancel(s); g\<close> and \<open>f(); g\<close>.\<close>

definition and_then :: "bool act \<Rightarrow> bool act \<Rightarrow> bool act" where
  "and_then f g s = do { (b, s') \<leftarrow> f s; if b then g s' else Some (False, s') }"

definition or_else :: "bool act \<Rightarrow> bool act \<Rightarrow> bool act" where
  "or_else f g s = do { (b, s') \<leftarrow> f s; if b then Some (True, s') else g (cancel (save s) s') }"

definition ignoring :: "bool act \<Rightarrow> 'r act \<Rightarrow> 'r act" where
  "ignoring f g s = do { (_, s') \<leftarrow> f s; g s' }"

text \<open>\<open>while(current < p_end) { if(!f()) return false; }\<close>\<close>

fun while_before :: "nat \<Rightarrow> nat \<Rightarrow> bool act \<Rightarrow> bool act" where
  "while_before 0 p f s = None"
| "while_before (Suc k) p f s = (if current s < p
     then do { (b, s') \<leftarrow> f s; if b then while_before k p f s' else Some (False, s') }
     else Some (True, s))"

subsection \<open>Names\<close>

definition lead_char :: "u8 \<Rightarrow> bool" where
  "lead_char c \<longleftrightarrow> 0x41 \<le> c \<and> c \<le> 0x5a \<or> c = 0x5f"

definition seg_name :: "seg \<Rightarrow> aml_name" where
  "seg_name n = invalid_name\<lparr>nseg := n, success := True, ascend := True\<rparr>"

definition name_seg :: "bytes \<Rightarrow> aml_name act" where
  "name_seg m s = on_byte m invalid_name (\<lambda>a. if lead_char a
     then on_byte m invalid_name (\<lambda>b. on_byte m invalid_name (\<lambda>c. on_byte m invalid_name (\<lambda>d. give (seg_name (a, b, c, d)))))
     else (\<lambda>s'. give invalid_name (cancel (save s) s'))) s"

text \<open>The prefixes \<open>^\<close> are read over. The answer is the first other byte, with the position before it.\<close>

function carets :: "bytes \<Rightarrow> u8 \<Rightarrow> save \<Rightarrow> aml \<Rightarrow> (u8 \<times> save) option \<times> aml" where
  "carets m first v s = (if first = 0x5e
     then (case get m s of (None, s') \<Rightarrow> (None, s') | (Some c, s') \<Rightarrow> carets m c (save s) s')
     else (Some (first, v), s))"
  by pat_completeness auto
termination
  by (relation "measure (\<lambda>(m, first, v, s). end_at s - current s)") (auto simp: get_def split: if_splits)

declare carets.simps [simp del]

text \<open>The loop over the parts of a path: the last name, its number, the context found so far, whether the root was named
  and the part above.\<close>

fun multi_name :: "bytes \<Rightarrow> nat \<Rightarrow> aml_name \<Rightarrow> nat \<Rightarrow> nat option \<Rightarrow> bool \<Rightarrow> nat option \<Rightarrow> aml_name act" where
  "multi_name m 0 nm idx ctx root uplink s = Some (nm, s\<lparr>named_scope := ctx\<rparr>)"
| "multi_name m (Suc k) nm idx ctx root uplink s = do {
     (n, s1) \<leftarrow> name_seg m s;
     if \<not> success n then Some (invalid_name, s1) else do {
       ctx' \<leftarrow> find_entry (ns s1) (nseg n) ctx;
       let n1 = n\<lparr>is_root := root, lower := None, upper := None, entry := ctx'\<rparr>;
       if idx < NAME_PATH_LIMIT then do {
         let n2 = n1\<lparr>upper := uplink\<rparr>;
         let path = (name_path s1)[idx := n2];
         let path' = (case uplink of None \<Rightarrow> path | Some u \<Rightarrow> path[u := (path ! u)\<lparr>lower := Some (Path idx)\<rparr>]);
         multi_name m k n2 (Suc idx) ctx' False (Some idx) (s1\<lparr>name_path := path'\<rparr>)
       } else multi_name m k n1 idx ctx' False uplink s1
     } }"

definition single_name :: "bytes \<Rightarrow> nat option \<Rightarrow> bool \<Rightarrow> aml_name act" where
  "single_name m ctx root s = do {
     (n, s1) \<leftarrow> name_seg m s;
     if \<not> success n then Some (invalid_name, s1) else do {
       ctx' \<leftarrow> find_entry (ns s1) (nseg n) ctx;
       Some (n\<lparr>is_root := root, lower := None, upper := None, entry := ctx'\<rparr>, s1\<lparr>named_scope := ctx'\<rparr>)
     } }"

text \<open>The name path that begins with \<open>first\<close>, read at \<open>v\<close>. A null name and a dual name are read but not taken.\<close>

definition name_rest :: "bytes \<Rightarrow> nat option \<Rightarrow> bool \<Rightarrow> save \<Rightarrow> u8 \<Rightarrow> aml_name act" where
  "name_rest m ctx root v first s =
    (if first = 0 then Some (invalid_name, s)
     else if first = 0x2e then do {
       (n, s1) \<leftarrow> name_seg m s;
       if \<not> success n then Some (invalid_name, s1) else do { (n2, s2) \<leftarrow> name_seg m s1; Some (invalid_name, s2) } }
     else if first = 0x2f then on_byte m invalid_name (\<lambda>c. multi_name m (unat c) invalid_name 0 ctx root None) s
     else single_name m ctx root (cancel v s))"

definition name_string :: "bytes \<Rightarrow> aml_name act" where
  "name_string m s = on_byte m invalid_name (\<lambda>first s1.
     if first = 0x5e then (case carets m first (save s) s1 of
         (None, s2) \<Rightarrow> Some (invalid_name, s2)
       | (Some (c, v), s2) \<Rightarrow> name_rest m (scope s) False v c s2)
     else if first = 0x5c then on_byte m invalid_name (\<lambda>c. name_rest m (Some get_root) True (save s1) c) s1
     else name_rest m (scope s) False (save s) first s1) s"

definition name_ok :: "bytes \<Rightarrow> bool act" where
  "name_ok m s = do { (n, s') \<leftarrow> name_string m s; Some (success n, s') }"

subsection \<open>Declaring a name\<close>

fun at_ref :: "aml_name \<Rightarrow> aml_name list \<Rightarrow> nref \<Rightarrow> aml_name" where
  "at_ref nm path Here = nm"
| "at_ref nm path (Path i) = path ! i"

fun set_ref :: "aml_name \<Rightarrow> aml_name list \<Rightarrow> nref \<Rightarrow> aml_name \<Rightarrow> aml_name \<times> aml_name list" where
  "set_ref nm path Here x = (x, path)"
| "set_ref nm path (Path i) x = (nm, path[i := x])"

text \<open>The way up: each part is made to point down to the one it was reached from. The answer is the topmost part.\<close>

partial_function (option) climb :: "aml_name \<Rightarrow> aml_name list \<Rightarrow> nref \<Rightarrow> (nref \<times> aml_name list) option" where
  "climb nm path u = (case upper (at_ref nm path u) of
      None \<Rightarrow> Some (u, path)
    | Some w \<Rightarrow> climb nm (path[w := (path ! w)\<lparr>lower := Some u\<rparr>]) (Path w))"

text \<open>The way down: a part with no entry is looked for, or made, in the entry of the part above.\<close>

partial_function (option) descend ::
  "aml_name \<Rightarrow> aml_name list \<Rightarrow> ns_entry list \<Rightarrow> nat option \<Rightarrow> nref \<Rightarrow> (aml_name \<times> aml_name list \<times> ns_entry list) option" where
  "descend nm path es ctx u = (let x = at_ref nm path u in
     case entry x of
       Some c \<Rightarrow> (case lower x of None \<Rightarrow> Some (nm, path, es) | Some w \<Rightarrow> descend nm path es (Some c) w)
     | None \<Rightarrow> (case find_or_new (nseg x) ctx es of
           None \<Rightarrow> None
         | Some (c, n, es') \<Rightarrow> (case set_ref nm path u (x\<lparr>nseg := n, entry := Some c\<rparr>) of (nm', path') \<Rightarrow>
             (case lower x of None \<Rightarrow> Some (nm', path', es') | Some w \<Rightarrow> descend nm' path' es' (Some c) w))))"

declare climb.simps [code] descend.simps [code]

definition declare_name :: "aml_name \<Rightarrow> aml_name act" where
  "declare_name nm s = do {
     (topmost, path) \<leftarrow> climb nm (name_path s) Here;
     let ctx = (if is_root (at_ref nm path topmost) then Some get_root else scope s);
     (nm', path', es) \<leftarrow> descend nm path (ns s) ctx topmost;
     Some (nm', s\<lparr>name_path := path', ns := es\<rparr>) }"

subsection \<open>Lengths of packages\<close>

definition pkg_length :: "bytes \<Rightarrow> u32 option act" where
  "pkg_length m = on_byte m None (\<lambda>c. let n = drop_bit 6 c in
     if n = 0 then give (Some (ucast (c AND 0x3f)))
     else on_byte m None (\<lambda>c1. let len = (ucast (c AND 0xf) :: u32) OR push_bit 4 (ucast c1) in
       if n > 1 then on_byte m None (\<lambda>c2. let len = len OR push_bit 12 (ucast c2) in
         if n > 2 then on_byte m None (\<lambda>c3. give (Some (len OR push_bit 20 (ucast c3))))
         else give (Some len))
       else give (Some len)))"

text \<open>\<open>p_end = current; pkg_len = pkg_length(); if(pkg_len == -1) return r; p_end += pkg_len;\<close>\<close>

definition on_package :: "bytes \<Rightarrow> 'r \<Rightarrow> (nat \<Rightarrow> 'r act) \<Rightarrow> 'r act" where
  "on_package m r k s = do {
     (l, s') \<leftarrow> pkg_length m s;
     case l of None \<Rightarrow> Some (r, s') | Some len \<Rightarrow> k (current s + unat len) s' }"

end
