(* ===== verification/AmlTerms.thy ===== *)
theory AmlTerms
  imports Aml
begin

text \<open>
  The opcodes of the ACPI machine language (the rest of \<open>AMLReader\<close> in \<open>src/kernel/aml.cpp\<close>): arguments of terms, data
  objects, the objects that declare names, and terms. The arguments \<open>supn\<close>, \<open>term\<close> and \<open>tobj\<close> are the calls of
  \<open>super_name\<close>, \<open>term_arg\<close> and \<open>term_obj\<close>; \<open>k\<close> bounds the turns of a loop over a package.
\<close>

subsection \<open>Arguments\<close>

definition localorarg_obj :: "bytes \<Rightarrow> bool act" where
  "localorarg_obj m = on_byte m False (\<lambda>c. give (0x60 \<le> c \<and> c \<le> 0x6e))"

definition debug_object :: "bytes \<Rightarrow> bool act" where
  "debug_object m = on_byte m False (\<lambda>c. if c \<noteq> 0x5b then give False else on_byte m False (\<lambda>c. give (c = 0x31)))"

definition target :: "bytes \<Rightarrow> bool act \<Rightarrow> bool act" where
  "target m supn s = on_byte m False (\<lambda>c s'. if c = 0 then Some (True, s') else supn (cancel (save s) s')) s"

text \<open>\<open>ext_op\<close> is not called by the reader.\<close>

definition ext_op :: "bytes \<Rightarrow> bool act \<Rightarrow> bool act" where
  "ext_op m supn = on_byte m False (\<lambda>c. if c = 0x12 then and_then supn (target m supn)
     else give (c \<in> {0, 0x02, 0x13, 0x1f, 0x23, 0x25, 0x28, 0x29, 0x2a, 0x30, 0x31, 0x33, 0x86, 0x87, 0x88}))"

definition type_six_opcode :: "bytes \<Rightarrow> bool act \<Rightarrow> bool act \<Rightarrow> bool act" where
  "type_six_opcode m supn term = on_byte m False (\<lambda>c.
     if c = 0x71 then supn
     else if c = 0x83 then term
     else if c = 0x88 then and_then term (and_then term (target m supn))
     else give False)"

definition super_name_body :: "bytes \<Rightarrow> bool act \<Rightarrow> bool act \<Rightarrow> bool act" where
  "super_name_body m supn term =
     or_else (localorarg_obj m) (or_else (name_ok m) (or_else (type_six_opcode m supn term) (or_else (debug_object m) (give False))))"

definition type_two_opcode :: "bytes \<Rightarrow> bool act \<Rightarrow> bool act \<Rightarrow> bool act" where
  "type_two_opcode m supn term s = on_byte m False (\<lambda>c.
     if c = 0x5b then on_byte m False (\<lambda>c. if c = 0x12 then and_then supn (target m supn) else give False)
     else if c = 0x72 then and_then term (and_then term (target m supn))
     else if c = 0x83 then term
     else if c = 0x87 then supn
     else if c = 0x88 then and_then term (and_then term (target m supn))
     else if c = 0x90 \<or> c = 0x91 then and_then term term
     else if c = 0x92 then term
     else if c = 0x93 \<or> c = 0x94 \<or> c = 0x95 then and_then term term
     else (\<lambda>s'. name_ok m (cancel (save s) s'))) s"

subsection \<open>Data\<close>

definition get_byte :: "bytes \<Rightarrow> aml_data \<Rightarrow> (bool \<times> aml_data) act" where
  "get_byte m d s = (let d0 = d\<lparr>dstart := current s\<rparr> in
     on_byte m (False, d0) (\<lambda>c s'. Some ((True, d0\<lparr>value_lo := ucast c, dend := current s', d_type := 0xa\<rparr>), s')) s)"

definition get_word :: "bytes \<Rightarrow> aml_data \<Rightarrow> (bool \<times> aml_data) act" where
  "get_word m d s = (let d0 = d\<lparr>dstart := current s\<rparr> in
     on_byte m (False, d0) (\<lambda>c0. on_byte m (False, d0) (\<lambda>c1 s'.
       Some ((True, d0\<lparr>value_lo := ucast c0 OR push_bit 8 (ucast c1), dend := current s', d_type := 0xb\<rparr>), s'))) s)"

definition four_bytes :: "u8 \<Rightarrow> u8 \<Rightarrow> u8 \<Rightarrow> u8 \<Rightarrow> u32" where
  "four_bytes c0 c1 c2 c3 = ucast c0 OR push_bit 8 (ucast c1) OR push_bit 16 (ucast c2) OR push_bit 24 (ucast c3)"

definition get_dword :: "bytes \<Rightarrow> aml_data \<Rightarrow> (bool \<times> aml_data) act" where
  "get_dword m d s = (let d0 = d\<lparr>dstart := current s\<rparr> in
     on_byte m (False, d0) (\<lambda>c0. on_byte m (False, d0) (\<lambda>c1. on_byte m (False, d0) (\<lambda>c2. on_byte m (False, d0) (\<lambda>c3 s'.
       Some ((True, d0\<lparr>value_lo := four_bytes c0 c1 c2 c3, dend := current s', d_type := 0xc\<rparr>), s'))))) s)"

definition get_qword :: "bytes \<Rightarrow> aml_data \<Rightarrow> (bool \<times> aml_data) act" where
  "get_qword m d s = (let d0 = d\<lparr>dstart := current s\<rparr> in
     on_byte m (False, d0) (\<lambda>c0. on_byte m (False, d0) (\<lambda>c1. on_byte m (False, d0) (\<lambda>c2. on_byte m (False, d0) (\<lambda>c3.
       let d1 = d0\<lparr>value_lo := four_bytes c0 c1 c2 c3\<rparr> in
       on_byte m (False, d1) (\<lambda>c4. on_byte m (False, d1) (\<lambda>c5. on_byte m (False, d1) (\<lambda>c6. on_byte m (False, d1) (\<lambda>c7 s'.
         Some ((True, d1\<lparr>value_hi := four_bytes c4 c5 c6 c7, dend := current s', d_type := 0xe\<rparr>), s'))))))))) s)"

text \<open>A string: up to a zero byte.\<close>

function skip_string :: "bytes \<Rightarrow> aml \<Rightarrow> bool \<times> aml" where
  "skip_string m s = (case get m s of (None, s') \<Rightarrow> (False, s') | (Some c, s') \<Rightarrow> if c = 0 then (True, s') else skip_string m s')"
  by pat_completeness auto
termination
  by (relation "measure (\<lambda>(m, s). end_at s - current s)") (auto simp: get_def split: if_splits)

declare skip_string.simps [simp del]

definition constant_data :: "u32 \<Rightarrow> u32 \<Rightarrow> aml_data \<Rightarrow> (bool \<times> aml_data) act" where
  "constant_data lo hi d s =
     Some ((True, d\<lparr>value_lo := lo, value_hi := hi, dstart := current s, dend := current s, d_type := 1\<rparr>), s)"

text \<open>The bytes of a buffer are skipped: no caller asks for them to be shown.\<close>

definition def_buffer :: "bytes \<Rightarrow> bool act \<Rightarrow> aml_data \<Rightarrow> (bool \<times> aml_data) act" where
  "def_buffer m term d = on_package m (False, d) (\<lambda>p_end s. do {
     (b, s1) \<leftarrow> term s;
     if \<not> b then Some ((False, d), s1)
     else Some ((True, d\<lparr>dstart := current s1, dend := p_end, d_type := 0x11\<rparr>), s1\<lparr>current := p_end\<rparr>) })"

definition computational_data :: "bytes \<Rightarrow> bool act \<Rightarrow> aml_data \<Rightarrow> (bool \<times> aml_data) act" where
  "computational_data m term d = on_byte m (False, d) (\<lambda>c.
     if c = 0xa then get_byte m d
     else if c = 0xb then get_word m d
     else if c = 0xc then get_dword m d
     else if c = 0xd then (\<lambda>s. case skip_string m s of (b, s') \<Rightarrow> Some ((b, d), s'))
     else if c = 0xe then get_qword m d
     else if c = 0 then constant_data 0 0 d
     else if c = 1 then constant_data 1 0 d
     else if c = 0xff then constant_data 0xffffffff 0xffffffff d
     else if c = 0x5b then on_byte m (False, d) (\<lambda>_. give (False, d))
     else if c = 0x11 then def_buffer m term d
     else give (False, d))"

definition data_ref_object :: "bytes \<Rightarrow> bool act \<Rightarrow> aml_data \<Rightarrow> (bool \<times> aml_data) act" where
  "data_ref_object m term d s = do {
     ((b, d1), s1) \<leftarrow> computational_data m term d s;
     if b then Some ((True, d1), s1)
     else do {
       (b2, s2) \<leftarrow> term (cancel (save s) s1);
       if b2 then Some ((True, d1\<lparr>d_type := 0\<rparr>), s2) else Some ((False, d1), cancel (save s) s2) } }"

definition is_data :: "(bool \<times> aml_data) act \<Rightarrow> bool act" where
  "is_data f s = do { ((b, d), s') \<leftarrow> f s; Some (b, s') }"

definition def_package :: "bytes \<Rightarrow> nat \<Rightarrow> bool act \<Rightarrow> bool act" where
  "def_package m k term = on_package m False (\<lambda>p_end. on_byte m False (\<lambda>elem.
     while_before k p_end (or_else (name_ok m) (is_data (data_ref_object m term no_data)))))"

definition data_object :: "bytes \<Rightarrow> nat \<Rightarrow> bool act \<Rightarrow> bool act" where
  "data_object m k term s = or_else (is_data (computational_data m term no_data))
     (on_byte m False (\<lambda>c s'. if c = 0x12 then def_package m k term s' else Some (False, cancel (save s) s'))) s"

definition term_arg_body :: "bytes \<Rightarrow> nat \<Rightarrow> bool act \<Rightarrow> bool act \<Rightarrow> bool act" where
  "term_arg_body m k supn term =
     or_else (localorarg_obj m) (or_else (data_object m k term) (or_else (type_two_opcode m supn term) (give False)))"

fun super_name :: "bytes \<Rightarrow> nat \<Rightarrow> bool act"
  and term_arg :: "bytes \<Rightarrow> nat \<Rightarrow> bool act" where
  "super_name m 0 s = None"
| "super_name m (Suc n) s = super_name_body m (super_name m n) (term_arg m n) s"
| "term_arg m 0 s = None"
| "term_arg m (Suc n) s = term_arg_body m n (super_name m n) (term_arg m n) s"

subsection \<open>Statements\<close>

definition type_one_opcode :: "bytes \<Rightarrow> nat \<Rightarrow> bool act \<Rightarrow> bool act" where
  "type_one_opcode m k term = on_byte m False (\<lambda>c.
     if c = 0x5b then on_byte m False (\<lambda>c. give (c \<in> {0x20, 0x21, 0x22, 0x24, 0x26, 0x27, 0x32}))
     else if c = 0x86 \<or> c = 0x9f then give True
     else if c = 0xa0 \<or> c = 0xa2 then on_package m False (\<lambda>p_end. ignoring term (while_before k p_end term))
     else if c = 0xa1 then on_package m False (\<lambda>p_end. while_before k p_end term)
     else if c = 0xa3 then give True
     else if c = 0xa4 then term
     else give (c = 0xa5 \<or> c = 0xcc))"

subsection \<open>Objects that declare names\<close>

text \<open>The entry of a name that has been declared, and a change of its fields.\<close>

definition set_entry :: "aml_name \<Rightarrow> (ns_entry \<Rightarrow> ns_entry) \<Rightarrow> aml \<Rightarrow> aml" where
  "set_entry nm f s = s\<lparr>ns := (let i = the (entry nm) in (ns s)[i := f (ns s ! i)])\<rparr>"

definition def_name :: "bytes \<Rightarrow> bool act \<Rightarrow> bool act" where
  "def_name m term s = do {
     (nm, v) \<leftarrow> name_string m s;
     if \<not> success nm then Some (False, v)
     else do {
       ((b, d), s1) \<leftarrow> data_ref_object m term no_data v;
       if \<not> b then Some (False, s1)
       else do {
         (nm', s2) \<leftarrow> declare_name nm s1;
         Some (True, set_entry nm' (\<lambda>e. e\<lparr>e_type := 2, aml_source := Some (current v),
           aml_length := word_of_nat (current s2) - word_of_nat (current v)\<rparr>) s2) } } }"

definition def_scope :: "bytes \<Rightarrow> nat \<Rightarrow> bool act \<Rightarrow> bool act" where
  "def_scope m k tobj = on_package m False (\<lambda>p_end s. do {
     (nm, s1) \<leftarrow> name_string m s;
     if \<not> success nm then Some (False, s1)
     else do {
       (nm', s2) \<leftarrow> declare_name nm s1;
       (b, s3) \<leftarrow> while_before k p_end tobj (enter_scope (entry nm') s2);
       if \<not> b then Some (False, s3) else Some (True, (leave_scope (save s) s3)\<lparr>current := p_end\<rparr>) } })"

text \<open>The body of a method is skipped, so that its loop over terms has no turn.\<close>

definition def_method :: "bytes \<Rightarrow> nat \<Rightarrow> bool act \<Rightarrow> bool act" where
  "def_method m k tobj = on_package m False (\<lambda>p_end s. do {
     (nm, s1) \<leftarrow> name_string m s;
     if \<not> success nm then Some (False, s1)
     else do {
       (nm', s2) \<leftarrow> declare_name nm s1;
       on_byte m False (\<lambda>flags s3. do {
         (b, s4) \<leftarrow> while_before k p_end tobj ((enter_scope (entry nm') s3)\<lparr>current := p_end\<rparr>);
         if \<not> b then Some (False, s4) else Some (True, (leave_scope (save s) s4)\<lparr>current := p_end\<rparr>) })
         (set_entry nm' (\<lambda>e. e\<lparr>e_type := 3\<rparr>) s2) } })"

definition def_region :: "bytes \<Rightarrow> bool act \<Rightarrow> bool act" where
  "def_region m term = and_then (name_ok m) (on_byte m False (\<lambda>space. and_then term term))"

definition has_length :: "bytes \<Rightarrow> bool act" where
  "has_length m s = do { (l, s') \<leftarrow> pkg_length m s; Some (l \<noteq> None, s') }"

definition seg_ok :: "bytes \<Rightarrow> bool act" where
  "seg_ok m s = do { (n, s') \<leftarrow> name_seg m s; Some (success n, s') }"

definition field_element :: "bytes \<Rightarrow> bool act" where
  "field_element m s = on_byte m False (\<lambda>c.
     if c = 0 then has_length m
     else if c = 1 then on_byte m False (\<lambda>access_type. on_byte m False (\<lambda>access_attrib. give True))
     else if c = 2 \<or> c = 3 then give True
     else (\<lambda>s'. and_then (seg_ok m) (has_length m) (cancel (save s) s'))) s"

definition def_field :: "bytes \<Rightarrow> nat \<Rightarrow> bool act" where
  "def_field m k = on_package m False (\<lambda>p_end.
     and_then (name_ok m) (on_byte m False (\<lambda>flags. while_before k p_end (field_element m))))"

definition def_device :: "bytes \<Rightarrow> nat \<Rightarrow> bool act \<Rightarrow> bool act" where
  "def_device m k tobj = on_package m False (\<lambda>p_end s. do {
     (nm, s1) \<leftarrow> name_string m s;
     if \<not> success nm then Some (False, cancel (save s) s1)
     else do {
       (nm', s2) \<leftarrow> declare_name nm s1;
       (b, s3) \<leftarrow> while_before k p_end tobj (enter_scope (entry nm') (set_entry nm' (\<lambda>e. e\<lparr>e_type := 1\<rparr>) s2));
       if \<not> b then Some (False, s3) else Some (True, (leave_scope (save s) s3)\<lparr>current := p_end\<rparr>) } })"

text \<open>The terms of a processor are skipped.\<close>

definition def_processor :: "bytes \<Rightarrow> nat \<Rightarrow> bool act \<Rightarrow> bool act" where
  "def_processor m k tobj = on_package m False (\<lambda>p_end. and_then (name_ok m) (on_byte m False (\<lambda>id.
     and_then (is_data (get_dword m no_data)) (on_byte m False (\<lambda>pblklen s. while_before k p_end tobj (s\<lparr>current := p_end\<rparr>))))))"

definition def_mutex :: "bytes \<Rightarrow> bool act" where
  "def_mutex m = ignoring (name_ok m) (on_byte m False (\<lambda>sync. give True))"

definition aml_object :: "bytes \<Rightarrow> nat \<Rightarrow> bool act \<Rightarrow> bool act \<Rightarrow> bool act" where
  "aml_object m k term tobj = on_byte m False (\<lambda>c.
     if c = 0x8 then def_name m term
     else if c = 0x10 then def_scope m k tobj
     else if c = 0x14 then def_method m k tobj
     else if c = 0x5b then on_byte m False (\<lambda>c.
       if c = 0x80 then def_region m term
       else if c = 0x81 then def_field m k
       else if c = 0x82 then def_device m k tobj
       else if c = 0x83 then def_processor m k tobj
       else if c = 0x01 then def_mutex m
       else give False)
     else give False)"

definition term_obj_body :: "bytes \<Rightarrow> nat \<Rightarrow> bool act \<Rightarrow> bool act \<Rightarrow> bool act \<Rightarrow> bool act" where
  "term_obj_body m k supn term tobj =
     or_else (aml_object m k term tobj) (or_else (type_two_opcode m supn term) (or_else (type_one_opcode m k term) (give False)))"

fun term_obj :: "bytes \<Rightarrow> nat \<Rightarrow> bool act" where
  "term_obj m 0 s = None"
| "term_obj m (Suc n) s = term_obj_body m n (super_name m n) (term_arg m n) (term_obj m n) s"

subsection \<open>The whole table\<close>

text \<open>What is read of the first term that is not understood, before the reader stops.\<close>

definition stuck_op :: "bytes \<Rightarrow> bool act \<Rightarrow> bool act \<Rightarrow> u8 \<Rightarrow> bool act" where
  "stuck_op m supn term c =
    (if c = 0x72 then ignoring term (ignoring term (ignoring (target m supn) (give False)))
     else if c \<in> {0x75, 0x76, 0x8e} then ignoring supn (give False)
     else if c \<in> {0x8a, 0x8b, 0x8c, 0x8d, 0x8f} then ignoring term (ignoring term (ignoring (name_ok m) (give False)))
     else if c \<in> {0x90, 0x91, 0x93, 0x94, 0x95, 0x9c} then ignoring term (ignoring term (give False))
     else if c \<in> {0x92, 0x96, 0x97, 0x98, 0x99} then ignoring term (give False)
     else give False)"

text \<open>The loop of \<open>load_dsdt\<close>, with \<open>k\<close> turns at most and the fuel \<open>n\<close> for each term.\<close>

fun dsdt_terms :: "bytes \<Rightarrow> nat \<Rightarrow> nat \<Rightarrow> aml \<Rightarrow> aml option" where
  "dsdt_terms m 0 n s = None"
| "dsdt_terms m (Suc k) n s = do {
     (b, s1) \<leftarrow> term_obj m n s;
     if b then dsdt_terms m k n s1
     else do {
       (_, s2) \<leftarrow> on_byte m False (stuck_op m (super_name m n) (term_arg m n)) (cancel (save s) s1);
       Some s2 } }"

text \<open>The namespace of the terms between \<open>b\<close> and \<open>e\<close>.\<close>

definition read_dsdt :: "bytes \<Rightarrow> nat \<Rightarrow> nat \<Rightarrow> nat \<Rightarrow> ns_entry list \<Rightarrow> aml option" where
  "read_dsdt m n b e es = dsdt_terms m n n (enter_scope (Some get_root) (AMLReader es b e))"

end
