(* ===== verification/AmlSafe.thy ===== *)
theory AmlSafe
  imports AmlTerms
begin

text \<open>
  The reader always ends, reads forward, and keeps the namespace a tree.

  What an operation does is stated against a relation between the states before and after it: \<open>quiet\<close> for the operations that
  only read (names, data, arguments), \<open>builds\<close> for those that declare names. The locale \<open>reading\<close> has what the combinators
  need of such a relation and gives one rule for each of them; each handler is then a line of these rules.
\<close>

subsection \<open>A reader in order\<close>

definition path_name_ok :: "ns_entry list \<Rightarrow> nat \<Rightarrow> aml_name \<Rightarrow> bool" where
  "path_name_ok es k x \<longleftrightarrow> (upper x = None \<or> 0 < k \<and> upper x = Some (k - 1)) \<and> valid_ctx es (entry x)"

definition path_ok :: "ns_entry list \<Rightarrow> aml_name list \<Rightarrow> bool" where
  "path_ok es path \<longleftrightarrow> length path = NAME_PATH_LIMIT \<and> (\<forall>k < NAME_PATH_LIMIT. path_name_ok es k (path ! k))"

definition scope_ok :: "ns_entry list \<Rightarrow> nat option \<Rightarrow> bool" where
  "scope_ok es c \<longleftrightarrow> (\<exists>i. c = Some i \<and> in_use es i)"

definition reader_ok :: "aml \<Rightarrow> bool" where
  "reader_ok s \<longleftrightarrow> ns_ok (ns s) \<and> scope_ok (ns s) (scope s) \<and> path_ok (ns s) (name_path s)"

definition left_of :: "aml \<Rightarrow> nat" where
  "left_of s = end_at s - current s"

definition quiet :: "aml \<Rightarrow> aml \<Rightarrow> bool" where
  "quiet s s' \<longleftrightarrow> ns s' = ns s \<and> scope s' = scope s \<and> depth s' = depth s"

definition builds :: "aml \<Rightarrow> aml \<Rightarrow> bool" where
  "builds s s' \<longleftrightarrow> grown (ns s) (ns s')"

text \<open>From \<open>s\<close> and not before \<open>b\<close>; \<open>ok\<close> tells an answer that is a success, \<open>str\<close> that a success has read something.\<close>

definition does :: "(aml \<Rightarrow> aml \<Rightarrow> bool) \<Rightarrow> ('r \<Rightarrow> bool) \<Rightarrow> bool \<Rightarrow> nat \<Rightarrow> 'r act \<Rightarrow> aml \<Rightarrow> bool" where
  "does Q ok str b f s \<longleftrightarrow> (\<exists>r s'. f s = Some (r, s') \<and> Q s s' \<and> reader_ok s' \<and> b \<le> current s' \<and> end_at s' = end_at s
     \<and> (ok r \<longrightarrow> scope s' = scope s \<and> (str \<longrightarrow> left_of s' < left_of s)))"

definition steps :: "(aml \<Rightarrow> aml \<Rightarrow> bool) \<Rightarrow> ('r \<Rightarrow> bool) \<Rightarrow> bool \<Rightarrow> nat \<Rightarrow> 'r act \<Rightarrow> bool" where
  "steps Q ok str n f \<longleftrightarrow> (\<forall>s. reader_ok s \<and> left_of s < n \<longrightarrow> does Q ok str (current s) f s)"

text \<open>The rest of a package whose end is not before \<open>b\<close>.\<close>

definition rest_of :: "(aml \<Rightarrow> aml \<Rightarrow> bool) \<Rightarrow> ('r \<Rightarrow> bool) \<Rightarrow> nat \<Rightarrow> (nat \<Rightarrow> 'r act) \<Rightarrow> bool" where
  "rest_of Q ok n k \<longleftrightarrow> (\<forall>p b s. reader_ok s \<and> left_of s < n \<and> b \<le> p \<and> b \<le> current s \<longrightarrow> does Q ok False b (k p) s)"

lemma doesI:
  assumes "f s = Some (r, s')" "Q s s'" "reader_ok s'" "b \<le> current s'" "end_at s' = end_at s" "ok r \<Longrightarrow> scope s' = scope s"
    "ok r \<Longrightarrow> str \<Longrightarrow> left_of s' < left_of s"
  shows "does Q ok str b f s"
  using assms by (auto simp: does_def)

lemma doesE:
  assumes "does Q ok str b f s"
  obtains r s' where "f s = Some (r, s')" "Q s s'" "reader_ok s'" "b \<le> current s'" "end_at s' = end_at s"
    "ok r \<Longrightarrow> scope s' = scope s" "ok r \<Longrightarrow> str \<Longrightarrow> left_of s' < left_of s"
  using assms by (auto simp: does_def)

lemma stepsD: "steps Q ok str n f \<Longrightarrow> reader_ok s \<Longrightarrow> left_of s < n \<Longrightarrow> does Q ok str (current s) f s"
  by (simp add: steps_def)

lemma stepsI: "(\<And>s. reader_ok s \<Longrightarrow> left_of s < n \<Longrightarrow> does Q ok str (current s) f s) \<Longrightarrow> steps Q ok str n f"
  by (simp add: steps_def)

lemma does_weaken: "does Q ok str b f s \<Longrightarrow> b' \<le> b \<Longrightarrow> does Q ok False b' f s"
  by (auto simp: does_def)

lemma steps_weaken: "steps Q ok str n f \<Longrightarrow> steps Q ok False n f"
  by (auto intro: does_weaken simp: steps_def)

lemma steps_less: "steps Q ok str n f \<Longrightarrow> k \<le> n \<Longrightarrow> steps Q ok str k f"
  by (simp add: steps_def)

lemma steps_rest:
  assumes "\<And>p. steps Q ok str n (k p)"
  shows "rest_of Q ok n k"
  unfolding rest_of_def
proof (intro allI impI)
  fix p b s assume "reader_ok s \<and> left_of s < n \<and> b \<le> p \<and> b \<le> current s"
  then show "does Q ok False b (k p) s" using does_weaken [OF stepsD [OF assms]] by blast
qed

lemma does_cong: "f s = g s \<Longrightarrow> does Q ok str b f s = does Q ok str b g s"
  by (simp add: does_def)

lemma reader_ok_simps [simp]:
  "reader_ok (s\<lparr>current := c\<rparr>) = reader_ok s"
  "reader_ok (s\<lparr>named_scope := x\<rparr>) = reader_ok s"
  "reader_ok (s\<lparr>depth := d\<rparr>) = reader_ok s"
  by (simp_all add: reader_ok_def)

lemma on_byte_end: "\<not> current s < end_at s \<Longrightarrow> on_byte m r k s = Some (r, s)"
  by (simp add: on_byte_def get_def)

lemma on_byte_read: "current s < end_at s \<Longrightarrow> on_byte m r k s = k (m (current s)) (s\<lparr>current := Suc (current s)\<rparr>)"
  by (simp add: on_byte_def get_def)

lemma cancel_read [simp]: "cancel (save s) (s\<lparr>current := c\<rparr>) = s"
  by (simp add: cancel_def save_def)

lemma cancel_simps [simp]:
  "current (cancel (save s) s') = current s" "scope (cancel (save s) s') = scope s" "end_at (cancel v s') = end_at s'"
  "ns (cancel v s') = ns s'" "depth (cancel v s') = depth s'" "name_path (cancel v s') = name_path s'"
  by (simp_all add: cancel_def save_def)

subsection \<open>The rules\<close>

locale reading =
  fixes Q :: "aml \<Rightarrow> aml \<Rightarrow> bool"
  assumes refl: "Q s s"
    and trans: "Q a b \<Longrightarrow> Q b c \<Longrightarrow> Q a c"
    and moved: "Q s (s\<lparr>current := p\<rparr>)"
    and cancelled: "Q s s' \<Longrightarrow> Q s' (cancel (save s) s')"
    and keeps_scope: "Q s s' \<Longrightarrow> scope_ok (ns s) i \<Longrightarrow> scope_ok (ns s') i"
begin

lemma reader_ok_cancel: "Q s s' \<Longrightarrow> reader_ok s \<Longrightarrow> reader_ok s' \<Longrightarrow> reader_ok (cancel (save s) s')"
  using keeps_scope by (simp add: reader_ok_def)

lemma does_give: "reader_ok s \<Longrightarrow> b \<le> current s \<Longrightarrow> does Q ok False b (give r) s"
  by (rule doesI) (simp_all add: give_def refl)

lemma steps_give: "steps Q ok False n (give r)"
  by (auto intro: does_give simp: steps_def)

lemma steps_give_fail: "\<not> ok r \<Longrightarrow> steps Q ok str n (give r)"
  by (rule stepsI, rule doesI) (auto simp: give_def refl)

lemma steps_false: "steps Q (\<lambda>b. b) str n (give False)"
  by (rule steps_give_fail) simp

lemma does_on_byte:
  assumes "reader_ok s" "\<not> ok r" "current s < end_at s \<Longrightarrow>
    does Q ok False (Suc (current s)) (k (m (current s))) (s\<lparr>current := Suc (current s)\<rparr>)"
  shows "does Q ok str (current s) (on_byte m r k) s"
proof (cases "current s < end_at s")
  case True
  let ?s = "s\<lparr>current := Suc (current s)\<rparr>"
  from assms(3) [OF True] obtain r' s' where k: "k (m (current s)) ?s = Some (r', s')" "Q ?s s'" "reader_ok s'"
    "Suc (current s) \<le> current s'" "end_at s' = end_at ?s" "ok r' \<Longrightarrow> scope s' = scope ?s"
    by (elim doesE) blast
  show ?thesis
    by (rule doesI [of _ _ r' s']) (use k True trans [OF moved k(2)] in \<open>auto simp: on_byte_read left_of_def\<close>)
next
  case False
  then show ?thesis using assms(1,2) by (intro doesI [of _ _ r s]) (simp_all add: on_byte_end refl)
qed

lemma steps_on_byte:
  assumes "\<not> ok r" "\<And>c. steps Q ok False n (k c)"
  shows "steps Q ok str (Suc n) (on_byte m r k)"
proof (rule stepsI, rule does_on_byte)
  fix s assume s: "reader_ok s" "left_of s < Suc n" "current s < end_at s"
  show "does Q ok False (Suc (current s)) (k (m (current s))) (s\<lparr>current := Suc (current s)\<rparr>)"
    using stepsD [OF assms(2), of "s\<lparr>current := Suc (current s)\<rparr>"] s by (simp add: left_of_def)
qed (use assms(1) in simp_all)

text \<open>An operation that looks at the next byte and may go back to before it.\<close>

lemma does_peek:
  assumes "reader_ok s" "\<not> ok r" "current s < end_at s \<Longrightarrow>
      does Q ok False (Suc (current s)) (k (m (current s))) (s\<lparr>current := Suc (current s)\<rparr>)
      \<or> does Q ok str (current s) (\<lambda>_. k (m (current s)) (s\<lparr>current := Suc (current s)\<rparr>)) s"
  shows "does Q ok str (current s) (on_byte m r k) s"
proof (cases "current s < end_at s
    \<longrightarrow> does Q ok False (Suc (current s)) (k (m (current s))) (s\<lparr>current := Suc (current s)\<rparr>)")
  case True
  then show ?thesis by (intro does_on_byte [OF assms(1)] assms(2)) blast
next
  case False
  with assms(3) have c: "current s < end_at s"
    "does Q ok str (current s) (\<lambda>_. k (m (current s)) (s\<lparr>current := Suc (current s)\<rparr>)) s" by blast+
  have "on_byte m r k s = k (m (current s)) (s\<lparr>current := Suc (current s)\<rparr>)" by (rule on_byte_read [OF c(1)])
  with c(2) show ?thesis by (simp add: does_def)
qed

text \<open>For an operation that needs no fuel.\<close>

lemma steps_on_byte_free:
  assumes "\<not> ok r" "\<And>c n. steps Q ok False n (k c)"
  shows "steps Q ok str n (on_byte m r k)"
  by (rule steps_less [OF steps_on_byte [where n = n]]) (use assms in simp_all)

lemma steps_sequence:
  assumes f: "steps Q (\<lambda>b. b) str n f" and g: "steps Q ok False n g"
    and h: "\<And>s b s'. f s = Some (b, s') \<Longrightarrow> h s = (if b then g s' else Some (r, s'))" and r: "\<not> ok r"
  shows "steps Q ok str n h"
proof (rule stepsI)
  fix s assume s: "reader_ok s" "left_of s < n"
  obtain b s' where f': "f s = Some (b, s')" "Q s s'" "reader_ok s'" "current s \<le> current s'" "end_at s' = end_at s"
    "b \<Longrightarrow> scope s' = scope s" "b \<Longrightarrow> str \<Longrightarrow> left_of s' < left_of s"
    using stepsD [OF f s] by (elim doesE) blast
  have lt: "left_of s' \<le> left_of s" using f'(4,5) by (simp add: left_of_def)
  show "does Q ok str (current s) h s"
  proof (cases b)
    case True
    obtain r' s'' where g': "g s' = Some (r', s'')" "Q s' s''" "reader_ok s''" "current s' \<le> current s''" "end_at s'' = end_at s'"
      "ok r' \<Longrightarrow> scope s'' = scope s'"
      using stepsD [OF g f'(3) le_less_trans [OF lt s(2)]] by (elim doesE) blast
    have lt': "left_of s'' \<le> left_of s'" using g'(4,5) by (simp add: left_of_def)
    show ?thesis
      by (rule doesI [of _ _ r' s''])
        (use True f' g' h [OF f'(1)] trans [OF f'(2) g'(2)] lt' in \<open>auto intro: le_less_trans\<close>)
  next
    case False
    then show ?thesis using f' h [OF f'(1)] r by (intro doesI [of _ _ r s']) simp_all
  qed
qed

lemma steps_and_then:
  assumes "steps Q (\<lambda>b. b) str n f" "steps Q (\<lambda>b. b) False n g"
  shows "steps Q (\<lambda>b. b) str n (and_then f g)"
  by (rule steps_sequence [OF assms, where r = False]) (simp_all add: and_then_def)

lemma steps_ignoring:
  assumes "steps Q (\<lambda>b. b) False n f" "steps Q (\<lambda>b. b) False n g"
    "\<And>s s'. Q s s' \<Longrightarrow> scope s' = scope s"
  shows "steps Q (\<lambda>b. b) False n (ignoring f g)"
proof (rule stepsI)
  fix s assume s: "reader_ok s" "left_of s < n"
  obtain b s' where f': "f s = Some (b, s')" "Q s s'" "reader_ok s'" "current s \<le> current s'" "end_at s' = end_at s"
    using stepsD [OF assms(1) s] by (elim doesE) blast
  have lt: "left_of s' \<le> left_of s" using f'(4,5) by (simp add: left_of_def)
  obtain r' s'' where g': "g s' = Some (r', s'')" "Q s' s''" "reader_ok s''" "current s' \<le> current s''" "end_at s'' = end_at s'"
    "r' \<Longrightarrow> scope s'' = scope s'"
    using stepsD [OF assms(2) f'(3) le_less_trans [OF lt s(2)]] by (elim doesE) blast
  show "does Q (\<lambda>b. b) False (current s) (ignoring f g) s"
    by (rule doesI [of _ _ r' s''])
      (use f' g' trans [OF f'(2) g'(2)] assms(3) [OF f'(2)] in \<open>auto simp: ignoring_def\<close>)
qed

lemma steps_on_package:
  assumes P: "steps Q (\<lambda>l. l \<noteq> None) True n (pkg_length m)" and k: "rest_of Q ok n k" and r: "\<not> ok r"
  shows "steps Q ok False n (on_package m r k)"
proof (rule stepsI)
  fix s assume s: "reader_ok s" "left_of s < n"
  obtain l s1 where l: "pkg_length m s = Some (l, s1)" "Q s s1" "reader_ok s1" "current s \<le> current s1" "end_at s1 = end_at s"
    "l \<noteq> None \<Longrightarrow> scope s1 = scope s"
    using stepsD [OF P s] by (elim doesE) blast
  have lt: "left_of s1 < n" using l(4,5) s(2) by (simp add: left_of_def)
  show "does Q ok False (current s) (on_package m r k) s"
  proof (cases l)
    case None
    then show ?thesis using l r by (intro doesI [of _ _ r s1]) (simp_all add: on_package_def)
  next
    case (Some len)
    have "does Q ok False (current s) (k (current s + unat len)) s1"
      using k l(3,4) lt unfolding rest_of_def by (meson le_add1)
    then obtain r' s2 where k': "k (current s + unat len) s1 = Some (r', s2)" "Q s1 s2" "reader_ok s2" "current s \<le> current s2"
      "end_at s2 = end_at s1" "ok r' \<Longrightarrow> scope s2 = scope s1"
      by (elim doesE) blast
    show ?thesis
      by (rule doesI [of _ _ r' s2]) (use Some l k' trans [OF l(2) k'(2)] in \<open>auto simp: on_package_def\<close>)
  qed
qed

lemma steps_or_else:
  assumes f: "steps Q (\<lambda>b. b) str n f" and g: "steps Q (\<lambda>b. b) str n g"
  shows "steps Q (\<lambda>b. b) str n (or_else f g)"
proof (rule stepsI)
  fix s assume s: "reader_ok s" "left_of s < n"
  obtain b s' where f': "f s = Some (b, s')" "Q s s'" "reader_ok s'" "current s \<le> current s'" "end_at s' = end_at s"
    "b \<Longrightarrow> scope s' = scope s" "b \<Longrightarrow> str \<Longrightarrow> left_of s' < left_of s"
    using stepsD [OF f s] by (elim doesE) blast
  show "does Q (\<lambda>b. b) str (current s) (or_else f g) s"
  proof (cases b)
    case True
    then show ?thesis using f' by (intro doesI [of _ _ True s']) (simp_all add: or_else_def)
  next
    case False
    let ?s = "cancel (save s) s'"
    have eq: "left_of ?s = left_of s" using f'(5) by (simp add: left_of_def)
    have lt: "left_of ?s < n" using s(2) eq by simp
    have Qs: "Q s ?s" using trans [OF f'(2) cancelled [OF f'(2)]] .
    obtain r s'' where g': "g ?s = Some (r, s'')" "Q ?s s''" "reader_ok s''" "current ?s \<le> current s''" "end_at s'' = end_at ?s"
      "r \<Longrightarrow> scope s'' = scope ?s" "r \<Longrightarrow> str \<Longrightarrow> left_of s'' < left_of ?s"
      using stepsD [OF g reader_ok_cancel [OF f'(2) s(1) f'(3)] lt] by (elim doesE) blast
    show ?thesis
      by (rule doesI [of _ _ r s'']) (use False f'(1,5) g' trans [OF Qs g'(2)] eq in \<open>auto simp: or_else_def\<close>)
  qed
qed

lemma steps_while:
  assumes f: "steps Q (\<lambda>b. b) True n f" and "n \<le> k"
  shows "steps Q (\<lambda>b. b) False n (while_before k p f)"
proof (rule stepsI)
  have "left_of s < k \<Longrightarrow> reader_ok s \<Longrightarrow> left_of s < n \<Longrightarrow> does Q (\<lambda>b. b) False (current s) (while_before k p f) s" for s
  proof (induction k arbitrary: s)
    case (Suc k)
    show ?case
    proof (cases "current s < p")
      case True
      obtain b s' where f': "f s = Some (b, s')" "Q s s'" "reader_ok s'" "current s \<le> current s'" "end_at s' = end_at s"
        "b \<Longrightarrow> scope s' = scope s" "b \<Longrightarrow> left_of s' < left_of s"
        using stepsD [OF f Suc.prems(2,3)] by (elim doesE) blast
      show ?thesis
      proof (cases b)
        case b: True
        have lt: "left_of s' < k" "left_of s' < n" using f'(7) [OF b] Suc.prems by simp_all
        obtain r s'' where g': "while_before k p f s' = Some (r, s'')" "Q s' s''" "reader_ok s''" "current s' \<le> current s''"
          "end_at s'' = end_at s'" "r \<Longrightarrow> scope s'' = scope s'"
          using Suc.IH [OF lt(1) f'(3) lt(2)] by (elim doesE) blast
        show ?thesis
          by (rule doesI [of _ _ r s'']) (use True b f' g' trans [OF f'(2) g'(2)] in auto)
      qed (use True f' in \<open>auto intro: doesI\<close>)
    qed (use Suc.prems refl in \<open>auto intro: doesI\<close>)
  qed simp
  then show "reader_ok s \<Longrightarrow> left_of s < n \<Longrightarrow> does Q (\<lambda>b. b) False (current s) (while_before k p f) s" for s
    using assms(2) by auto
qed

lemma rest_and_then:
  assumes f: "steps Q (\<lambda>b. b) False n f" and g: "rest_of Q (\<lambda>b. b) n g"
  shows "rest_of Q (\<lambda>b. b) n (\<lambda>p. and_then f (g p))"
  unfolding rest_of_def
proof (intro allI impI)
  fix p b s assume "reader_ok s \<and> left_of s < n \<and> b \<le> p \<and> b \<le> current s"
  then have s: "reader_ok s" "left_of s < n" "b \<le> p" "b \<le> current s" by simp_all
  obtain r s' where f': "f s = Some (r, s')" "Q s s'" "reader_ok s'" "current s \<le> current s'" "end_at s' = end_at s"
    "r \<Longrightarrow> scope s' = scope s"
    using stepsD [OF f s(1,2)] by (elim doesE) blast
  show "does Q (\<lambda>b. b) False b (and_then f (g p)) s"
  proof (cases r)
    case True
    have "left_of s' < n" "b \<le> current s'" using f'(4,5) s(2,4) by (simp_all add: left_of_def)
    then have "does Q (\<lambda>b. b) False b (g p) s'" using g f'(3) s(3) unfolding rest_of_def by blast
    then obtain r' s'' where g': "g p s' = Some (r', s'')" "Q s' s''" "reader_ok s''" "b \<le> current s''" "end_at s'' = end_at s'"
      "r' \<Longrightarrow> scope s'' = scope s'"
      by (elim doesE) blast
    show ?thesis
      by (rule doesI [of _ _ r' s'']) (use True f' g' trans [OF f'(2) g'(2)] in \<open>auto simp: and_then_def\<close>)
  next
    case False
    then show ?thesis using f' s(4) by (intro doesI [of _ _ False s']) (simp_all add: and_then_def)
  qed
qed

lemma rest_on_byte:
  assumes r: "\<not> ok r" and k: "\<And>c. rest_of Q ok n (k c)"
  shows "rest_of Q ok n (\<lambda>p. on_byte m r (\<lambda>c. k c p))"
  unfolding rest_of_def
proof (intro allI impI)
  fix p b s assume "reader_ok s \<and> left_of s < n \<and> b \<le> p \<and> b \<le> current s"
  then have s: "reader_ok s" "left_of s < n" "b \<le> p" "b \<le> current s" by simp_all
  show "does Q ok False b (on_byte m r (\<lambda>c. k c p)) s"
  proof (cases "current s < end_at s")
    case True
    let ?s = "s\<lparr>current := Suc (current s)\<rparr>"
    have "left_of ?s < n" "b \<le> current ?s" using s(2,4) by (simp_all add: left_of_def)
    then have "does Q ok False b (k (m (current s)) p) ?s" using k [of "m (current s)"] s(1,3) unfolding rest_of_def by simp
    then obtain r' s' where "k (m (current s)) p ?s = Some (r', s')" "Q ?s s'" "reader_ok s'" "b \<le> current s'" "end_at s' = end_at ?s"
      "ok r' \<Longrightarrow> scope s' = scope ?s"
      by (elim doesE) blast
    then show ?thesis
      using True trans [OF moved] by (intro doesI [of _ _ r' s']) (auto simp: on_byte_read)
  next
    case False
    then show ?thesis using s r refl by (intro doesI [of _ _ r s]) (simp_all add: on_byte_end)
  qed
qed

end

lemma scope_ok_grown: "grown es es' \<Longrightarrow> scope_ok es c \<Longrightarrow> scope_ok es' c"
  by (auto simp: scope_ok_def grown_in_use)

interpretation quiet: reading quiet
  by unfold_locales (simp_all add: quiet_def)

interpretation builds: reading builds
  by unfold_locales (auto simp: builds_def intro: grown_trans scope_ok_grown)

lemma does_quiet_builds: "does quiet ok str b f s \<Longrightarrow> does builds ok str b f s"
  by (auto simp: does_def quiet_def builds_def)

lemma steps_quiet_builds: "steps quiet ok str n f \<Longrightarrow> steps builds ok str n f"
  by (auto intro: does_quiet_builds simp: steps_def)

subsection \<open>Names\<close>

lemma quiet_pkg_length: "steps quiet (\<lambda>l. l \<noteq> None) str n (pkg_length m)"
  unfolding pkg_length_def Let_def by (auto intro!: quiet.steps_on_byte_free quiet.steps_give)

lemma quiet_name_seg: "steps quiet success str n (name_seg m)"
proof (rule stepsI)
  fix s assume s: "reader_ok s" "left_of s < n"
  have inv: "\<not> success invalid_name" by (simp add: invalid_name_def)
  have rest: "steps quiet success False n (on_byte m invalid_name (\<lambda>b. on_byte m invalid_name (\<lambda>c. on_byte m invalid_name
      (\<lambda>d. give (seg_name (a, b, c, d))))))" for a n
    using inv by (intro quiet.steps_on_byte_free quiet.steps_give)
  have "does quiet success False (Suc (current s)) (on_byte m invalid_name (\<lambda>b. on_byte m invalid_name (\<lambda>c. on_byte m invalid_name
      (\<lambda>d. give (seg_name (a, b, c, d)))))) (s\<lparr>current := Suc (current s)\<rparr>)" for a
    using stepsD [OF rest, of "s\<lparr>current := Suc (current s)\<rparr>" "Suc (left_of s)"] s by (simp add: left_of_def)
  moreover have "does quiet success str (current s) (\<lambda>_. give invalid_name s) s"
    using s(1) inv quiet.refl by (intro doesI [of _ _ invalid_name s]) (simp_all add: give_def)
  ultimately have "does quiet success str (current s) (on_byte m invalid_name (\<lambda>a. if lead_char a
     then on_byte m invalid_name (\<lambda>b. on_byte m invalid_name (\<lambda>c. on_byte m invalid_name (\<lambda>d. give (seg_name (a, b, c, d)))))
     else (\<lambda>s'. give invalid_name (cancel (save s) s')))) s"
    by (intro quiet.does_peek s(1) inv) (simp add: if_distribR)
  then show "does quiet success str (current s) (name_seg m) s"
    by (simp add: does_def name_seg_def)
qed

text \<open>What a name that has been read points to.\<close>

definition name_good :: "ns_entry list \<Rightarrow> aml_name \<Rightarrow> bool" where
  "name_good es nm \<longleftrightarrow> valid_ctx es (entry nm) \<and> (\<forall>j. upper nm = Some j \<longrightarrow> j < NAME_PATH_LIMIT) \<and> lower nm = None"

definition name_read :: "aml \<Rightarrow> (aml_name \<times> aml) option \<Rightarrow> bool" where
  "name_read s r \<longleftrightarrow> (\<exists>nm s'. r = Some (nm, s') \<and> quiet s s' \<and> reader_ok s' \<and> current s \<le> current s' \<and> end_at s' = end_at s
     \<and> name_good (ns s) nm)"

lemma name_good_invalid [simp]: "name_good es invalid_name"
  by (simp add: name_good_def invalid_name_def)

lemma name_readI:
  "r = Some (nm, s') \<Longrightarrow> quiet s s' \<Longrightarrow> reader_ok s' \<Longrightarrow> current s \<le> current s' \<Longrightarrow> end_at s' = end_at s \<Longrightarrow> name_good (ns s) nm
   \<Longrightarrow> name_read s r"
  by (auto simp: name_read_def)

lemma name_read_trans: "name_read s1 r \<Longrightarrow> quiet s s1 \<Longrightarrow> current s \<le> current s1 \<Longrightarrow> end_at s1 = end_at s \<Longrightarrow> name_read s r"
  unfolding name_read_def using quiet.trans by (auto simp: quiet_def)

lemma name_seg_result:
  "name_seg m s = Some (nm, s') \<Longrightarrow> nm = invalid_name \<or> (\<exists>a b c d. lead_char a \<and> nm = seg_name (a, b, c, d))"
  by (auto simp: name_seg_def on_byte_def give_def split: option.splits prod.splits if_splits)

lemma lead_char_not_null: "lead_char a \<Longrightarrow> a \<noteq> 0"
  by (auto simp: lead_char_def)

lemma name_segE:
  assumes "reader_ok s"
  obtains nm s' where "name_seg m s = Some (nm, s')" "quiet s s'" "reader_ok s'" "current s \<le> current s'" "end_at s' = end_at s"
    "success nm \<Longrightarrow> left_of s' < left_of s" "\<not> success nm \<Longrightarrow> nm = invalid_name" "success nm \<Longrightarrow> nm = seg_name (nseg nm) \<and> \<not> seg_null (nseg nm)"
proof -
  have "does quiet success True (current s) (name_seg m) s"
    using stepsD [OF quiet_name_seg assms lessI] .
  then obtain nm s' where n: "name_seg m s = Some (nm, s')" "quiet s s'" "reader_ok s'" "current s \<le> current s'" "end_at s' = end_at s"
    "success nm \<Longrightarrow> left_of s' < left_of s"
    by (elim doesE) blast
  have "success (seg_name k)" "nseg (seg_name k) = k" "\<not> success invalid_name" for k
    by (simp_all add: seg_name_def invalid_name_def)
  with name_seg_result [OF n(1)] n that lead_char_not_null show ?thesis by fastforce
qed

lemma path_ok_write:
  assumes "path_ok es path" "k < NAME_PATH_LIMIT \<Longrightarrow> path_name_ok es k x"
  shows "path_ok es (path[k := x])"
  using assms by (cases "k < NAME_PATH_LIMIT") (auto simp: path_ok_def nth_list_update list_update_beyond)

lemma path_ok_lower: "path_ok es path \<Longrightarrow> path_ok es (path[u := (path ! u)\<lparr>lower := w\<rparr>])"
  by (rule path_ok_write) (auto simp: path_ok_def path_name_ok_def)

lemma path_ok_grown: "grown es es' \<Longrightarrow> path_ok es path \<Longrightarrow> path_ok es' path"
  using grown_ctx by (auto simp: path_ok_def path_name_ok_def)

lemma multi_name_read:
  assumes "reader_ok s" "valid_ctx (ns s) ctx" "name_good (ns s) nm" "idx \<le> NAME_PATH_LIMIT"
    "uplink = (if idx = 0 then None else Some (idx - 1))"
  shows "name_read s (multi_name m k nm idx ctx root uplink s)"
  using assms
proof (induction k arbitrary: nm idx ctx root uplink s)
  case 0
  then show ?case by (intro name_readI [of _ nm "s\<lparr>named_scope := ctx\<rparr>"]) (simp_all add: quiet_def)
next
  case (Suc k)
  obtain n s1 where n: "name_seg m s = Some (n, s1)" "quiet s s1" "reader_ok s1" "current s \<le> current s1" "end_at s1 = end_at s"
    "\<not> success n \<Longrightarrow> n = invalid_name" "success n \<Longrightarrow> n = seg_name (nseg n) \<and> \<not> seg_null (nseg n)"
    using name_segE [OF Suc.prems(1)] by metis
  have ns: "ns s1 = ns s" using n(2) by (simp add: quiet_def)
  show ?case
  proof (cases "success n")
    case False
    then show ?thesis using n by (intro name_readI [of _ invalid_name s1]) simp_all
  next
    case True
    have "ns_ok (ns s1)" "valid_ctx (ns s1) ctx" using n(3) Suc.prems(2) ns by (simp_all add: reader_ok_def)
    then obtain c where c: "find_entry (ns s1) (nseg n) ctx = Some c" "valid_ctx (ns s1) c" by (rule find_entry_ok)
    let ?n1 = "n\<lparr>is_root := root, lower := None, upper := None, entry := c\<rparr>"
    show ?thesis
    proof (cases "idx < NAME_PATH_LIMIT")
      case lim: True
      let ?n2 = "?n1\<lparr>upper := uplink\<rparr>"
      let ?p = "(name_path s1)[idx := ?n2]"
      let ?p' = "case uplink of None \<Rightarrow> ?p | Some u \<Rightarrow> ?p[u := (?p ! u)\<lparr>lower := Some (Path idx)\<rparr>]"
      have "path_name_ok (ns s1) idx ?n2" using Suc.prems(5) c(2) by (simp add: path_name_ok_def)
      then have "path_ok (ns s1) ?p" using n(3) by (simp add: path_ok_write reader_ok_def)
      then have "path_ok (ns s1) ?p'" by (cases uplink) (simp_all only: option.case path_ok_lower)
      then have ok: "reader_ok (s1\<lparr>name_path := ?p'\<rparr>)" using n(3) by (simp add: reader_ok_def)
      have good: "name_good (ns s1) ?n2" using c(2) lim Suc.prems(5) by (simp add: name_good_def less_imp_diff_less)
      have "name_read (s1\<lparr>name_path := ?p'\<rparr>) (multi_name m k ?n2 (Suc idx) c False (Some idx) (s1\<lparr>name_path := ?p'\<rparr>))"
        using ok good c(2) lim by (intro Suc.IH) simp_all
      then have "name_read s (multi_name m k ?n2 (Suc idx) c False (Some idx) (s1\<lparr>name_path := ?p'\<rparr>))"
        by (rule name_read_trans) (use n(2,4,5) in \<open>simp_all add: quiet_def\<close>)
      then show ?thesis using n(1) c(1) True lim by (simp add: Let_def)
    next
      case lim: False
      have good: "name_good (ns s1) ?n1" using c(2) by (simp add: name_good_def)
      have "name_read s (multi_name m k ?n1 idx c False uplink s1)"
        by (rule name_read_trans [OF Suc.IH]) (use n(2-5) good c(2) Suc.prems(4,5) in simp_all)
      then show ?thesis using n(1) c(1) True lim by (simp add: Let_def)
    qed
  qed
qed

lemma single_name_read:
  assumes "reader_ok s" "valid_ctx (ns s) ctx"
  shows "name_read s (single_name m ctx root s)"
proof -
  obtain n s1 where n: "name_seg m s = Some (n, s1)" "quiet s s1" "reader_ok s1" "current s \<le> current s1" "end_at s1 = end_at s"
    using name_segE [OF assms(1)] by metis
  have "ns_ok (ns s1)" "valid_ctx (ns s1) ctx" using n(2,3) assms(2) by (simp_all add: reader_ok_def quiet_def)
  then obtain c where c: "find_entry (ns s1) (nseg n) ctx = Some c" "valid_ctx (ns s1) c" by (rule find_entry_ok)
  then have "name_good (ns s) (n\<lparr>is_root := root, lower := None, upper := None, entry := c\<rparr>)"
    using n(2) by (simp add: name_good_def quiet_def)
  moreover have "quiet s (s1\<lparr>named_scope := c\<rparr>)" using n(2) by (simp add: quiet_def)
  ultimately show ?thesis using n c by (auto simp: single_name_def name_read_def Let_def)
qed

lemma single_name_strict:
  assumes "reader_ok s" "single_name m ctx root s = Some (nm, s')" "success nm"
  shows "current s < current s'"
proof -
  obtain n s1 where n: "name_seg m s = Some (n, s1)" "current s \<le> current s1" "end_at s1 = end_at s"
    "success n \<Longrightarrow> left_of s1 < left_of s"
    using name_segE [OF assms(1)] by metis
  have "success n \<and> current s' = current s1"
    using assms(2,3) n(1) by (auto simp: single_name_def invalid_name_def bind_eq_Some_conv split: if_splits)
  with n show ?thesis by (simp add: left_of_def)
qed

lemma caretsE:
  assumes "reader_ok s" "fst v \<ge> b" "snd v = scope s" "b \<le> current s"
  obtains s' where "carets m first v s = (None, s')" "quiet s s'" "reader_ok s'" "current s \<le> current s'" "end_at s' = end_at s"
  | c w s' where "carets m first v s = (Some (c, w), s')" "quiet s s'" "reader_ok s'" "current s \<le> current s'" "end_at s' = end_at s"
      "b \<le> fst w" "snd w = scope s"
proof -
  have "(\<exists>s'. carets m first v s = (None, s') \<and> quiet s s' \<and> reader_ok s' \<and> current s \<le> current s' \<and> end_at s' = end_at s)
    \<or> (\<exists>c w s'. carets m first v s = (Some (c, w), s') \<and> quiet s s' \<and> reader_ok s' \<and> current s \<le> current s' \<and> end_at s' = end_at s
      \<and> b \<le> fst w \<and> snd w = scope s)"
    using assms
  proof (induction m first v s rule: carets.induct)
    case (1 m first v s)
    show ?case
    proof (cases "first = 0x5e \<and> current s < end_at s")
      case True
      let ?s = "s\<lparr>current := Suc (current s)\<rparr>"
      have g: "get m s = (Some (m (current s)), ?s)" using True by (simp add: get_def)
      have q: "quiet s s' \<longleftrightarrow> quiet ?s s'" for s' by (simp add: quiet_def)
      have c: "carets m first v s = carets m (m (current s)) (save s) ?s" by (subst carets.simps) (simp add: True g)
      have "(\<exists>s'. carets m (m (current s)) (save s) ?s = (None, s') \<and> quiet ?s s' \<and> reader_ok s' \<and> current ?s \<le> current s' \<and> end_at s' = end_at ?s)
        \<or> (\<exists>c w s'. carets m (m (current s)) (save s) ?s = (Some (c, w), s') \<and> quiet ?s s' \<and> reader_ok s' \<and> current ?s \<le> current s'
          \<and> end_at s' = end_at ?s \<and> b \<le> fst w \<and> snd w = scope ?s)"
        using True 1(2-5) g by (intro 1(1) [OF _ g [symmetric] refl]) (auto simp: save_def)
      then show ?thesis using c q by (auto intro: Suc_leD)
    next
      case False
      then have c: "carets m first v s = (if first = 0x5e then (None, s) else (Some (first, v), s))"
        by (subst carets.simps) (auto simp: get_def)
      show ?thesis using c 1(2-5) quiet.refl by (cases v) auto
    qed
  qed
  with that show ?thesis by blast
qed

lemma name_rest_read:
  assumes "reader_ok s" "valid_ctx (ns s) ctx" "b < current s" "b \<le> fst v" "snd v = scope s"
  shows "\<exists>nm s'. name_rest m ctx root v first s = Some (nm, s') \<and> quiet s s' \<and> reader_ok s' \<and> b \<le> current s' \<and> end_at s' = end_at s
     \<and> name_good (ns s) nm \<and> (success nm \<longrightarrow> b < current s')"
proof -
  have inv: "\<not> success invalid_name" by (simp add: invalid_name_def)
  have R: "name_read s r \<Longrightarrow> \<exists>nm s'. r = Some (nm, s') \<and> quiet s s' \<and> reader_ok s' \<and> b \<le> current s' \<and> end_at s' = end_at s
     \<and> name_good (ns s) nm \<and> (success nm \<longrightarrow> b < current s')" for r using assms(3) by (auto simp: name_read_def)
  consider "first = 0" | "first = 0x2e" | "first = 0x2f" | "first \<noteq> 0" "first \<noteq> 0x2e" "first \<noteq> 0x2f" by blast
  then show ?thesis
  proof cases
    case 1
    then show ?thesis using assms quiet.refl by (auto simp: name_rest_def)
  next
    case 2
    obtain n s1 where n: "name_seg m s = Some (n, s1)" "quiet s s1" "reader_ok s1" "current s \<le> current s1" "end_at s1 = end_at s"
      using name_segE [OF assms(1)] by metis
    obtain n2 s2 where n2: "name_seg m s1 = Some (n2, s2)" "quiet s1 s2" "reader_ok s2" "current s1 \<le> current s2" "end_at s2 = end_at s1"
      using name_segE [OF n(3)] by metis
    show ?thesis using 2 n n2 quiet.trans [OF n(2) n2(2)] assms(3) inv by (cases "success n") (auto simp: name_rest_def)
  next
    case 3
    let ?s = "s\<lparr>current := Suc (current s)\<rparr>"
    have r: "name_rest m ctx root v first s = on_byte m invalid_name (\<lambda>c. multi_name m (unat c) invalid_name 0 ctx root None) s"
      using 3 by (simp add: name_rest_def)
    have "name_read s (on_byte m invalid_name (\<lambda>c. multi_name m (unat c) invalid_name 0 ctx root None) s)"
    proof (cases "current s < end_at s")
      case True
      have "name_read ?s (multi_name m (unat c) invalid_name 0 ctx root None ?s)" for c
        using assms(1,2) by (intro multi_name_read) simp_all
      then show ?thesis
        unfolding on_byte_read [OF True] by (rule name_read_trans) (simp_all add: quiet_def)
    next
      case False
      show ?thesis unfolding on_byte_end [OF False]
        by (rule name_readI [OF HOL.refl quiet.refl assms(1)]) simp_all
    qed
    then show ?thesis unfolding r by (rule R)
  next
    case 4
    let ?s = "cancel v s"
    have s: "reader_ok ?s" using assms(1,5) by (simp add: reader_ok_def cancel_def)
    have "name_read ?s (single_name m ctx root ?s)" using s assms(2) by (intro single_name_read) simp_all
    then obtain nm s' where n: "single_name m ctx root ?s = Some (nm, s')" "quiet ?s s'" "reader_ok s'" "current ?s \<le> current s'"
      "end_at s' = end_at ?s" "name_good (ns s) nm"
      by (auto simp: name_read_def)
    have "success nm \<longrightarrow> fst v < current s'" using single_name_strict [OF s n(1)] by (simp add: cancel_def)
    with 4 n assms(4,5) show ?thesis by (auto simp: name_rest_def quiet_def cancel_def)
  qed
qed

text \<open>A name string is read whole or not at all, and what it answers points into the namespace.\<close>

lemma name_string_read:
  assumes "reader_ok s"
  obtains nm s' where "name_string m s = Some (nm, s')" "quiet s s'" "reader_ok s'" "current s \<le> current s'" "end_at s' = end_at s"
    "name_good (ns s) nm" "success nm \<Longrightarrow> left_of s' < left_of s"
proof -
  let ?s = "s\<lparr>current := Suc (current s)\<rparr>"
  have inv: "\<not> success invalid_name" by (simp add: invalid_name_def)
  have ctx: "valid_ctx (ns s) (scope s)" "valid_ctx (ns s) (Some get_root)"
    using assms ns_ok_root by (auto simp: reader_ok_def scope_ok_def)
  have T: "quiet ?s s' \<longleftrightarrow> quiet s s'" for s' by (simp add: quiet_def)
  have "\<exists>nm s'. name_string m s = Some (nm, s') \<and> quiet s s' \<and> reader_ok s' \<and> current s \<le> current s' \<and> end_at s' = end_at s \<and> name_good (ns s) nm
    \<and> (success nm \<longrightarrow> current s < current s' \<and> current s < end_at s)"
  proof (cases "current s < end_at s")
    case False
    then show ?thesis using assms quiet.refl inv by (simp add: name_string_def on_byte_end)
  next
    case True
    let ?c = "m (current s)"
    have ok: "reader_ok ?s" using assms by simp
    consider "?c = 0x5e" | "?c = 0x5c" | "?c \<noteq> 0x5e" "?c \<noteq> 0x5c" by blast
    then show ?thesis
    proof cases
      case 1
      have v: "current s \<le> fst (save s)" "snd (save s) = scope ?s" "current s \<le> current ?s" by (simp_all add: save_def)
      have e: "name_string m s = (case carets m ?c (save s) ?s of (None, s2) \<Rightarrow> Some (invalid_name, s2)
          | (Some (c, v), s2) \<Rightarrow> name_rest m (scope s) False v c s2)"
        using 1 True by (simp add: name_string_def on_byte_read)
      show ?thesis
      proof (rule caretsE [OF ok v, where m = m and first = ?c])
        fix s' assume "carets m ?c (save s) ?s = (None, s')" "quiet ?s s'" "reader_ok s'" "current ?s \<le> current s'" "end_at s' = end_at ?s"
        then show ?thesis using e T inv by simp
      next
        fix c w s' assume c: "carets m ?c (save s) ?s = (Some (c, w), s')" "quiet ?s s'" "reader_ok s'" "current ?s \<le> current s'"
          "end_at s' = end_at ?s" "current s \<le> fst w" "snd w = scope ?s"
        have "\<exists>nm s2. name_rest m (scope s) False w c s' = Some (nm, s2) \<and> quiet s' s2 \<and> reader_ok s2 \<and> current s \<le> current s2
            \<and> end_at s2 = end_at s' \<and> name_good (ns s') nm \<and> (success nm \<longrightarrow> current s < current s2)"
          using c ctx(1) by (intro name_rest_read) (simp_all add: quiet_def)
        then show ?thesis using e c T quiet.trans True by (auto simp: quiet_def)
      qed
    next
      case 2
      have e: "name_string m s = on_byte m invalid_name (\<lambda>c. name_rest m (Some get_root) True (save ?s) c) ?s"
        using 2 True by (simp add: name_string_def on_byte_read)
      show ?thesis
      proof (cases "current ?s < end_at ?s")
        case c: True
        let ?s2 = "?s\<lparr>current := Suc (current ?s)\<rparr>"
        have "\<exists>nm s'. name_rest m (Some get_root) True (save ?s) (m (current ?s)) ?s2 = Some (nm, s') \<and> quiet ?s2 s' \<and> reader_ok s'
            \<and> current s \<le> current s' \<and> end_at s' = end_at ?s2 \<and> name_good (ns ?s2) nm \<and> (success nm \<longrightarrow> current s < current s')"
          using ok ctx(2) by (intro name_rest_read) (simp_all add: save_def)
        then show ?thesis unfolding e on_byte_read [OF c] using True by (simp add: quiet_def)
      next
        case c: False
        then show ?thesis unfolding e on_byte_end [OF c] using ok inv by (simp add: quiet_def)
      qed
    next
      case 3
      have "\<exists>nm s'. name_rest m (scope s) False (save s) ?c ?s = Some (nm, s') \<and> quiet ?s s' \<and> reader_ok s'
          \<and> current s \<le> current s' \<and> end_at s' = end_at ?s \<and> name_good (ns ?s) nm \<and> (success nm \<longrightarrow> current s < current s')"
        using ok ctx(1) by (intro name_rest_read) (simp_all add: save_def)
      then show ?thesis using 3 True T by (auto simp: name_string_def on_byte_read)
    qed
  qed
  with that show ?thesis by (force simp: left_of_def)
qed

lemma quiet_name_ok: "steps quiet (\<lambda>b. b) str n (name_ok m)"
proof (rule stepsI)
  fix s assume s: "reader_ok s"
  obtain nm s' where "name_string m s = Some (nm, s')" "quiet s s'" "reader_ok s'" "current s \<le> current s'" "end_at s' = end_at s"
    "success nm \<Longrightarrow> left_of s' < left_of s"
    using name_string_read [OF s] by metis
  then show "does quiet (\<lambda>b. b) str (current s) (name_ok m) s"
    by (intro doesI [of _ _ "success nm" s']) (simp_all add: name_ok_def quiet_def)
qed


end
