(* ===== verification/AmlEnds.thy ===== *)
theory AmlEnds
  imports AmlSafe
begin

text \<open>
  The operations of the reader, one by one, by the rules of \<open>AmlSafe\<close>: with more fuel than bytes left each of them ends,
  reads forward, and leaves a reader in order. The last section closes the recursion and shows it of the whole table.
\<close>

abbreviation reads :: "bool \<Rightarrow> nat \<Rightarrow> bool act \<Rightarrow> bool" where
  "reads \<equiv> steps quiet (\<lambda>b. b)"

abbreviation reads_data :: "bool \<Rightarrow> nat \<Rightarrow> (bool \<times> aml_data) act \<Rightarrow> bool" where
  "reads_data \<equiv> steps quiet fst"

abbreviation makes :: "bool \<Rightarrow> nat \<Rightarrow> bool act \<Rightarrow> bool" where
  "makes \<equiv> steps builds (\<lambda>b. b)"

subsection \<open>Arguments\<close>

lemma steps_some: "steps quiet ok False n (\<lambda>s. Some (g s, s))"
  by (rule stepsI, rule doesI) (simp_all add: quiet.refl)

lemma reads_localorarg: "reads str n (localorarg_obj m)"
  unfolding localorarg_obj_def by (intro quiet.steps_on_byte_free quiet.steps_give) simp

lemma reads_debug: "reads str n (debug_object m)"
  unfolding debug_object_def by (auto intro!: quiet.steps_on_byte_free quiet.steps_give)

lemma reads_target:
  assumes "reads str n supn"
  shows "reads str n (target m supn)"
proof (rule stepsI)
  fix s assume s: "reader_ok s" "left_of s < n"
  have f: "does quiet (\<lambda>b. b) str (current s) supn s" by (rule stepsD [OF assms s])
  have "does quiet (\<lambda>b. b) str (current s)
      (on_byte m False (\<lambda>c s'. if c = 0 then Some (True, s') else supn (cancel (save s) s'))) s"
  proof (rule quiet.does_peek)
    show "does quiet (\<lambda>b. b) False (Suc (current s))
        (\<lambda>s'. if m (current s) = 0 then Some (True, s') else supn (cancel (save s) s')) (s\<lparr>current := Suc (current s)\<rparr>) \<or>
      does quiet (\<lambda>b. b) str (current s) (\<lambda>_. if m (current s) = 0 then Some (True, s\<lparr>current := Suc (current s)\<rparr>)
        else supn (cancel (save s) (s\<lparr>current := Suc (current s)\<rparr>))) s"
      using f s(1) quiet.refl by (auto simp: does_def)
  qed (use s in simp_all)
  then show "does quiet (\<lambda>b. b) str (current s) (target m supn) s"
    by (simp add: does_def target_def)
qed

lemma reads_type_six:
  assumes "reads True n supn" "reads True n term"
  shows "reads str (Suc n) (type_six_opcode m supn term)"
  unfolding type_six_opcode_def using assms
  by (intro quiet.steps_on_byte) (auto intro!: quiet.steps_and_then quiet.steps_give reads_target intro: steps_weaken)

lemma reads_super_name_body:
  assumes "reads True n supn" "reads True n term"
  shows "reads True (Suc n) (super_name_body m supn term)"
  unfolding super_name_body_def using assms
  by (intro quiet.steps_or_else reads_localorarg quiet_name_ok reads_type_six reads_debug quiet.steps_false)

lemma reads_two_after:
  assumes "reads True n supn" "reads True n term"
  shows "reads False n (and_then supn (target m supn))" "reads False n (and_then term (and_then term (target m supn)))"
    "reads False n (and_then term term)" "reads False n term" "reads False n supn"
  using assms by (auto intro!: quiet.steps_and_then reads_target intro: steps_weaken)

lemma reads_type_two:
  assumes "reads True n supn" "reads True n term"
  shows "reads True (Suc n) (type_two_opcode m supn term)"
proof (rule stepsI)
  fix s assume s: "reader_ok s" "left_of s < Suc n"
  let ?k = "\<lambda>c. if c = 0x5b then on_byte m False (\<lambda>c. if c = 0x12 then and_then supn (target m supn) else give False)
     else if c = 0x72 then and_then term (and_then term (target m supn))
     else if c = 0x83 then term
     else if c = 0x87 then supn
     else if c = 0x88 then and_then term (and_then term (target m supn))
     else if c = 0x90 \<or> c = 0x91 then and_then term term
     else if c = 0x92 then term
     else if c = 0x93 \<or> c = 0x94 \<or> c = 0x95 then and_then term term
     else (\<lambda>s'. name_ok m (cancel (save s) s'))"
  let ?s = "s\<lparr>current := Suc (current s)\<rparr>"
  have name: "does quiet (\<lambda>b. b) True (current s) (name_ok m) s" by (rule stepsD [OF quiet_name_ok s(1) lessI])
  have ext: "reads False n (on_byte m False (\<lambda>c. if c = 0x12 then and_then supn (target m supn) else give False))"
    by (rule steps_less [OF quiet.steps_on_byte [where n = n]]) (use reads_two_after(1) [OF assms] in \<open>auto intro: quiet.steps_give\<close>)
  have after: "does quiet (\<lambda>b. b) False (Suc (current s)) f ?s" if "reads False n f" "current s < end_at s" for f
    using stepsD [OF that(1), of ?s] that(2) s by (simp add: left_of_def)
  have "does quiet (\<lambda>b. b) True (current s) (on_byte m False ?k) s"
  proof (rule quiet.does_peek)
    assume c: "current s < end_at s"
    have "?k c = (\<lambda>s'. name_ok m (cancel (save s) s')) \<or> reads False n (?k c)" for c
      using ext reads_two_after(1,2) [OF assms, of m] reads_two_after(3-5) [OF assms] by simp
    then consider "?k (m (current s)) = (\<lambda>s'. name_ok m (cancel (save s) s'))" | "reads False n (?k (m (current s)))" by blast
    then show "does quiet (\<lambda>b. b) False (Suc (current s)) (?k (m (current s))) ?s
      \<or> does quiet (\<lambda>b. b) True (current s) (\<lambda>_. ?k (m (current s)) ?s) s"
    proof cases
      case 1
      have "does quiet (\<lambda>b. b) True (current s) (\<lambda>_. ?k (m (current s)) ?s) s"
        unfolding 1 using name by (simp add: does_def)
      then show ?thesis ..
    next
      case 2
      then show ?thesis using after c by blast
    qed
  qed (use s in simp_all)
  then show "does quiet (\<lambda>b. b) True (current s) (type_two_opcode m supn term) s"
    by (simp add: does_def type_two_opcode_def)
qed

subsection \<open>Data\<close>

lemma reads_is_data: "reads_data str n f \<Longrightarrow> reads str n (is_data f)"
  unfolding steps_def does_def is_data_def by fastforce

lemma reads_get_byte: "reads_data str n (get_byte m d)"
proof (rule stepsI)
  fix s assume s: "reader_ok s" "left_of s < n"
  have "reads_data str n (on_byte m (False, d0) (\<lambda>c s'. Some ((True, d0\<lparr>value_lo := ucast c, dend := current s', d_type := 0xa\<rparr>), s')))" for d0
    by (intro quiet.steps_on_byte_free steps_some) simp
  from stepsD [OF this s] show "does quiet fst str (current s) (get_byte m d) s" by (simp add: does_def get_byte_def Let_def)
qed

lemma reads_get_word: "reads_data str n (get_word m d)"
proof (rule stepsI)
  fix s assume s: "reader_ok s" "left_of s < n"
  have "reads_data str n (on_byte m (False, d0) (\<lambda>c0. on_byte m (False, d0) (\<lambda>c1 s'.
       Some ((True, d0\<lparr>value_lo := ucast c0 OR push_bit 8 (ucast c1), dend := current s', d_type := 0xb\<rparr>), s'))))" for d0
    by (intro quiet.steps_on_byte_free steps_some) simp_all
  from stepsD [OF this s] show "does quiet fst str (current s) (get_word m d) s" by (simp add: does_def get_word_def Let_def)
qed

lemma reads_get_dword: "reads_data str n (get_dword m d)"
proof (rule stepsI)
  fix s assume s: "reader_ok s" "left_of s < n"
  have "reads_data str n (on_byte m (False, d0) (\<lambda>c0. on_byte m (False, d0) (\<lambda>c1. on_byte m (False, d0) (\<lambda>c2. on_byte m (False, d0) (\<lambda>c3 s'.
       Some ((True, d0\<lparr>value_lo := four_bytes c0 c1 c2 c3, dend := current s', d_type := 0xc\<rparr>), s'))))))" for d0
    by (intro quiet.steps_on_byte_free steps_some) simp_all
  from stepsD [OF this s] show "does quiet fst str (current s) (get_dword m d) s" by (simp add: does_def get_dword_def Let_def)
qed

lemma reads_get_qword: "reads_data str n (get_qword m d)"
proof (rule stepsI)
  fix s assume s: "reader_ok s" "left_of s < n"
  have hi: "reads_data False n (on_byte m (False, d1) (\<lambda>c4. on_byte m (False, d1) (\<lambda>c5. on_byte m (False, d1) (\<lambda>c6. on_byte m (False, d1) (\<lambda>c7 s'.
         Some ((True, d1\<lparr>value_hi := four_bytes c4 c5 c6 c7, dend := current s', d_type := 0xe\<rparr>), s'))))))" for d1 n
    by (intro quiet.steps_on_byte_free steps_some) simp_all
  have "reads_data str n (on_byte m (False, d0) (\<lambda>c0. on_byte m (False, d0) (\<lambda>c1. on_byte m (False, d0) (\<lambda>c2. on_byte m (False, d0) (\<lambda>c3.
       let d1 = d0\<lparr>value_lo := four_bytes c0 c1 c2 c3\<rparr> in
       on_byte m (False, d1) (\<lambda>c4. on_byte m (False, d1) (\<lambda>c5. on_byte m (False, d1) (\<lambda>c6. on_byte m (False, d1) (\<lambda>c7 s'.
         Some ((True, d1\<lparr>value_hi := four_bytes c4 c5 c6 c7, dend := current s', d_type := 0xe\<rparr>), s'))))))))))" for d0
    unfolding Let_def by (intro quiet.steps_on_byte_free hi) simp_all
  from stepsD [OF this s] show "does quiet fst str (current s) (get_qword m d) s" by (simp add: does_def get_qword_def Let_def)
qed

lemma reads_string: "reader_ok s \<Longrightarrow> does quiet fst False (current s) (\<lambda>s. case skip_string m s of (b, s') \<Rightarrow> Some ((b, d), s')) s"
proof (induction m s rule: skip_string.induct)
  case (1 m s)
  let ?s = "s\<lparr>current := Suc (current s)\<rparr>"
  show ?case
  proof (cases "current s < end_at s \<and> m (current s) \<noteq> 0")
    case True
    then have g: "get m s = (Some (m (current s)), ?s)" by (simp add: get_def)
    have e: "skip_string m s = skip_string m ?s" using True g by (subst skip_string.simps) simp
    have "does quiet fst False (current ?s) (\<lambda>s. case skip_string m s of (b, s') \<Rightarrow> Some ((b, d), s')) ?s"
      using 1(1) [OF g [symmetric] refl] True 1(2) by simp
    then show ?thesis by (auto simp: does_def e quiet_def)
  next
    case False
    then have "skip_string m s = (current s < end_at s, if current s < end_at s then ?s else s)"
      by (subst skip_string.simps) (auto simp: get_def)
    then show ?thesis using 1(2) by (auto simp: does_def quiet_def)
  qed
qed

lemma reads_buffer:
  assumes "reads True n term"
  shows "reads_data False n (def_buffer m term d)"
  unfolding def_buffer_def
proof (rule quiet.steps_on_package [OF quiet_pkg_length])
  show "rest_of quiet fst n (\<lambda>p_end s. do { (b, s1) \<leftarrow> term s;
     if \<not> b then Some ((False, d), s1)
     else Some ((True, d\<lparr>dstart := current s1, dend := p_end, d_type := 0x11\<rparr>), s1\<lparr>current := p_end\<rparr>) })"
    unfolding rest_of_def
  proof (intro allI impI)
    fix p b s assume s: "reader_ok s \<and> left_of s < n \<and> b \<le> p \<and> b \<le> current s"
    then have ok: "reader_ok s" "left_of s < n" by simp_all
    obtain r s1 where t: "term s = Some (r, s1)" "quiet s s1" "reader_ok s1" "current s \<le> current s1" "end_at s1 = end_at s"
      using stepsD [OF assms ok] by (elim doesE) blast
    then show "does quiet fst False b (\<lambda>s. do { (b, s1) \<leftarrow> term s;
     if \<not> b then Some ((False, d), s1)
     else Some ((True, d\<lparr>dstart := current s1, dend := p, d_type := 0x11\<rparr>), s1\<lparr>current := p\<rparr>) }) s"
      using s by (cases r) (auto simp: does_def quiet_def)
  qed
qed simp

lemma reads_computational:
  assumes "reads True n term"
  shows "reads_data str (Suc n) (computational_data m term d)"
  unfolding computational_data_def
proof (rule quiet.steps_on_byte)
  have str: "reads_data False n (\<lambda>s. case skip_string m s of (b, s') \<Rightarrow> Some ((b, d), s'))" for n
    by (rule stepsI) (rule reads_string)
  have const: "reads_data False n (constant_data lo hi d)" for lo hi n
    by (rule stepsI, rule doesI) (simp_all add: constant_data_def quiet.refl)
  have ext: "reads_data False n (on_byte m (False, d) (\<lambda>_. give (False, d)))" for n
    by (intro quiet.steps_on_byte_free quiet.steps_give) simp
  fix c :: u8
  show "reads_data False n (if c = 0xa then get_byte m d else if c = 0xb then get_word m d else if c = 0xc then get_dword m d
     else if c = 0xd then (\<lambda>s. case skip_string m s of (b, s') \<Rightarrow> Some ((b, d), s')) else if c = 0xe then get_qword m d
     else if c = 0 then constant_data 0 0 d else if c = 1 then constant_data 1 0 d
     else if c = 0xff then constant_data 0xffffffff 0xffffffff d
     else if c = 0x5b then on_byte m (False, d) (\<lambda>_. give (False, d)) else if c = 0x11 then def_buffer m term d else give (False, d))"
    using str const ext reads_get_byte reads_get_word reads_get_dword reads_get_qword reads_buffer [OF assms]
    by (simp add: quiet.steps_give)
qed simp

text \<open>Apart from the data it answers, \<open>data_ref_object\<close> tries the data and then a term.\<close>

lemma data_ref_object_tries:
  "is_data (data_ref_object m term d) = or_else (is_data (computational_data m term d)) (or_else term (give False))"
proof
  fix s
  show "is_data (data_ref_object m term d) s = or_else (is_data (computational_data m term d)) (or_else term (give False)) s"
    by (auto simp: is_data_def data_ref_object_def or_else_def give_def save_def cancel_def bind_assoc
        intro!: Option.bind_cong split: prod.split)
qed

lemma reads_data_ref:
  assumes "reads True n term"
  shows "reads True n (is_data (data_ref_object m term d))"
  unfolding data_ref_object_tries
  using steps_less [OF reads_is_data [OF reads_computational [OF assms]], of n] assms
  by (intro quiet.steps_or_else quiet.steps_false) simp_all

lemma reads_package:
  assumes "reads True n term" "n \<le> k"
  shows "reads False n (def_package m k term)"
proof -
  have "reads True n (or_else (name_ok m) (is_data (data_ref_object m term no_data)))"
    by (intro quiet.steps_or_else quiet_name_ok reads_data_ref [OF assms(1)])
  then have "reads False n (while_before k p (or_else (name_ok m) (is_data (data_ref_object m term no_data))))" for p
    by (rule quiet.steps_while) (rule assms(2))
  then have "reads False n (on_byte m False (\<lambda>elem. while_before k p (or_else (name_ok m) (is_data (data_ref_object m term no_data)))))" for p
    by (intro steps_less [OF quiet.steps_on_byte [where n = n]]) simp_all
  then show ?thesis
    unfolding def_package_def by (intro quiet.steps_on_package quiet_pkg_length steps_rest) simp_all
qed

lemma reads_data_object:
  assumes "reads True n term" "n \<le> k"
  shows "reads True (Suc n) (data_object m k term)"
proof (rule stepsI)
  fix s assume s: "reader_ok s" "left_of s < Suc n"
  let ?k = "\<lambda>c s'. if c = 0x12 then def_package m k term s' else Some (False, cancel (save s) s')"
  let ?s = "s\<lparr>current := Suc (current s)\<rparr>"
  have second: "reads True (Suc n) (\<lambda>s'. if save s' = save s then on_byte m False ?k s' else Some (False, s'))"
  proof (rule stepsI)
    fix t assume t: "reader_ok t" "left_of t < Suc n"
    let ?t = "t\<lparr>current := Suc (current t)\<rparr>"
    show "does quiet (\<lambda>b. b) True (current t) (\<lambda>s'. if save s' = save s then on_byte m False ?k s' else Some (False, s')) t"
    proof (cases "save t = save s")
      case True
      have "does quiet (\<lambda>b. b) True (current t) (on_byte m False ?k) t"
      proof (rule quiet.does_peek)
        assume c: "current t < end_at t"
        show "does quiet (\<lambda>b. b) False (Suc (current t)) (?k (m (current t))) ?t \<or> does quiet (\<lambda>b. b) True (current t) (\<lambda>_. ?k (m (current t)) ?t) t"
        proof (cases "m (current t) = 0x12")
          case x: True
          have "does quiet (\<lambda>b. b) False (current ?t) (def_package m k term) ?t"
            using stepsD [OF reads_package [OF assms], of ?t] t c by (simp add: left_of_def)
          then show ?thesis using x by (simp add: does_def)
        next
          case x: False
          then show ?thesis using t(1) quiet.refl by (intro disjI2 doesI [of _ _ False t]) (simp_all add: True [symmetric])
        qed
      qed (use t in simp_all)
      then show ?thesis using True by (simp add: does_def)
    next
      case False
      then show ?thesis using t(1) quiet.refl by (intro doesI [of _ _ False t]) simp_all
    qed
  qed
  have first: "reads True (Suc n) (is_data (computational_data m term no_data))"
    by (rule reads_is_data [OF reads_computational [OF assms(1)]])
  have "does quiet (\<lambda>b. b) True (current s)
      (or_else (is_data (computational_data m term no_data)) (\<lambda>s'. if save s' = save s then on_byte m False ?k s' else Some (False, s'))) s"
    by (rule stepsD [OF quiet.steps_or_else [OF first second] s])
  moreover have "or_else (is_data (computational_data m term no_data)) (\<lambda>s'. if save s' = save s then on_byte m False ?k s' else Some (False, s')) s
      = data_object m k term s"
    unfolding data_object_def or_else_def
    by (intro Option.bind_cong refl) (simp split: prod.split, simp add: save_def cancel_def)
  ultimately show "does quiet (\<lambda>b. b) True (current s) (data_object m k term) s" by (simp add: does_def)
qed

lemma reads_term_arg_body:
  assumes "reads True n supn" "reads True n term"
  shows "reads True (Suc n) (term_arg_body m n supn term)"
  unfolding term_arg_body_def using assms
  by (intro quiet.steps_or_else reads_localorarg reads_data_object reads_type_two quiet.steps_false) simp_all

text \<open>More fuel than bytes left is enough.\<close>

lemma reads_args: "reads True n (super_name m n) \<and> reads True n (term_arg m n)"
proof (induction n)
  case 0
  show ?case by (simp add: steps_def)
next
  case (Suc n)
  then have "reads True (Suc n) (super_name_body m (super_name m n) (term_arg m n))"
    "reads True (Suc n) (term_arg_body m n (super_name m n) (term_arg m n))"
    using reads_super_name_body reads_term_arg_body by blast+
  then show ?case by (simp add: steps_def does_def)
qed

lemmas reads_super_name = reads_args [THEN conjunct1] and reads_term_arg = reads_args [THEN conjunct2]

subsection \<open>Declaring a name\<close>

text \<open>The links down from a part: through the parts numbered \<open>ix\<close> to the caller's variable.\<close>

fun linked :: "aml_name list \<Rightarrow> nref \<Rightarrow> nat list \<Rightarrow> bool" where
  "linked path u [] \<longleftrightarrow> u = Here"
| "linked path u (i # ix) \<longleftrightarrow> u = Path i \<and> (\<exists>w. lower (path ! i) = Some w \<and> linked path w ix)"

lemma linked_cong: "linked path u ix \<Longrightarrow> \<forall>i \<in> set ix. lower (path' ! i) = lower (path ! i) \<Longrightarrow> linked path' u ix"
  by (induction ix arbitrary: u) auto

lemma climb_path:
  assumes "linked path (Path k) (k # ix)" "k < NAME_PATH_LIMIT" "\<forall>i \<in> set ix. k < i \<and> i < NAME_PATH_LIMIT" "distinct ix" "path_ok es path"
  shows "\<exists>u ix' path'. climb nm path (Path k) = Some (u, path') \<and> linked path' u ix' \<and> distinct ix'
    \<and> (\<forall>i \<in> set ix'. i < NAME_PATH_LIMIT) \<and> path_ok es path'"
  using assms
proof (induction k arbitrary: ix path rule: less_induct)
  case (less k)
  have L: "length path = NAME_PATH_LIMIT" using less.prems(5) by (simp add: path_ok_def)
  show ?case
  proof (cases "upper (path ! k)")
    case None
    then have "climb nm path (Path k) = Some (Path k, path)" by (subst climb.simps) simp
    moreover have "distinct (k # ix)" "\<forall>i \<in> set (k # ix). i < NAME_PATH_LIMIT" using less.prems(2-4) by auto
    ultimately show ?thesis using less.prems(1,5) by blast
  next
    case (Some w)
    have w: "w = k - 1" "0 < k" using less.prems(2,5) Some by (auto simp: path_ok_def path_name_ok_def)
    let ?p = "path[w := (path ! w)\<lparr>lower := Some (Path k)\<rparr>]"
    have c: "climb nm path (Path k) = climb nm ?p (Path w)" using Some by (subst climb.simps) simp
    have "linked ?p (Path k) (k # ix)"
      by (rule linked_cong [OF less.prems(1)]) (use w less.prems(3) in auto)
    then have l: "linked ?p (Path w) (w # k # ix)" using w less.prems(2) L by simp
    have "\<exists>u ix' path'. climb nm ?p (Path w) = Some (u, path') \<and> linked path' u ix' \<and> distinct ix'
      \<and> (\<forall>i \<in> set ix'. i < NAME_PATH_LIMIT) \<and> path_ok es path'"
      using w less.prems(2-4) path_ok_lower [OF less.prems(5)] l by (intro less.IH [where ix = "k # ix"]) auto
    then show ?thesis unfolding c .
  qed
qed

lemma climb_ok:
  assumes "name_good es nm" "path_ok es path"
  obtains u ix path' where "climb nm path Here = Some (u, path')" "linked path' u ix" "distinct ix"
    "\<forall>i \<in> set ix. i < NAME_PATH_LIMIT" "path_ok es path'"
proof (cases "upper nm")
  case None
  then have "climb nm path Here = Some (Here, path)" by (subst climb.simps) simp
  then show ?thesis using that [of Here path "[]"] assms(2) by simp
next
  case (Some w)
  have w: "w < NAME_PATH_LIMIT" using assms(1) Some by (simp add: name_good_def)
  let ?p = "path[w := (path ! w)\<lparr>lower := Some Here\<rparr>]"
  have "climb nm path Here = climb nm ?p (Path w)" using Some by (subst climb.simps) simp
  moreover have "linked ?p (Path w) [w]" using w assms(2) by (simp add: path_ok_def)
  ultimately show ?thesis
    using climb_path [of ?p w "[]", OF _ w _ _ path_ok_lower [OF assms(2)]] that by fastforce
qed

lemma descend_ok:
  assumes "linked path u ix" "distinct ix" "\<forall>i \<in> set ix. i < NAME_PATH_LIMIT" "path_ok es path" "ns_ok es" "valid_ctx es ctx"
    "valid_ctx es (entry nm)" "lower nm = None"
  shows "\<exists>nm' path' es' j. descend nm path es ctx u = Some (nm', path', es') \<and> path_ok es' path' \<and> ns_ok es' \<and> kept es es'
    \<and> entry nm' = Some j \<and> in_use es' j"
  using assms
proof (induction ix arbitrary: path u es ctx)
  case Nil
  then have u: "u = Here" by simp
  show ?case
  proof (cases "entry nm")
    case (Some j)
    then show ?thesis using Nil.prems u by (simp add: descend.simps [of nm path es ctx Here] Let_def)
  next
    case None
    obtain x es' where f: "find_or_new (nseg nm) ctx es = Some (x, blank_seg (nseg nm), es')" "ns_ok es'" "kept es es'" "in_use es' x"
      using find_or_new_ok [OF Nil.prems(5,6)] by metis
    have "path_ok es' path" by (rule path_ok_grown [OF kept_grown [OF f(3)] Nil.prems(4)])
    then show ?thesis using f None u Nil.prems(8) by (simp add: descend.simps [of nm path es ctx Here] Let_def)
  qed
next
  case (Cons i ix)
  then obtain w where u: "u = Path i" "lower (path ! i) = Some w" "linked path w ix" by auto
  have i: "i < NAME_PATH_LIMIT" "i \<notin> set ix" "length path = NAME_PATH_LIMIT"
    using Cons.prems(2-4) by (simp_all add: path_ok_def)
  show ?case
  proof (cases "entry (path ! i)")
    case (Some c)
    have "path_name_ok es i (path ! i)" using Cons.prems(4) i(1) by (simp add: path_ok_def)
    then have "valid_ctx es (Some c)" using Some by (simp add: path_name_ok_def)
    then have "\<exists>nm' path' es' j. descend nm path es (Some c) w = Some (nm', path', es') \<and> path_ok es' path' \<and> ns_ok es' \<and> kept es es'
        \<and> entry nm' = Some j \<and> in_use es' j"
      using Cons.prems u(3) by (intro Cons.IH) simp_all
    then show ?thesis using Some u(1,2) by (simp add: descend.simps [of nm path es ctx "Path i"] Let_def)
  next
    case None
    obtain x es1 where f: "find_or_new (nseg (path ! i)) ctx es = Some (x, blank_seg (nseg (path ! i)), es1)" "ns_ok es1" "kept es es1" "in_use es1 x"
      using find_or_new_ok [OF Cons.prems(5,6)] by metis
    let ?p = "path[i := (path ! i)\<lparr>nseg := blank_seg (nseg (path ! i)), entry := Some x\<rparr>]"
    have g: "grown es es1" by (rule kept_grown [OF f(3)])
    have p: "path_ok es1 path" by (rule path_ok_grown [OF g Cons.prems(4)])
    then have "path_name_ok es1 i (path ! i)" using i(1) by (simp add: path_ok_def)
    then have "path_name_ok es1 i ((path ! i)\<lparr>nseg := blank_seg (nseg (path ! i)), entry := Some x\<rparr>)"
      using f(4) by (simp add: path_name_ok_def)
    then have p': "path_ok es1 ?p" using p by (rule path_ok_write [rotated])
    have l: "linked ?p w ix" by (rule linked_cong [OF u(3)]) (use i(2) in \<open>metis nth_list_update_neq\<close>)
    have "\<exists>nm' path' es' j. descend nm ?p es1 (Some x) w = Some (nm', path', es') \<and> path_ok es' path' \<and> ns_ok es' \<and> kept es1 es'
        \<and> entry nm' = Some j \<and> in_use es' j"
      using Cons.prems(2,3,7,8) l p' f(2,4) grown_ctx [OF g] by (intro Cons.IH) simp_all
    then show ?thesis using kept_trans [OF f(3)] None u(1,2) f(1) by (auto simp: descend.simps [of nm path es ctx "Path i"] Let_def)
  qed
qed

lemma declare_name_ok:
  assumes "reader_ok s" "name_good (ns s) nm"
  obtains nm' path es j where "declare_name nm s = Some (nm', s\<lparr>name_path := path, ns := es\<rparr>)"
    "reader_ok (s\<lparr>name_path := path, ns := es\<rparr>)" "grown (ns s) es" "entry nm' = Some j" "in_use es j"
proof -
  have s: "ns_ok (ns s)" "scope_ok (ns s) (scope s)" "path_ok (ns s) (name_path s)" using assms(1) by (simp_all add: reader_ok_def)
  obtain u ix path where c: "climb nm (name_path s) Here = Some (u, path)" "linked path u ix" "distinct ix"
    "\<forall>i \<in> set ix. i < NAME_PATH_LIMIT" "path_ok (ns s) path"
    by (rule climb_ok [OF assms(2) s(3)])
  let ?ctx = "if is_root (at_ref nm path u) then Some get_root else scope s"
  have ctx: "valid_ctx (ns s) ?ctx" using s(2) ns_ok_root [OF s(1)] by (auto simp: scope_ok_def)
  have nm: "valid_ctx (ns s) (entry nm)" "lower nm = None" using assms(2) by (simp_all add: name_good_def)
  obtain nm' path' es j where d: "descend nm path (ns s) ?ctx u = Some (nm', path', es)" "path_ok es path'" "ns_ok es" "kept (ns s) es"
    "entry nm' = Some j" "in_use es j"
    using descend_ok [OF c(2-5) s(1) ctx nm] by blast
  have g: "grown (ns s) es" by (rule kept_grown [OF d(4)])
  have "declare_name nm s = Some (nm', s\<lparr>name_path := path', ns := es\<rparr>)"
    using c(1) d(1) by (simp add: declare_name_def Let_def)
  moreover have "reader_ok (s\<lparr>name_path := path', ns := es\<rparr>)"
    using d(2,3) scope_ok_grown [OF g s(2)] by (simp add: reader_ok_def)
  ultimately show ?thesis using that g d(5,6) by blast
qed

text \<open>A change of an entry's type, length and source.\<close>

lemma set_entry_reader_ok:
  assumes "reader_ok s" "\<And>e. same_links e (f e)" "\<And>e. e_type (f e) < 6"
  shows "reader_ok (set_entry nm f s)" "grown (ns s) (ns (set_entry nm f s))"
proof -
  let ?i = "the (entry nm)"
  have s: "ns_ok (ns s)" "scope_ok (ns s) (scope s)" "path_ok (ns s) (name_path s)" using assms(1) by (simp_all add: reader_ok_def)
  have ok: "ns_ok ((ns s)[?i := f (ns s ! ?i)])" and g: "grown (ns s) ((ns s)[?i := f (ns s ! ?i)])"
    using set_entry_ok [OF s(1) assms(2,3)] by blast+
  show "grown (ns s) (ns (set_entry nm f s))" using g by (simp add: set_entry_def Let_def)
  show "reader_ok (set_entry nm f s)"
    using ok scope_ok_grown [OF g s(2)] path_ok_grown [OF g s(3)] by (simp add: reader_ok_def set_entry_def Let_def)
qed

subsection \<open>Objects and terms\<close>

lemma makes_reads: "reads str n f \<Longrightarrow> makes str n f"
  by (rule steps_quiet_builds)

lemma makes_pkg_length: "steps builds (\<lambda>l. l \<noteq> None) str n (pkg_length m)"
  by (rule steps_quiet_builds [OF quiet_pkg_length])

lemma left_less: "current s \<le> current s' \<Longrightarrow> end_at s' = end_at s \<Longrightarrow> left_of s < n \<Longrightarrow> left_of s' < n"
  by (simp add: left_of_def)

text \<open>A name that is read and then declared, as the objects do it.\<close>

lemma read_declare:
  assumes "reader_ok s" "name_string m s = Some (nm, s1)" "success nm" "reader_ok s2" "ns s2 = ns s1"
  obtains nm' s3 i where "declare_name nm s2 = Some (nm', s3)" "reader_ok s3" "grown (ns s) (ns s3)" "entry nm' = Some i"
    "in_use (ns s3) i" "current s3 = current s2" "end_at s3 = end_at s2" "scope s3 = scope s2" "depth s3 = depth s2"
proof -
  obtain nm0 s0 where n: "name_string m s = Some (nm0, s0)" "quiet s s0" "name_good (ns s) nm0"
    using name_string_read [OF assms(1)] by metis
  then have g: "name_good (ns s2) nm" "ns s2 = ns s" using assms(2,5) by (simp_all add: quiet_def)
  obtain nm' path es j where d: "declare_name nm s2 = Some (nm', s2\<lparr>name_path := path, ns := es\<rparr>)"
    "reader_ok (s2\<lparr>name_path := path, ns := es\<rparr>)" "grown (ns s2) es" "entry nm' = Some j" "in_use es j"
    by (rule declare_name_ok [OF assms(4) g(1)])
  show ?thesis by (rule that [OF d(1,2) _ d(4)]) (use d(3,5) g(2) in simp_all)
qed

lemma makes_name:
  assumes "reads True n term"
  shows "makes False n (def_name m term)"
proof (rule stepsI)
  fix s assume s: "reader_ok s" "left_of s < n"
  obtain nm v where v: "name_string m s = Some (nm, v)" "quiet s v" "reader_ok v" "current s \<le> current v" "end_at v = end_at s"
    using name_string_read [OF s(1)] by metis
  show "does builds (\<lambda>b. b) False (current s) (def_name m term) s"
  proof (cases "success nm")
    case False
    then show ?thesis using v by (intro doesI [of _ _ False v]) (simp_all add: def_name_def builds_def quiet_def)
  next
    case True
    have lt: "left_of v < n" by (rule left_less [OF v(4,5) s(2)])
    obtain r s1 where r: "is_data (data_ref_object m term no_data) v = Some (r, s1)" "quiet v s1" "reader_ok s1" "current v \<le> current s1"
      "end_at s1 = end_at v"
      using stepsD [OF reads_data_ref [OF assms, where m = m and d = no_data] v(3) lt] by (elim doesE) blast
    then obtain d where d: "data_ref_object m term no_data v = Some ((r, d), s1)" by (auto simp: is_data_def bind_eq_Some_conv)
    show ?thesis
    proof (cases r)
      case False
      then show ?thesis using v r d True by (intro doesI [of _ _ False s1]) (simp_all add: def_name_def builds_def quiet_def)
    next
      case r': True
      have q: "ns s1 = ns v" using r(2) by (simp add: quiet_def)
      obtain nm' s2 i where s2: "declare_name nm s1 = Some (nm', s2)" "reader_ok s2" "grown (ns s) (ns s2)" "entry nm' = Some i"
        "in_use (ns s2) i" "current s2 = current s1" "end_at s2 = end_at s1" "scope s2 = scope s1" "depth s2 = depth s1"
        by (rule read_declare [OF s(1) v(1) True r(3) q])
      let ?f = "\<lambda>e. e\<lparr>e_type := 2, aml_source := Some (current v), aml_length := word_of_nat (current s2) - word_of_nat (current v)\<rparr>"
      have f: "same_links e (?f e)" "e_type (?f e) < 6" for e by (simp_all add: same_links_def)
      show ?thesis
        using v r r' d True s2 set_entry_reader_ok [OF s2(2) f, of nm'] grown_trans [OF s2(3)]
        by (intro doesI [of _ _ True "set_entry nm' ?f s2"]) (auto simp: def_name_def builds_def quiet_def set_entry_def Let_def)
    qed
  qed
qed

lemma makes_region: "reads True n term \<Longrightarrow> makes False n (def_region m term)"
  unfolding def_region_def
  by (intro makes_reads quiet.steps_and_then quiet_name_ok steps_less [OF quiet.steps_on_byte [where n = n]])
    (auto intro: steps_weaken)

lemma reads_has_length: "reads str n (has_length m)"
proof (rule stepsI)
  fix s assume s: "reader_ok s" "left_of s < n"
  from stepsD [OF quiet_pkg_length [where str = str and m = m] s] obtain l s' where "pkg_length m s = Some (l, s')" "quiet s s'" "reader_ok s'"
    "current s \<le> current s'" "end_at s' = end_at s" "l \<noteq> None \<Longrightarrow> str \<Longrightarrow> left_of s' < left_of s"
    by (elim doesE) blast
  then show "does quiet (\<lambda>b. b) str (current s) (has_length m) s"
    by (intro doesI [of _ _ "l \<noteq> None" s']) (simp_all add: has_length_def quiet_def)
qed

lemma reads_seg_ok: "reads str n (seg_ok m)"
proof (rule stepsI)
  fix s assume s: "reader_ok s" "left_of s < n"
  from stepsD [OF quiet_name_seg [where str = str and m = m] s] obtain nm s' where "name_seg m s = Some (nm, s')" "quiet s s'" "reader_ok s'"
    "current s \<le> current s'" "end_at s' = end_at s" "success nm \<Longrightarrow> str \<Longrightarrow> left_of s' < left_of s"
    by (elim doesE) blast
  then show "does quiet (\<lambda>b. b) str (current s) (seg_ok m) s"
    by (intro doesI [of _ _ "success nm" s']) (simp_all add: seg_ok_def quiet_def)
qed

lemma reads_field_element: "reads True n (field_element m)"
proof (rule stepsI)
  fix s assume s: "reader_ok s" "left_of s < n"
  let ?k = "\<lambda>c. if c = (0 :: u8) then has_length m
     else if c = 1 then on_byte m False (\<lambda>access_type. on_byte m False (\<lambda>access_attrib. give True))
     else if c = 2 \<or> c = 3 then give True
     else (\<lambda>s'. and_then (seg_ok m) (has_length m) (cancel (save s) s'))"
  let ?s = "s\<lparr>current := Suc (current s)\<rparr>"
  have named: "does quiet (\<lambda>b. b) True (current s) (and_then (seg_ok m) (has_length m)) s"
    by (rule stepsD [OF quiet.steps_and_then [OF reads_seg_ok reads_has_length] s])
  have access: "reads False n (on_byte m False (\<lambda>access_type. on_byte m False (\<lambda>access_attrib. give True)))" for n
    by (intro quiet.steps_on_byte_free quiet.steps_give) simp_all
  have after: "does quiet (\<lambda>b. b) False (Suc (current s)) f ?s" if "\<And>n. reads False n f" for f
    using stepsD [OF that, of ?s "Suc (left_of ?s)"] s(1) by simp
  have "does quiet (\<lambda>b. b) True (current s) (on_byte m False ?k) s"
  proof (rule quiet.does_peek)
    have "?k c = (\<lambda>s'. and_then (seg_ok m) (has_length m) (cancel (save s) s')) \<or> (\<forall>n. reads False n (?k c))" for c
      using reads_has_length access by (simp add: quiet.steps_give)
    then consider "?k (m (current s)) = (\<lambda>s'. and_then (seg_ok m) (has_length m) (cancel (save s) s'))"
      | "\<forall>n. reads False n (?k (m (current s)))" by blast
    then show "does quiet (\<lambda>b. b) False (Suc (current s)) (?k (m (current s))) ?s
      \<or> does quiet (\<lambda>b. b) True (current s) (\<lambda>_. ?k (m (current s)) ?s) s"
    proof cases
      case 1
      have "does quiet (\<lambda>b. b) True (current s) (\<lambda>_. ?k (m (current s)) ?s) s"
        unfolding 1 using named by (simp add: does_def)
      then show ?thesis ..
    next
      case 2
      then show ?thesis using after by blast
    qed
  qed (use s in simp_all)
  then show "does quiet (\<lambda>b. b) True (current s) (field_element m) s" by (simp add: does_def field_element_def)
qed

lemma makes_field: "n \<le> k \<Longrightarrow> makes False n (def_field m k)"
  unfolding def_field_def
  by (intro builds.steps_on_package makes_pkg_length steps_rest [where str = False] makes_reads quiet.steps_and_then quiet_name_ok
      steps_less [OF quiet.steps_on_byte [where n = n]] quiet.steps_while reads_field_element) simp_all

lemma makes_mutex: "makes False n (def_mutex m)"
  unfolding def_mutex_def
  by (intro makes_reads quiet.steps_ignoring quiet_name_ok quiet.steps_on_byte_free quiet.steps_give) (simp_all add: quiet_def)

text \<open>The body of a scope, whose terms are read in the entry \<open>c\<close>.\<close>

lemma does_body:
  assumes T: "makes True n tobj" and k: "n \<le> k" and s: "reader_ok s" "ns_ok (ns s0)" "scope_ok (ns s0) (scope s0)" "grown (ns s0) (ns s)"
    and c: "in_use (ns s) c" and lt: "left_of s < n" and b: "b \<le> current s" "b \<le> p"
  obtains r s3 where "while_before k p tobj (enter_scope (Some c) s) = Some (r, s3)" "grown (ns s) (ns s3)" "reader_ok s3"
    "b \<le> current s3" "end_at s3 = end_at s" "reader_ok ((leave_scope (save s0) s3)\<lparr>current := p\<rparr>)"
proof -
  let ?s = "enter_scope (Some c) s"
  have ok: "reader_ok ?s" using s(1) c by (simp add: reader_ok_def enter_scope_def scope_ok_def)
  have l: "left_of ?s < n" using lt by (simp add: left_of_def enter_scope_def)
  obtain r s3 where w: "while_before k p tobj ?s = Some (r, s3)" "builds ?s s3" "reader_ok s3" "current ?s \<le> current s3" "end_at s3 = end_at ?s"
    using stepsD [OF builds.steps_while [OF T k, where p = p] ok l] by (elim doesE) blast
  have g: "grown (ns s) (ns s3)" using w(2) by (simp add: builds_def enter_scope_def)
  have "scope_ok (ns s3) (scope s0)" using scope_ok_grown [OF grown_trans [OF s(4) g] s(3)] .
  then have "reader_ok ((leave_scope (save s0) s3)\<lparr>current := p\<rparr>)"
    using w(3) by (simp add: reader_ok_def leave_scope_def cancel_def save_def)
  with w g b that show ?thesis by (auto simp: enter_scope_def)
qed

lemma makes_scope:
  assumes T: "makes True n tobj" and k: "n \<le> k"
  shows "makes False n (def_scope m k tobj)"
  unfolding def_scope_def
proof (rule builds.steps_on_package [OF makes_pkg_length])
  show "rest_of builds (\<lambda>b. b) n (\<lambda>p_end s. do { (nm, s1) \<leftarrow> name_string m s;
     if \<not> success nm then Some (False, s1)
     else do {
       (nm', s2) \<leftarrow> declare_name nm s1;
       (b, s3) \<leftarrow> while_before k p_end tobj (enter_scope (entry nm') s2);
       if \<not> b then Some (False, s3) else Some (True, (leave_scope (save s) s3)\<lparr>current := p_end\<rparr>) } })"
    (is "rest_of _ _ _ ?body")
    unfolding rest_of_def
  proof (intro allI impI)
    fix p b s assume "reader_ok s \<and> left_of s < n \<and> b \<le> p \<and> b \<le> current s"
    then have s: "reader_ok s" "left_of s < n" "b \<le> p" "b \<le> current s" by simp_all
    obtain nm v where v: "name_string m s = Some (nm, v)" "quiet s v" "reader_ok v" "current s \<le> current v" "end_at v = end_at s"
      using name_string_read [OF s(1)] by metis
    show "does builds (\<lambda>b. b) False b (?body p) s"
    proof (cases "success nm")
      case False
      then show ?thesis using v s by (intro doesI [of _ _ False v]) (simp_all add: builds_def quiet_def)
    next
      case True
      obtain nm' s2 i where s2: "declare_name nm v = Some (nm', s2)" "reader_ok s2" "grown (ns s) (ns s2)" "entry nm' = Some i"
        "in_use (ns s2) i" "current s2 = current v" "end_at s2 = end_at v" "scope s2 = scope v" "depth s2 = depth v"
        by (rule read_declare [OF s(1) v(1) True v(3) HOL.refl])
      have lt: "left_of s2 < n" using left_less [OF _ _ s(2), of s2] s2(6,7) v(4,5) by simp
      have b: "b \<le> current s2" using s(4) v(4) s2(6) by simp
      have s0: "ns_ok (ns s)" "scope_ok (ns s) (scope s)" using s(1) by (simp_all add: reader_ok_def)
      obtain r s3 where w: "while_before k p tobj (enter_scope (Some i) s2) = Some (r, s3)" "grown (ns s2) (ns s3)" "reader_ok s3"
        "b \<le> current s3" "end_at s3 = end_at s2" "reader_ok ((leave_scope (save s) s3)\<lparr>current := p\<rparr>)"
        by (rule does_body [OF T k s2(2) s0 s2(3,5) lt b s(3)])
      show ?thesis
      proof (cases r)
        case r: True
        show ?thesis
          by (rule doesI [of _ _ True "(leave_scope (save s) s3)\<lparr>current := p\<rparr>"])
            (use s v s2 w r True grown_trans [OF s2(3) w(2)] in \<open>simp_all add: builds_def leave_scope_def\<close>)
      next
        case r: False
        show ?thesis
          by (rule doesI [of _ _ False s3]) (use s v s2 w r True grown_trans [OF s2(3) w(2)] in \<open>simp_all add: builds_def\<close>)
      qed
    qed
  qed
qed simp

lemma makes_device:
  assumes T: "makes True n tobj" and k: "n \<le> k"
  shows "makes False n (def_device m k tobj)"
  unfolding def_device_def
proof (rule builds.steps_on_package [OF makes_pkg_length])
  show "rest_of builds (\<lambda>b. b) n (\<lambda>p_end s. do { (nm, s1) \<leftarrow> name_string m s;
     if \<not> success nm then Some (False, cancel (save s) s1)
     else do {
       (nm', s2) \<leftarrow> declare_name nm s1;
       (b, s3) \<leftarrow> while_before k p_end tobj (enter_scope (entry nm') (set_entry nm' (\<lambda>e. e\<lparr>e_type := 1\<rparr>) s2));
       if \<not> b then Some (False, s3) else Some (True, (leave_scope (save s) s3)\<lparr>current := p_end\<rparr>) } })"
    (is "rest_of _ _ _ ?body")
    unfolding rest_of_def
  proof (intro allI impI)
    fix p b s assume "reader_ok s \<and> left_of s < n \<and> b \<le> p \<and> b \<le> current s"
    then have s: "reader_ok s" "left_of s < n" "b \<le> p" "b \<le> current s" by simp_all
    obtain nm v where v: "name_string m s = Some (nm, v)" "quiet s v" "reader_ok v" "current s \<le> current v" "end_at v = end_at s"
      using name_string_read [OF s(1)] by metis
    show "does builds (\<lambda>b. b) False b (?body p) s"
    proof (cases "success nm")
      case False
      then show ?thesis using v s quiet.reader_ok_cancel [OF v(2) s(1) v(3)]
        by (intro doesI [of _ _ False "cancel (save s) v"]) (simp_all add: builds_def quiet_def)
    next
      case True
      obtain nm' s2 i where s2: "declare_name nm v = Some (nm', s2)" "reader_ok s2" "grown (ns s) (ns s2)" "entry nm' = Some i"
        "in_use (ns s2) i" "current s2 = current v" "end_at s2 = end_at v" "scope s2 = scope v" "depth s2 = depth v"
        by (rule read_declare [OF s(1) v(1) True v(3) HOL.refl])
      let ?f = "\<lambda>e :: ns_entry. e\<lparr>e_type := 1\<rparr>"
      let ?s2 = "set_entry nm' ?f s2"
      have f: "same_links e (?f e)" "e_type (?f e) < 6" for e by (simp_all add: same_links_def)
      have ok: "reader_ok ?s2" and g0: "grown (ns s2) (ns ?s2)" using set_entry_reader_ok [OF s2(2) f] by blast+
      have fields: "current ?s2 = current s2" "end_at ?s2 = end_at s2" by (simp_all add: set_entry_def)
      have g: "grown (ns s) (ns ?s2)" by (rule grown_trans [OF s2(3) g0])
      have use: "in_use (ns ?s2) i" by (rule grown_in_use [OF g0 s2(5)])
      have lt: "left_of ?s2 < n" using left_less [OF _ _ s(2), of ?s2] s2(6,7) v(4,5) fields by simp
      have b: "b \<le> current ?s2" using s(4) v(4) s2(6) fields by simp
      have s0: "ns_ok (ns s)" "scope_ok (ns s) (scope s)" using s(1) by (simp_all add: reader_ok_def)
      obtain r s3 where w: "while_before k p tobj (enter_scope (Some i) ?s2) = Some (r, s3)" "grown (ns ?s2) (ns s3)" "reader_ok s3"
        "b \<le> current s3" "end_at s3 = end_at ?s2" "reader_ok ((leave_scope (save s) s3)\<lparr>current := p\<rparr>)"
        by (rule does_body [OF T k ok s0 g use lt b s(3)])
      show ?thesis
      proof (cases r)
        case r: True
        show ?thesis
          by (rule doesI [of _ _ True "(leave_scope (save s) s3)\<lparr>current := p\<rparr>"])
            (use s v s2 w r True fields grown_trans [OF g w(2)] in \<open>simp_all add: builds_def leave_scope_def\<close>)
      next
        case r: False
        show ?thesis
          by (rule doesI [of _ _ False s3]) (use s v s2 w r True fields grown_trans [OF g w(2)] in \<open>simp_all add: builds_def\<close>)
      qed
    qed
  qed
qed simp


lemma makes_method:
  assumes k: "n \<le> k"
  shows "makes False n (def_method m k tobj)"
  unfolding def_method_def
proof (rule builds.steps_on_package [OF makes_pkg_length])
  show "rest_of builds (\<lambda>b. b) n (\<lambda>p_end s. do { (nm, s1) \<leftarrow> name_string m s;
     if \<not> success nm then Some (False, s1)
     else do {
       (nm', s2) \<leftarrow> declare_name nm s1;
       on_byte m False (\<lambda>flags s3. do {
         (b, s4) \<leftarrow> while_before k p_end tobj ((enter_scope (entry nm') s3)\<lparr>current := p_end\<rparr>);
         if \<not> b then Some (False, s4) else Some (True, (leave_scope (save s) s4)\<lparr>current := p_end\<rparr>) })
         (set_entry nm' (\<lambda>e. e\<lparr>e_type := 3\<rparr>) s2) } })"
    (is "rest_of _ _ _ ?body")
    unfolding rest_of_def
  proof (intro allI impI)
    fix p b s assume "reader_ok s \<and> left_of s < n \<and> b \<le> p \<and> b \<le> current s"
    then have s: "reader_ok s" "left_of s < n" "b \<le> p" "b \<le> current s" by simp_all
    obtain nm v where v: "name_string m s = Some (nm, v)" "quiet s v" "reader_ok v" "current s \<le> current v" "end_at v = end_at s"
      using name_string_read [OF s(1)] by metis
    show "does builds (\<lambda>b. b) False b (?body p) s"
    proof (cases "success nm")
      case False
      then show ?thesis using v s by (intro doesI [of _ _ False v]) (simp_all add: builds_def quiet_def)
    next
      case True
      obtain nm' s2 i where s2: "declare_name nm v = Some (nm', s2)" "reader_ok s2" "grown (ns s) (ns s2)" "entry nm' = Some i"
        "in_use (ns s2) i" "current s2 = current v" "end_at s2 = end_at v" "scope s2 = scope v" "depth s2 = depth v"
        by (rule read_declare [OF s(1) v(1) True v(3) HOL.refl])
      let ?f = "\<lambda>e :: ns_entry. e\<lparr>e_type := 3\<rparr>"
      let ?s2 = "set_entry nm' ?f s2"
      have f: "same_links e (?f e)" "e_type (?f e) < 6" for e by (simp_all add: same_links_def)
      have ok: "reader_ok ?s2" and g0: "grown (ns s2) (ns ?s2)" using set_entry_reader_ok [OF s2(2) f] by blast+
      have fields: "current ?s2 = current s2" "end_at ?s2 = end_at s2" "scope ?s2 = scope s2" by (simp_all add: set_entry_def)
      have g: "grown (ns s) (ns ?s2)" by (rule grown_trans [OF s2(3) g0])
      obtain k0 where k0: "k = Suc k0" using s(2) k by (cases k) simp_all
      let ?fin = "\<lambda>s3. (leave_scope (save s) ((enter_scope (entry nm') s3)\<lparr>current := p\<rparr>))\<lparr>current := p\<rparr>"
      have body: "?body p s = on_byte m False (\<lambda>flags s3. Some (True, ?fin s3)) ?s2"
        using v(1) s2(1) True k0 by (simp add: cong: if_cong)
      have e: "?fin s3 = s3\<lparr>current := p, scope := scope s\<rparr>" for s3
        by (simp add: leave_scope_def enter_scope_def cancel_def save_def)
      have rok: "reader_ok (?s2\<lparr>current := p, scope := scope s\<rparr>)"
        using ok s(1) scope_ok_grown [OF g] by (simp add: reader_ok_def)
      show ?thesis
      proof (cases "current ?s2 < end_at ?s2")
        case True
        have "?body p s = Some (True, ?s2\<lparr>current := p, scope := scope s\<rparr>)"
          unfolding body e on_byte_read [OF True] by simp
        then show ?thesis
          by (rule doesI) (use s rok g fields s2(7) v(5) in \<open>simp_all add: builds_def\<close>)
      next
        case False
        have "?body p s = Some (False, ?s2)" unfolding body by (rule on_byte_end [OF False])
        then show ?thesis
          by (rule doesI) (use s ok g fields s2(6,7) v(4,5) in \<open>simp_all add: builds_def\<close>)
      qed
    qed
  qed
qed simp

lemma makes_processor:
  assumes k: "n \<le> k"
  shows "makes False n (def_processor m k tobj)"
proof -
  have skip: "rest_of builds (\<lambda>b. b) n (\<lambda>p s. while_before k p tobj (s\<lparr>current := p\<rparr>))"
    unfolding rest_of_def
  proof (intro allI impI)
    fix p b s assume s: "reader_ok s \<and> left_of s < n \<and> b \<le> p \<and> b \<le> current s"
    then obtain k0 where "k = Suc k0" using k by (cases k) auto
    with s show "does builds (\<lambda>b. b) False b (\<lambda>s. while_before k p tobj (s\<lparr>current := p\<rparr>)) s"
      by (intro doesI [of _ _ True "s\<lparr>current := p\<rparr>"]) (simp_all add: builds_def)
  qed
  have data: "makes False n (is_data (get_dword m no_data))"
    by (rule makes_reads [OF reads_is_data [OF reads_get_dword]])
  have name: "makes False n (name_ok m)" by (rule makes_reads [OF quiet_name_ok])
  have "rest_of builds (\<lambda>b. b) n (\<lambda>p. on_byte m False (\<lambda>pblklen s. while_before k p tobj (s\<lparr>current := p\<rparr>)))"
    by (rule builds.rest_on_byte [where ok = "\<lambda>b. b" and r = False]) (simp, rule skip)
  then have "rest_of builds (\<lambda>b. b) n (\<lambda>p. and_then (is_data (get_dword m no_data))
      (on_byte m False (\<lambda>pblklen s. while_before k p tobj (s\<lparr>current := p\<rparr>))))"
    by (rule builds.rest_and_then [OF data])
  then have "rest_of builds (\<lambda>b. b) n (\<lambda>p. on_byte m False (\<lambda>id. and_then (is_data (get_dword m no_data))
      (on_byte m False (\<lambda>pblklen s. while_before k p tobj (s\<lparr>current := p\<rparr>)))))"
    by (intro builds.rest_on_byte [where ok = "\<lambda>b. b" and r = False]) simp_all
  then have "rest_of builds (\<lambda>b. b) n (\<lambda>p. and_then (name_ok m) (on_byte m False (\<lambda>id. and_then (is_data (get_dword m no_data))
      (on_byte m False (\<lambda>pblklen s. while_before k p tobj (s\<lparr>current := p\<rparr>))))))"
    by (rule builds.rest_and_then [OF name])
  then show ?thesis
    unfolding def_processor_def by (rule builds.steps_on_package [OF makes_pkg_length]) simp
qed

lemma makes_object:
  assumes A: "reads True n term" and T: "makes True n tobj" and k: "n \<le> k"
  shows "makes True (Suc n) (aml_object m k term tobj)"
  unfolding aml_object_def
proof (rule builds.steps_on_byte)
  have ext: "makes False n (if c = 0x80 then def_region m term else if c = 0x81 then def_field m k else if c = 0x82 then def_device m k tobj
      else if c = 0x83 then def_processor m k tobj else if c = 0x01 then def_mutex m else give False)" for c :: u8
    using makes_region [OF A] makes_field [OF k] makes_device [OF T k] makes_processor [OF k] makes_mutex
    by (simp add: builds.steps_give)
  have "makes False n (on_byte m False (\<lambda>c. if c = 0x80 then def_region m term else if c = 0x81 then def_field m k
      else if c = 0x82 then def_device m k tobj else if c = 0x83 then def_processor m k tobj else if c = 0x01 then def_mutex m else give False))"
    by (rule steps_less [OF builds.steps_on_byte [where n = n]]) (use ext in simp_all)
  then show "makes False n (if c = 0x8 then def_name m term else if c = 0x10 then def_scope m k tobj
      else if c = 0x14 then def_method m k tobj
      else if c = 0x5b then on_byte m False (\<lambda>c. if c = 0x80 then def_region m term else if c = 0x81 then def_field m k
        else if c = 0x82 then def_device m k tobj else if c = 0x83 then def_processor m k tobj else if c = 0x01 then def_mutex m
        else give False)
      else give False)" for c :: u8
    using makes_name [OF A] makes_scope [OF T k] makes_method [OF k] by (simp add: builds.steps_give)
qed simp

lemma reads_type_one:
  assumes "reads True n term" "n \<le> k"
  shows "reads True (Suc n) (type_one_opcode m k term)"
  unfolding type_one_opcode_def
proof (rule quiet.steps_on_byte)
  have loop: "reads False n (while_before k p term)" for p by (rule quiet.steps_while [OF assms])
  have "reads False n (ignoring term (while_before k p term))" for p
    by (rule quiet.steps_ignoring [OF steps_weaken [OF assms(1)] loop]) (simp add: quiet_def)
  then have wif: "reads False n (on_package m False (\<lambda>p_end. ignoring term (while_before k p_end term)))"
    by (intro quiet.steps_on_package quiet_pkg_length steps_rest) simp_all
  have welse: "reads False n (on_package m False (\<lambda>p_end. while_before k p_end term))"
    using loop by (intro quiet.steps_on_package quiet_pkg_length steps_rest) simp_all
  have ext: "reads False n (on_byte m False (\<lambda>c. give (c \<in> {0x20, 0x21, 0x22, 0x24, 0x26, 0x27, 0x32})))"
    by (intro quiet.steps_on_byte_free quiet.steps_give) simp
  show "reads False n (if c = 0x5b then on_byte m False (\<lambda>c. give (c \<in> {0x20, 0x21, 0x22, 0x24, 0x26, 0x27, 0x32}))
     else if c = 0x86 \<or> c = 0x9f then give True
     else if c = 0xa0 \<or> c = 0xa2 then on_package m False (\<lambda>p_end. ignoring term (while_before k p_end term))
     else if c = 0xa1 then on_package m False (\<lambda>p_end. while_before k p_end term)
     else if c = 0xa3 then give True
     else if c = 0xa4 then term
     else give (c = 0xa5 \<or> c = 0xcc))" for c :: u8
    using ext wif welse steps_weaken [OF assms(1)] quiet.steps_give [of "\<lambda>b. b" n] by simp
qed simp

lemma makes_term_obj_body:
  assumes "reads True n supn" "reads True n term" "makes True n tobj"
  shows "makes True (Suc n) (term_obj_body m n supn term tobj)"
  unfolding term_obj_body_def
  using makes_object [OF assms(2,3)] makes_reads [OF reads_type_two [OF assms(1,2)]] makes_reads [OF reads_type_one [OF assms(2)]]
  by (intro builds.steps_or_else builds.steps_false) simp_all

lemma makes_term_obj: "makes True n (term_obj m n)"
proof (induction n)
  case 0
  show ?case by (simp add: steps_def)
next
  case (Suc n)
  have "makes True (Suc n) (term_obj_body m n (super_name m n) (term_arg m n) (term_obj m n))"
    by (rule makes_term_obj_body [OF reads_super_name reads_term_arg Suc])
  then show ?case by (simp add: steps_def does_def)
qed

subsection \<open>The whole table\<close>

lemma reads_stuck:
  assumes supn: "reads True n supn" and A: "reads True n term"
  shows "reads False n (stuck_op m supn term c)"
proof -
  have q: "quiet s s' \<Longrightarrow> scope s' = scope s" for s s' by (simp add: quiet_def)
  have fin: "reads False n (give False)" by (rule quiet.steps_false)
  have one: "reads False n (ignoring f g)" if "reads True n f" "reads False n g" for f g
    by (rule quiet.steps_ignoring [OF steps_weaken [OF that(1)] that(2) q])
  show ?thesis
    unfolding stuck_op_def
    using one [OF A one [OF A one [OF reads_target [OF supn] fin]]] one [OF supn fin]
      one [OF A one [OF A one [OF quiet_name_ok fin]]] one [OF A one [OF A fin]] one [OF A fin] fin
    by simp
qed

lemma dsdt_terms_ends:
  "reader_ok s \<Longrightarrow> left_of s < n \<Longrightarrow> left_of s < k \<Longrightarrow>
   \<exists>s'. dsdt_terms m k n s = Some s' \<and> reader_ok s' \<and> grown (ns s) (ns s') \<and> current s \<le> current s'"
proof (induction k arbitrary: s)
  case (Suc k)
  obtain b s1 where t: "term_obj m n s = Some (b, s1)" "builds s s1" "reader_ok s1" "current s \<le> current s1" "end_at s1 = end_at s"
    "b \<Longrightarrow> left_of s1 < left_of s"
    using stepsD [OF makes_term_obj [where m = m] Suc.prems(1,2)] by (elim doesE) blast
  have g: "grown (ns s) (ns s1)" using t(2) by (simp add: builds_def)
  show ?case
  proof (cases b)
    case True
    then have "left_of s1 < n" "left_of s1 < k" using t(6) Suc.prems(2,3) by simp_all
    then obtain s' where "dsdt_terms m k n s1 = Some s'" "reader_ok s'" "grown (ns s1) (ns s')" "current s1 \<le> current s'"
      using Suc.IH [OF t(3)] by blast
    then show ?thesis using t(1,4) True grown_trans [OF g] by auto
  next
    case False
    let ?s = "cancel (save s) s1"
    have ok: "reader_ok ?s" by (rule builds.reader_ok_cancel [OF t(2) Suc.prems(1) t(3)])
    have lt: "left_of ?s < Suc n" using t(5) Suc.prems(2) by (simp add: left_of_def)
    have stuck: "reads False (Suc n) (on_byte m False (stuck_op m (super_name m n) (term_arg m n)))"
      by (intro quiet.steps_on_byte reads_stuck reads_super_name reads_term_arg) simp
    obtain r s2 where s2: "on_byte m False (stuck_op m (super_name m n) (term_arg m n)) ?s = Some (r, s2)" "quiet ?s s2" "reader_ok s2"
      "current ?s \<le> current s2"
      using stepsD [OF stuck ok lt] by (elim doesE) blast
    then show ?thesis using t(1) False g by (simp add: quiet_def)
  qed
qed simp

text \<open>Reading a table always ends and never spoils the namespace: whatever bytes the table holds, the reader with more fuel than
  the table has bytes comes to an end, the entries are still a tree of names without repetition, whose
  types are all indices of the texts the display prints, every entry there was keeps its name and its parent, and the scope it is left in is an entry.
\<close>

theorem dsdt_read:
  assumes "ns_ok es" "e - b < n"
  shows "\<exists>s. read_dsdt m n b e es = Some s \<and> ns_ok (ns s) \<and> grown es (ns s) \<and> scope_ok (ns s) (scope s) \<and> b \<le> current s"
proof -
  let ?s = "enter_scope (Some get_root) (AMLReader es b e)"
  have "path_ok es (replicate NAME_PATH_LIMIT invalid_name)"
    by (simp add: path_ok_def path_name_ok_def invalid_name_def)
  then have ok: "reader_ok ?s" using assms(1) ns_ok_root by (simp add: reader_ok_def enter_scope_def AMLReader_def scope_ok_def)
  have "left_of ?s < n" using assms(2) by (simp add: left_of_def enter_scope_def AMLReader_def)
  from dsdt_terms_ends [OF ok this this, of m] show ?thesis
    by (auto simp: read_dsdt_def reader_ok_def enter_scope_def AMLReader_def)
qed

text \<open>Bytes \<open>08 41 42 43 44 0a 05\<close>: the name \<open>ABCD\<close> with the value 5.\<close>

definition demo_aml :: bytes where
  "demo_aml a = (if a < 7 then [8, 0x41, 0x42, 0x43, 0x44, 0xa, 5] ! a else 0)"

lemma dsdt_read_witness:
  "\<exists>s. read_dsdt demo_aml 8 0 7 (init_block []) = Some s \<and> ns_ok (ns s)"
  using dsdt_read [OF root_ok, of 7 0 8 demo_aml] by auto

text \<open>A term is read whole or left: if \<open>term_obj\<close> succeeds it has read at least one byte, and the scope is the one it began in;
  in any case it ends, and what the table names stays a tree.
\<close>

theorem term_obj_reads:
  assumes "reader_ok s" "left_of s < n"
  shows "\<exists>b s'. term_obj m n s = Some (b, s') \<and> reader_ok s' \<and> grown (ns s) (ns s') \<and> end_at s' = end_at s
     \<and> (b \<longrightarrow> current s < current s' \<and> scope s' = scope s)"
  using stepsD [OF makes_term_obj assms, of m] unfolding does_def
  by (auto simp: builds_def left_of_def)


end
