(* ===== verification/AmlFacts.thy ===== *)
theory AmlFacts
  imports AmlEnds
begin

text \<open>
  What the reader makes of well-formed input: package lengths are read back as they are encoded, a declared path is found again;
  and three paths that it gets wrong.
\<close>

subsection \<open>Package lengths\<close>

text \<open>The encoding of the ACPI specification: the count of the bytes that follow in the top bits of the first.\<close>

definition pkg_encode :: "u32 \<Rightarrow> u8 list" where
  "pkg_encode n = (if n < 0x40 then [ucast n]
     else if n < 0x1000 then [0x40 OR (ucast n AND 0xf), ucast (drop_bit 4 n)]
     else if n < 0x100000 then [0x80 OR (ucast n AND 0xf), ucast (drop_bit 4 n), ucast (drop_bit 12 n)]
     else [0xc0 OR (ucast n AND 0xf), ucast (drop_bit 4 n), ucast (drop_bit 12 n), ucast (drop_bit 20 n)])"

lemma bits_below:
  fixes n :: u32
  assumes "unat n < 2 ^ k" "bit n i"
  shows "i < k"
proof -
  have "take_bit k n = n"
    using assms(1) by (metis take_bit_nat_eq_self unsigned_take_bit_eq unsigned_word_eqI)
  with assms(2) show ?thesis by (metis bit_take_bit_iff)
qed

lemma low_nibble:
  "(ucast ((0x40 OR (ucast n AND 0xf)) AND 0xf :: u8) :: u32) = n AND 0xf"
  "(ucast ((0x80 OR (ucast n AND 0xf)) AND 0xf :: u8) :: u32) = n AND 0xf"
  "(ucast ((0xc0 OR (ucast n AND 0xf)) AND 0xf :: u8) :: u32) = n AND 0xf" for n :: u32
proof -
  have e: "(0xf :: u8) = mask 4" "(0xf :: u32) = mask 4" by (simp_all add: mask_eq_exp_minus_1)
  have c: "(0x40 :: u8) AND mask 4 = 0" "(0x80 :: u8) AND mask 4 = 0" "(0xc0 :: u8) AND mask 4 = 0"
    by (simp_all add: mask_eq_exp_minus_1)
  have g: "ucast ((c OR (ucast n AND mask 4)) AND mask 4 :: u8) = n AND mask 4" if "c AND mask 4 = 0" for c :: u8
  proof (rule bit_eqI)
    fix i
    have "\<not> bit (c AND mask 4) i" unfolding \<open>c AND mask 4 = 0\<close> by simp
    then show "bit (ucast ((c OR (ucast n AND mask 4)) AND mask 4 :: u8) :: u32) i = bit (n AND mask 4) i"
      by (auto simp: bit_simps)
  qed
  show "(ucast ((0x40 OR (ucast n AND 0xf)) AND 0xf :: u8) :: u32) = n AND 0xf"
    "(ucast ((0x80 OR (ucast n AND 0xf)) AND 0xf :: u8) :: u32) = n AND 0xf"
    "(ucast ((0xc0 OR (ucast n AND 0xf)) AND 0xf :: u8) :: u32) = n AND 0xf"
    unfolding e using g c by blast+
qed

lemma lead_count:
  "drop_bit 6 (0x40 OR (ucast n AND 0xf) :: u8) = 1"
  "drop_bit 6 (0x80 OR (ucast n AND 0xf) :: u8) = 2"
  "drop_bit 6 (0xc0 OR (ucast n AND 0xf) :: u8) = 3" for n :: u32
proof -
  have "drop_bit 6 (x AND 0xf) = 0" for x :: u8
    by (simp add: drop_bit_and)
  then show "drop_bit 6 (0x40 OR (ucast n AND 0xf) :: u8) = 1"
    "drop_bit 6 (0x80 OR (ucast n AND 0xf) :: u8) = 2"
    "drop_bit 6 (0xc0 OR (ucast n AND 0xf) :: u8) = 3"
    by (simp_all add: drop_bit_or)
qed

lemma bit_part:
  fixes n :: u32
  shows "bit (push_bit k (ucast (ucast (drop_bit k n) :: u8)) :: u32) i \<longleftrightarrow> k \<le> i \<and> i < k + 8 \<and> bit n i"
proof (cases "i < 32")
  case True
  then show ?thesis by (auto simp: bit_push_bit_iff bit_unsigned_iff bit_drop_bit_eq)
next
  case False
  then show ?thesis using bit_imp_le_length [of n i] by (auto simp: bit_simps)
qed

lemma bit_low: "bit (n AND 0xf :: u32) i \<longleftrightarrow> i < 4 \<and> bit n i"
proof -
  have e: "(0xf :: u32) = mask 4" by (simp add: mask_eq_exp_minus_1)
  show ?thesis unfolding e using bit_imp_le_length [of n i] by (auto simp: bit_and_iff bit_mask_iff)
qed

lemma word_parts:
  fixes n :: u32
  shows "unat n < 2 ^ 12 \<Longrightarrow> n AND 0xf OR push_bit 4 (ucast (ucast (drop_bit 4 n) :: u8)) = n"
    "unat n < 2 ^ 20 \<Longrightarrow> n AND 0xf OR push_bit 4 (ucast (ucast (drop_bit 4 n) :: u8)) OR push_bit 12 (ucast (ucast (drop_bit 12 n) :: u8)) = n"
    "unat n < 2 ^ 28 \<Longrightarrow> n AND 0xf OR push_bit 4 (ucast (ucast (drop_bit 4 n) :: u8)) OR push_bit 12 (ucast (ucast (drop_bit 12 n) :: u8))
      OR push_bit 20 (ucast (ucast (drop_bit 20 n) :: u8)) = n"
proof -
  assume n: "unat n < 2 ^ 12"
  show "n AND 0xf OR push_bit 4 (ucast (ucast (drop_bit 4 n) :: u8)) = n"
  proof (rule bit_eqI)
    fix i show "bit (n AND 0xf OR push_bit 4 (ucast (ucast (drop_bit 4 n) :: u8))) i = bit n i"
      unfolding bit_or_iff bit_low bit_part using bits_below [OF n, of i] by (cases "bit n i") auto
  qed
next
  assume n: "unat n < 2 ^ 20"
  show "n AND 0xf OR push_bit 4 (ucast (ucast (drop_bit 4 n) :: u8)) OR push_bit 12 (ucast (ucast (drop_bit 12 n) :: u8)) = n"
  proof (rule bit_eqI)
    fix i show "bit (n AND 0xf OR push_bit 4 (ucast (ucast (drop_bit 4 n) :: u8)) OR push_bit 12 (ucast (ucast (drop_bit 12 n) :: u8))) i = bit n i"
      unfolding bit_or_iff bit_low bit_part using bits_below [OF n, of i] by (cases "bit n i") auto
  qed
next
  assume n: "unat n < 2 ^ 28"
  show "n AND 0xf OR push_bit 4 (ucast (ucast (drop_bit 4 n) :: u8)) OR push_bit 12 (ucast (ucast (drop_bit 12 n) :: u8))
      OR push_bit 20 (ucast (ucast (drop_bit 20 n) :: u8)) = n"
  proof (rule bit_eqI)
    fix i show "bit (n AND 0xf OR push_bit 4 (ucast (ucast (drop_bit 4 n) :: u8)) OR push_bit 12 (ucast (ucast (drop_bit 12 n) :: u8))
      OR push_bit 20 (ucast (ucast (drop_bit 20 n) :: u8))) i = bit n i"
      unfolding bit_or_iff bit_low bit_part using bits_below [OF n, of i] by (cases "bit n i") auto
  qed
qed

text \<open>Lengths of packages are read back: where the bytes at the reader's place are the encoding of \<open>n\<close> and lie in the table,
  \<open>pkg_length\<close> answers \<open>n\<close> and stands after them.
\<close>

theorem pkg_length_encoded:
  assumes n: "unat n < 2 ^ 28" and B: "\<forall>i < length (pkg_encode n). m (current s + i) = pkg_encode n ! i"
    and L: "current s + length (pkg_encode n) \<le> end_at s"
  shows "pkg_length m s = Some (Some n, s\<lparr>current := current s + length (pkg_encode n)\<rparr>)"
proof -
  have u: "n < 0x40 \<longleftrightarrow> unat n < 2 ^ 6" "n < 0x1000 \<longleftrightarrow> unat n < 2 ^ 12" "n < 0x100000 \<longleftrightarrow> unat n < 2 ^ 20"
    by (simp_all add: word_less_nat_alt)
  note read = pkg_length_def on_byte_read give_def Let_def
  consider "n < 0x40" | "\<not> n < 0x40" "n < 0x1000" | "\<not> n < 0x40" "\<not> n < 0x1000" "n < 0x100000"
    | "\<not> n < 0x40" "\<not> n < 0x1000" "\<not> n < 0x100000" by blast
  then show ?thesis
  proof cases
    case 1
    then have b: "bit n i \<Longrightarrow> i < 6" for i using bits_below [of n 6] u(1) by blast
    have z: "drop_bit 6 (ucast n :: u8) = 0" by (rule bit_eqI) (use b in \<open>force simp: bit_simps\<close>)
    have e: "(0x3f :: u8) = mask 6" by (simp add: mask_eq_exp_minus_1)
    have v: "ucast (ucast n AND 0x3f :: u8) = n" unfolding e by (rule bit_eqI) (use b in \<open>force simp: bit_simps\<close>)
    have E: "pkg_encode n = [ucast n]" using 1 by (simp add: pkg_encode_def)
    have "m (current s) = ucast n" using B unfolding E by simp
    then show ?thesis using L unfolding E by (simp add: read z v)
  next
    case 2
    then have n2: "unat n < 2 ^ 12" using u(2) by blast
    have E: "pkg_encode n = [0x40 OR (ucast n AND 0xf), ucast (drop_bit 4 n)]" using 2 by (simp add: pkg_encode_def)
    have "m (current s) = 0x40 OR (ucast n AND 0xf)" "m (Suc (current s)) = ucast (drop_bit 4 n)"
      using B [rule_format, of 0] B [rule_format, of 1] unfolding E by simp_all
    then show ?thesis using L unfolding E by (simp add: read lead_count low_nibble word_parts(1) [OF n2])
  next
    case 3
    then have n2: "unat n < 2 ^ 20" using u(3) by blast
    have E: "pkg_encode n = [0x80 OR (ucast n AND 0xf), ucast (drop_bit 4 n), ucast (drop_bit 12 n)]" using 3 by (simp add: pkg_encode_def)
    have "m (current s) = 0x80 OR (ucast n AND 0xf)" "m (Suc (current s)) = ucast (drop_bit 4 n)"
      "m (Suc (Suc (current s))) = ucast (drop_bit 12 n)"
      using B [rule_format, of 0] B [rule_format, of 1] B [rule_format, of 2] unfolding E by simp_all
    then show ?thesis using L unfolding E by (simp add: read lead_count low_nibble or.assoc word_parts(2) [OF n2])
  next
    case 4
    have E: "pkg_encode n = [0xc0 OR (ucast n AND 0xf), ucast (drop_bit 4 n), ucast (drop_bit 12 n), ucast (drop_bit 20 n)]"
      using 4 by (simp add: pkg_encode_def)
    have "m (current s) = 0xc0 OR (ucast n AND 0xf)" "m (Suc (current s)) = ucast (drop_bit 4 n)"
      "m (Suc (Suc (current s))) = ucast (drop_bit 12 n)" "m (Suc (Suc (Suc (current s)))) = ucast (drop_bit 20 n)"
      using B [rule_format, of 0] B [rule_format, of 1] B [rule_format, of 2] B [rule_format, of 3] unfolding E
      by (simp_all add: eval_nat_numeral)
    then show ?thesis using L unfolding E by (simp add: read lead_count low_nibble or.assoc word_parts(3) [OF n])
  qed
qed

text \<open>The length 300 is \<open>4c 12\<close>.\<close>

lemma pkg_length_encoded_witness:
  "\<exists>s'. pkg_length (\<lambda>a. if a = 0 then 0x4c else 0x12) (AMLReader [] 0 2) = Some (Some 300, s') \<and> current s' = 2"
proof -
  have e: "pkg_encode 300 = [0x4c, 0x12]" by code_simp
  have "pkg_length (\<lambda>a. if a = 0 then 0x4c else 0x12) (AMLReader [] 0 2)
      = Some (Some 300, (AMLReader [] 0 2)\<lparr>current := current (AMLReader [] 0 2) + length (pkg_encode 300)\<rparr>)"
    by (rule pkg_length_encoded) (auto simp: e AMLReader_def less_Suc_eq)
  then show ?thesis by (simp add: e AMLReader_def)
qed

subsection \<open>Input that is read wrongly\<close>

definition mem_of :: "u8 list \<Rightarrow> bytes" where
  "mem_of xs a = (if a < length xs then xs ! a else 0)"

definition names_read :: "u8 list \<Rightarrow> nat \<Rightarrow> (seg \<times> nat option) list option" where
  "names_read xs k = map_option (\<lambda>s. map (\<lambda>e. (ename e, up e)) (take k (ns s)))
     (read_dsdt (mem_of xs) (Suc (length xs)) 0 (length xs) (init_block []))"

text \<open>
  The parts of a path are kept in the reader, in \<open>name_path\<close>, until the name is declared, and a name's data is read before that.
  A path among the data overwrites them: \<open>Name(\AAAA.BBBB, Package(1) {\CCCC.DDDD})\<close> declares \<open>\CCCC.BBBB\<close>.
\<close>

definition alias_aml :: "u8 list" where
  "alias_aml = [8, 0x5c, 0x2f, 2, 0x41, 0x41, 0x41, 0x41, 0x42, 0x42, 0x42, 0x42,
     0x12, 13, 1, 0x5c, 0x2f, 2, 0x43, 0x43, 0x43, 0x43, 0x44, 0x44, 0x44, 0x44]"

lemma path_overwritten_by_data:
  "names_read alias_aml 3 =
     Some [((0x5c, 0, 0, 0), None), ((0x43, 0x43, 0x43, 0x43), Some 0), ((0x42, 0x42, 0x42, 0x42), Some 1)]"
  by code_simp

text \<open>A prefix \<open>^\<close> does not lead to the parent: \<open>Scope(AAAA) {Name(^BBBB, 0)}\<close> declares \<open>AAAA.BBBB\<close>.\<close>

definition caret_aml :: "u8 list" where
  "caret_aml = [0x10, 12, 0x41, 0x41, 0x41, 0x41, 8, 0x5e, 0x42, 0x42, 0x42, 0x42, 0]"

lemma caret_not_followed:
  "names_read caret_aml 3 =
     Some [((0x5c, 0, 0, 0), None), ((0x41, 0x41, 0x41, 0x41), Some 0), ((0x42, 0x42, 0x42, 0x42), Some 1)]"
  by code_simp

text \<open>Of a path of more than 16 parts only the last is declared, in the scope at hand: \<open>Name(\A000.A000. ... .BBBB, 0)\<close>.\<close>

definition deep_aml :: "u8 list" where
  "deep_aml = [8, 0x5c, 0x2f, 17] @ concat (replicate 16 [0x41, 0x30, 0x30, 0x30]) @ [0x42, 0x42, 0x42, 0x42, 0]"

lemma deep_path_cut: "names_read deep_aml 3 = Some [((0x5c, 0, 0, 0), None), ((0x42, 0x42, 0x42, 0x42), Some 0), ((0, 0, 0, 0), None)]"
  by code_simp

text \<open>The length of a buffer is not held against the table: in a table of ten bytes a name
  says that its data, from the sixth byte on, is 257 bytes long.\<close>

definition buffer_aml :: "u8 list" where
  "buffer_aml = [8, 0x41, 0x41, 0x41, 0x41, 0x11, 0x40, 0x10, 0, 0]"

lemma buffer_past_table:
  "map_option (\<lambda>s. (aml_source (ns s ! 1), aml_length (ns s ! 1)))
     (read_dsdt (mem_of buffer_aml) 11 0 (length buffer_aml) (init_block [])) = Some (Some 5, 257)"
  by code_simp

end
