(* ===== verification/AmlDebug.thy ===== *)
theory AmlDebug
  imports AmlFacts
begin

text \<open>
  The display of the namespace and the console's commands on it (\<open>display_namespace\<close>, \<open>debug_namespace\<close> and \<open>debug_acpi\<close> of
  \<open>src/kernel/aml.cpp\<close>). What is printed is modelled as the list of the entries and resources that are printed, in order.
\<close>

subsection \<open>Display\<close>

text \<open>An entry at its depth, or the mark that its children are too deep.\<close>

datatype shown = Shown nat nat | TooDeep nat

text \<open>The names that the display leaves out (their children are shown).\<close>

definition hidden :: "seg \<Rightarrow> bool" where
  "hidden n \<longleftrightarrow> (case n of (a, b, c, d) \<Rightarrow>
     a = 0x50 \<and> b = 0x45 \<or> a = 0x53 \<and> b = 0x31 \<and> c = 0x46 \<or> a = 0x5f \<and> b = 0x48 \<and> c = 0x49
     \<or> a = 0x5f \<and> b = 0x55 \<and> c = 0x49 \<or> a = 0x5f \<and> b = 0x53 \<and> c = 0x54)"

text \<open>The list of entries from \<open>c\<close> on at depth \<open>l\<close>, and what is below each; \<open>None\<close> if the lists do not end.\<close>

partial_function (option) display_list :: "ns_entry list \<Rightarrow> nat \<Rightarrow> nat option \<Rightarrow> shown list option" where
  "display_list es l c = (case c of
      None \<Rightarrow> Some []
    | Some i \<Rightarrow> do {
        xs \<leftarrow> (if l + 1 > 8 then Some [TooDeep i] else display_list es (l + 1) (inner (es ! i)));
        ys \<leftarrow> display_list es l (sibling (es ! i));
        Some ((if hidden (ename (es ! i)) then [] else [Shown l i]) @ xs @ ys) })"

declare display_list.simps [code]

definition display_namespace_inner :: "ns_entry list \<Rightarrow> nat \<Rightarrow> nat \<Rightarrow> shown list option" where
  "display_namespace_inner es l co = (if l > 8 then Some [TooDeep co] else display_list es l (inner (es ! co)))"

text \<open>The children of the root are shown whatever their names.\<close>

partial_function (option) display_top :: "ns_entry list \<Rightarrow> nat option \<Rightarrow> shown list option" where
  "display_top es c = (case c of
      None \<Rightarrow> Some []
    | Some i \<Rightarrow> do {
        xs \<leftarrow> display_namespace_inner es 1 i;
        ys \<leftarrow> display_top es (sibling (es ! i));
        Some (Shown 0 i # xs @ ys) })"

declare display_top.simps [code]

definition display_namespace :: "ns_entry list \<Rightarrow> shown list option" where
  "display_namespace es = display_top es (inner (es ! get_root))"

subsection \<open>The display ends\<close>

lemma display_list_ends:
  assumes R: "ns_rel n kids es"
  shows "l \<le> 8 \<Longrightarrow> chain es c xs \<Longrightarrow> \<forall>x \<in> set xs. x < n \<Longrightarrow> \<exists>r. display_list es l c = Some r"
proof (induction "8 - l" arbitrary: l c xs)
  case 0
  then have l: "l + 1 > 8" by simp
  from 0(3,4) show ?case
  proof (induction xs arbitrary: c)
    case Nil
    then show ?case by (simp add: display_list.simps)
  next
    case (Cons x xs)
    then obtain ys where "display_list es l (sibling (es ! x)) = Some ys" by auto
    then show ?case using Cons.prems(1) l by (simp add: display_list.simps [of es l "Some x"])
  qed
next
  case (Suc k)
  then have l: "\<not> l + 1 > 8" "k = 8 - (l + 1)" "l + 1 \<le> 8" by simp_all
  from Suc.prems(2,3) show ?case
  proof (induction xs arbitrary: c)
    case Nil
    then show ?case by (simp add: display_list.simps)
  next
    case (Cons x xs)
    then have x: "c = Some x" "x < n" by simp_all
    obtain ys where ys: "display_list es l (sibling (es ! x)) = Some ys" using Cons by auto
    obtain zs where "display_list es (l + 1) (inner (es ! x)) = Some zs"
      using Suc.hyps(1) [OF l(2,3) ns_rel_chain [OF R x(2)]] ns_rel_kid [OF R x(2)] by blast
    then show ?case using ys x(1) l(1) by (simp add: display_list.simps [of es l "Some x"])
  qed
qed

text \<open>The display of a namespace ends, however deep it is: below depth eight an entry is marked and not followed, and every list
  of children comes to its end.
\<close>

theorem namespace_displayed:
  assumes "ns_ok es"
  shows "\<exists>r. display_namespace es = Some r"
proof -
  from assms obtain n kids where R: "ns_rel n kids es" unfolding ns_ok_def by blast
  have inner: "\<exists>r. display_namespace_inner es 1 i = Some r" if "i < n" for i
    using display_list_ends [OF R _ ns_rel_chain [OF R that]] ns_rel_kid [OF R that] by (auto simp: display_namespace_inner_def)
  have top_ends: "chain es c xs \<Longrightarrow> \<forall>x \<in> set xs. x < n \<Longrightarrow> \<exists>r. display_top es c = Some r" for c xs
  proof (induction xs arbitrary: c)
    case Nil
    then show ?case by (simp add: display_top.simps)
  next
    case (Cons x xs)
    then have "c = Some x" by simp
    moreover obtain ys where "display_top es (sibling (es ! x)) = Some ys" using Cons by auto
    moreover obtain zs where "display_namespace_inner es 1 x = Some zs" using inner Cons.prems(2) by auto
    ultimately show ?case by (simp add: display_top.simps [of es "Some x"])
  qed
  have "0 < n" by (rule ns_rel_sizes(1) [OF R])
  then show ?thesis
    using top_ends [OF ns_rel_chain [OF R]] ns_rel_kid [OF R] unfolding display_namespace_def get_root_def by blast
qed

lemma namespace_displayed_witness: "\<exists>r. display_namespace (init_block []) = Some r"
  using namespace_displayed [OF root_ok] .

subsection \<open>Resources\<close>

datatype resource =
    IRQ "nat list" "u8 option"
  | IOPort bool u16 u16 u8 u8
  | LargeItem u8
  | NotDecoded u8

text \<open>The items of a resource template (\<open>_CRS\<close>). An item that is cut short is not told; of an interrupt format the code has by then
  printed the lines of the first byte.\<close>

definition irq_lines :: "u8 \<Rightarrow> u8 \<Rightarrow> nat list" where
  "irq_lines b0 b1 = filter (\<lambda>n. bit b0 n) [0..<8] @ filter (\<lambda>n. bit b1 (n - 8)) [8..<16]"

definition irq_item :: "bytes \<Rightarrow> nat \<Rightarrow> aml \<Rightarrow> resource list" where
  "irq_item m len s = (case get m s of (None, _) \<Rightarrow> [] | (Some b0, s1) \<Rightarrow>
     (case get m s1 of (None, _) \<Rightarrow> [] | (Some b1, s2) \<Rightarrow>
       if len = 3 then (case get m s2 of (None, _) \<Rightarrow> [] | (Some b2, _) \<Rightarrow> [IRQ (irq_lines b0 b1) (Some b2)])
       else [IRQ (irq_lines b0 b1) None]))"

definition io_item :: "bytes \<Rightarrow> aml \<Rightarrow> resource list" where
  "io_item m s = (if current s + 7 \<le> end_at s
     then let p = current s in
       [IOPort (m p = 1) (ld16 m (p + 1)) (ld16 m (p + 3)) (m (p + 5)) (m (p + 6))]
     else [])"

function crs_items :: "bytes \<Rightarrow> aml \<Rightarrow> resource list \<times> aml" where
  "crs_items m s = (case get m s of
      (None, s1) \<Rightarrow> ([], s1)
    | (Some b, s1) \<Rightarrow>
        if bit b 7 then ([LargeItem b], s1)
        else (let iname = drop_bit 3 b; len = unat (b AND 7);
                 item = (if iname = 4 then (if len \<noteq> 2 \<and> len \<noteq> 3 then [] else irq_item m len s1)
                   else if iname = 8 then (if len \<noteq> 7 then [] else io_item m s1)
                   else [NotDecoded b]);
                 (rest, s2) = crs_items m (s1\<lparr>current := current s1 + len\<rparr>) in
             (item @ rest, s2)))"
  by pat_completeness auto
termination
  by (relation "measure (\<lambda>(m, s). end_at s - current s)") (auto simp: get_def split: if_splits)

declare crs_items.simps [simp del]

lemma irq_lines_bits: "k \<in> set (irq_lines b0 b1) \<longleftrightarrow> k < 8 \<and> bit b0 k \<or> 8 \<le> k \<and> k < 16 \<and> bit b1 (k - 8)"
  unfolding irq_lines_def set_append set_filter set_upt Un_iff mem_Collect_eq atLeastLessThan_iff by auto

subsection \<open>The commands\<close>

definition CRS_seg :: seg where
  "CRS_seg = (0x5f, 0x43, 0x52, 0x53)"

text \<open>A child of the scope as it is listed: its data, where it is a name, and its resources.\<close>

record listed =
  child :: nat
  has_inner :: bool
  data_of :: "aml_data option"
  items :: "resource list"

text \<open>One turn: the data of a name is read again; \<open>d\<close> is the variable that the turns share.\<close>

definition list_child :: "bytes \<Rightarrow> nat \<Rightarrow> nat \<Rightarrow> aml_data \<Rightarrow> (listed \<times> aml_data) act" where
  "list_child m n i d s = (let e = ns s ! i in
     if e_type e \<noteq> 2 then Some ((\<lparr>child = i, has_inner = (inner e \<noteq> None), data_of = None, items = []\<rparr>, d), s)
     else do {
       let a = (case aml_source e of None \<Rightarrow> 0 | Some a \<Rightarrow> a);
       ((b, d1), s1) \<leftarrow> data_ref_object m (term_arg m n) d (s\<lparr>current := a, end_at := a + unat (aml_length e)\<rparr>);
       if ename e = CRS_seg \<and> d_type d1 = 0x11
       then (case crs_items m (s1\<lparr>current := dstart d1, end_at := dend d1\<rparr>) of (rs, s2) \<Rightarrow>
         Some ((\<lparr>child = i, has_inner = (inner e \<noteq> None), data_of = Some d1, items = rs\<rparr>, d1), s2))
       else Some ((\<lparr>child = i, has_inner = (inner e \<noteq> None), data_of = Some d1, items = []\<rparr>, d1), s1) })"

partial_function (option) list_children :: "bytes \<Rightarrow> nat \<Rightarrow> nat option \<Rightarrow> aml_data \<Rightarrow> listed list act" where
  "list_children m n c d s = (case c of
      None \<Rightarrow> Some ([], s)
    | Some i \<Rightarrow> do {
        ((x, d1), s1) \<leftarrow> list_child m n i d s;
        (xs, s2) \<leftarrow> list_children m n (sibling (ns s1 ! i)) d1 s1;
        Some (x # xs, s2) })"

declare list_children.simps [code]

text \<open>\<open>None\<close> also where no table has been loaded and the scope is null.\<close>

definition debug_namespace :: "bytes \<Rightarrow> nat \<Rightarrow> listed list act" where
  "debug_namespace m n s = (case scope s of None \<Rightarrow> None | Some i \<Rightarrow> list_children m n (inner (ns s ! i)) no_data s)"

datatype answer = Tree "shown list" | Listing "listed list" | InvalidName | Nothing

text \<open>\<open>arg\<close> and \<open>len\<close> are the text of the command.\<close>

definition debug_acpi :: "bytes \<Rightarrow> nat \<Rightarrow> nat \<Rightarrow> nat \<Rightarrow> answer act" where
  "debug_acpi m n arg len s = (let s0 = s\<lparr>current := arg, end_at := arg + len\<rparr> in
     case get m s0 of
       (None, s1) \<Rightarrow> map_option (\<lambda>r. (Tree r, s1)) (display_namespace (ns s1))
     | (Some c, s1) \<Rightarrow>
         if c = 0x65 then do {
           (nm, s2) \<leftarrow> name_string m s1;
           if \<not> success nm then Some (InvalidName, s2)
           else if entry nm = None then Some (Nothing, s2)
           else do { (xs, s3) \<leftarrow> debug_namespace m n (enter_scope (entry nm) s2); Some (Listing xs, s3) } }
         else if c = 0x2e \<or> c = 0x75 then (case scope s1 of None \<Rightarrow> None | Some i \<Rightarrow>
           (case Names.up (ns s1 ! i) of None \<Rightarrow> Some (Nothing, s1)
            | Some p \<Rightarrow> do { (xs, s2) \<leftarrow> debug_namespace m n (enter_scope (Some p) s1); Some (Listing xs, s2) }))
         else if c = 0x6c then do { (xs, s2) \<leftarrow> debug_namespace m n s1; Some (Listing xs, s2) }
         else if c = 0x72 then Some (Nothing, enter_scope (Some get_root) s1)
         else Some (Nothing, s1))"

end
