(* ===== verification/Acpi.thy ===== *)
theory Acpi
  imports AmlTerms AmlDebug Rtc
begin

text \<open>
  The search for the ACPI tables and the walk over them (\<open>src/kernel/acpi.cpp\<close>, and \<open>load_dsdt\<close> of \<open>src/kernel/aml.cpp\<close>): the root
  descriptor in the BIOS area, the list of tables behind it, the interrupt controllers of the MADT, and the FADT that leads
  to the DSDT, whose terms \<open>AmlTerms\<close> reads.

  What the code calls outside is in the record \<open>acpi_env\<close>: \<open>request\<close> is \<open>mem::vmm_request\<close>, with the arguments of its model in
  \<open>Paging\<close>; \<open>vmem\<close> is what is to be read at the virtual addresses, \<open>rd32\<close> and \<open>wr32\<close> access registers of devices that are mapped
  there, and \<open>io\<close> the ports of the CMOS. Interrupts are not enabled before the end of \<open>load_madt\<close>. The prints are omitted.
\<close>

subsection \<open>State\<close>

record 's acpi_env =
  request :: "u32 \<Rightarrow> u32 \<Rightarrow> u64 \<Rightarrow> u32 \<Rightarrow> 's \<Rightarrow> (u32 \<times> 's) option"
  vmem :: "'s \<Rightarrow> bytes"
  rd32 :: "u32 \<Rightarrow> 's \<Rightarrow> u32 \<times> 's"
  wr32 :: "u32 \<Rightarrow> u32 \<Rightarrow> 's \<Rightarrow> 's"
  io :: "'s ports"

text \<open>A place of \<open>acpi_pages\<close>: the virtual address and the physical page, 0 if the place is free.\<close>

type_synonym place = "u32 \<times> u64"

text \<open>\<open>dbg\<close> is the reader behind the debug commands, with the namespace.\<close>

record acpi =
  acpi_pages :: "place list"
  rsdpd :: "u32 option"
  apic_base :: u32
  ioapic_base :: u32
  rtc :: cmos
  dbg :: aml

definition ld8a :: "bytes \<Rightarrow> u32 \<Rightarrow> u8" where
  "ld8a m a = m (unat a)"

definition ld32a :: "bytes \<Rightarrow> u32 \<Rightarrow> u32" where
  "ld32a m a = ld32 m (unat a)"

definition ld64a :: "bytes \<Rightarrow> u32 \<Rightarrow> u64" where
  "ld64a m a = ucast (ld32 m (unat a)) OR push_bit 32 (ucast (ld32 m (unat a + 4)))"

subsection \<open>Mapped pages\<close>

definition reset_pages :: "acpi \<Rightarrow> acpi" where
  "reset_pages a = a\<lparr>acpi_pages := replicate 8 (0, 0)\<rparr>"

definition place_of :: "u64 \<Rightarrow> place list \<Rightarrow> nat option" where
  "place_of p ps = find (\<lambda>e. snd (ps ! e) = p) [0..<8]"

text \<open>The address of the byte at \<open>phy\<close>; 0 is the null pointer.\<close>

definition get_mapping :: "'s acpi_env \<Rightarrow> u64 \<Rightarrow> acpi \<times> 's \<Rightarrow> (u32 \<times> acpi \<times> 's) option" where
  "get_mapping E phy as = (let page = phy AND NOT 0xfff; ofs = ucast phy AND 0xfff in
     if page = 0 then Some (0, as)
     else (case place_of page (acpi_pages (fst as)) of
         Some e \<Rightarrow> Some (fst (acpi_pages (fst as) ! e) + ofs, as)
       | None \<Rightarrow> (case place_of 0 (acpi_pages (fst as)) of
           None \<Rightarrow> Some (0, as)
         | Some free \<Rightarrow> (case request E 0x1000 0 page 0 (snd as) of
             None \<Rightarrow> None
           | Some (v, s) \<Rightarrow> if v = 0 then Some (0, fst as, s)
               else Some (v + ofs, (fst as)\<lparr>acpi_pages := (acpi_pages (fst as))[free := (v, page)]\<rparr>, s)))))"

fun check_loop :: "bytes \<Rightarrow> u32 \<Rightarrow> nat \<Rightarrow> u32 \<Rightarrow> u32" where
  "check_loop m a 0 c = c"
| "check_loop m a (Suc n) c = check_loop m (a + 1) n (c + ucast (ld8a m a))"

definition acpi_checksum :: "bytes \<Rightarrow> u32 \<Rightarrow> u32 \<Rightarrow> u8" where
  "acpi_checksum m a len = ucast (check_loop m a (unat len) 0 AND 0xff)"

subsection \<open>The differentiated table\<close>

definition HEADER :: u32 where
  "HEADER = 36"

definition page_of :: "u32 \<Rightarrow> u32" where
  "page_of a = a AND NOT 0xfff"

text \<open>\<open>load_dsdt\<close>: the table is mapped again as a whole where it crosses a page; the terms are read with enough fuel.\<close>

definition remap_dsdt :: "'s acpi_env \<Rightarrow> u32 \<Rightarrow> u64 \<Rightarrow> 's \<Rightarrow> (u32 \<times> 's) option" where
  "remap_dsdt E base phy s =
    (let d = base + HEADER; fin = d + (ld32a (vmem E s) (base + 4) - HEADER) in
     if page_of d = page_of fin then Some (base, s)
     else (let n = page_of fin - page_of d; n = (if fin AND 0xfff \<noteq> 0 then n + 0x1000 else n)
       in map_option (\<lambda>(v, s'). (v + (ucast phy AND 0xfff), s')) (request E n 0 (phy AND NOT 0xfff) 0 s)))"

definition load_dsdt :: "'s acpi_env \<Rightarrow> u32 \<Rightarrow> u64 \<Rightarrow> acpi \<times> 's \<Rightarrow> (acpi \<times> 's) option" where
  "load_dsdt E base phy as = (case as of (a, s) \<Rightarrow>
     if ld32a (vmem E s) base \<noteq> 0x54445344 then Some as
     else do {
       (b, s1) \<leftarrow> remap_dsdt E base phy s;
       let m = vmem E s1;
       let d = b + HEADER;
       let fin = d + (ld32a m (b + 4) - HEADER);
       if acpi_checksum m b (ld32a m (b + 4)) \<noteq> 0 then Some (a, s1)
       else do {
         r \<leftarrow> read_dsdt m (Suc (unat fin - unat d)) (unat d) (unat fin) (init_block (ns (dbg a)));
         Some (a\<lparr>dbg := (enter_scope (Some get_root) (dbg a))\<lparr>ns := ns r\<rparr>\<rparr>, s1) } })"

subsection \<open>Interrupt controllers\<close>

definition APIC_FLAGS :: u32 where
  "APIC_FLAGS = 2 OR 8 OR 16"

fun read_isrs :: "'s acpi_env \<Rightarrow> u32 \<Rightarrow> nat \<Rightarrow> 's \<Rightarrow> 's" where
  "read_isrs E b 0 s = s"
| "read_isrs E b (Suc n) s = read_isrs E (b + 16) n (snd (rd32 E b s))"

definition apic_eoi :: "'s acpi_env \<Rightarrow> u32 \<Rightarrow> 's \<Rightarrow> 's" where
  "apic_eoi E b s = (let s = wr32 E (b + 0x280) 0 s; s = snd (rd32 E (b + 0x280) s); s = read_isrs E (b + 0x100) 8 s
     in wr32 E (b + 0xb0) 0 s)"

definition local_apic_init :: "'s acpi_env \<Rightarrow> u64 \<Rightarrow> acpi \<times> 's \<Rightarrow> (acpi \<times> 's) option" where
  "local_apic_init E base_phy as = do {
     (b, s) \<leftarrow> request E 0x1000 0 base_phy APIC_FLAGS (snd as);
     let s = snd (rd32 E (b + 0x20) s);
     let s = snd (rd32 E (b + 0x30) s);
     let s = snd (rd32 E (b + 0x390) s);
     let s = wr32 E (b + 0x380) 0x10000 s;
     let s = wr32 E (b + 0x3e0) (3 OR push_bit 3 1) s;
     let s = wr32 E (b + 0x320) (0xfe OR push_bit 17 1) s;
     let s = wr32 E (b + 0xf0) 0x1ff s;
     Some ((fst as)\<lparr>apic_base := b\<rparr>, apic_eoi E b s) }"

definition ioapic_read :: "'s acpi_env \<Rightarrow> u32 \<Rightarrow> u32 \<Rightarrow> 's \<Rightarrow> u32 \<times> 's" where
  "ioapic_read E b reg s = rd32 E (b + 16) (wr32 E b (reg AND 0xff) s)"

definition ioapic_write :: "'s acpi_env \<Rightarrow> u32 \<Rightarrow> u32 \<Rightarrow> u32 \<Rightarrow> 's \<Rightarrow> 's" where
  "ioapic_write E b reg v s = wr32 E (b + 16) v (wr32 E b (reg AND 0xff) s)"

definition ioapic_write64 :: "'s acpi_env \<Rightarrow> u32 \<Rightarrow> u32 \<Rightarrow> u32 \<Rightarrow> u32 \<Rightarrow> 's \<Rightarrow> 's" where
  "ioapic_write64 E b reg v hi s = ioapic_write E b (reg + 1) hi (ioapic_write E b reg v s)"

fun redirect :: "'s acpi_env \<Rightarrow> u32 \<Rightarrow> u32 \<Rightarrow> nat \<Rightarrow> 's \<Rightarrow> 's" where
  "redirect E b i 0 s = s"
| "redirect E b i (Suc n) s = redirect E b (i + 1) n (ioapic_write64 E b (0x10 + i * 2) (0x40 + i) 0 s)"

definition io_apic_init :: "'s acpi_env \<Rightarrow> u64 \<Rightarrow> acpi \<times> 's \<Rightarrow> (acpi \<times> 's) option" where
  "io_apic_init E base_phy as = do {
     (b, s) \<leftarrow> request E 0x1000 0 base_phy APIC_FLAGS (snd as);
     let (version, s) = ioapic_read E b 1 s;
     Some ((fst as)\<lparr>ioapic_base := b\<rparr>, redirect E b 0 (unat (drop_bit 16 version AND 0xff)) s) }"

text \<open>One entry of the MADT, and the walk over them up to \<open>fin\<close>. The addresses of the local APIC and of the I/O APIC are carried along.\<close>

definition madt_entry :: "bytes \<Rightarrow> u32 \<Rightarrow> u64 \<times> u64 \<Rightarrow> u64 \<times> u64" where
  "madt_entry m e r =
    (if ld8a m e = 1 then (fst r, ucast (ld32a m (e + 4)))
     else if ld8a m e = 5 then (ld64a m (e + 4), snd r)
     else r)"

partial_function (option) madt_loop :: "bytes \<Rightarrow> u32 \<Rightarrow> u32 \<Rightarrow> u64 \<times> u64 \<Rightarrow> (u64 \<times> u64) option" where
  "madt_loop m e fin r = (if e < fin then madt_loop m (e + ucast (ld8a m (e + 1))) fin (madt_entry m e r) else Some r)"

declare madt_loop.simps [code]

definition MADT_SIZE :: u32 where
  "MADT_SIZE = 44"

definition load_madt :: "'s acpi_env \<Rightarrow> u32 \<Rightarrow> acpi \<times> 's \<Rightarrow> (acpi \<times> 's) option" where
  "load_madt E base as = (let m = vmem E (snd as); len = ld32a m (base + 4) in
     if acpi_checksum m base len \<noteq> 0 then Some as
     else do {
       let entries = base + MADT_SIZE;
       (lapic, ioapic) \<leftarrow> madt_loop m entries (entries + (len - MADT_SIZE)) (ucast (ld32a m (base + 36)), 0);
       as1 \<leftarrow> (if lapic \<noteq> 0 then local_apic_init E lapic as else Some as);
       if ioapic \<noteq> 0 then io_apic_init E ioapic as1 else Some as1 })"

subsection \<open>The fixed table\<close>

definition load_fadt :: "'s acpi_env \<Rightarrow> u32 \<Rightarrow> acpi \<times> 's \<Rightarrow> (acpi \<times> 's) option" where
  "load_fadt E base as = (let m = vmem E (snd as) in
     if acpi_checksum m base (ld32a m (base + 4)) \<noteq> 0 then Some as
     else do {
       let dsdt_phy = (if ld64a m (base + 140) \<noteq> 0 then ld64a m (base + 140) else ucast (ld32a m (base + 40)));
       (v, as1) \<leftarrow> get_mapping E dsdt_phy as;
       (a, s) \<leftarrow> (if v \<noteq> 0 then load_dsdt E v dsdt_phy as1 else Some as1);
       let c = (rtc a)\<lparr>io_base := 0x70, century_reg := ld8a (vmem E s) (base + 108)\<rparr>;
       let (c, s) = cmos_init (io E) c s;
       Some (a\<lparr>rtc := c\<rparr>, s) })"

subsection \<open>The root descriptor and the list of tables\<close>

definition rsdp_validate :: "bytes \<Rightarrow> u32 \<Rightarrow> u32 option \<Rightarrow> u32 option" where
  "rsdp_validate m w r =
    (if acpi_checksum m w 20 \<noteq> 0 then r
     else if ld8a m (w + 15) = 0 then (case r of None \<Rightarrow> Some w | Some d \<Rightarrow> Some d)
     else if ld8a m (w + 15) = 2 then (if acpi_checksum m (w + 20) 16 \<noteq> 0 then r else Some w)
     else r)"

definition has_sig :: "bytes \<Rightarrow> u32 \<Rightarrow> bool" where
  "has_sig m w \<longleftrightarrow> ld32a m w = 0x20445352 \<and> ld32a m (w + 4) = 0x20525450"

fun scan_rsdp :: "bytes \<Rightarrow> u32 \<Rightarrow> nat \<Rightarrow> u32 option \<Rightarrow> u32 option" where
  "scan_rsdp m w 0 r = r"
| "scan_rsdp m w (Suc n) r = scan_rsdp m (w + 16) n (if has_sig m w then rsdp_validate m w r else r)"

definition find_rsdp :: "bytes \<Rightarrow> u32 \<Rightarrow> u32 option \<Rightarrow> u32 option" where
  "find_rsdp m phyptr r =
     scan_rsdp m (phyptr + 0xe0000) 0x2000
       (scan_rsdp m (phyptr + push_bit 4 (ucast (ld16 m (unat (phyptr + 0x40e))))) 64 r)"

definition load_table :: "'s acpi_env \<Rightarrow> u64 \<Rightarrow> acpi \<times> 's \<Rightarrow> (acpi \<times> 's) option" where
  "load_table E phy as = do {
     (v, as1) \<leftarrow> get_mapping E phy as;
     let sig = ld32a (vmem E (snd as1)) v;
     if v = 0 then Some as1
     else if sig = 0x43495041 then load_madt E v as1
     else if sig = 0x50434146 then load_fadt E v as1
     else Some as1 }"

fun load_tables :: "'s acpi_env \<Rightarrow> u32 \<Rightarrow> nat \<Rightarrow> acpi \<times> 's \<Rightarrow> (acpi \<times> 's) option" where
  "load_tables E p 0 as = Some as"
| "load_tables E p (Suc n) as = do { as1 \<leftarrow> load_table E (ld64a (vmem E (snd as)) p) as; load_tables E (p + 8) n as1 }"

text \<open>\<open>phyptr\<close> is where the kernel sees the physical address 0.\<close>

definition load_acpi :: "'s acpi_env \<Rightarrow> u32 \<Rightarrow> acpi \<times> 's \<Rightarrow> (acpi \<times> 's) option" where
  "load_acpi E phyptr as = (let m = vmem E (snd as);
       a = (reset_pages (fst as))\<lparr>rsdpd := find_rsdp m phyptr (rsdpd (fst as))\<rparr> in
     case rsdpd a of
       None \<Rightarrow> Some (a, snd as)
     | Some d \<Rightarrow>
         if ld8a m (d + 15) = 0 then Some (a, snd as)
         else do {
           (x, as1) \<leftarrow> get_mapping E (ld64a m (d + 24)) (a, snd as);
           let m1 = vmem E (snd as1);
           let len = ld32a m1 (x + 4);
           if x = 0 then Some as1
           else if ld32a m1 x \<noteq> 0x54445358 then Some as1
           else if acpi_checksum m1 x len \<noteq> 0 then Some as1
           else load_tables E (x + HEADER) (unat ((len - HEADER) div 8)) as1 })"

end
