(* ===== verification/AcpiFacts.thy ===== *)
theory AcpiFacts
  imports Acpi AmlEnds Paging
begin

text \<open>
  What the walk over the ACPI tables finds (\<open>src/kernel/acpi.cpp\<close>): the checksum, the choice of the root descriptor, the entries of the MADT,
  the pages that are mapped, and the DSDT with the namespace it leaves.
\<close>

subsection \<open>The checksum\<close>

lemma check_loop_sum: "check_loop m a n c = c + (\<Sum>i<n. ucast (m (unat (a + of_nat i))))"
proof (induction n arbitrary: a c)
  case (Suc n)
  have "(\<Sum>i<Suc n. ucast (m (unat (a + of_nat i))) :: u32) = ucast (m (unat a)) + (\<Sum>i<n. ucast (m (unat (a + 1 + of_nat i))))"
    by (subst sum.lessThan_Suc_shift) (simp add: add.assoc)
  then show ?case by (simp add: Suc ld8a_def)
qed simp

lemma ucast_mask8: "ucast (x AND 0xff :: u32) = (ucast x :: u8)"
proof -
  have e: "(0xff :: u32) = mask 8" by (simp add: mask_eq_exp_minus_1)
  show ?thesis unfolding e by (rule bit_eqI) (auto simp: bit_simps dest: bit_imp_le_length)
qed

lemma ucast_sum8: "(ucast (\<Sum>i<(n :: nat). ucast (f i) :: u32) :: u8) = (\<Sum>i<n. f i)"
proof (induction n)
  case (Suc n)
  have "ucast (a + ucast b :: u32) = ucast a + b" for a and b :: u8 by (simp add: word_eq_unat unat_word_ariths unsigned_ucast_eq take_bit_eq_mod mod_simps mod_mod_cancel)
  then show ?case using Suc by simp
qed simp

text \<open>The checksum is the sum of the bytes modulo 256.\<close>

lemma acpi_checksum_sum: "acpi_checksum m a n = (\<Sum>i<unat n. m (unat (a + of_nat i)))"
  by (simp add: acpi_checksum_def check_loop_sum ucast_mask8 ucast_sum8)

subsection \<open>The root descriptor\<close>

definition good_v1 :: "bytes \<Rightarrow> u32 \<Rightarrow> bool" where
  "good_v1 m w \<longleftrightarrow> has_sig m w \<and> acpi_checksum m w 20 = 0 \<and> ld8a m (w + 15) = 0"

definition good_v2 :: "bytes \<Rightarrow> u32 \<Rightarrow> bool" where
  "good_v2 m w \<longleftrightarrow> has_sig m w \<and> acpi_checksum m w 20 = 0 \<and> ld8a m (w + 15) = 2 \<and> acpi_checksum m (w + 20) 16 = 0"

definition steps16 :: "u32 \<Rightarrow> nat \<Rightarrow> u32 list" where
  "steps16 w n = map (\<lambda>i. w + 16 * of_nat i) [0..<n]"

text \<open>The places where a descriptor may be.\<close>

definition rsdp_places :: "bytes \<Rightarrow> u32 \<Rightarrow> u32 list" where
  "rsdp_places m phyptr = steps16 (phyptr + 16 * ucast (ld16 m (unat (phyptr + 0x40e)))) 64 @ steps16 (phyptr + 0xe0000) 0x2000"

text \<open>The last descriptor of version 2; where there is none, the first of version 1.\<close>

definition best_rsdp :: "bytes \<Rightarrow> u32 list \<Rightarrow> u32 option" where
  "best_rsdp m ws = (case filter (good_v2 m) ws of
      [] \<Rightarrow> (case filter (good_v1 m) ws of [] \<Rightarrow> None | x # _ \<Rightarrow> Some x)
    | x # xs \<Rightarrow> Some (last (x # xs)))"

definition rsdp_step :: "bytes \<Rightarrow> u32 \<Rightarrow> u32 option \<Rightarrow> u32 option" where
  "rsdp_step m w r = (if has_sig m w then rsdp_validate m w r else r)"

lemma steps16_Suc: "steps16 w (Suc n) = w # steps16 (w + 16) n"
  by (simp add: steps16_def nth_rotate_tail map_Suc_upt [symmetric] upt_conv_Cons del: upt_Suc)

lemma scan_rsdp_fold: "scan_rsdp m w n r = fold (rsdp_step m) (steps16 w n) r"
proof (induction n arbitrary: w r)
  case 0
  show ?case by (simp add: steps16_def)
next
  case (Suc n)
  then show ?case by (simp only: steps16_Suc scan_rsdp.simps fold_simps rsdp_step_def)
qed

lemma rsdp_step_alt: "rsdp_step m w r = (if good_v2 m w then Some w else if good_v1 m w then (case r of None \<Rightarrow> Some w | Some d \<Rightarrow> Some d) else r)"
  by (simp add: rsdp_step_def rsdp_validate_def good_v1_def good_v2_def)

lemma best_snoc: "best_rsdp m (ws @ [w]) = rsdp_step m w (best_rsdp m ws)"
proof -
  have x: "\<not> (good_v1 m w \<and> good_v2 m w)" by (auto simp: good_v1_def good_v2_def)
  show ?thesis using x by (auto simp: best_rsdp_def rsdp_step_alt split: list.splits)
qed

lemma fold_best: "fold (rsdp_step m) ws None = best_rsdp m ws"
  by (induction ws rule: rev_induct) (simp_all add: best_snoc, simp add: best_rsdp_def)

text \<open>C27 The scan finds the root descriptor it should: of the descriptors in the first kilobyte of the extended BIOS data area and in the BIOS area whose
  checksums hold, the last one of version 2, and if there is none, the first one of version 1.\<close>

theorem rsdp_chosen: "find_rsdp m phyptr None = best_rsdp m (rsdp_places m phyptr)"
proof -
  have "push_bit 4 (x :: u32) = 16 * x" for x by (simp add: push_bit_eq_mult)
  then show ?thesis by (simp add: find_rsdp_def scan_rsdp_fold rsdp_places_def flip: fold_best)
qed


subsection \<open>The entries of the MADT\<close>

definition le32 :: "u32 \<Rightarrow> u8 list" where
  "le32 v = [ucast v, ucast (drop_bit 8 v), ucast (drop_bit 16 v), ucast (drop_bit 24 v)]"

definition le64 :: "u64 \<Rightarrow> u8 list" where
  "le64 v = le32 (ucast v) @ le32 (ucast (drop_bit 32 v))"

text \<open>The memory from \<open>a\<close> on holds the bytes.\<close>

definition bytes_from :: "bytes \<Rightarrow> nat \<Rightarrow> u8 list \<Rightarrow> bool" where
  "bytes_from m a bs \<longleftrightarrow> (\<forall>i < length bs. m (a + i) = bs ! i)"

lemma bytes_from_Cons: "bytes_from m a (b # bs) \<longleftrightarrow> m a = b \<and> bytes_from m (Suc a) bs"
  by (auto simp: bytes_from_def nth_Cons' less_Suc_eq_0_disj)

lemma bytes_from_append: "bytes_from m a (xs @ ys) \<longleftrightarrow> bytes_from m a xs \<and> bytes_from m (a + length xs) ys"
  by (induction xs arbitrary: a) (simp add: bytes_from_def, simp add: bytes_from_Cons)

lemma ld32_le32: "bytes_from m a (le32 v) \<Longrightarrow> ld32 m a = v"
proof -
  assume "bytes_from m a (le32 v)"
  then have b: "m a = ucast v" "m (Suc a) = ucast (drop_bit 8 v)" "m (a + 2) = ucast (drop_bit 16 v)" "m (Suc (a + 2)) = ucast (drop_bit 24 v)"
    by (simp_all add: le32_def bytes_from_Cons numeral_2_eq_2)
  have lo: "ucast v = (ucast (ucast v :: u16) :: u8)" "ucast (drop_bit 8 v) = (ucast (drop_bit 8 (ucast v :: u16)) :: u8)"
    by (rule bit_word_eqI; auto simp: bit_simps)+
  have hi: "ucast (drop_bit 16 v) = (ucast (ucast (drop_bit 16 v) :: u16) :: u8)"
      "ucast (drop_bit 24 v) = (ucast (drop_bit 8 (ucast (drop_bit 16 v) :: u16)) :: u8)"
    by (rule bit_word_eqI; auto simp: bit_simps)+
  have "ld16 m a = ucast v" unfolding ld16_def b lo by (rule ucast_bytes16)
  moreover have "ld16 m (a + 2) = ucast (drop_bit 16 v)" unfolding ld16_def b hi by (rule ucast_bytes16)
  ultimately show ?thesis by (simp add: ld32_def ucast_halves32)
qed

lemma length_le32 [simp]: "length (le32 v) = 4"
  by (simp add: le32_def)

lemma ld64_le64: "bytes_from m (unat a) (le64 v) \<Longrightarrow> ld64a m a = v"
proof -
  assume "bytes_from m (unat a) (le64 v)"
  then have "ld32 m (unat a) = ucast v" "ld32 m (unat a + 4) = ucast (drop_bit 32 v)"
    by (simp_all add: le64_def bytes_from_append ld32_le32)
  then have l: "ld64a m a = ucast (ucast v :: u32) OR push_bit 32 (ucast (ucast (drop_bit 32 v) :: u32))" by (simp add: ld64a_def)
  show ?thesis unfolding l by (rule bit_word_eqI) (auto simp: bit_simps)
qed

datatype controller = IoApic u8 u32 u32 | LapicAt u64 | OtherEntry u8 "u8 list"

fun entry_bytes :: "controller \<Rightarrow> u8 list" where
  "entry_bytes (IoApic i a g) = [1, 12, i, 0] @ le32 a @ le32 g"
| "entry_bytes (LapicAt a) = [5, 12, 0, 0] @ le64 a"
| "entry_bytes (OtherEntry t bs) = [t, of_nat (length bs + 2)] @ bs"

fun entry_ok :: "controller \<Rightarrow> bool" where
  "entry_ok (OtherEntry t bs) \<longleftrightarrow> t \<noteq> 1 \<and> t \<noteq> 5 \<and> length bs \<le> 253"
| "entry_ok _ \<longleftrightarrow> True"

fun entry_says :: "controller \<Rightarrow> u64 \<times> u64 \<Rightarrow> u64 \<times> u64" where
  "entry_says (IoApic i a g) r = (fst r, ucast a)"
| "entry_says (LapicAt a) r = (a, snd r)"
| "entry_says (OtherEntry t bs) r = r"

lemma byte_len: "n \<le> 253 \<Longrightarrow> unat (2 + of_nat n :: u8) = Suc (Suc n)"
proof -
  assume "n \<le> 253"
  then have t: "take_bit 8 (n + 2) = n + 2" by (intro take_bit_nat_eq_self) simp
  have "unat (of_nat (n + 2) :: u8) = n + 2" by (simp only: unsigned_of_nat len_bit0 len_num1) (simp add: t [simplified])
  moreover have "2 + of_nat n = (of_nat (n + 2) :: u8)" by simp
  ultimately show ?thesis by (simp only:)
qed

lemma entry_length: "entry_ok c \<Longrightarrow> unat (entry_bytes c ! 1) = length (entry_bytes c) \<and> 2 \<le> length (entry_bytes c) \<and> length (entry_bytes c) < 256"
  by (cases c) (simp_all add: le64_def byte_len)

lemma unat_plus: "unat (e :: u32) + k < 2 ^ 32 \<Longrightarrow> unat (e + of_nat k) = unat e + k"
  by (simp add: unat_word_ariths unsigned_of_nat take_bit_nat_eq_self)

lemma entry_read:
  assumes "bytes_from m (unat e) (entry_bytes c)" "entry_ok c" "unat e + length (entry_bytes c) < 2 ^ 32"
  shows "madt_entry m e r = entry_says c r" "ld8a m (e + 1) = of_nat (length (entry_bytes c))"
proof -
  have e: "unat (e + 1) = unat e + 1" using unat_plus [of e 1] assms entry_length [of c] by simp
  have "m (unat e + 1) = entry_bytes c ! 1" using assms(1) [unfolded bytes_from_def, rule_format, of 1] entry_length [OF assms(2)] by simp
  then have "unat (ld8a m (e + 1)) = length (entry_bytes c)" using entry_length [OF assms(2)] e by (simp add: ld8a_def)
  then show "ld8a m (e + 1) = of_nat (length (entry_bytes c))"
    using entry_length [OF assms(2)] by (simp add: word_eq_unat unsigned_of_nat take_bit_nat_eq_self)
  show "madt_entry m e r = entry_says c r"
  proof (cases c)
    case (IoApic i a g)
    have "unat (e + 4) = unat e + 4" using unat_plus [of e 4] assms IoApic by simp
    then have "bytes_from m (unat (e + 4)) (le32 a)" using assms(1) IoApic by (simp add: bytes_from_Cons bytes_from_append numeral_eq_Suc)
    from ld32_le32 [OF this] show ?thesis using assms(1) IoApic
      by (simp add: madt_entry_def ld8a_def ld32a_def bytes_from_Cons)
  next
    case (LapicAt a)
    have "unat (e + 4) = unat e + 4" using unat_plus [of e 4] assms LapicAt by (simp add: le64_def)
    then have "bytes_from m (unat (e + 4)) (le64 a)" using assms(1) LapicAt by (simp add: bytes_from_Cons numeral_eq_Suc)
    then show ?thesis using assms(1) LapicAt
      by (simp add: madt_entry_def ld8a_def bytes_from_Cons ld64_le64)
  next
    case (OtherEntry t bs)
    then show ?thesis using assms(1,2) by (simp add: madt_entry_def ld8a_def bytes_from_Cons)
  qed
qed


text \<open>The walk over a well-formed MADT ends at its end, with the address of the last I/O APIC and the last override of the local APIC's.\<close>

lemma madt_loop_reads:
  "\<forall>c \<in> set cs. entry_ok c \<Longrightarrow> bytes_from m (unat e) (concat (map entry_bytes cs)) \<Longrightarrow>
    unat e + length (concat (map entry_bytes cs)) < 2 ^ 32 \<Longrightarrow> fin = e + of_nat (length (concat (map entry_bytes cs))) \<Longrightarrow>
    madt_loop m e fin r = Some (fold entry_says cs r)"
proof (induction cs arbitrary: e r)
  case Nil
  then show ?case by (subst madt_loop.simps) simp
next
  case (Cons c cs)
  let ?l = "length (entry_bytes c)" and ?k = "length (concat (map entry_bytes cs))"
  have ok: "entry_ok c" using Cons.prems(1) by simp
  have b: "bytes_from m (unat e) (entry_bytes c)" "bytes_from m (unat e + ?l) (concat (map entry_bytes cs))"
    using Cons.prems(2) by (simp_all add: bytes_from_append)
  have l: "unat e + ?l < 2 ^ 32" "unat e + (?l + ?k) < 2 ^ 32" using Cons.prems(3) by simp_all
  have n: "unat (e + of_nat ?l) = unat e + ?l" using unat_plus [OF l(1)] .
  have f: "fin = (e + of_nat ?l) + of_nat ?k" using Cons.prems(4) by (simp add: add.assoc)
  have "unat fin = unat e + (?l + ?k)" using Cons.prems(4) unat_plus [OF l(2)] by simp
  moreover have "2 \<le> ?l" using entry_length [OF ok] by simp
  ultimately have "unat e < unat fin" by linarith
  then have less: "e < fin" by (simp only: word_less_nat_alt)
  have "?l < 256" using entry_length [OF ok] by simp
  then have "(ucast (of_nat ?l :: u8) :: u32) = of_nat ?l" by (simp add: word_eq_unat unat_ucast_up unsigned_of_nat take_bit_nat_eq_self)
  then have "madt_loop m e fin r = madt_loop m (e + of_nat ?l) fin (entry_says c r)"
    using less entry_read [OF b(1) ok l(1)] by (subst madt_loop.simps) simp
  also have "\<dots> = Some (fold entry_says cs (entry_says c r))"
    by (rule Cons.IH) (use Cons.prems(1) b(2) l(2) n f in simp_all)
  finally show ?case by simp
qed

text \<open>An entry that says it has no bytes is read for ever.\<close>

lemma madt_stuck:
  assumes "e < fin" "ld8a m (e + 1) = 0"
  shows "madt_loop m e fin r = None"
proof -
  have "madt_loop m e fin r = Some x \<Longrightarrow> e < fin \<Longrightarrow> ld8a m (e + 1) = 0 \<Longrightarrow> False" for x
  proof (induction m e fin r x rule: madt_loop.raw_induct [rotated, consumes 1])
    case (1 f m e fin r x)
    then have "f m e fin (madt_entry m e r) = Some x" by simp
    from 1(1) [OF this 1(3,4)] show ?case .
  qed
  then show ?thesis using assms by (cases "madt_loop m e fin r") auto
qed


text \<open>C28 What \<open>load_madt\<close> finds: the addresses the local APIC and the I/O APIC are set up at are those of the last entries that name one.\<close>

theorem madt_read:
  assumes "\<forall>c \<in> set cs. entry_ok c" "bytes_from m (unat e) (concat (map entry_bytes cs))"
    and "unat e + length (concat (map entry_bytes cs)) < 2 ^ 32"
  shows "madt_loop m e (e + of_nat (length (concat (map entry_bytes cs)))) r = Some (fold entry_says cs r)"
  by (rule madt_loop_reads [OF assms]) simp

definition demo_madt :: "controller list" where
  "demo_madt = [OtherEntry 0 [0, 0, 1, 0, 0, 0], IoApic 2 0xfec00000 0, OtherEntry 2 [0, 0, 2, 0, 0, 0, 0, 0], LapicAt 0xfee01000]"

definition demo_tables :: bytes where
  "demo_tables a = (if 100 \<le> a \<and> a < 142 then concat (map entry_bytes demo_madt) ! (a - 100) else 0)"

lemma madt_read_witness: "madt_loop demo_tables 100 142 (0xfee00000, 0) = Some (0xfee01000, 0xfec00000)"
proof -
  have l: "length (concat (map entry_bytes demo_madt)) = 42" by (simp add: demo_madt_def le64_def)
  have "\<forall>c \<in> set demo_madt. entry_ok c" by (simp add: demo_madt_def)
  moreover have "bytes_from demo_tables (unat (100 :: u32)) (concat (map entry_bytes demo_madt))" by (simp add: bytes_from_def demo_tables_def l)
  ultimately have "madt_loop demo_tables 100 (100 + of_nat 42) (0xfee00000, 0) = Some (fold entry_says demo_madt (0xfee00000, 0))"
    using madt_read [of demo_madt demo_tables 100 "(0xfee00000, 0)"] l by simp
  then show ?thesis by (simp add: demo_madt_def)
qed

subsection \<open>The pages that are mapped\<close>

text \<open>Eight places with different pages; a page once mapped stays where it is.\<close>

definition pages_ok :: "place list \<Rightarrow> bool" where
  "pages_ok ps \<longleftrightarrow> length ps = 8 \<and> distinct (filter (\<lambda>p. p \<noteq> 0) (map snd ps))"

lemma place_of_Some: "place_of p ps = Some e \<Longrightarrow> e < 8 \<and> snd (ps ! e) = p"
  by (auto simp: place_of_def find_Some_iff)

lemma place_of_None: "place_of p ps = None \<Longrightarrow> length ps = 8 \<Longrightarrow> p \<notin> set (map snd ps)"
  by (auto simp: place_of_def find_None_iff in_set_conv_nth simp del: set_map)

lemma distinct_put:
  "n < length xs \<Longrightarrow> xs ! n = 0 \<Longrightarrow> p \<notin> set xs \<Longrightarrow> p \<noteq> 0 \<Longrightarrow> distinct (filter (\<lambda>q. q \<noteq> 0) xs) \<Longrightarrow>
    distinct (filter (\<lambda>q. q \<noteq> (0 :: 'a :: zero)) (xs[n := p]))"
proof (induction xs arbitrary: n)
  case (Cons x xs)
  then show ?case by (cases n) (auto dest: subsetD [OF set_update_subset_insert])
qed simp

lemma get_mapping_cases:
  assumes "get_mapping E phy as = Some (v, as')"
  obtains "as' = as" | "acpi_pages (fst as') = acpi_pages (fst as)" "v = 0"
    | i w where "place_of (phy AND NOT 0xfff) (acpi_pages (fst as)) = None" "place_of 0 (acpi_pages (fst as)) = Some i" "w \<noteq> 0"
        "phy AND NOT 0xfff \<noteq> 0" "v = w + (ucast phy AND 0xfff)"
        "acpi_pages (fst as') = (acpi_pages (fst as))[i := (w, phy AND NOT 0xfff)]"
  using assms by (auto simp: get_mapping_def Let_def split: if_splits option.splits prod.splits)

lemma get_mapping_ok:
  assumes "get_mapping E phy as = Some (v, as')" "pages_ok (acpi_pages (fst as))"
  shows "pages_ok (acpi_pages (fst as'))"
    and "e \<in> set (acpi_pages (fst as)) \<Longrightarrow> snd e \<noteq> 0 \<Longrightarrow> e \<in> set (acpi_pages (fst as'))"
proof -
  let ?p = "phy AND NOT 0xfff"
  have "pages_ok (acpi_pages (fst as')) \<and> (e \<in> set (acpi_pages (fst as)) \<longrightarrow> snd e \<noteq> 0 \<longrightarrow> e \<in> set (acpi_pages (fst as')))"
    using assms(1)
  proof (cases rule: get_mapping_cases)
    case (3 i w)
    have l: "length (acpi_pages (fst as)) = 8" using assms(2) by (simp add: pages_ok_def)
    have i: "i < 8" "snd (acpi_pages (fst as) ! i) = 0" using place_of_Some [OF 3(2)] by simp_all
    have "distinct (filter (\<lambda>q. q \<noteq> 0) ((map snd (acpi_pages (fst as)))[i := ?p]))"
      by (rule distinct_put) (use l i 3 place_of_None [OF 3(1) l] assms(2) in \<open>simp_all add: pages_ok_def\<close>)
    then have "pages_ok (acpi_pages (fst as'))" using l by (simp add: pages_ok_def 3 map_update)
    moreover have "e \<in> set (acpi_pages (fst as'))" if mem: "e \<in> set (acpi_pages (fst as))" "snd e \<noteq> 0"
    proof -
      obtain j where j0: "j < length (acpi_pages (fst as))" and j1: "acpi_pages (fst as) ! j = e"
        using mem(1) unfolding in_set_conv_nth by blast
      have j: "j < 8" "acpi_pages (fst as) ! j = e" using j0 j1 l by simp_all
      then have "j \<noteq> i" using i mem(2) by auto
      then have "acpi_pages (fst as') ! j = e" using j by (simp add: 3)
      then show ?thesis using j l by (metis 3(6) length_list_update nth_mem)
    qed
    ultimately show ?thesis by blast
  qed (use assms(2) in simp_all)
  then show "pages_ok (acpi_pages (fst as'))" "e \<in> set (acpi_pages (fst as)) \<Longrightarrow> snd e \<noteq> 0 \<Longrightarrow> e \<in> set (acpi_pages (fst as'))"
    by blast+
qed

subsection \<open>The DSDT\<close>

text \<open>C1 Loading the first DSDT always ends, whatever its bytes, as long as the page mapper answers: either the table is refused and there is no namespace,
  or the namespace is a well-formed tree and the debug commands begin at its root.\<close>

theorem dsdt_loaded:
  assumes "ns (dbg a) = []" "\<And>n p s. request E n 0 p 0 s \<noteq> None"
  shows "\<exists>a' s'. load_dsdt E base phy (a, s) = Some (a', s') \<and> (a' = a \<or> ns_ok (ns (dbg a')) \<and> scope (dbg a') = Some get_root)"
proof (cases "ld32a (vmem E s) base \<noteq> 0x54445344")
  case True
  then show ?thesis by (simp add: load_dsdt_def)
next
  case False
  obtain b s1 where r: "remap_dsdt E base phy s = Some (b, s1)"
    using assms(2) by (cases "remap_dsdt E base phy s") (auto simp: remap_dsdt_def Let_def simp del: not_None_eq split: if_splits)
  let ?m = "vmem E s1" let ?d = "b + HEADER" let ?f = "b + HEADER + (ld32a (vmem E s1) (b + 4) - HEADER)"
  obtain q where q: "read_dsdt ?m (Suc (unat ?f - unat ?d)) (unat ?d) (unat ?f) (init_block []) = Some q" "ns_ok (ns q)"
    using dsdt_read [OF root_ok, of "unat ?f" "unat ?d" "Suc (unat ?f - unat ?d)" ?m] by auto
  show ?thesis
  proof (cases "acpi_checksum ?m b (ld32a ?m (b + 4)) = 0")
    case True
    then show ?thesis using False r q assms(1) by (simp add: load_dsdt_def Let_def enter_scope_def)
  next
    case bad: False
    then show ?thesis using False r by (simp add: load_dsdt_def Let_def)
  qed
qed

definition demo_env :: "unit acpi_env" where
  "demo_env = \<lparr>request = (\<lambda>n h p f s. Some (0xd0000000, s)), vmem = (\<lambda>_ a. if a < 4 then [0x44, 0x53, 0x44, 0x54] ! a else 0),
     rd32 = (\<lambda>a s. (0, s)), wr32 = (\<lambda>a v s. s),
     io = \<lparr>inb = (\<lambda>p s. (0, s)), outb = (\<lambda>p v s. s), inl = (\<lambda>p s. (0, s)), outl = (\<lambda>p v s. s), ticks = (\<lambda>s. (0, s))\<rparr>\<rparr>"

definition demo_acpi :: acpi where
  "demo_acpi = \<lparr>acpi_pages = replicate 8 (0, 0), rsdpd = None, apic_base = 0, ioapic_base = 0,
     rtc = \<lparr>io_base = 0, century_reg = 0, nmi_flag = 0, itimer = 0, timer = 0, hour = 0, minute = 0, second = 0, weekday = 0, monthday = 0, month = 0, year = 0\<rparr>,
     dbg = AMLReader [] 0 0\<rparr>"

lemma dsdt_loaded_witness:
  "\<exists>a' s'. load_dsdt demo_env 0 0x7000 (demo_acpi, ()) = Some (a', s') \<and> (a' = demo_acpi \<or> ns_ok (ns (dbg a')) \<and> scope (dbg a') = Some get_root)"
proof -
  have "ns (dbg demo_acpi) = []" by (simp add: demo_acpi_def AMLReader_def)
  moreover have "request demo_env n 0 p 0 s \<noteq> None" for n p s by (simp add: demo_env_def)
  ultimately show ?thesis by (rule dsdt_loaded)
qed

subsection \<open>The page tables as the page mapper\<close>

text \<open>The kernel's own page mapper, with the memory behind it: what the model of \<open>Paging\<close> answers is what this model asks for.\<close>

definition kernel_env :: "nat \<Rightarrow> (u64 \<Rightarrow> u8) \<Rightarrow> (u32 \<Rightarrow> 'd \<Rightarrow> u32 \<times> 'd) \<Rightarrow> (u32 \<Rightarrow> u32 \<Rightarrow> 'd \<Rightarrow> 'd) \<Rightarrow> (mm \<times> 'd) ports \<Rightarrow> (mm \<times> 'd) acpi_env" where
  "kernel_env k phys rd wr p = \<lparr>
     request = (\<lambda>n h a f s. map_option (\<lambda>(v, st). (v, (st, snd s))) (vmm_request k n h a f (fst s))),
     vmem = (\<lambda>s a. phys (translate_page (of_nat a) (fst s))),
     rd32 = (\<lambda>a s. case rd a (snd s) of (v, d) \<Rightarrow> (v, (fst s, d))),
     wr32 = (\<lambda>a v s. (fst s, wr a v (snd s))),
     io = p\<rparr>"

end
