(* ===== verification/Mouse.thy ===== *)
theory Mouse
  imports Keys "HOL-Library.Monad_Syntax"
begin

text \<open>
  The mouse (\<open>Mouse\<close> of \<open>src/kernel/dev/ps2.cpp\<close>): its commands over the port, its initialisation, and the decoder of
  movement packets, with what the packets do to the pointer.
\<close>

record mouse =
  mdata :: u32
  mx :: u32
  my :: u32
  xlim :: u32
  ylim :: u32
  smode :: u8
  mstatus :: u8

text \<open>The constructor leaves \<open>mdata\<close> and \<open>status\<close> as the memory \<open>g\<close> has them.\<close>

definition new_mouse :: "mouse \<Rightarrow> mouse" where
  "new_mouse g = g\<lparr>smode := 0, mx := 0, my := 0, xlim := 1024, ylim := 1024\<rparr>"

subsection \<open>Commands\<close>

definition mou_cmd :: "'s mp_serv \<Rightarrow> u8 \<Rightarrow> 's \<Rightarrow> u8 \<times> 's" where
  "mou_cmd serv v s = (case serv of None \<Rightarrow> (0xFE, s) | Some (send, req) \<Rightarrow> cmd_loop send req 3 v s)"

text \<open>Commands one after the other, until one is not acknowledged.\<close>

fun mou_cmds :: "'s mp_serv \<Rightarrow> u8 list \<Rightarrow> 's \<Rightarrow> bool \<times> 's" where
  "mou_cmds serv [] s = (True, s)"
| "mou_cmds serv (v # vs) s = (case mou_cmd serv v s of (r, s') \<Rightarrow> if r \<noteq> 0xfa then (False, s') else mou_cmds serv vs s')"

text \<open>\<open>while(mp_serv->client_req(mp_port) != ~0u);\<close>\<close>

partial_function (option) flush_port :: "('s \<Rightarrow> u32 \<times> 's) \<Rightarrow> 's \<Rightarrow> 's option" where
  "flush_port req s = (case req s of (r, s') \<Rightarrow> if r = - 1 then Some s' else flush_port req s')"

declare flush_port.simps [code]

definition mouse_id :: "('s \<Rightarrow> u32 \<times> 's) \<Rightarrow> u32 \<Rightarrow> u8 \<Rightarrow> u8 \<Rightarrow> 's \<Rightarrow> u8 \<times> 's" where
  "mouse_id req i yes no s = (case req s of (r, s') \<Rightarrow> (if r \<noteq> - 1 \<and> r AND 0xff = i then yes else no, s'))"

definition mouse_init :: "(u8 \<Rightarrow> 's \<Rightarrow> 's) \<Rightarrow> ('s \<Rightarrow> u32 \<times> 's) \<Rightarrow> mouse \<Rightarrow> 's \<Rightarrow> (bool \<times> mouse \<times> 's) option" where
  "mouse_init send req mo s = (let mo = mo\<lparr>smode := 0\<rparr>; serv = Some (send, req) in do {
     s0 \<leftarrow> flush_port req s;
     let (ok, s1) = mou_cmds serv [0xf6, 0xf5, 0xf3, 200, 0xf3, 100, 0xf3, 80, 0xf2] s0;
     if \<not> ok then Some (False, mo, s1) else do {
       let (tmode, s2) = mouse_id req 3 2 1 s1;
       let (ok, s3) = (if tmode = 2 then mou_cmds serv [0xf3, 200, 0xf3, 200, 0xf3, 80, 0xf2] s2 else (True, s2));
       if \<not> ok then Some (False, mo, s3) else do {
         let (tmode, s4) = (if tmode = 2 then mouse_id req 4 3 2 s3 else (tmode, s3));
         let (ok, s5) = mou_cmds serv [0xf4] s4;
         if \<not> ok then Some (False, mo, s5) else Some (True, mo\<lparr>smode := tmode\<rparr>, s5) } } })"

subsection \<open>Movement\<close>

definition less_by :: "u8 \<Rightarrow> u32 \<Rightarrow> u32" where
  "less_by d x = (if ucast d > x then 0 else x - ucast d)"

definition more_by :: "u32 \<Rightarrow> u8 \<Rightarrow> u32 \<Rightarrow> u32" where
  "more_by lim d x = (let v = x + ucast d in if v > lim then lim else v)"

definition mouse_move :: "u32 \<Rightarrow> mouse \<Rightarrow> mouse" where
  "mouse_move md mo = (let
     stat = (ucast (drop_bit 24 md) :: u8);
     dx = (ucast (drop_bit 16 md AND 0xff) :: u8);
     dy = (ucast (drop_bit 8 md AND 0xff) :: u8)
     in mo\<lparr>mx := (if bit stat 4 then less_by (- dx) (mx mo) else more_by (xlim mo) dx (mx mo)),
           my := (if bit stat 5 then more_by (ylim mo) (- dy) (my mo) else less_by dy (my mo)),
           mstatus := (stat AND 0x7) OR 0x80, mdata := 0\<rparr>)"

definition mouse_data :: "u8 \<Rightarrow> mouse \<Rightarrow> mouse" where
  "mouse_data d mo = (let md = push_bit 8 (mdata mo) OR ucast d in
     if smode mo = 0 then mo\<lparr>mdata := 0\<rparr>
     else if smode mo = 1 then (if \<not> bit md 19 then mo\<lparr>mdata := md\<rparr> else mouse_move (push_bit 8 md) mo)
     else if smode mo = 2 \<or> smode mo = 3 then (if \<not> bit md 27 then mo\<lparr>mdata := md\<rparr> else mouse_move md mo)
     else mouse_move md mo)"

fun mouse_feed :: "u8 list \<Rightarrow> mouse \<Rightarrow> mouse" where
  "mouse_feed [] mo = mo"
| "mouse_feed (c # cs) mo = mouse_feed cs (mouse_data c mo)"

subsection \<open>The pointer stays on the screen\<close>

definition mouse_ok :: "mouse \<Rightarrow> bool" where
  "mouse_ok mo \<longleftrightarrow> mx mo \<le> xlim mo \<and> my mo \<le> ylim mo \<and> unat (xlim mo) + 255 < 2 ^ 32 \<and> unat (ylim mo) + 255 < 2 ^ 32"

lemma less_by_le: "x \<le> l \<Longrightarrow> less_by d x \<le> l"
  by (auto simp: less_by_def word_le_nat_alt word_less_nat_alt unat_sub_if')

lemma more_by_le: "more_by l d x \<le> l"
  by (simp add: more_by_def Let_def not_less)

lemma mouse_move_fields:
  "xlim (mouse_move md mo) = xlim mo" "ylim (mouse_move md mo) = ylim mo" "smode (mouse_move md mo) = smode mo" "mdata (mouse_move md mo) = 0"
  by (simp_all add: mouse_move_def Let_def)

lemma mouse_move_ok:
  assumes "mouse_ok mo"
  shows "mouse_ok (mouse_move md mo)"
  using assms less_by_le more_by_le by (simp add: mouse_ok_def mouse_move_fields) (simp add: mouse_move_def Let_def)

lemma mouse_data_ok:
  assumes "mouse_ok mo"
  shows "mouse_ok (mouse_data d mo)" "xlim (mouse_data d mo) = xlim mo" "ylim (mouse_data d mo) = ylim mo" "smode (mouse_data d mo) = smode mo"
proof -
  have "mouse_ok (mo\<lparr>mdata := v\<rparr>)" for v using assms by (simp add: mouse_ok_def)
  then show "mouse_ok (mouse_data d mo)" using mouse_move_ok [OF assms] by (simp add: mouse_data_def Let_def)
  show "xlim (mouse_data d mo) = xlim mo" "ylim (mouse_data d mo) = ylim mo" "smode (mouse_data d mo) = smode mo"
    by (simp_all add: mouse_data_def Let_def mouse_move_fields)
qed

text \<open>Whatever bytes arrive in whatever mode, the pointer stays within the limits, which are those of the screen: the cursor is
  drawn at the pointer's place of the frame buffer.\<close>

theorem mouse_stays:
  "mouse_ok mo \<Longrightarrow> mx (mouse_feed ds mo) \<le> xlim mo \<and> my (mouse_feed ds mo) \<le> ylim mo \<and> mouse_ok (mouse_feed ds mo)"
proof (induction ds arbitrary: mo)
  case (Cons d ds)
  show ?case using Cons.IH [OF mouse_data_ok(1) [OF Cons.prems]] mouse_data_ok(2,3) [OF Cons.prems] by simp
qed (simp add: mouse_ok_def)

definition demo_mouse :: mouse where
  "demo_mouse = \<lparr>mdata = 0, mx = 100, my = 50, xlim = 639, ylim = 479, smode = 1, mstatus = 0\<rparr>"

lemma mouse_stays_witness: "mx (mouse_feed [0x18, 0x00, 0xff, 0x08] demo_mouse) \<le> 639"
proof -
  have "mouse_ok demo_mouse" by (simp add: mouse_ok_def demo_mouse_def)
  from mouse_stays [OF this, of "[0x18, 0x00, 0xff, 0x08]"] show ?thesis by (simp add: demo_mouse_def)
qed

subsection \<open>A packet moves the pointer\<close>

text \<open>A packet is three bytes: the buttons with the signs of the movement, and the movement to the right and up modulo 256.
  \<open>delta\<close> is the movement the two parts stand for, in nine bits.\<close>

definition delta :: "bool \<Rightarrow> u8 \<Rightarrow> int" where
  "delta neg d = (if neg then uint d - 256 else uint d)"

definition clamp :: "int \<Rightarrow> int \<Rightarrow> int" where
  "clamp lim v = max 0 (min lim v)"

text \<open>The pointer after a movement.\<close>

definition moved :: "u8 \<times> u8 \<times> u8 \<Rightarrow> int \<times> int \<Rightarrow> int \<times> int \<Rightarrow> int \<times> int" where
  "moved p lim xy = (case p of (b, dx, dy) \<Rightarrow>
     (clamp (fst lim) (fst xy + delta (bit b 4) dx), clamp (snd lim) (snd xy - delta (bit b 5) dy)))"

text \<open>A packet the protocol allows; a movement of exactly 256 to the left or down is left out.\<close>

definition packet_ok :: "u8 \<times> u8 \<times> u8 \<Rightarrow> bool" where
  "packet_ok p \<longleftrightarrow> (case p of (b, dx, dy) \<Rightarrow> bit b 3 \<and> (bit b 4 \<longrightarrow> dx \<noteq> 0) \<and> (bit b 5 \<longrightarrow> dy \<noteq> 0))"

lemma uint_minus_byte: "d \<noteq> 0 \<Longrightarrow> uint (- d :: u8) = 256 - uint d"
proof -
  assume "d \<noteq> 0"
  then have "0 < uint d" "uint d < 256" using unsigned_less [of d] by (simp_all add: word_neq_0_conv word_less_alt)
  then show ?thesis by (simp add: uint_word_ariths zmod_zminus1_eq_if)
qed

lemma packet_bytes:
  fixes b dx dy :: u8
  defines "md \<equiv> (push_bit 24 (ucast b) OR push_bit 16 (ucast dx) OR push_bit 8 (ucast dy) :: u32)"
  shows "(ucast (drop_bit 24 md) :: u8) = b" "(ucast (drop_bit 16 md AND 0xff) :: u8) = dx" "(ucast (drop_bit 8 md AND 0xff) :: u8) = dy"
proof -
  have e: "(0xff :: u32) = mask 8" by (simp add: mask_eq_exp_minus_1)
  show "(ucast (drop_bit 24 md) :: u8) = b" unfolding md_def by (rule bit_eqI) (auto simp: bit_simps dest: bit_imp_le_length)
  show "(ucast (drop_bit 16 md AND 0xff) :: u8) = dx" unfolding md_def e by (rule bit_eqI) (auto simp: bit_simps dest: bit_imp_le_length)
  show "(ucast (drop_bit 8 md AND 0xff) :: u8) = dy" unfolding md_def e by (rule bit_eqI) (auto simp: bit_simps dest: bit_imp_le_length)
qed

lemma uint_less_by: "uint (less_by d x) = max 0 (uint x - uint d)"
proof (cases "ucast d > x")
  case True
  then have "uint x < uint d" by (simp add: word_less_alt uint_up_ucast is_up)
  then show ?thesis using True by (simp add: less_by_def)
next
  case False
  then have "uint d \<le> uint x" by (simp add: word_less_alt uint_up_ucast is_up)
  then have "uint (x - ucast d) = uint x - uint d" by (simp add: uint_sub_if' uint_up_ucast is_up)
  with False \<open>uint d \<le> uint x\<close> show ?thesis by (simp add: less_by_def)
qed

lemma uint_more_by:
  assumes "x \<le> lim" "unat lim + 255 < 2 ^ 32"
  shows "uint (more_by lim d x) = min (uint lim) (uint x + uint d)"
proof -
  have d: "unat d < 256" using unsigned_less [of d] by simp
  have x: "unat x \<le> unat lim" using assms(1) by (simp add: word_le_nat_alt)
  have "unat (x + ucast d) = unat x + unat d"
    using unat_add_no_wrap [of x "ucast d"] d x assms(2) by (simp add: unat_ucast_up)
  then have "uint (x + ucast d) = uint x + uint d" by (simp only: uint_nat of_nat_add)
  then show ?thesis by (auto simp: more_by_def Let_def word_less_alt)
qed

lemma delta_signed:
  "neg \<Longrightarrow> d \<noteq> 0 \<Longrightarrow> uint (- d) = - delta neg d"
  "\<not> neg \<Longrightarrow> uint d = delta neg d"
  by (simp_all add: delta_def uint_minus_byte)

lemma mouse_move_moved:
  assumes "mouse_ok mo" "packet_ok (b, dx, dy)"
  shows "(uint (mx (mouse_move (push_bit 24 (ucast b) OR push_bit 16 (ucast dx) OR push_bit 8 (ucast dy)) mo)),
          uint (my (mouse_move (push_bit 24 (ucast b) OR push_bit 16 (ucast dx) OR push_bit 8 (ucast dy)) mo)))
    = moved (b, dx, dy) (uint (xlim mo), uint (ylim mo)) (uint (mx mo), uint (my mo))"
proof -
  have ok: "mx mo \<le> xlim mo" "my mo \<le> ylim mo" "unat (xlim mo) + 255 < 2 ^ 32" "unat (ylim mo) + 255 < 2 ^ 32"
    using assms(1) by (simp_all add: mouse_ok_def)
  have p: "bit b 4 \<Longrightarrow> dx \<noteq> 0" "bit b 5 \<Longrightarrow> dy \<noteq> 0" using assms(2) by (simp_all add: packet_ok_def)
  have le: "uint (mx mo) \<le> uint (xlim mo)" "uint (my mo) \<le> uint (ylim mo)" using ok(1,2) by (simp_all add: word_le_def)
  have nn: "0 \<le> uint d" for d :: u8 by simp
  have "uint (if bit b 4 then less_by (- dx) (mx mo) else more_by (xlim mo) dx (mx mo))
      = clamp (uint (xlim mo)) (uint (mx mo) + delta (bit b 4) dx)"
  proof (cases "bit b 4")
    case True
    then have d: "uint (- dx) = - delta True dx" using p(1) by (simp add: delta_signed(1))
    moreover have "0 \<le> - delta True dx" unfolding d [symmetric] by simp
    ultimately show ?thesis using True le(1) by (simp add: uint_less_by clamp_def)
  next
    case False
    have "delta False dx = uint dx" by (simp add: delta_def)
    then show ?thesis using False nn [of dx] by (simp add: uint_more_by [OF ok(1,3)] clamp_def min.commute)
  qed
  moreover have "uint (if bit b 5 then more_by (ylim mo) (- dy) (my mo) else less_by dy (my mo))
      = clamp (uint (ylim mo)) (uint (my mo) - delta (bit b 5) dy)"
  proof (cases "bit b 5")
    case True
    then have d: "uint (- dy) = - delta True dy" using p(2) by (simp add: delta_signed(1))
    moreover have "0 \<le> - delta True dy" unfolding d [symmetric] by simp
    moreover have "0 \<le> min (uint (ylim mo)) (uint (my mo) - delta True dy)"
      using \<open>0 \<le> - delta True dy\<close> order_trans [of "delta True dy" 0 "uint (my mo)"] by simp
    ultimately show ?thesis using True by (simp add: uint_more_by [OF ok(2,4)] clamp_def min.commute max_absorb2)
  next
    case False
    have "delta False dy = uint dy" by (simp add: delta_def)
    moreover have "uint (my mo) - uint dy \<le> uint (ylim mo)" using le(2) nn [of dy] by linarith
    ultimately show ?thesis using False by (simp add: uint_less_by clamp_def min_absorb2)
  qed
  ultimately show ?thesis
    unfolding mouse_move_def Let_def packet_bytes by (simp add: moved_def)
qed

lemma three_bytes:
  fixes b dx dy :: u8
  shows "push_bit 8 (push_bit 8 (push_bit 8 (ucast b) OR ucast dx) OR ucast dy)
      = (push_bit 24 (ucast b) OR push_bit 16 (ucast dx) OR push_bit 8 (ucast dy) :: u32)"
    "\<not> bit (ucast b :: u32) 19" "\<not> bit (push_bit 8 (ucast b) OR ucast dx :: u32) 19"
    "bit (push_bit 8 (push_bit 8 (ucast b) OR ucast dx) OR ucast dy :: u32) 19 \<longleftrightarrow> bit b 3"
    "bit ((push_bit 16 (ucast b) OR push_bit 8 (ucast dx)) OR ucast dy :: u32) 19 \<longleftrightarrow> bit b 3"
proof -
  show "push_bit 8 (push_bit 8 (push_bit 8 (ucast b) OR ucast dx) OR ucast dy)
      = (push_bit 24 (ucast b) OR push_bit 16 (ucast dx) OR push_bit 8 (ucast dy) :: u32)"
    by (simp add: push_bit_or or.assoc)
  have n: "\<not> bit d k" if "8 \<le> k" for d :: u8 and k using that bit_imp_le_length [of d k] by auto
  show "\<not> bit (ucast b :: u32) 19" "\<not> bit (push_bit 8 (ucast b) OR ucast dx :: u32) 19"
    "bit (push_bit 8 (push_bit 8 (ucast b) OR ucast dx) OR ucast dy :: u32) 19 \<longleftrightarrow> bit b 3"
    "bit ((push_bit 16 (ucast b) OR push_bit 8 (ucast dx)) OR ucast dy :: u32) 19 \<longleftrightarrow> bit b 3"
    by (simp_all add: bit_simps n)
qed

lemma packet_fed:
  assumes "smode mo = 1" "mdata mo = 0" "packet_ok (b, dx, dy)"
  shows "mouse_feed [b, dx, dy] mo = mouse_move (push_bit 24 (ucast b) OR push_bit 16 (ucast dx) OR push_bit 8 (ucast dy)) mo"
proof -
  have b: "bit b 3" using assms(3) by (simp add: packet_ok_def)
  have "mouse_move v (mo\<lparr>mdata := w\<rparr>) = mouse_move v mo" for v w by (simp add: mouse_move_def Let_def)
  then show ?thesis
    using assms(1,2) b by (simp add: mouse_data_def Let_def three_bytes three_bytes(5) [unfolded or.assoc] or.assoc)
qed

text \<open>C40 A mouse in three-byte mode moves as its packets say: a stream of packets from a whole start leaves the pointer where the movements,
  each clamped to the screen, lead, to the right and down positive.\<close>

theorem mouse_follows:
  assumes "mouse_ok mo" "smode mo = 1" "mdata mo = 0" "\<forall>p \<in> set ps. packet_ok p"
  shows "(uint (mx (mouse_feed (concat (map (\<lambda>(b, dx, dy). [b, dx, dy]) ps)) mo)),
          uint (my (mouse_feed (concat (map (\<lambda>(b, dx, dy). [b, dx, dy]) ps)) mo)))
    = fold (\<lambda>p. moved p (uint (xlim mo), uint (ylim mo))) ps (uint (mx mo), uint (my mo))"
  using assms
proof (induction ps arbitrary: mo)
  case (Cons p ps)
  obtain b dx dy where p: "p = (b, dx, dy)" by (cases p)
  have app: "mouse_feed (xs @ ys) mo = mouse_feed ys (mouse_feed xs mo)" for xs ys mo
    by (induction xs arbitrary: mo) simp_all
  have pk: "packet_ok (b, dx, dy)" using Cons.prems(4) p by simp
  let ?mo = "mouse_move (push_bit 24 (ucast b) OR push_bit 16 (ucast dx) OR push_bit 8 (ucast dy)) mo"
  have fed: "mouse_feed [b, dx, dy] mo = ?mo" by (rule packet_fed [OF Cons.prems(2,3) pk])
  have step: "mouse_feed (concat (map (\<lambda>(b, dx, dy). [b, dx, dy]) (p # ps))) mo
      = mouse_feed (concat (map (\<lambda>(b, dx, dy). [b, dx, dy]) ps)) ?mo"
    using app [of "[b, dx, dy]" "concat (map (\<lambda>(b, dx, dy). [b, dx, dy]) ps)" mo] unfolding fed p by simp
  have "(uint (mx ?mo), uint (my ?mo)) = moved p (uint (xlim mo), uint (ylim mo)) (uint (mx mo), uint (my mo))"
    unfolding p by (rule mouse_move_moved [OF Cons.prems(1) pk])
  then show ?case
    unfolding step using Cons.IH [of ?mo] mouse_move_ok [OF Cons.prems(1)] Cons.prems(2,4) by (simp add: mouse_move_fields)
qed simp

lemma mouse_follows_witness:
  "(uint (mx (mouse_feed [0x18, 0x9c, 0x05, 0x08, 0x03, 0x00] demo_mouse)), uint (my (mouse_feed [0x18, 0x9c, 0x05, 0x08, 0x03, 0x00] demo_mouse)))
    = (3, 45)"
proof -
  have "mouse_ok demo_mouse" "smode demo_mouse = 1" "mdata demo_mouse = 0" by (simp_all add: mouse_ok_def demo_mouse_def)
  moreover have "\<forall>p \<in> set [(0x18, 0x9c, 0x05), (0x08, 0x03, 0x00)]. packet_ok p" by code_simp
  moreover have "fold (\<lambda>p. moved p (uint (xlim demo_mouse), uint (ylim demo_mouse))) [(0x18, 0x9c, 0x05), (0x08, 0x03, 0x00)]
      (uint (mx demo_mouse), uint (my demo_mouse)) = (3, 45)" by code_simp
  ultimately show ?thesis using mouse_follows [of demo_mouse "[(0x18, 0x9c, 0x05), (0x08, 0x03, 0x00)]"] by simp
qed

text \<open>A movement of 256 to the left is taken as none.\<close>

lemma full_left_ignored: "mx (mouse_feed [0x18, 0x00, 0x00] demo_mouse) = mx demo_mouse"
  by code_simp

end
