(* ===== verification/Ps2.thy ===== *)
theory Ps2
  imports Mouse Ports
begin

text \<open>
  The PS/2 controller (\<open>PS2\<close> of \<open>src/kernel/dev/ps2.cpp\<close>): its interrupt handlers and queue of received bytes, its port
  access, its initialisation, and the state machine that finds out what is plugged into each port and passes the bytes on.

  The driver's state is paired with that of the devices, which the port operations of \<open>hw\<close> change. Interrupts come between
  any two accesses: \<open>arrive\<close> tells how many there are at that point, and each runs the handler (both interrupt lines have the same).
  \<open>None\<close> is a wait that does not end or an access outside the queue's array. The prints are omitted.
\<close>

subsection \<open>State\<close>

datatype ps2st = LOST | INIT | ECHO | IDLE | BUSY | IDENT | IDENTE | IDENT1 | IDENTE1 | IDENT2 | DISABLE

datatype ps2type = QUERY | KEYBOARD | MOUSE3 | MOUSE4 | MOUSE5

text \<open>The clients a port can have: the keyboard and the mouse driver.\<close>

datatype client = KBD | MOU

record ps2_port =
  pstatus :: ps2st
  ptype :: ps2type
  nextcheck :: u32
  err_c :: u32
  cl_ptr :: "client option"

text \<open>\<open>kb_serv\<close> and \<open>mou_serv\<close> are \<open>mp_serv\<close> and \<open>mp_port\<close> of the clients: the port they were added to, if any.\<close>

record ps2 =
  cinit :: bool
  err_n :: u32
  icode :: "u8 list"
  istatus :: "u8 list"
  interupted :: u32
  kcodes :: "u16 list"
  kcount :: u16
  port :: "ps2_port list"
  kb_drv :: bool
  mou_drv :: bool
  kbd :: keyboard
  mou :: mouse
  kb_serv :: "u32 option"
  mou_serv :: "u32 option"

type_synonym 's drv = "ps2 \<times> 's"

record 's ps2_env =
  hw :: "'s ports"
  arrive :: "'s \<Rightarrow> nat \<times> 's"

text \<open>The constructor at tick \<open>t\<close>; it leaves \<open>cinit\<close>, the queue and \<open>interupted\<close> as the memory \<open>g\<close> has them.\<close>

definition new_ps2 :: "u32 \<Rightarrow> ps2 \<Rightarrow> ps2" where
  "new_ps2 t g = g\<lparr>err_n := 0, kb_drv := False, mou_drv := False,
     port := replicate 4 \<lparr>pstatus = INIT, ptype = QUERY, nextcheck = t + 20, err_c = 0, cl_ptr = None\<rparr>\<rparr>"

definition set_port :: "nat \<Rightarrow> (ps2_port \<Rightarrow> ps2_port) \<Rightarrow> ps2 \<Rightarrow> ps2" where
  "set_port i f d = d\<lparr>port := (port d)[i := f (port d ! i)]\<rparr>"

subsection \<open>Interrupts and the queue\<close>

definition push_keycode :: "u16 \<Rightarrow> ps2 \<Rightarrow> ps2" where
  "push_keycode v d = d\<lparr>kcodes := v # take 11 (kcodes d)\<rparr>"

definition received :: "u16 \<Rightarrow> ps2 \<Rightarrow> ps2" where
  "received v d = (push_keycode v d)\<lparr>kcount := kcount d + 1\<rparr>"

definition irq_handle :: "'s ports \<Rightarrow> 's drv \<Rightarrow> 's drv" where
  "irq_handle io ds = (case ds of (d, s) \<Rightarrow>
     if \<not> cinit d then (d, s)
     else (case inb io 0x64 s of (sb, s1) \<Rightarrow> (case inb io 0x64 s1 of (st, s2) \<Rightarrow> (case inb io 0x60 s2 of (c, s3) \<Rightarrow>
       if sb AND 0x20 \<noteq> 0
       then (received (ucast c OR 0x100) (d\<lparr>interupted := interupted d OR 2, istatus := (istatus d)[1 := st], icode := (icode d)[1 := c]\<rparr>), s3)
       else (received (ucast c) (d\<lparr>interupted := interupted d OR 1, istatus := (istatus d)[0 := st], icode := (icode d)[0 := c]\<rparr>), s3)))))"

fun irqs :: "'s ports \<Rightarrow> nat \<Rightarrow> 's drv \<Rightarrow> 's drv" where
  "irqs io 0 ds = ds"
| "irqs io (Suc n) ds = irqs io n (irq_handle io ds)"

definition settle :: "'s ps2_env \<Rightarrow> 's drv \<Rightarrow> 's drv" where
  "settle E ds = (case arrive E (snd ds) of (n, s) \<Rightarrow> irqs (hw E) n (fst ds, s))"

text \<open>The queue is read outside its twelve places when thirteen bytes have come in without being taken.\<close>

definition shift_down :: "'a list \<Rightarrow> nat \<Rightarrow> nat \<Rightarrow> 'a list" where
  "shift_down ks i n = take i ks @ take (n - 1 - i) (drop (Suc i) ks) @ drop (n - 1) ks"

fun seek :: "u16 list \<Rightarrow> u32 \<Rightarrow> nat \<Rightarrow> nat option" where
  "seek ks p 0 = None"
| "seek ks p (Suc i) = (if ucast (drop_bit 8 (ks ! i)) = p then Some i else seek ks p i)"

definition port_query :: "u32 \<Rightarrow> ps2 \<Rightarrow> (u32 \<times> ps2) option" where
  "port_query p d =
    (if p = - 1 then
       (if kcount d > 0 then
          (let n = kcount d - 1 in
           if n = 12 then None
           else (let k = kcodes d ! (if n > 12 then 11 else unat n); f = push_bit (unat (drop_bit 8 k AND 0xff)) 1 in
             Some (ucast k, d\<lparr>kcount := n, interupted := interupted d XOR (interupted d AND f)\<rparr>)))
        else Some (- 1, d))
     else (case seek (kcodes d) p (if kcount d > 12 then 12 else unat (kcount d)) of
         None \<Rightarrow> Some (- 1, d)
       | Some i \<Rightarrow>
           if kcount d > 12 then None
           else Some (ucast (kcodes d ! i),
             d\<lparr>kcodes := shift_down (kcodes d) i (unat (kcount d)), kcount := kcount d - 1,
               interupted := interupted d XOR (interupted d AND push_bit (unat p) 1)\<rparr>)))"

subsection \<open>Port access\<close>

definition rd :: "'s ps2_env \<Rightarrow> u16 \<Rightarrow> 's drv \<Rightarrow> u8 \<times> 's drv" where
  "rd E p ds = (case inb (hw E) p (snd ds) of (v, s) \<Rightarrow> (v, settle E (fst ds, s)))"

definition wr :: "'s ps2_env \<Rightarrow> u16 \<Rightarrow> u8 \<Rightarrow> 's drv \<Rightarrow> 's drv" where
  "wr E p v ds = settle E (fst ds, outb (hw E) p v (snd ds))"

definition int_n :: "'s ps2_env \<Rightarrow> 's drv \<Rightarrow> u32 \<times> 's drv" where
  "int_n E ds = (case ticks (hw E) (snd ds) of (t, s) \<Rightarrow> (t, settle E (fst ds, s)))"

definition write_busy :: "u8 \<Rightarrow> bool" where
  "write_busy sb \<longleftrightarrow> sb AND 2 \<noteq> 0 \<and> NOT sb AND 0xc0 \<noteq> 0"

partial_function (option) ps2_get_read :: "'s ps2_env \<Rightarrow> 's drv \<Rightarrow> (u8 \<times> 's drv) option" where
  "ps2_get_read E ds = (case rd E 0x64 ds of (sb, ds1) \<Rightarrow> if sb AND 1 = 0 then ps2_get_read E ds1 else Some (rd E 0x60 ds1))"

partial_function (option) ps2_wait_fwrite :: "'s ps2_env \<Rightarrow> 's drv \<Rightarrow> 's drv option" where
  "ps2_wait_fwrite E ds = (case rd E 0x64 ds of (sb, ds1) \<Rightarrow> if write_busy sb then ps2_wait_fwrite E ds1 else Some ds1)"

partial_function (option) wait_write_until :: "'s ps2_env \<Rightarrow> u32 \<Rightarrow> 's drv \<Rightarrow> 's drv option" where
  "wait_write_until E kw ds = (case rd E 0x64 ds of (sb, ds1) \<Rightarrow> (case int_n E ds1 of (t, ds2) \<Rightarrow>
     if t < kw \<and> write_busy sb then wait_write_until E kw ds2 else Some ds2))"

definition ps2_wait_write :: "'s ps2_env \<Rightarrow> 's drv \<Rightarrow> 's drv option" where
  "ps2_wait_write E ds = (case int_n E ds of (t, ds1) \<Rightarrow> wait_write_until E (t + 5) ds1)"

definition ps2_can_write :: "'s ps2_env \<Rightarrow> 's drv \<Rightarrow> bool \<times> 's drv" where
  "ps2_can_write E ds = (case rd E 0x64 ds of (sb, ds1) \<Rightarrow> (\<not> write_busy sb, ds1))"

definition ps2_send_data :: "'s ps2_env \<Rightarrow> u8 \<Rightarrow> 's drv \<Rightarrow> 's drv option" where
  "ps2_send_data E v ds = do { ds1 \<leftarrow> ps2_wait_fwrite E ds; Some (wr E 0x60 v ds1) }"

definition send_adata :: "'s ps2_env \<Rightarrow> u8 \<Rightarrow> 's drv \<Rightarrow> 's drv option" where
  "send_adata E v ds = do { ds1 \<leftarrow> ps2_wait_write E ds; Some (wr E 0x60 v ds1) }"

definition send_cmd :: "'s ps2_env \<Rightarrow> u8 \<Rightarrow> 's drv \<Rightarrow> 's drv option" where
  "send_cmd E v ds = do { ds1 \<leftarrow> ps2_wait_fwrite E ds; Some (wr E 0x64 v ds1) }"

definition port_send :: "'s ps2_env \<Rightarrow> u8 \<Rightarrow> u32 \<Rightarrow> 's drv \<Rightarrow> 's drv option" where
  "port_send E km ex ds =
    (if ex = 0 then ps2_send_data E km ds
     else if ex = 1 then do { ds1 \<leftarrow> send_cmd E 0xD4 ds; ps2_send_data E km ds1 }
     else Some ds)"

text \<open>The system is reset through the controller; \<open>_ix_totalhalt\<close> does not return.\<close>

partial_function (option) drain_controller :: "'s ps2_env \<Rightarrow> 's drv \<Rightarrow> 's drv option" where
  "drain_controller E ds = (case rd E 0x64 ds of (sb, ds1) \<Rightarrow>
     let ds2 = (if sb AND 1 \<noteq> 0 then snd (rd E 0x60 ds1) else ds1) in
     if sb AND 2 \<noteq> 0 then drain_controller E ds2 else Some ds2)"

definition system_reset :: "'s ps2_env \<Rightarrow> 's drv \<Rightarrow> 's drv option" where
  "system_reset E ds = do { ds1 \<leftarrow> drain_controller E ds; Some (wr E 0x64 0xfe ds1) }"

declare ps2_get_read.simps [code] ps2_wait_fwrite.simps [code] wait_write_until.simps [code] drain_controller.simps [code]

subsection \<open>Initialisation of the controller\<close>

definition set_err :: "(u32 \<Rightarrow> u32) \<Rightarrow> ps2 \<Rightarrow> ps2" where
  "set_err f d = d\<lparr>err_n := f (err_n d)\<rparr>"

text \<open>A command to the controller and its answer.\<close>

definition ask :: "'s ps2_env \<Rightarrow> u8 \<Rightarrow> 's drv \<Rightarrow> (u8 \<times> 's drv) option" where
  "ask E cmd ds = do { ds1 \<leftarrow> send_cmd E cmd ds; ds2 \<leftarrow> ps2_wait_fwrite E ds1; ps2_get_read E ds2 }"

definition self_test :: "'s ps2_env \<Rightarrow> 's drv \<Rightarrow> (bool \<times> 's drv) option" where
  "self_test E ds = do {
     ds1 \<leftarrow> send_cmd E 0xAD ds;
     ds2 \<leftarrow> send_cmd E 0xA7 ds1;
     (t, ds3) \<leftarrow> ask E 0xAA ds2;
     Some (if t \<noteq> 0x55 then (False, apfst (set_err (\<lambda>e. e OR 0x8)) ds3) else (True, apfst (set_err (\<lambda>e. e OR 0x4)) ds3)) }"

text \<open>The wait for the interrupt of the second port, at most 20 ticks.\<close>

partial_function (option) wait_irq :: "'s ps2_env \<Rightarrow> u32 \<Rightarrow> 's drv \<Rightarrow> 's drv option" where
  "wait_irq E lim ds =
    (if interupted (fst ds) AND 2 \<noteq> 0 then Some ds
     else (case int_n E ds of (t, ds1) \<Rightarrow> if lim > t then wait_irq E lim ds1 else Some ds1))"

declare wait_irq.simps [code]

definition second_port :: "'s ps2_env \<Rightarrow> 's drv \<Rightarrow> 's drv option" where
  "second_port E ds = do {
     ds1 \<leftarrow> send_cmd E 0xD4 ds;
     ds2 \<leftarrow> ps2_send_data E 0xff ds1;
     let (t, ds3) = int_n E ds2;
     ds4 \<leftarrow> wait_irq E (t + 20) ds3;
     Some (apfst (\<lambda>d. if interupted d AND 2 \<noteq> 0 then set_err (\<lambda>e. e OR 0x200) d
                      else set_port 1 (\<lambda>p. p\<lparr>pstatus := DISABLE\<rparr>) d) ds4) }"

text \<open>From the tests of the two ports on.\<close>

definition start_ports :: "'s ps2_env \<Rightarrow> u8 \<Rightarrow> 's drv \<Rightarrow> (bool \<times> 's drv) option" where
  "start_ports E c ds = do {
     ds1 \<leftarrow> send_cmd E 0x60 ds;
     ds2 \<leftarrow> ps2_send_data E (c OR 0x03) ds1;
     (c2, ds3) \<leftarrow> ask E 0x20 ds2;
     let ds4 = (if c2 AND 1 \<noteq> 0 then apfst (set_err (\<lambda>e. e OR 0x10)) ds3 else ds3);
     let ds5 = (if c2 AND 2 \<noteq> 0 then apfst (set_err (\<lambda>e. e OR 0x100)) ds4 else ds4);
     if c2 AND 3 = 0 then Some (False, apfst (set_err (\<lambda>e. e XOR 0x4)) ds5)
     else do {
       ds6 \<leftarrow> send_cmd E 0xAE ds5;
       ds7 \<leftarrow> send_cmd E 0xA8 ds6;
       ds8 \<leftarrow> second_port E (apfst (\<lambda>d. d\<lparr>cinit := True\<rparr>) ds7);
       Some (True, ds8) } }"

definition ps2_init :: "'s ps2_env \<Rightarrow> 's drv \<Rightarrow> (bool \<times> 's drv) option" where
  "ps2_init E ds = do {
     let ds0 = apfst (\<lambda>d. (set_err (\<lambda>e. e AND 0xF777) d)\<lparr>cinit := False\<rparr>) ds;
     (ok, ds1) \<leftarrow> (if err_n (fst ds0) AND 0x4 = 0 then self_test E ds0 else Some (True, ds0));
     if \<not> ok then Some (False, ds1)
     else do {
       (c, ds2) \<leftarrow> ask E 0x20 ds1;
       ds3 \<leftarrow> send_cmd E 0x60 ds2;
       ds4 \<leftarrow> ps2_send_data E (c AND 0x34) ds3;
       (t, ds5) \<leftarrow> ask E 0xAB ds4;
       if t \<noteq> 0 then Some (False, apfst (set_err (\<lambda>e. e OR 0x80)) ds5)
       else do {
         (t2, ds6) \<leftarrow> ask E 0xA9 ds5;
         let ds7 = (if t2 \<noteq> 0 then apfst (set_err (\<lambda>e. e OR 0x800)) ds6 else ds6);
         if err_n (fst ds7) AND 0x088 \<noteq> 0 then Some (False, ds7)
         else start_ports E (c AND 0x34) ds7 } } }"

subsection \<open>Clients\<close>

definition add_kbd :: "ps2 \<Rightarrow> ps2" where
  "add_kbd d = d\<lparr>kb_drv := True\<rparr>"

definition add_mou :: "ps2 \<Rightarrow> ps2" where
  "add_mou d = d\<lparr>mou_drv := True\<rparr>"

definition serve :: "client \<Rightarrow> u32 option \<Rightarrow> ps2 \<Rightarrow> ps2" where
  "serve c v d = (case c of KBD \<Rightarrow> d\<lparr>kb_serv := v\<rparr> | MOU \<Rightarrow> d\<lparr>mou_serv := v\<rparr>)"

definition add_client :: "client option \<Rightarrow> u32 \<Rightarrow> ps2 \<Rightarrow> ps2" where
  "add_client c u d =
    (if u > 3 then d
     else (case c of None \<Rightarrow> d | Some k \<Rightarrow> serve k (Some u) (set_port (unat u) (\<lambda>p. p\<lparr>cl_ptr := Some k\<rparr>) d)))"

definition clear_client :: "client option \<Rightarrow> ps2 \<Rightarrow> ps2" where
  "clear_client c d = (case c of None \<Rightarrow> d | Some k \<Rightarrow> serve k None d)"

definition remove_client :: "client option \<Rightarrow> u32 \<Rightarrow> ps2 \<Rightarrow> ps2" where
  "remove_client c u d =
    (if u > 3 then d
     else if cl_ptr (port d ! unat u) \<noteq> c
       then set_port (unat u) (\<lambda>p. p\<lparr>cl_ptr := None\<rparr>) (clear_client (cl_ptr (port d ! unat u)) d)
     else clear_client c (set_port (unat u) (\<lambda>p. p\<lparr>cl_ptr := None\<rparr>) d))"

text \<open>The operations a client has of the service, over the driver with its devices; \<open>None\<close> is kept once it is there.\<close>

definition client_send :: "'s ps2_env \<Rightarrow> u32 \<Rightarrow> u8 \<Rightarrow> 's drv option \<Rightarrow> 's drv option" where
  "client_send E u v w = (case w of None \<Rightarrow> None | Some ds \<Rightarrow> port_send E v u ds)"

definition query :: "'s ps2_env \<Rightarrow> u32 \<Rightarrow> 's drv \<Rightarrow> (u32 \<times> 's drv) option" where
  "query E p ds = (case settle E ds of (d, s) \<Rightarrow>
     (case port_query p d of None \<Rightarrow> None | Some (k, d') \<Rightarrow> Some (k, d', s)))"

definition client_req :: "'s ps2_env \<Rightarrow> u32 \<Rightarrow> 's drv option \<Rightarrow> u32 \<times> 's drv option" where
  "client_req E u w = (case w of None \<Rightarrow> (- 1, None) | Some ds \<Rightarrow>
     (case query E u ds of None \<Rightarrow> (- 1, None) | Some (k, ds') \<Rightarrow> (k, Some ds')))"

definition init_kbd :: "'s ps2_env \<Rightarrow> u32 \<Rightarrow> 's drv \<Rightarrow> 's drv option" where
  "init_kbd E p ds =
    (if kb_drv (fst ds) then
      (let ds1 = apfst (add_client (Some KBD) p) ds;
           serv = (case kb_serv (fst ds1) of None \<Rightarrow> None | Some u \<Rightarrow> Some (client_send E u, client_req E u));
           (ok, k, o2) = kbd_init serv (kbd (fst ds1)) (Some ds1)
       in case o2 of None \<Rightarrow> None | Some ds2 \<Rightarrow>
            Some (apfst (\<lambda>d. set_port (unat p) (\<lambda>q. q\<lparr>pstatus := (if ok then IDLE else LOST)\<rparr>) (d\<lparr>kbd := k\<rparr>)) ds2))
     else Some (apfst (set_port (unat p) (\<lambda>q. q\<lparr>pstatus := LOST\<rparr>)) ds))"

text \<open>\<open>Mouse::init\<close> follows \<open>mp_serv\<close> without a test; \<open>add_client\<close> has set it.\<close>

definition init_mou :: "'s ps2_env \<Rightarrow> u32 \<Rightarrow> 's drv \<Rightarrow> 's drv option" where
  "init_mou E p ds =
    (if mou_drv (fst ds) then
      (let ds1 = apfst (add_client (Some MOU) p) ds
       in case mou_serv (fst ds1) of None \<Rightarrow> None | Some u \<Rightarrow>
         (case mouse_init (client_send E u) (client_req E u) (mou (fst ds1)) (Some ds1) of
            Some (ok, m, Some ds2) \<Rightarrow>
              Some (apfst (\<lambda>d. set_port (unat p) (\<lambda>q. q\<lparr>pstatus := (if ok then IDLE else LOST)\<rparr>) (d\<lparr>mou := m\<rparr>)) ds2)
          | _ \<Rightarrow> None))
     else Some (apfst (set_port (unat p) (\<lambda>q. q\<lparr>pstatus := LOST\<rparr>)) ds))"

definition signal_loss :: "nat \<Rightarrow> ps2 \<Rightarrow> ps2" where
  "signal_loss i d = (let d1 = remove_client (cl_ptr (port d ! i)) (of_nat i) d;
     d2 = (if ptype (port d1 ! i) = KEYBOARD \<and> kb_drv d1 then d1\<lparr>kbd := kbd_remove (kbd d1)\<rparr> else d1)
     in set_port i (\<lambda>p. p\<lparr>pstatus := LOST\<rparr>) d2)"

definition port_enable :: "u32 \<Rightarrow> bool \<Rightarrow> ps2 \<Rightarrow> ps2" where
  "port_enable u e d =
    (if u > 1 then d
     else if e then (if pstatus (port d ! unat u) = DISABLE then set_port (unat u) (\<lambda>p. p\<lparr>pstatus := LOST\<rparr>) d else d)
     else set_port (unat u) (\<lambda>p. p\<lparr>pstatus := DISABLE\<rparr>) d)"

definition ps2_waiting :: "'s ps2_env \<Rightarrow> 's drv \<Rightarrow> bool \<times> 's drv" where
  "ps2_waiting E ds =
    (if kcount (fst ds) \<noteq> 0 \<or> interupted (fst ds) \<noteq> 0 then (True, ds)
     else (case int_n E ds of (t, ds1) \<Rightarrow>
       if t > nextcheck (port (fst ds1) ! 0) then (True, ds1)
       else (case int_n E ds1 of (t2, ds2) \<Rightarrow> (t2 > nextcheck (port (fst ds2) ! 1), ds2))))"

subsection \<open>Received bytes: the state machine of a port\<close>

text \<open>\<open>Halted\<close> is the machine after \<open>_ix_totalhalt\<close>.\<close>

datatype 'a outcome = Running 'a | Halted 'a

definition set_check :: "'s ps2_env \<Rightarrow> nat \<Rightarrow> u32 \<Rightarrow> 's drv \<Rightarrow> 's drv" where
  "set_check E i n ds = (case int_n E ds of (t, ds1) \<Rightarrow> apfst (set_port i (\<lambda>p. p\<lparr>nextcheck := t + n\<rparr>)) ds1)"

definition lost_byte :: "u32 \<Rightarrow> ps2_port \<Rightarrow> ps2_port" where
  "lost_byte c p =
    (if c = 0xEE then p\<lparr>err_c := 0, pstatus := IDENT\<rparr>
     else if c = 0xAA then p\<lparr>err_c := 0, pstatus := IDENT, ptype := QUERY\<rparr>
     else if c = 0xFE then p
     else if c = 0xFC then p\<lparr>pstatus := IDENT\<rparr>
     else p\<lparr>err_c := 0, pstatus := IDENT\<rparr>)"

definition echo_byte :: "nat \<Rightarrow> u32 \<Rightarrow> ps2 \<Rightarrow> ps2" where
  "echo_byte i c d =
    (if c = 0xFE then
      (let d1 = (if istatus d ! i AND 0xC0 \<noteq> 0 then set_port i (\<lambda>p. p\<lparr>err_c := err_c p + 1\<rparr>) d else d) in
       if err_c (port d1 ! i) > 3
       then set_port i (\<lambda>p. p\<lparr>ptype := QUERY\<rparr>) (signal_loss i (set_port i (\<lambda>p. p\<lparr>pstatus := LOST\<rparr>) d1))
       else d1)
     else set_port i (\<lambda>p. p\<lparr>err_c := 0, pstatus := IDLE\<rparr>)
       (if c \<noteq> 0xEE then set_err (\<lambda>e. (e AND 0xffff) OR push_bit 16 c) d else set_err (\<lambda>e. e AND 0xefff) d))"

definition ident_byte :: "u32 \<Rightarrow> ps2_port \<Rightarrow> ps2_port" where
  "ident_byte c p = (let again = (pstatus p = IDENTE);
     nextst = (if again then IDLE else INIT);
     idst = (if again then IDENTE else IDENT);
     id1st = (if again then IDENTE1 else IDENT1)
     in if c = 0x00 then p\<lparr>ptype := MOUSE3, pstatus := nextst\<rparr>
        else if c = 0x03 then p\<lparr>ptype := MOUSE4, pstatus := nextst\<rparr>
        else if c = 0x04 then p\<lparr>ptype := MOUSE5, pstatus := nextst\<rparr>
        else if c = 0xAB then p\<lparr>pstatus := id1st\<rparr>
        else if c = 0xFE then p\<lparr>ptype := QUERY, pstatus := LOST\<rparr>
        else if c = 0xFA \<or> c = 0xFC then p\<lparr>pstatus := idst\<rparr>
        else p\<lparr>pstatus := IDENT2\<rparr>)"

definition ident1_byte :: "ps2_port \<Rightarrow> ps2_port" where
  "ident1_byte p =
    (if ptype p \<noteq> KEYBOARD then p\<lparr>pstatus := INIT, ptype := KEYBOARD\<rparr>
     else if pstatus p = IDENTE1 then p\<lparr>pstatus := IDLE\<rparr>
     else p\<lparr>pstatus := LOST\<rparr>)"

text \<open>A byte goes to the driver of the port; the keyboard's may reset the system.\<close>

definition client_byte :: "'s ps2_env \<Rightarrow> nat \<Rightarrow> u8 \<Rightarrow> 's drv \<Rightarrow> 's drv outcome option" where
  "client_byte E i c ds = (case cl_ptr (port (fst ds) ! i) of
       None \<Rightarrow> Some (Running ds)
     | Some MOU \<Rightarrow> Some (Running (apfst (\<lambda>d. d\<lparr>mou := mouse_data c (mou d)\<rparr>) ds))
     | Some KBD \<Rightarrow> (case port_data c (kbd (fst ds)) of
         Inr k \<Rightarrow> Some (Running (apfst (\<lambda>d. d\<lparr>kbd := k\<rparr>) ds))
       | Inl SystemReset \<Rightarrow> do { ds1 \<leftarrow> system_reset E ds; Some (Halted ds1) }))"

definition handle_byte :: "'s ps2_env \<Rightarrow> nat \<Rightarrow> u32 \<Rightarrow> 's drv \<Rightarrow> 's drv outcome option" where
  "handle_byte E i c ds = (case pstatus (port (fst ds) ! i) of
       DISABLE \<Rightarrow> Some (Running ds)
     | INIT \<Rightarrow> Some (Running ds)
     | LOST \<Rightarrow> Some (Running (apfst (set_port i (lost_byte c)) (set_check E i 50 ds)))
     | ECHO \<Rightarrow> Some (Running (apfst (echo_byte i c) ds))
     | IDLE \<Rightarrow> client_byte E i (ucast c) (set_check E i 500 (apfst (set_port i (\<lambda>p. p\<lparr>pstatus := BUSY\<rparr>)) ds))
     | BUSY \<Rightarrow> client_byte E i (ucast c) (set_check E i 500 ds)
     | IDENT \<Rightarrow> Some (Running (apfst (set_port i (ident_byte c)) (set_check E i 1000 ds)))
     | IDENTE \<Rightarrow> Some (Running (apfst (set_port i (ident_byte c)) (set_check E i 1000 (set_check E i 1000 ds))))
     | IDENT1 \<Rightarrow> Some (Running (apfst (\<lambda>d. set_err (\<lambda>e. (e AND 0xffff) OR push_bit 16 (0xAB00 OR c)) (set_port i ident1_byte d))
                   (set_check E i 250 ds)))
     | IDENTE1 \<Rightarrow> Some (Running (apfst (\<lambda>d. set_err (\<lambda>e. (e AND 0xffff) OR push_bit 16 (0xAB00 OR c)) (set_port i ident1_byte d))
                   (set_check E i 250 ds)))
     | IDENT2 \<Rightarrow> Some (Running ds))"

text \<open>\<open>while(keycount > 0)\<close>: the bytes are taken until there are none, or one has no port.\<close>

partial_function (option) take_bytes :: "'s ps2_env \<Rightarrow> 's drv \<Rightarrow> 's drv outcome option" where
  "take_bytes E ds =
    (if kcount (fst ds) = 0 then Some (Running ds)
     else (case query E (- 1) ds of None \<Rightarrow> None | Some (k, ds1) \<Rightarrow>
       if drop_bit 8 k AND 0xff > 3 then Some (Running ds1)
       else (case handle_byte E (unat (drop_bit 8 k AND 0xff)) (k AND 0xff) ds1 of
           None \<Rightarrow> None
         | Some (Halted ds2) \<Rightarrow> Some (Halted ds2)
         | Some (Running ds2) \<Rightarrow> take_bytes E ds2)))"

declare take_bytes.simps [code]

subsection \<open>What is due on a port\<close>

definition if_can_write :: "'s ps2_env \<Rightarrow> ('s drv \<Rightarrow> 's drv option) \<Rightarrow> 's drv \<Rightarrow> 's drv option" where
  "if_can_write E f ds = (case ps2_can_write E ds of (ok, ds1) \<Rightarrow> if ok then f ds1 else Some ds1)"

definition start_device :: "'s ps2_env \<Rightarrow> nat \<Rightarrow> 's drv \<Rightarrow> 's drv option" where
  "start_device E i ds = (case ptype (port (fst ds) ! i) of
       MOUSE3 \<Rightarrow> init_mou E (of_nat i) ds
     | MOUSE4 \<Rightarrow> init_mou E (of_nat i) ds
     | MOUSE5 \<Rightarrow> init_mou E (of_nat i) ds
     | KEYBOARD \<Rightarrow> do { ds1 \<leftarrow> init_kbd E (of_nat i) ds; Some (apfst (set_port i (\<lambda>p. p\<lparr>ptype := KEYBOARD\<rparr>)) ds1) }
     | QUERY \<Rightarrow> if_can_write E (\<lambda>ds1. port_send E 0xF2 (of_nat i) (apfst (set_port i (\<lambda>p. p\<lparr>ptype := QUERY, pstatus := IDENT\<rparr>)) ds1)) ds)"

definition timed_out :: "'s ps2_env \<Rightarrow> nat \<Rightarrow> 's drv \<Rightarrow> 's drv option" where
  "timed_out E i ds = (case pstatus (port (fst ds) ! i) of
       IDLE \<Rightarrow> if_can_write E (\<lambda>ds1. port_send E 0xF2 (of_nat i) (apfst (set_port i (\<lambda>p. p\<lparr>pstatus := IDENTE\<rparr>)) ds1)) ds
     | BUSY \<Rightarrow> Some (apfst (set_port i (\<lambda>p. p\<lparr>pstatus := IDLE\<rparr>)) (set_check E i 500 ds))
     | LOST \<Rightarrow> if_can_write E (\<lambda>ds1. do {
         ds2 \<leftarrow> port_send E 0xF2 (of_nat i) (apfst (set_port i (\<lambda>p. p\<lparr>ptype := QUERY\<rparr>)) (set_check E i 500 ds1));
         Some (apfst (set_port i (\<lambda>p. p\<lparr>pstatus := IDENT\<rparr>)) ds2) }) ds
     | IDENT \<Rightarrow> Some (apfst (set_port i (\<lambda>p. p\<lparr>pstatus := LOST\<rparr>)) (set_check E i 500 ds))
     | IDENT1 \<Rightarrow> Some (apfst (set_port i (\<lambda>p. p\<lparr>pstatus := INIT, ptype := KEYBOARD\<rparr>)) ds)
     | IDENT2 \<Rightarrow> Some (apfst (set_port i (\<lambda>p. p\<lparr>pstatus := LOST\<rparr>)) (set_check E i 500 ds))
     | _ \<Rightarrow> Some ds)"

definition clear_interrupt :: "nat \<Rightarrow> ps2 \<Rightarrow> ps2" where
  "clear_interrupt i d = d\<lparr>interupted := interupted d AND NOT (push_bit i 1)\<rparr>"

definition check_time :: "'s ps2_env \<Rightarrow> nat \<Rightarrow> 's drv \<Rightarrow> 's drv option" where
  "check_time E i ds = (case int_n E ds of (t, ds1) \<Rightarrow>
     if t > nextcheck (port (fst ds1) ! i) then timed_out E i (set_check E i 750 (apfst (clear_interrupt i) ds1)) else Some ds1)"

definition service :: "'s ps2_env \<Rightarrow> nat \<Rightarrow> 's drv \<Rightarrow> 's drv option" where
  "service E i ds =
    (if pstatus (port (fst ds) ! i) = DISABLE then Some (set_check E i 1000 ds)
     else do {
       ds1 \<leftarrow> (if pstatus (port (fst ds) ! i) = INIT then start_device E i ds else Some ds);
       check_time E i ds1 })"

definition ps2_handle :: "'s ps2_env \<Rightarrow> 's drv \<Rightarrow> 's drv outcome option" where
  "ps2_handle E ds =
    (if \<not> cinit (fst ds) then do { (ok, ds1) \<leftarrow> ps2_init E ds; Some (Running ds1) }
     else (case take_bytes E ds of None \<Rightarrow> None
       | Some (Halted ds1) \<Rightarrow> Some (Halted ds1)
       | Some (Running ds1) \<Rightarrow> do { ds2 \<leftarrow> service E 0 ds1; ds3 \<leftarrow> service E 1 ds2; Some (Running ds3) }))"

subsection \<open>The bytes are a queue\<close>

definition ps2_stored :: "ps2 \<Rightarrow> u16 list" where
  "ps2_stored d = rev (take (unat (kcount d)) (kcodes d))"

definition queue_ok :: "ps2 \<Rightarrow> bool" where
  "queue_ok d \<longleftrightarrow> length (kcodes d) = 12 \<and> kcount d \<le> 12"

lemma kcount_nat: "kcount d \<le> 12 \<longleftrightarrow> unat (kcount d) \<le> 12" "kcount d = 12 \<longleftrightarrow> unat (kcount d) = 12" "kcount d > 12 \<longleftrightarrow> unat (kcount d) > 12"
  by (simp_all add: word_le_nat_alt word_less_nat_alt word_unat_eq_iff)

lemma code_id: "(ucast (ucast (x :: u16) :: u32) :: u16) = x"
  by (rule bit_eqI) (auto simp: bit_simps)

lemma kcount_dec: "kcount d \<noteq> 0 \<Longrightarrow> Suc (unat (kcount d - 1)) = unat (kcount d)"
  by (simp add: unat_minus_one unat_gt_0)

lemma length_ps2_stored: "queue_ok d \<Longrightarrow> length (ps2_stored d) = unat (kcount d)"
  by (simp add: ps2_stored_def queue_ok_def kcount_nat)

lemma port_query_any:
  assumes "queue_ok d" "kcount d \<noteq> 0"
  shows "port_query (- 1) d = Some (ucast (hd (ps2_stored d)),
      d\<lparr>kcount := kcount d - 1, interupted := interupted d XOR (interupted d AND push_bit (unat (drop_bit 8 (hd (ps2_stored d)) AND 0xff)) 1)\<rparr>)"
    and "ps2_stored (d\<lparr>kcount := kcount d - 1, interupted := v\<rparr>) = tl (ps2_stored d)"
    and "queue_ok (d\<lparr>kcount := kcount d - 1, interupted := v\<rparr>)"
proof -
  have n: "Suc (unat (kcount d - 1)) = unat (kcount d)" using assms(2) by (rule kcount_dec)
  have l: "length (kcodes d) = 12" "unat (kcount d) \<le> 12" using assms(1) by (simp_all add: queue_ok_def kcount_nat)
  have st: "ps2_stored d = kcodes d ! unat (kcount d - 1) # rev (take (unat (kcount d - 1)) (kcodes d))"
    using n l by (metis Suc_le_lessD ps2_stored_def rev.simps(2) rev_rev_ident take_Suc_conv_app_nth rev_append append_Cons append_Nil rev_singleton_conv)
  have u: "unat (kcount d - 1) < 12" using n l by linarith
  have "kcount d - 1 \<noteq> 12" "\<not> kcount d - 1 > 12" using u by (auto simp: word_less_nat_alt)
  then show "port_query (- 1) d = Some (ucast (hd (ps2_stored d)),
      d\<lparr>kcount := kcount d - 1, interupted := interupted d XOR (interupted d AND push_bit (unat (drop_bit 8 (hd (ps2_stored d)) AND 0xff)) 1)\<rparr>)"
    using assms(2) by (simp add: port_query_def st Let_def word_neq_0_conv [symmetric])
  show "ps2_stored (d\<lparr>kcount := kcount d - 1, interupted := v\<rparr>) = tl (ps2_stored d)" by (simp add: st) (simp add: ps2_stored_def)
  show "queue_ok (d\<lparr>kcount := kcount d - 1, interupted := v\<rparr>)" using l u by (simp add: queue_ok_def word_le_nat_alt)
qed

lemma received_stored:
  assumes "queue_ok d" "kcount d \<noteq> 12"
  shows "ps2_stored (received v d) = ps2_stored d @ [v]" "queue_ok (received v d)"
proof -
  have u: "unat (kcount d) < 12" using assms by (simp add: queue_ok_def kcount_nat)
  then have n: "unat (kcount d + 1) = Suc (unat (kcount d))" by (simp add: unat_word_ariths)
  then show "ps2_stored (received v d) = ps2_stored d @ [v]" using u
    by (simp add: ps2_stored_def received_def push_keycode_def min_def)
  show "queue_ok (received v d)" using u n assms by (simp add: queue_ok_def received_def push_keycode_def word_le_nat_alt)
qed

definition next_byte :: "ps2 \<Rightarrow> u16 \<times> ps2" where
  "next_byte d = (case port_query (- 1) d of Some (k, d') \<Rightarrow> (ucast k, d') | None \<Rightarrow> (0, d))"

interpretation ps2q: bounded_fifo received next_byte "\<lambda>d. kcount d = 0" "\<lambda>d. kcount d = 12" ps2_stored "\<lambda>_. 12" queue_ok
proof (unfold_locales, goal_cases)
  case (4 q)
  then have "ps2_stored q \<noteq> []" using length_ps2_stored [of q] by (auto simp: unat_eq_zero)
  with 4 show ?case by (simp add: next_byte_def port_query_any code_id)
next
  case (5 q)
  then show ?case by (simp add: next_byte_def port_query_any code_id)
next
  case (6 q)
  then show ?case using length_ps2_stored [of q] by (auto simp: unat_eq_zero)
next
  case (7 q)
  then show ?case by (simp add: length_ps2_stored kcount_nat)
next
  case (8 q)
  then show ?case by (simp add: length_ps2_stored) (simp add: queue_ok_def kcount_nat)
qed (simp_all add: received_stored)

text \<open>The thirteenth byte: the next query reads behind the array.\<close>

lemma thirteen_bytes: "kcount d = 13 \<Longrightarrow> port_query (- 1) d = None"
  by (simp add: port_query_def)


subsection \<open>The queue of one port\<close>

definition from_port :: "u32 \<Rightarrow> u16 \<Rightarrow> bool" where
  "from_port p k \<longleftrightarrow> ucast (drop_bit 8 k) = p"

lemma from_port_not_all: "from_port p k \<Longrightarrow> p \<noteq> - 1"
proof -
  assume "from_port p k"
  moreover have "\<not> bit (ucast (drop_bit 8 k) :: u32) 31" using bit_imp_le_length [of k 39] by (auto simp: bit_simps)
  moreover have "bit (- 1 :: u32) 31" by simp
  ultimately show ?thesis unfolding from_port_def by metis
qed

lemma seek_none: "n \<le> length ks \<Longrightarrow> \<forall>x \<in> set (take n ks). \<not> from_port p x \<Longrightarrow> seek ks p n = None"
  by (induction n) (auto simp: from_port_def take_Suc_conv_app_nth)

lemma seek_some:
  "n \<le> length ks \<Longrightarrow> take n ks = us @ k # vs \<Longrightarrow> from_port p k \<Longrightarrow> \<forall>x \<in> set vs. \<not> from_port p x \<Longrightarrow>
    seek ks p n = Some (length us)"
proof (induction n arbitrary: vs)
  case (Suc n)
  have t: "take n ks @ [ks ! n] = us @ k # vs" using Suc.prems(1,2) by (simp add: take_Suc_conv_app_nth)
  show ?case
  proof (cases vs rule: rev_cases)
    case Nil
    then have "ks ! n = k" "us = take n ks" using t by simp_all
    then show ?thesis using Suc.prems by (simp add: from_port_def min_def)
  next
    case (snoc ws b)
    then have b: "ks ! n = b" and w: "take n ks = us @ k # ws" using t by (simp_all flip: append_Cons append_assoc)
    have "\<not> from_port p b" "\<forall>x \<in> set ws. \<not> from_port p x" using Suc.prems(4) snoc by simp_all
    then show ?thesis using Suc.IH [OF _ w Suc.prems(3)] Suc.prems(1) b by (simp add: from_port_def)
  qed
qed simp

text \<open>A port's query takes its oldest byte out of the queue and leaves the order of the others.\<close>

theorem oldest_of_port:
  assumes "queue_ok d" "ps2_stored d = xs @ k # ys" "from_port p k" "\<forall>x \<in> set xs. \<not> from_port p x"
  shows "\<exists>d'. port_query p d = Some (ucast k, d') \<and> ps2_stored d' = xs @ ys \<and> queue_ok d' \<and> port d' = port d"
proof -
  let ?n = "unat (kcount d)" let ?i = "length ys"
  have l: "length (kcodes d) = 12" "?n \<le> 12" using assms(1) by (simp_all add: queue_ok_def kcount_nat)
  have "take ?n (kcodes d) = rev (ps2_stored d)" by (simp add: ps2_stored_def)
  then have t: "take ?n (kcodes d) = rev ys @ k # rev xs" using assms(2) by simp
  have n: "?n = Suc (length xs + length ys)" using length_ps2_stored [OF assms(1)] assms(2) by simp
  have s: "seek (kcodes d) p ?n = Some ?i" using seek_some [OF _ t assms(3)] l assms(4) by simp
  have nth: "kcodes d ! ?i = k" using t n l by (metis length_rev nth_append_length nth_take less_add_Suc2)
  have u: "take ?i (kcodes d) = rev ys" using arg_cong [OF t, of "take ?i"] n by (simp add: min_def)
  have v: "take (length xs) (drop (Suc ?i) (kcodes d)) = rev xs"
    using arg_cong [OF t, of "drop (Suc ?i)"] n by (simp add: drop_take)
  have g: "\<not> kcount d > 12" using l by (simp add: kcount_nat)
  have m: "unat (kcount d - 1) = length xs + length ys" using kcount_dec [of d] n by (metis Suc_inject nat.simps(3) unat_eq_zero)
  let ?d = "d\<lparr>kcodes := shift_down (kcodes d) ?i ?n, kcount := kcount d - 1, interupted := interupted d XOR (interupted d AND push_bit (unat p) 1)\<rparr>"
  have "port_query p d = Some (ucast k, ?d)" using s nth g from_port_not_all [OF assms(3)] by (simp add: port_query_def)
  moreover have "ps2_stored ?d = xs @ ys" using u v n m by (simp add: ps2_stored_def shift_down_def)
  moreover have "queue_ok ?d" using l n m by (simp add: queue_ok_def shift_down_def kcount_nat word_le_nat_alt)
  ultimately show ?thesis by fastforce
qed

lemma none_of_port:
  assumes "queue_ok d" "p \<noteq> - 1" "\<forall>x \<in> set (ps2_stored d). \<not> from_port p x"
  shows "port_query p d = Some (- 1, d)"
proof -
  have "seek (kcodes d) p (unat (kcount d)) = None"
    using seek_none [of "unat (kcount d)" "kcodes d" p] assms by (simp add: queue_ok_def kcount_nat ps2_stored_def)
  then show ?thesis using assms by (simp add: port_query_def queue_ok_def kcount_nat)
qed

definition demo_port :: "ps2st \<Rightarrow> ps2type \<Rightarrow> client option \<Rightarrow> ps2_port" where
  "demo_port st ty c = \<lparr>pstatus = st, ptype = ty, nextcheck = 0, err_c = 0, cl_ptr = c\<rparr>"

text \<open>A controller with a keyboard on the first port and a mouse on the second.\<close>

definition demo_ps2 :: ps2 where
  "demo_ps2 = \<lparr>cinit = True, err_n = 0, icode = replicate 4 0, istatus = replicate 4 0, interupted = 0, kcodes = replicate 12 0, kcount = 0,
     port = [demo_port BUSY KEYBOARD (Some KBD), demo_port IDLE MOUSE3 (Some MOU), demo_port INIT QUERY None, demo_port INIT QUERY None],
     kb_drv = True, mou_drv = True,
     kbd = \<lparr>keybuf = replicate 16 0, keyev = 0, kstate = 0, keycode = 0, lastkey1 = 0, lastkey2 = 0, lastscan = 0, mods = 0\<rparr>,
     mou = demo_mouse, kb_serv = Some 0, mou_serv = Some 1\<rparr>"

lemma demo_ps2_ok: "queue_ok demo_ps2" "ps2_stored demo_ps2 = []"
  by (simp_all add: demo_ps2_def queue_ok_def ps2_stored_def)

lemma demo_received: "length vs \<le> 12 \<Longrightarrow> queue_ok (fold received vs demo_ps2) \<and> ps2_stored (fold received vs demo_ps2) = vs"
  using ps2q.burst [of demo_ps2 vs] demo_ps2_ok by simp

lemma oldest_of_port_witness:
  "\<exists>d'. port_query 1 (fold received [0x1C, 0x108, 0x1D] demo_ps2) = Some (0x108, d') \<and> ps2_stored d' = [0x1C, 0x1D]"
proof -
  have q: "queue_ok (fold received [0x1C, 0x108, 0x1D] demo_ps2)" "ps2_stored (fold received [0x1C, 0x108, 0x1D] demo_ps2) = [0x1C] @ 0x108 # [0x1D]"
    using demo_received [of "[0x1C, 0x108, 0x1D]"] by simp_all
  have "from_port 1 0x108" "\<forall>x \<in> set [0x1C]. \<not> from_port 1 x" by (simp_all add: from_port_def)
  from oldest_of_port [OF q this] show ?thesis by auto
qed

end
