(* ===== verification/Ps2Run.thy ===== *)
theory Ps2Run
  imports Ps2
begin

text \<open>
  What the PS/2 driver (\<open>src/kernel/dev/ps2.cpp\<close>) does with its ports, whatever the controller answers and whenever interrupts
  come: port access changes the queue and the error bits only, a disabled port stays as it is, and the bytes of a keyboard and
  a mouse reach their decoders in order.
\<close>

subsection \<open>What port access leaves alone\<close>

text \<open>The driver without its queue, its record of interrupts and its error bits.\<close>

definition rest :: "ps2 \<Rightarrow> ps2" where
  "rest d = d\<lparr>err_n := 0, icode := [], istatus := [], interupted := 0, kcodes := [], kcount := 0\<rparr>"

lemma rest_port: "rest d = rest d' \<Longrightarrow> port d = port d'"
  by (metis (no_types, lifting) rest_def ps2.select_convs(8) ps2.surjective ps2.update_convs(1-8))

lemma rest_fields [simp]:
  "port (rest d) = port d" "kbd (rest d) = kbd d" "mou (rest d) = mou d" "kb_serv (rest d) = kb_serv d" "mou_serv (rest d) = mou_serv d"
  "kb_drv (rest d) = kb_drv d" "mou_drv (rest d) = mou_drv d" "cinit (rest d) = cinit d"
  by (simp_all add: rest_def)

lemma rest_updates [simp]:
  "rest (d\<lparr>interupted := v\<rparr>) = rest d" "rest (d\<lparr>icode := w\<rparr>) = rest d" "rest (d\<lparr>istatus := w\<rparr>) = rest d"
  "rest (d\<lparr>kcodes := ks\<rparr>) = rest d" "rest (d\<lparr>kcount := n\<rparr>) = rest d" "rest (set_err f d) = rest d" "rest (received c d) = rest d"
  "rest (clear_interrupt i d) = rest d"
  by (simp_all add: rest_def set_err_def received_def push_keycode_def clear_interrupt_def)

lemma rest_irq_handle [simp]: "rest (fst (irq_handle io ds)) = rest (fst ds)"
  by (auto simp: irq_handle_def split: prod.splits)

lemma rest_irqs [simp]: "rest (fst (irqs io n ds)) = rest (fst ds)"
  by (induction n arbitrary: ds) simp_all

lemma rest_settle [simp]: "rest (fst (settle E ds)) = rest (fst ds)"
  by (simp add: settle_def split: prod.splits)

lemma rest_rd [simp]: "rest (fst (snd (rd E p ds))) = rest (fst ds)"
  by (simp add: rd_def split: prod.splits)

lemma rest_wr [simp]: "rest (fst (wr E p v ds)) = rest (fst ds)"
  by (simp add: wr_def)

lemma rest_int_n [simp]: "rest (fst (snd (int_n E ds))) = rest (fst ds)"
  by (simp add: int_n_def split: prod.splits)

lemma rest_get_read: "ps2_get_read E ds = Some r \<Longrightarrow> rest (fst (snd r)) = rest (fst ds)"
proof (induction E ds r rule: ps2_get_read.raw_induct [rotated, consumes 1])
  case (1 f E ds r)
  show ?case
  proof (cases "fst (rd E 0x64 ds) AND 1 = 0")
    case True
    then have "f E (snd (rd E 0x64 ds)) = Some r" using 1(2) by (simp add: split_beta)
    from 1(1) [OF this] show ?thesis by simp
  next
    case False
    then show ?thesis using 1(2) by (auto simp: split_beta)
  qed
qed

lemma rest_wait_fwrite: "ps2_wait_fwrite E ds = Some r \<Longrightarrow> rest (fst r) = rest (fst ds)"
proof (induction E ds r rule: ps2_wait_fwrite.raw_induct [rotated, consumes 1])
  case (1 f E ds r)
  then show ?case by (cases "write_busy (fst (rd E 0x64 ds))") (fastforce simp: split_beta)+
qed

lemma rest_wait_irq: "wait_irq E lim ds = Some r \<Longrightarrow> rest (fst r) = rest (fst ds)"
proof (induction E lim ds r rule: wait_irq.raw_induct [rotated, consumes 1])
  case (1 f E lim ds r)
  then show ?case by (fastforce simp: split_beta split: if_splits)
qed

lemma rest_drain: "drain_controller E ds = Some r \<Longrightarrow> rest (fst r) = rest (fst ds)"
proof (induction E ds r rule: drain_controller.raw_induct [rotated, consumes 1])
  case (1 f E ds r)
  let ?d = "if fst (rd E 0x64 ds) AND 1 \<noteq> 0 then snd (rd E 0x60 (snd (rd E 0x64 ds))) else snd (rd E 0x64 ds)"
  have d: "rest (fst ?d) = rest (fst ds)" by simp
  show ?case
  proof (cases "fst (rd E 0x64 ds) AND 2 = 0")
    case True
    then show ?thesis using 1(2) d by (simp add: split_beta Let_def)
  next
    case False
    then have "f E ?d = Some r" using 1(2) by (simp add: split_beta Let_def)
    from 1(1) [OF this] d show ?thesis by simp
  qed
qed

lemma rest_send_data: "ps2_send_data E v ds = Some r \<Longrightarrow> rest (fst r) = rest (fst ds)"
  by (auto simp: ps2_send_data_def bind_eq_Some_conv dest: rest_wait_fwrite)

lemma rest_send_cmd: "send_cmd E v ds = Some r \<Longrightarrow> rest (fst r) = rest (fst ds)"
  by (auto simp: send_cmd_def bind_eq_Some_conv dest: rest_wait_fwrite)

lemma rest_port_send: "port_send E v u ds = Some r \<Longrightarrow> rest (fst r) = rest (fst ds)"
  by (auto simp: port_send_def bind_eq_Some_conv split: if_splits dest!: rest_send_data rest_send_cmd)

lemma rest_ask: "ask E v ds = Some r \<Longrightarrow> rest (fst (snd r)) = rest (fst ds)"
  by (auto simp: ask_def bind_eq_Some_conv dest!: rest_get_read rest_wait_fwrite rest_send_cmd)

lemma rest_system_reset: "system_reset E ds = Some r \<Longrightarrow> rest (fst r) = rest (fst ds)"
  by (auto simp: system_reset_def bind_eq_Some_conv dest: rest_drain)

lemma rest_port_query: "port_query p d = Some (k, d') \<Longrightarrow> rest d' = rest d"
  by (auto simp: port_query_def Let_def split: if_splits option.splits)

lemma rest_query: "query E p ds = Some r \<Longrightarrow> rest (fst (snd r)) = rest (fst ds)"
  by (auto simp: query_def split: prod.splits option.splits dest!: rest_port_query) (metis fst_conv rest_settle)

subsection \<open>Clients leave it alone too\<close>

definition keeps :: "ps2 \<Rightarrow> 's drv option \<Rightarrow> bool" where
  "keeps r w \<longleftrightarrow> (case w of None \<Rightarrow> True | Some ds \<Rightarrow> rest (fst ds) = r)"

lemma keeps_send: "keeps r w \<Longrightarrow> keeps r (client_send E u v w)"
  by (auto simp: keeps_def client_send_def split: option.splits dest: rest_port_send)

lemma keeps_req: "keeps r w \<Longrightarrow> keeps r (snd (client_req E u w))"
  by (auto simp: keeps_def client_req_def split: option.splits dest: rest_query)

text \<open>What sending and querying keep, the exchanges of the two drivers keep.\<close>

lemma flush_port_keeps: "flush_port req s = Some r \<Longrightarrow> (\<And>s. Q s \<Longrightarrow> Q (snd (req s))) \<Longrightarrow> Q s \<Longrightarrow> Q r"
proof (induction req s r rule: flush_port.raw_induct [rotated, consumes 1])
  case (1 f req s r)
  have "Q (snd (req s))" using 1(3,4) by simp
  then show ?case using 1(1) [OF _ 1(3)] 1(2) by (auto simp: split_beta split: if_splits)
qed

locale port_client =
  fixes send :: "u8 \<Rightarrow> 's \<Rightarrow> 's" and req :: "'s \<Rightarrow> u32 \<times> 's" and Q :: "'s \<Rightarrow> bool"
  assumes send_keeps: "Q s \<Longrightarrow> Q (send v s)" and req_keeps: "Q s \<Longrightarrow> Q (snd (req s))"
begin

lemma cmd_loop_keeps: "Q s \<Longrightarrow> Q (snd (cmd_loop send req n v s))"
proof (induction n arbitrary: s)
  case (Suc n)
  have "Q (snd (req (send v s)))" using Suc.prems by (simp add: send_keeps req_keeps)
  then show ?case using Suc.IH by (simp add: split_beta Let_def)
qed simp

lemma kbd_cmd_keeps: "Q s \<Longrightarrow> Q (snd (kbd_cmd (Some (send, req)) v s))"
  by (simp add: kbd_cmd_def cmd_loop_keeps)

lemma kbd_init_keeps: "Q s \<Longrightarrow> Q (snd (snd (kbd_init (Some (send, req)) kb s)))"
  by (simp add: kbd_init_def Let_def split_beta kbd_cmd_keeps send_data_def send_keeps)

lemma mou_cmds_keeps: "Q s \<Longrightarrow> Q (snd (mou_cmds (Some (send, req)) vs s))"
  by (induction vs arbitrary: s) (simp_all add: mou_cmd_def split_beta cmd_loop_keeps)

lemma mouse_id_keeps: "Q s \<Longrightarrow> Q (snd (mouse_id req i y n s))"
  by (simp add: mouse_id_def split_beta req_keeps)

lemma mouse_init_keeps:
  assumes "mouse_init send req mo s = Some r" "Q s"
  shows "Q (snd (snd r))"
proof -
  let ?c = "mou_cmds (Some (send, req))"
  obtain s0 where f: "flush_port req s = Some s0"
    using assms(1) by (auto simp: mouse_init_def Let_def bind_eq_Some_conv)
  have q0: "Q s0" using flush_port_keeps [OF f, of Q] req_keeps assms(2) by blast
  obtain ok1 s1 where e1: "?c [0xf6, 0xf5, 0xf3, 200, 0xf3, 100, 0xf3, 80, 0xf2] s0 = (ok1, s1)" by (meson surj_pair)
  have q1: "Q s1" using mou_cmds_keeps [OF q0] e1 by (metis snd_conv)
  obtain tm s2 where e2: "mouse_id req 3 2 1 s1 = (tm, s2)" by (meson surj_pair)
  have q2: "Q s2" using mouse_id_keeps [OF q1] e2 by (metis snd_conv)
  obtain ok3 s3 where e3: "(if tm = 2 then ?c [0xf3, 200, 0xf3, 200, 0xf3, 80, 0xf2] s2 else (True, s2)) = (ok3, s3)" by (meson surj_pair)
  have q3: "Q s3" using mou_cmds_keeps [OF q2] e3 q2 by (metis snd_conv)
  obtain tm4 s4 where e4: "(if tm = 2 then mouse_id req 4 3 2 s3 else (tm, s3)) = (tm4, s4)" by (meson surj_pair)
  have q4: "Q s4" using mouse_id_keeps [OF q3] e4 q3 by (metis snd_conv)
  obtain ok5 s5 where e5: "?c [0xf4] s4 = (ok5, s5)" by (meson surj_pair)
  have q5: "Q s5" using mou_cmds_keeps [OF q4] e5 by (metis snd_conv)
  have "s1 = snd (snd r) \<or> s3 = snd (snd r) \<or> s5 = snd (snd r)"
    using assms(1) by (auto simp: mouse_init_def Let_def f e1 e2 e3 e4 e5 simp del: mou_cmds.simps split: if_splits)
  then show ?thesis using q1 q3 q5 by metis
qed

end

lemma keeps_client: "port_client (client_send E u) (client_req E u) (keeps r)"
  by (simp add: port_client.intro keeps_send keeps_req)

interpretation service_client: port_client "client_send E u" "client_req E u" "keeps r" for E u r
  by (rule keeps_client)

subsection \<open>A disabled port\<close>

text \<open>Port \<open>i\<close> is \<open>p0\<close>, but for the time of its next check.\<close>

definition holds :: "nat \<Rightarrow> ps2_port \<Rightarrow> ps2 \<Rightarrow> bool" where
  "holds i p0 d \<longleftrightarrow> length (port d) = 4 \<and> (port d ! i)\<lparr>nextcheck := 0\<rparr> = p0"

lemma holds_rest: "rest d' = rest d \<Longrightarrow> holds i p0 d \<Longrightarrow> holds i p0 d'"
  by (drule rest_port) (simp add: holds_def)

lemma holds_set_port: "holds i p0 d \<Longrightarrow> j \<noteq> i \<Longrightarrow> holds i p0 (set_port j f d)"
  by (simp add: holds_def set_port_def)

lemma holds_other [simp]:
  "holds i p0 (d\<lparr>kbd := k\<rparr>) = holds i p0 d" "holds i p0 (d\<lparr>mou := m\<rparr>) = holds i p0 d" "holds i p0 (d\<lparr>cinit := b\<rparr>) = holds i p0 d"
  "holds i p0 (set_err g d) = holds i p0 d" "holds i p0 (serve c v d) = holds i p0 d" "holds i p0 (clear_interrupt j d) = holds i p0 d"
  by (auto simp: holds_def set_err_def serve_def clear_interrupt_def split: client.splits)

lemma holds_set_check: "holds i p0 (fst ds) \<Longrightarrow> i < 4 \<Longrightarrow> holds i p0 (fst (set_check E j n ds))"
proof -
  assume h: "holds i p0 (fst ds)" and i: "i < 4"
  have "holds i p0 (fst (snd (int_n E ds)))" using holds_rest [OF rest_int_n h] .
  then show ?thesis using i by (cases "j = i") (simp_all add: set_check_def split_beta holds_def set_port_def)
qed

lemma holds_remove_client: "holds i p0 d \<Longrightarrow> unat u \<noteq> i \<Longrightarrow> holds i p0 (remove_client c u d)"
  by (auto simp: remove_client_def clear_client_def holds_set_port split: option.splits)

lemma small_index: "j < 4 \<Longrightarrow> unat (of_nat j :: u32) = j" "j < 4 \<Longrightarrow> (of_nat j :: u32) \<le> 3"
  by (simp_all add: unsigned_of_nat take_bit_nat_eq_self word_le_nat_alt)

lemma holds_signal_loss: "holds i p0 d \<Longrightarrow> j \<noteq> i \<Longrightarrow> j < 4 \<Longrightarrow> holds i p0 (signal_loss j d)"
  by (simp add: signal_loss_def Let_def holds_set_port holds_remove_client small_index)

lemma holds_add_client: "holds i p0 d \<Longrightarrow> unat u \<noteq> i \<Longrightarrow> holds i p0 (add_client c u d)"
  by (auto simp: add_client_def holds_set_port split: option.splits)

lemma holds_init_kbd:
  assumes "init_kbd E u ds = Some r" "holds i p0 (fst ds)" "unat u \<noteq> i" "u \<le> 3"
  shows "holds i p0 (fst r)"
proof (cases "kb_drv (fst ds)")
  case True
  let ?ds1 = "apfst (add_client (Some KBD) u) ds"
  have s: "kb_serv (fst ?ds1) = Some u" using leD [OF assms(4)] by (simp add: add_client_def serve_def)
  let ?w = "snd (snd (kbd_init (Some (client_send E u, client_req E u)) (kbd (fst ?ds1)) (Some ?ds1)))"
  have k: "keeps (rest (fst ?ds1)) ?w" by (rule service_client.kbd_init_keeps) (simp add: keeps_def)
  obtain ds2 where w: "?w = Some ds2" using assms(1) True s by (auto simp: init_kbd_def Let_def split_beta split: option.splits)
  have "holds i p0 (fst ds2)" using k holds_rest [of "fst ds2" "fst ?ds1"] w assms holds_add_client by (simp add: keeps_def)
  then show ?thesis using assms(1,3) True s w by (auto simp: init_kbd_def Let_def split_beta holds_set_port)
next
  case False
  then show ?thesis using assms by (auto simp: init_kbd_def holds_set_port)
qed

lemma holds_init_mou:
  assumes "init_mou E u ds = Some r" "holds i p0 (fst ds)" "unat u \<noteq> i" "u \<le> 3"
  shows "holds i p0 (fst r)"
proof (cases "mou_drv (fst ds)")
  case True
  let ?ds1 = "apfst (add_client (Some MOU) u) ds"
  have s: "mou_serv (fst ?ds1) = Some u" using leD [OF assms(4)] by (simp add: add_client_def serve_def)
  obtain ok m ds2 where w: "mouse_init (client_send E u) (client_req E u) (mou (fst ?ds1)) (Some ?ds1) = Some (ok, m, Some ds2)"
    using assms(1) True s by (auto simp: init_mou_def Let_def split: option.splits)
  have k: "keeps (rest (fst ?ds1)) (Some ds2)" using service_client.mouse_init_keeps [OF w] by (simp add: keeps_def)
  have "holds i p0 (fst ds2)" using k holds_rest [of "fst ds2" "fst ?ds1"] assms holds_add_client by (simp add: keeps_def)
  then show ?thesis using assms(1,3) True s w by (auto simp: init_mou_def Let_def holds_set_port)
next
  case False
  then show ?thesis using assms by (auto simp: init_mou_def holds_set_port)
qed

fun machine :: "'a outcome \<Rightarrow> 'a" where
  "machine (Running x) = x"
| "machine (Halted x) = x"

lemma holds_client_byte:
  "client_byte E j c ds = Some r \<Longrightarrow> holds i p0 (fst ds) \<Longrightarrow> holds i p0 (fst (machine r))"
  by (auto simp: client_byte_def bind_eq_Some_conv split: option.splits client.splits sum.splits halted.splits
      dest!: rest_system_reset elim: holds_rest)

lemma holds_echo_byte: "holds i p0 d \<Longrightarrow> j \<noteq> i \<Longrightarrow> j < 4 \<Longrightarrow> holds i p0 (echo_byte j c d)"
  by (simp add: echo_byte_def Let_def holds_set_port holds_signal_loss)

lemma holds_status: "holds i p0 d \<Longrightarrow> pstatus (port d ! i) = pstatus p0"
  by (auto simp: holds_def)

lemma holds_handle_byte:
  assumes "handle_byte E j c ds = Some r" "holds i p0 (fst ds)" "pstatus p0 = DISABLE" "j < 4" "i < 4"
  shows "holds i p0 (fst (machine r))"
proof (cases "j = i")
  case True
  then have "r = Running ds" using assms(1,3) holds_status [OF assms(2)] by (simp add: handle_byte_def)
  then show ?thesis using assms(2) by simp
next
  case False
  then show ?thesis using assms
    by (auto simp: handle_byte_def holds_set_port holds_set_check holds_echo_byte split: ps2st.splits dest!: holds_client_byte)
qed

lemma holds_take_bytes:
  "take_bytes E ds = Some r \<Longrightarrow> holds i p0 (fst ds) \<Longrightarrow> pstatus p0 = DISABLE \<Longrightarrow> i < 4 \<Longrightarrow> holds i p0 (fst (machine r))"
proof (induction E ds r rule: take_bytes.raw_induct [rotated, consumes 1])
  case (1 f E ds r)
  show ?case
  proof (cases "kcount (fst ds) = 0")
    case True
    then show ?thesis using 1 by auto
  next
    case False
    then obtain k ds1 where q: "query E (- 1) ds = Some (k, ds1)" using 1(2) by (auto split: option.splits)
    have h1: "holds i p0 (fst ds1)" using rest_query [OF q] 1(3) by (auto elim: holds_rest)
    show ?thesis
    proof (cases "drop_bit 8 k AND 0xff > (3 :: u32)")
      case True
      then show ?thesis using 1(2) False q h1 by auto
    next
      case small: False
      let ?j = "unat (drop_bit 8 k AND 0xff)"
      have j: "?j < 4" using small by (simp add: word_less_nat_alt)
      obtain x where hb: "handle_byte E ?j (k AND 0xff) ds1 = Some x" using 1(2) False q small by (auto split: option.splits)
      have h2: "holds i p0 (fst (machine x))" using holds_handle_byte [OF hb h1 1(4) j 1(5)] .
      then show ?thesis using 1(1) [OF _ _ 1(4,5)] 1(2) False q small hb by (cases x) auto
    qed
  qed
qed

lemma holds_rd: "holds i p0 (fst ds) \<Longrightarrow> holds i p0 (fst (snd (rd E p ds)))"
  by (rule holds_rest [OF rest_rd])

lemma holds_int_n: "holds i p0 (fst ds) \<Longrightarrow> holds i p0 (fst (snd (int_n E ds)))"
  by (rule holds_rest [OF rest_int_n])

lemma holds_port_send: "port_send E v u ds = Some r \<Longrightarrow> holds i p0 (fst ds) \<Longrightarrow> holds i p0 (fst r)"
  by (rule holds_rest [OF rest_port_send])

lemmas holds_rules = holds_set_port holds_set_check holds_rd holds_int_n

lemma holds_timed_out:
  assumes "timed_out E j ds = Some r" "holds i p0 (fst ds)" "j \<noteq> i" "i < 4"
  shows "holds i p0 (fst r)"
  using assms
  by (auto simp: timed_out_def if_can_write_def ps2_can_write_def split_beta holds_rules bind_eq_Some_conv
      split: ps2st.splits if_splits dest!: holds_port_send [where i = i and ?p0.0 = p0])

lemma holds_start_device:
  assumes "start_device E j ds = Some r" "holds i p0 (fst ds)" "j \<noteq> i" "j < 4"
  shows "holds i p0 (fst r)"
  using assms
  by (auto simp: start_device_def if_can_write_def ps2_can_write_def split_beta holds_rules bind_eq_Some_conv small_index
      split: ps2type.splits if_splits dest!: holds_port_send [where i = i and ?p0.0 = p0] holds_init_mou [where i = i and ?p0.0 = p0] holds_init_kbd [where i = i and ?p0.0 = p0])

lemma holds_check_time:
  assumes "check_time E j ds = Some r" "holds i p0 (fst ds)" "j \<noteq> i" "i < 4"
  shows "holds i p0 (fst r)"
  using assms
  by (auto simp: check_time_def split_beta holds_rules split: if_splits dest!: holds_timed_out [where i = i and ?p0.0 = p0])

lemma holds_service:
  assumes "service E j ds = Some r" "holds i p0 (fst ds)" "pstatus p0 = DISABLE" "i < 4" "j < 4"
  shows "holds i p0 (fst r)"
proof (cases "j = i")
  case True
  then have "r = set_check E i 1000 ds" using assms(1,3) holds_status [OF assms(2)] by (simp add: service_def)
  then show ?thesis using assms(2,4) by (simp add: holds_set_check)
next
  case False
  then show ?thesis using assms
    by (auto simp: service_def holds_set_check bind_eq_Some_conv split: if_splits dest!: holds_check_time [where i = i and ?p0.0 = p0] holds_start_device [where i = i and ?p0.0 = p0])
qed

lemma holds_second_port:
  assumes "second_port E ds = Some r" "holds i p0 (fst ds)" "pstatus p0 = DISABLE" "i < 4"
  shows "holds i p0 (fst r)"
proof -
  obtain ds1 ds2 ds4 where "send_cmd E 0xD4 ds = Some ds1" "ps2_send_data E 0xff ds1 = Some ds2"
    and "wait_irq E (fst (int_n E ds2) + 20) (snd (int_n E ds2)) = Some ds4"
    and r: "r = apfst (\<lambda>d. if interupted d AND 2 \<noteq> 0 then set_err (\<lambda>e. e OR 0x200) d else set_port 1 (\<lambda>p. p\<lparr>pstatus := DISABLE\<rparr>) d) ds4"
    using assms(1) by (auto simp: second_port_def bind_eq_Some_conv split_beta)
  then have h: "holds i p0 (fst ds4)" using holds_rest [OF _ assms(2)] rest_send_cmd rest_send_data rest_wait_irq rest_int_n by metis
  show ?thesis
  proof (cases "i = 1")
    case True
    then show ?thesis using h assms(3) unfolding r by (auto simp: holds_def set_port_def set_err_def)
  next
    case False
    then show ?thesis using h unfolding r by (simp add: holds_set_port)
  qed
qed

lemma holds_access:
  "send_cmd E v ds = Some r \<Longrightarrow> holds i p0 (fst ds) \<Longrightarrow> holds i p0 (fst r)"
  "ps2_send_data E v ds = Some r \<Longrightarrow> holds i p0 (fst ds) \<Longrightarrow> holds i p0 (fst r)"
  "ask E v ds = Some q \<Longrightarrow> holds i p0 (fst ds) \<Longrightarrow> holds i p0 (fst (snd q))"
  using holds_rest rest_send_cmd rest_send_data rest_ask by metis+

lemma holds_start_ports:
  assumes "start_ports E c ds = Some r" "holds i p0 (fst ds)" "pstatus p0 = DISABLE" "i < 4"
  shows "holds i p0 (fst (snd r))"
proof -
  obtain ds1 ds2 c2 ds3 where a: "send_cmd E 0x60 ds = Some ds1" "ps2_send_data E (c OR 0x03) ds1 = Some ds2" "ask E 0x20 ds2 = Some (c2, ds3)"
    using assms(1) by (auto simp: start_ports_def bind_eq_Some_conv)
  have h3: "holds i p0 (fst ds3)" using holds_access(3) [OF a(3)] holds_access(2) [OF a(2)] holds_access(1) [OF a(1) assms(2)] by simp
  define ds4 where "ds4 = (if c2 AND 1 \<noteq> 0 then apfst (set_err (\<lambda>e. e OR 0x10)) ds3 else ds3)"
  define ds5 where "ds5 = (if c2 AND 2 \<noteq> 0 then apfst (set_err (\<lambda>e. e OR 0x100)) ds4 else ds4)"
  have h5: "holds i p0 (fst ds5)" using h3 by (simp add: ds4_def ds5_def)
  have eq: "start_ports E c ds = (if c2 AND 3 = 0 then Some (False, apfst (set_err (\<lambda>e. e XOR 0x4)) ds5)
     else do { ds6 \<leftarrow> send_cmd E 0xAE ds5; ds7 \<leftarrow> send_cmd E 0xA8 ds6; ds8 \<leftarrow> second_port E (apfst (\<lambda>d. d\<lparr>cinit := True\<rparr>) ds7); Some (True, ds8) })"
    unfolding ds5_def ds4_def start_ports_def by (simp add: a Let_def)
  show ?thesis
  proof (cases "c2 AND 3 = 0")
    case True
    then show ?thesis using assms(1) h5 unfolding eq by auto
  next
    case False
    obtain ds6 ds7 ds8 where b: "send_cmd E 0xAE ds5 = Some ds6" "send_cmd E 0xA8 ds6 = Some ds7"
        "second_port E (apfst (\<lambda>d. d\<lparr>cinit := True\<rparr>) ds7) = Some ds8" "r = (True, ds8)"
      using assms(1) False unfolding eq by (auto simp: bind_eq_Some_conv)
    have "holds i p0 (fst ds7)" using holds_access(1) [OF b(2)] holds_access(1) [OF b(1) h5] by simp
    then show ?thesis using holds_second_port [OF b(3) _ assms(3,4)] b(4) by simp
  qed
qed

lemma holds_self_test:
  assumes "self_test E ds = Some r" "holds i p0 (fst ds)"
  shows "holds i p0 (fst (snd r))"
  using assms
  by (auto simp: self_test_def bind_eq_Some_conv split: if_splits dest!: holds_access [where i = i and ?p0.0 = p0])

lemma holds_init:
  assumes "ps2_init E ds = Some r" "holds i p0 (fst ds)" "pstatus p0 = DISABLE" "i < 4"
  shows "holds i p0 (fst (snd r))"
proof -
  define ds0 where "ds0 = apfst (\<lambda>d. (set_err (\<lambda>e. e AND 0xF777) d)\<lparr>cinit := False\<rparr>) ds"
  have h0: "holds i p0 (fst ds0)" using assms(2) by (simp add: ds0_def)
  obtain ok ds1 where a: "(if err_n (fst ds0) AND 0x4 = 0 then self_test E ds0 else Some (True, ds0)) = Some (ok, ds1)"
    using assms(1) by (auto simp: ps2_init_def bind_eq_Some_conv simp flip: ds0_def)
  have h1: "holds i p0 (fst ds1)" using a h0 holds_self_test [OF _ h0] by (fastforce split: if_splits)
  show ?thesis
  proof (cases ok)
    case False
    then show ?thesis using assms(1) a h1 by (auto simp: ps2_init_def simp flip: ds0_def)
  next
    case True
    obtain c ds2 ds3 ds4 t ds5 where b: "ask E 0x20 ds1 = Some (c, ds2)" "send_cmd E 0x60 ds2 = Some ds3"
        "ps2_send_data E (c AND 0x34) ds3 = Some ds4" "ask E 0xAB ds4 = Some (t, ds5)"
      using assms(1) a True by (auto simp: ps2_init_def bind_eq_Some_conv simp flip: ds0_def)
    have "holds i p0 (fst ds2)" using holds_access(3) [OF b(1) h1] by simp
    from holds_access(1) [OF b(2) this] have h4: "holds i p0 (fst ds4)" by (rule holds_access(2) [OF b(3)])
    then have h5: "holds i p0 (fst ds5)" using holds_access(3) [OF b(4)] by simp
    show ?thesis
    proof (cases "t = 0")
      case False
      then show ?thesis using assms(1) a True b h5 by (auto simp: ps2_init_def simp flip: ds0_def)
    next
      case t: True
      obtain t2 ds6 where e: "ask E 0xA9 ds5 = Some (t2, ds6)"
        using assms(1) a True b t by (auto simp: ps2_init_def bind_eq_Some_conv simp flip: ds0_def)
      define ds7 where "ds7 = (if t2 \<noteq> 0 then apfst (set_err (\<lambda>e. e OR 0x800)) ds6 else ds6)"
      have h7: "holds i p0 (fst ds7)" using holds_access(3) [OF e h5] by (simp add: ds7_def)
      have "r = (False, ds7) \<or> start_ports E (c AND 0x34) ds7 = Some r"
        using assms(1) a True b t e by (auto simp: ps2_init_def Let_def simp flip: ds0_def ds7_def split: if_splits)
      then show ?thesis using h7 holds_start_ports [of E "c AND 0x34" ds7 r, OF _ h7 assms(3,4)] by fastforce
    qed
  qed
qed

lemma same_port: "q\<lparr>nextcheck := 0\<rparr> = p\<lparr>nextcheck := 0\<rparr> \<Longrightarrow> q = p\<lparr>nextcheck := nextcheck q\<rparr>"
  by (cases p; cases q) simp

text \<open>C39 Whatever the devices answer, a disabled port stays as it is, but for the time of its next check.\<close>

theorem disabled_stays:
  assumes "ps2_handle E (d, s) = Some r" "length (port d) = 4" "i < 4" "pstatus (port d ! i) = DISABLE"
  shows "port (fst (machine r)) ! i = (port d ! i)\<lparr>nextcheck := nextcheck (port (fst (machine r)) ! i)\<rparr>"
proof -
  let ?p = "(port d ! i)\<lparr>nextcheck := 0\<rparr>"
  have h: "holds i ?p (fst (d, s))" using assms(2) by (simp add: holds_def)
  have st: "pstatus ?p = DISABLE" using assms(4) by simp
  have "holds i ?p (fst (machine r))"
  proof (cases "cinit d")
    case False
    then show ?thesis using assms(1) holds_init [OF _ h st assms(3)] by (auto simp: ps2_handle_def bind_eq_Some_conv)
  next
    case True
    then obtain x where x: "take_bytes E (d, s) = Some x" using assms(1) by (auto simp: ps2_handle_def split: option.splits)
    have hx: "holds i ?p (fst (machine x))" using holds_take_bytes [OF x h st assms(3)] .
    show ?thesis
    proof (cases x)
      case (Halted y)
      then show ?thesis using assms(1) True x hx by (auto simp: ps2_handle_def)
    next
      case (Running y)
      then obtain y1 y2 where sv: "service E 0 y = Some y1" "service E 1 y1 = Some y2" "r = Running y2"
        using assms(1) True x by (auto simp: ps2_handle_def bind_eq_Some_conv)
      have "holds i ?p (fst y)" using hx Running by simp
      then have "holds i ?p (fst y1)" by (rule holds_service [OF sv(1) _ st assms(3)]) simp
      then have "holds i ?p (fst y2)" by (rule holds_service [OF sv(2) _ st assms(3)]) simp
      then show ?thesis using sv(3) by simp
    qed
  qed
  then show ?thesis by (intro same_port) (simp add: holds_def)
qed

definition quiet_env :: "unit ps2_env" where
  "quiet_env = \<lparr>hw = \<lparr>inb = (\<lambda>p s. (0, s)), outb = (\<lambda>p v s. s), inl = (\<lambda>p s. (0, s)), outl = (\<lambda>p v s. s), ticks = (\<lambda>s. (7, s))\<rparr>, arrive = (\<lambda>s. (0, s))\<rparr>"

definition demo_disabled :: ps2 where
  "demo_disabled = received 0x1C (port_enable 0 False demo_ps2)"

lemma disabled_stays_witness:
  "pstatus (port (fst (machine (the (ps2_handle quiet_env (demo_disabled, ()))))) ! 0) = DISABLE"
proof -
  have "\<not> Option.is_none (ps2_handle quiet_env (demo_disabled, ()))" by code_simp
  then obtain r where r: "ps2_handle quiet_env (demo_disabled, ()) = Some r" by (auto simp: Option.is_none_def)
  have "length (port demo_disabled) = 4" "pstatus (port demo_disabled ! 0) = DISABLE" by code_simp+
  from disabled_stays [OF r this(1) _ this(2)] this(2) show ?thesis
    by (metis option.sel ps2_port.ext_inject ps2_port.surjective ps2_port.update_convs(3) zero_less_numeral r)
qed

subsection \<open>From the wire to the decoders\<close>

text \<open>The entry of the queue for a byte of the first or the second port.\<close>

definition coded :: "bool \<times> u8 \<Rightarrow> u16" where
  "coded e = (if fst e then ucast (snd e) OR 0x100 else ucast (snd e))"

definition bytes_of :: "bool \<Rightarrow> (bool \<times> u8) list \<Rightarrow> u8 list" where
  "bytes_of m evs = map snd (filter (\<lambda>e. fst e = m) evs)"

text \<open>A keyboard on the first port and a mouse on the second, both at work.\<close>

definition serving :: "ps2 \<Rightarrow> bool" where
  "serving d \<longleftrightarrow> length (port d) = 4 \<and> pstatus (port d ! 0) \<in> {IDLE, BUSY} \<and> pstatus (port d ! 1) \<in> {IDLE, BUSY}
     \<and> cl_ptr (port d ! 0) = Some KBD \<and> cl_ptr (port d ! 1) = Some MOU"

definition no_interrupts :: "'s ps2_env \<Rightarrow> bool" where
  "no_interrupts E \<longleftrightarrow> (\<forall>s. arrive E s = (0, s))"

lemma calm_settle: "no_interrupts E \<Longrightarrow> settle E ds = ds"
  by (simp add: settle_def no_interrupts_def)

lemma calm_int_n: "no_interrupts E \<Longrightarrow> fst (snd (int_n E ds)) = fst ds"
  by (simp add: int_n_def calm_settle split_beta)

lemma calm_set_check: "no_interrupts E \<Longrightarrow> fst (set_check E i n ds) = set_port i (\<lambda>p. p\<lparr>nextcheck := fst (int_n E ds) + n\<rparr>) (fst ds)"
  by (simp add: set_check_def split_beta calm_int_n)

lemma code_bit: "bit (x :: u8) n \<Longrightarrow> n < 8"
  using bit_imp_le_length [of x n] by simp

lemma coded_parts:
  "(drop_bit 8 (ucast (coded (m, b)) :: u32) AND 0xff) = (if m then 1 else 0)"
  "(ucast (ucast (coded (m, b)) AND 0xff :: u32) :: u8) = b"
proof -
  have e: "(0xff :: u32) = mask 8" by (simp add: mask_eq_exp_minus_1)
  have "bit (2 ^ 8 :: int) n = (n = 8)" for n by (simp only: bit_exp_iff) simp
  then have h: "bit (0x100 :: int) n = (n = 8)" for n by simp
  show "(drop_bit 8 (ucast (coded (m, b)) :: u32) AND 0xff) = (if m then 1 else 0)" unfolding coded_def e
    by (rule bit_eqI) (auto simp: bit_simps bit_1_iff h dest: code_bit)
  show "(ucast (ucast (coded (m, b)) AND 0xff :: u32) :: u8) = b" unfolding coded_def e
    by (rule bit_eqI) (auto simp: bit_simps bit_1_iff h dest: code_bit)
qed

lemma serving_set_port:
  assumes "serving d" "\<And>p. cl_ptr (f p) = cl_ptr p" "\<And>p. pstatus (f p) \<in> {pstatus p, BUSY}"
  shows "serving (set_port i f d)"
proof -
  have a: "pstatus (f q) \<in> {IDLE, BUSY}" if "pstatus q \<in> {IDLE, BUSY}" for q using assms(3) [of q] that by (auto simp del: insert_iff simp: insert_iff)
  have b: "port (set_port i f d) ! j = (if j = i then f (port d ! j) else port d ! j)" if "j < 2" for j
    using that assms(1) by (auto simp: set_port_def serving_def nth_list_update)
  show ?thesis using assms(1) a b [of 0] b [of 1] by (simp add: serving_def assms(2)) (auto simp: set_port_def)
qed

text \<open>One byte goes to the decoder of its port; the queue is as it was.\<close>

lemma handle_byte_serving:
  assumes "no_interrupts E" "serving d" "m \<or> port_data b (kbd d) = Inr k"
  shows "\<exists>d' s'. handle_byte E (if m then 1 else 0) (ucast (coded (m, b)) AND 0xff) (d, s) = Some (Running (d', s')) \<and> serving d'
    \<and> kbd d' = (if m then kbd d else k) \<and> mou d' = (if m then mouse_data b (mou d) else mou d)
    \<and> kcodes d' = kcodes d \<and> kcount d' = kcount d"
proof -
  let ?i = "if m then 1 else 0 :: nat"
  have stage: "\<exists>d1 s1. handle_byte E ?i (ucast (coded (m, b)) AND 0xff) (d, s) = client_byte E ?i b (d1, s1) \<and> serving d1
     \<and> kbd d1 = kbd d \<and> mou d1 = mou d \<and> kcodes d1 = kcodes d \<and> kcount d1 = kcount d"
  proof (cases "pstatus (port d ! ?i) = IDLE")
    case True
    let ?ds = "set_check E ?i 500 (set_port ?i (\<lambda>p. p\<lparr>pstatus := BUSY\<rparr>) d, s)"
    have "handle_byte E ?i (ucast (coded (m, b)) AND 0xff) (d, s) = client_byte E ?i b ?ds"
      using True by (simp add: handle_byte_def coded_parts)
    moreover have "serving (fst ?ds)" by (simp add: calm_set_check assms(1,2) serving_set_port)
    moreover have "kbd (fst ?ds) = kbd d" "mou (fst ?ds) = mou d" "kcodes (fst ?ds) = kcodes d" "kcount (fst ?ds) = kcount d"
      by (simp_all add: calm_set_check assms(1) set_port_def)
    ultimately show ?thesis by (metis prod.collapse)
  next
    case False
    let ?ds = "set_check E ?i 500 (d, s)"
    have "pstatus (port d ! ?i) = BUSY" using False assms(2) by (auto simp: serving_def)
    then have "handle_byte E ?i (ucast (coded (m, b)) AND 0xff) (d, s) = client_byte E ?i b ?ds" by (simp add: handle_byte_def coded_parts)
    moreover have "serving (fst ?ds)" by (simp add: calm_set_check assms(1,2) serving_set_port)
    moreover have "kbd (fst ?ds) = kbd d" "mou (fst ?ds) = mou d" "kcodes (fst ?ds) = kcodes d" "kcount (fst ?ds) = kcount d"
      by (simp_all add: calm_set_check assms(1) set_port_def)
    ultimately show ?thesis by (metis prod.collapse)
  qed
  then obtain d1 s1 where h: "handle_byte E ?i (ucast (coded (m, b)) AND 0xff) (d, s) = client_byte E ?i b (d1, s1)"
    and d1: "serving d1" "kbd d1 = kbd d" "mou d1 = mou d" "kcodes d1 = kcodes d" "kcount d1 = kcount d" by blast
  show ?thesis
  proof (cases m)
    case True
    then have "client_byte E ?i b (d1, s1) = Some (Running (d1\<lparr>mou := mouse_data b (mou d)\<rparr>, s1))"
      using d1 by (simp add: client_byte_def serving_def)
    then show ?thesis using True h d1 by (fastforce simp: serving_def)
  next
    case False
    then have "client_byte E ?i b (d1, s1) = Some (Running (d1\<lparr>kbd := k\<rparr>, s1))"
      using d1 assms(3) by (simp add: client_byte_def serving_def)
    then show ?thesis using False h d1 by (fastforce simp: serving_def)
  qed
qed


lemma serving_frame: "serving (d\<lparr>kcount := n, interupted := v\<rparr>) = serving d"
  by (simp add: serving_def)

lemma take_bytes_serving:
  "no_interrupts E \<Longrightarrow> serving d \<Longrightarrow> queue_ok d \<Longrightarrow> ps2_stored d = map coded evs \<Longrightarrow> feed (bytes_of False evs) (kbd d) = Inr k \<Longrightarrow>
    \<exists>d' s'. take_bytes E (d, s) = Some (Running (d', s')) \<and> ps2_stored d' = [] \<and> kbd d' = k \<and> mou d' = mouse_feed (bytes_of True evs) (mou d)"
proof (induction evs arbitrary: d s)
  case Nil
  then have "kcount d = 0" using length_ps2_stored [of d] by (simp add: unat_eq_zero)
  then show ?case using Nil by (subst take_bytes.simps) (simp add: bytes_of_def)
next
  case (Cons e evs)
  obtain m b where e: "e = (m, b)" by (cases e)
  have n: "kcount d \<noteq> 0" using Cons.prems(4) length_ps2_stored [OF Cons.prems(3)] by auto
  let ?d1 = "d\<lparr>kcount := kcount d - 1, interupted := interupted d XOR (interupted d AND push_bit (unat (drop_bit 8 (coded e) AND 0xff)) 1)\<rparr>"
  have st: "ps2_stored ?d1 = map coded evs" using port_query_any(2) [OF Cons.prems(3) n] Cons.prems(4) by simp
  have q: "query E (- 1) (d, s) = Some (ucast (coded e), ?d1, s)"
    using port_query_any(1) [OF Cons.prems(3) n] Cons.prems(4) by (simp add: query_def calm_settle [OF Cons.prems(1)])
  have sv: "serving ?d1" using Cons.prems(2) by (simp add: serving_frame)
  obtain kb where kb: "m \<or> port_data b (kbd d) = Inr kb" and f: "feed (bytes_of False evs) (if m then kbd d else kb) = Inr k"
    using Cons.prems(5) e by (cases m; cases "port_data b (kbd d)") (auto simp: bytes_of_def)
  from handle_byte_serving [OF Cons.prems(1) sv, of m b kb s] kb obtain d2 s2 where
    h: "handle_byte E (if m then 1 else 0) (ucast (coded e) AND 0xff) (?d1, s) = Some (Running (d2, s2))"
    and d2: "serving d2" "kbd d2 = (if m then kbd d else kb)" "mou d2 = (if m then mouse_data b (mou d) else mou d)"
      "kcodes d2 = kcodes ?d1" "kcount d2 = kcount ?d1" using e by auto
  have q2: "queue_ok d2" using port_query_any(3) [OF Cons.prems(3) n] d2(4,5) by (simp add: queue_ok_def)
  have s2: "ps2_stored d2 = map coded evs" using st d2(4,5) by (simp add: ps2_stored_def)
  have i: "drop_bit 8 (ucast (coded e) :: u32) AND 0xff = (if m then 1 else 0)" using e coded_parts(1) by simp
  have "take_bytes E (d, s) = take_bytes E (d2, s2)"
    using n q h by (subst take_bytes.simps) (cases m; simp add: i)
  then show ?case using Cons.IH [OF Cons.prems(1) d2(1) q2 s2, of s2] f d2(2,3) e by (cases m) (auto simp: bytes_of_def)
qed

text \<open>C4 The bytes of a keyboard and a mouse that have come in by interrupts, in any order and up to twelve of them, reach
  the decoders of the two devices, each in its order: one run of the driver is a run of the keyboard's state machine over the bytes
  of the first port and of the mouse's over those of the second.\<close>

theorem bytes_reach_decoders:
  assumes "no_interrupts E" "serving d" "queue_ok d" "ps2_stored d = []" "length evs \<le> 12"
    and "feed (bytes_of False evs) (kbd d) = Inr k"
  shows "\<exists>d' s'. take_bytes E (fold received (map coded evs) d, s) = Some (Running (d', s')) \<and> ps2_stored d' = []
    \<and> kbd d' = k \<and> mou d' = mouse_feed (bytes_of True evs) (mou d)"
proof -
  let ?d = "fold received (map coded evs) d"
  have q: "queue_ok ?d" "ps2_stored ?d = map coded evs" using ps2q.burst [of d "map coded evs"] assms(3-5) by simp_all
  have r: "rest (fold received vs x) = rest x" for vs x by (induction vs arbitrary: x) simp_all
  have p: "port ?d = port d" "kbd ?d = kbd d" "mou ?d = mou d"
    using r [of "map coded evs" d] by (metis rest_fields(1), metis rest_fields(2), metis rest_fields(3))
  have "serving ?d" using assms(2) by (simp add: serving_def p)
  from take_bytes_serving [OF assms(1) this q, of k s] assms(6) show ?thesis by (simp add: p)
qed

definition demo_events :: "(bool \<times> u8) list" where
  "demo_events = [(False, 0x1C), (True, 0x08), (False, 0xF0), (True, 5), (False, 0x1C), (True, 0)]"

lemma bytes_reach_decoders_witness:
  "\<exists>d' s'. take_bytes quiet_env (fold received (map coded demo_events) demo_ps2, ()) = Some (Running (d', s'))
    \<and> keyev (kbd d') = 2 \<and> mx (mou d') = 105"
proof -
  have "case feed (bytes_of False demo_events) (kbd demo_ps2) of Inl _ \<Rightarrow> False | Inr k \<Rightarrow> keyev k = 2" by code_simp
  then obtain k where k: "feed (bytes_of False demo_events) (kbd demo_ps2) = Inr k" "keyev k = 2" by (auto split: sum.splits)
  have m: "mx (mouse_feed (bytes_of True demo_events) (mou demo_ps2)) = 105" by code_simp
  have "no_interrupts quiet_env" "serving demo_ps2" "length demo_events \<le> 12"
    by (simp_all add: no_interrupts_def quiet_env_def serving_def demo_ps2_def demo_port_def demo_events_def)
  from bytes_reach_decoders [OF this(1,2) demo_ps2_ok this(3) k(1), of "()"] show ?thesis using k(2) m by auto
qed

end
