(* ===== verification/Pci.thy ===== *)
theory Pci
  imports Ports "HOL-Library.Monad_Syntax"
begin

text \<open>
  The PCI bus (\<open>src/kernel/dev/pci.cpp\<close>) and the choice of a driver for a function (\<open>src/kernel/dev/drivers.cpp\<close>): access to the
  configuration space through its two ports, the size of a base address register, and the walk over devices, functions and bridges.

  The start of the network card's driver is the argument \<open>attach\<close> (the driver is modelled in \<open>E1000\<close> and \<open>Nic\<close>). The walk goes down
  through bridges by recursion, which is bounded here by a fuel, one for each bus; \<open>None\<close> is a walk that is not at its end by then.
  The prints are omitted.
\<close>

subsection \<open>Configuration space\<close>

definition cfg_addr :: "u8 \<Rightarrow> u8 \<Rightarrow> u8 \<Rightarrow> u8 \<Rightarrow> u32" where
  "cfg_addr b d f ofs = push_bit 31 1 OR push_bit 16 (ucast b) OR push_bit 11 (ucast d) OR push_bit 8 (ucast f) OR (ucast ofs AND NOT 3)"

definition cfg_read :: "'s ports \<Rightarrow> u32 \<Rightarrow> 's \<Rightarrow> u32 \<times> 's" where
  "cfg_read p a s = inl p 0xcfc (outl p 0xcf8 a s)"

definition cfg_write :: "'s ports \<Rightarrow> u32 \<Rightarrow> u32 \<Rightarrow> 's \<Rightarrow> 's" where
  "cfg_write p a v s = outl p 0xcfc v (outl p 0xcf8 a s)"

definition pci_readw :: "'s ports \<Rightarrow> u8 \<Rightarrow> u8 \<Rightarrow> u8 \<Rightarrow> u8 \<Rightarrow> 's \<Rightarrow> u16 \<times> 's" where
  "pci_readw p b d f ofs s = (case cfg_read p (cfg_addr b d f ofs) s of (v, s') \<Rightarrow>
     (if ofs AND 2 \<noteq> 0 then ucast (drop_bit 16 v) else ucast v, s'))"

definition pci_readl :: "'s ports \<Rightarrow> u8 \<Rightarrow> u8 \<Rightarrow> u8 \<Rightarrow> u8 \<Rightarrow> 's \<Rightarrow> u32 \<times> 's" where
  "pci_readl p b d f ofs s = cfg_read p (cfg_addr b d f ofs) s"

definition pci_readl_at :: "'s ports \<Rightarrow> u32 \<Rightarrow> u8 \<Rightarrow> 's \<Rightarrow> u32 \<times> 's" where
  "pci_readl_at p pcia ofs s = cfg_read p ((pcia AND 0xffffff00) OR (ucast ofs AND NOT 3)) s"

definition pci_writel :: "'s ports \<Rightarrow> u32 \<Rightarrow> u8 \<Rightarrow> u8 \<Rightarrow> u8 \<Rightarrow> u8 \<Rightarrow> 's \<Rightarrow> 's" where
  "pci_writel p v b d f ofs s = cfg_write p (cfg_addr b d f ofs) v s"

definition pci_writel_at :: "'s ports \<Rightarrow> u32 \<Rightarrow> u32 \<Rightarrow> u8 \<Rightarrow> 's \<Rightarrow> 's" where
  "pci_writel_at p v pcia ofs s = cfg_write p ((pcia AND 0xffffff00) OR (ucast ofs AND NOT 3)) v s"

subsection \<open>Functions\<close>

record pci_info =
  vendor :: u16
  device :: u16
  command :: u16
  status :: u16
  revision :: u8
  progif :: u8
  sub_class :: u8
  devclass :: u8
  int_line :: u8
  int_pin :: u8
  min_grant :: u8
  max_latency :: u8

record pci_block =
  pciaddr :: u32
  bars :: "(u32 \<times> u32) list"
  info :: pci_info

definition writecommand :: "'s ports \<Rightarrow> pci_block \<Rightarrow> u16 \<Rightarrow> 's \<Rightarrow> 's" where
  "writecommand p dv c s = pci_writel_at p (ucast c) (pciaddr dv) 0x4 s"

text \<open>The register and the size of what it maps: all ones are written and what stays is read; then the register is restored.\<close>

definition scanbar :: "'s ports \<Rightarrow> u8 \<Rightarrow> u8 \<Rightarrow> u8 \<Rightarrow> u8 \<Rightarrow> 's \<Rightarrow> (u32 \<times> u32) \<times> 's" where
  "scanbar p b d f x s = (let ofs = 0x10 + push_bit 2 x;
     (lr, s) = pci_readl p b d f ofs s;
     s = pci_writel p 0xffffffff b d f ofs s;
     (lsz, s) = pci_readl p b d f ofs s;
     s = pci_writel p lr b d f ofs s;
     lsz = lsz AND (if lr AND 1 \<noteq> 0 then 0xfffffffc else 0xfffffff0)
     in ((lr, NOT lsz + 1), s))"

fun scan_bars :: "'s ports \<Rightarrow> u8 \<Rightarrow> u8 \<Rightarrow> u8 \<Rightarrow> u8 list \<Rightarrow> 's \<Rightarrow> (u32 \<times> u32) list \<times> 's" where
  "scan_bars p b d f [] s = ([], s)"
| "scan_bars p b d f (x # xs) s = (case scanbar p b d f x s of (r, s1) \<Rightarrow> (case scan_bars p b d f xs s1 of (rs, s2) \<Rightarrow> (r # rs, s2)))"

subsection \<open>Drivers\<close>

record 's bus =
  hws :: 's
  ethdev :: "pci_block option"

record 's pci_env =
  cports :: "'s ports"
  attach :: "pci_block \<Rightarrow> 's \<Rightarrow> 's"

definition on_hw :: "('s \<Rightarrow> 'a \<times> 's) \<Rightarrow> 's bus \<Rightarrow> 'a \<times> 's bus" where
  "on_hw f s = (case f (hws s) of (r, h) \<Rightarrow> (r, s\<lparr>hws := h\<rparr>))"

definition e1000_devices :: "u16 list" where
  "e1000_devices = [0x100F, 0x100E, 0x10D3, 0x104B, 0x10CD, 0x105E, 0x10A4]"

text \<open>The first card becomes the network device.\<close>

definition instance_pci :: "'s pci_env \<Rightarrow> pci_block \<Rightarrow> 's bus \<Rightarrow> 's bus" where
  "instance_pci E dv s =
    (if vendor (info dv) = 0x8086 \<and> device (info dv) \<in> set e1000_devices
     then s\<lparr>hws := attach E dv (hws s), ethdev := (if ethdev s = None then Some dv else ethdev s)\<rparr>
     else s)"

subsection \<open>The walk\<close>

definition header_type :: "u32 \<Rightarrow> u32" where
  "header_type hci = drop_bit 16 hci AND 0x7f"

definition is_bridge :: "u32 \<Rightarrow> u32 \<Rightarrow> bool" where
  "is_bridge hci dcl \<longleftrightarrow> header_type hci = 1 \<and> drop_bit 16 dcl = 0x0604"

definition block_of :: "u32 \<Rightarrow> u32 \<Rightarrow> u32 \<Rightarrow> u32 \<Rightarrow> u32 \<Rightarrow> (u32 \<times> u32) list \<Rightarrow> pci_block" where
  "block_of a idw cmst dcl iir bs = \<lparr>pciaddr = a, bars = bs, info = \<lparr>
     vendor = ucast idw, device = ucast (drop_bit 16 idw), command = ucast cmst, status = ucast (drop_bit 16 cmst),
     revision = ucast dcl, progif = ucast (drop_bit 8 dcl), sub_class = ucast (drop_bit 16 dcl), devclass = ucast (drop_bit 24 dcl),
     int_line = ucast iir, int_pin = ucast (drop_bit 8 iir), min_grant = ucast (drop_bit 16 iir), max_latency = ucast (drop_bit 24 iir)\<rparr>\<rparr>"

definition dev_fn_check :: "'s pci_env \<Rightarrow> (u8 \<Rightarrow> 's bus \<Rightarrow> 's bus option) \<Rightarrow> u8 \<Rightarrow> u8 \<Rightarrow> u8 \<Rightarrow> 's bus \<Rightarrow> 's bus option" where
  "dev_fn_check E dump b d f s = (let p = cports E; a = cfg_addr b d f 0;
     (idw, s) = on_hw (pci_readl_at p a 0) s;
     (cmst, s) = on_hw (pci_readl_at p a 0x4) s;
     (dcl, s) = on_hw (pci_readl_at p a 0x8) s;
     (hci, s) = on_hw (pci_readl p b d 0 0xC) s;
     (iir, s) = on_hw (pci_readl_at p a 0x3C) s
     in if is_bridge hci dcl then (case on_hw (pci_readl_at p a 0x18) s of (ex, s) \<Rightarrow> dump (ucast (drop_bit 8 ex)) s)
        else if header_type hci = 0 then (case on_hw (scan_bars p b d f [0, 1, 2, 3, 4, 5]) s of (bs, s) \<Rightarrow>
          Some (instance_pci E (block_of a idw cmst dcl iir bs) s))
        else Some s)"

fun check_fns :: "'s pci_env \<Rightarrow> (u8 \<Rightarrow> 's bus \<Rightarrow> 's bus option) \<Rightarrow> u8 \<Rightarrow> u8 \<Rightarrow> u8 list \<Rightarrow> 's bus \<Rightarrow> 's bus option" where
  "check_fns E dump b d [] s = Some s"
| "check_fns E dump b d (f # fs) s = (case on_hw (pci_readl (cports E) b d f 0) s of (idw, s) \<Rightarrow> do {
     s1 \<leftarrow> (if drop_bit 16 idw \<noteq> 0xffff then dev_fn_check E dump b d f s else Some s);
     check_fns E dump b d fs s1 })"

definition check_dev :: "'s pci_env \<Rightarrow> (u8 \<Rightarrow> 's bus \<Rightarrow> 's bus option) \<Rightarrow> u8 \<Rightarrow> u8 \<Rightarrow> 's bus \<Rightarrow> 's bus option" where
  "check_dev E dump b d s = (case on_hw (pci_readl (cports E) b d 0 0) s of (idw, s) \<Rightarrow>
     if idw AND 0xffff = 0xffff then Some s
     else (case on_hw (pci_readl (cports E) b d 0 0xC) s of (hci, s) \<Rightarrow>
       if bit hci 23 then check_fns E dump b d [0, 1, 2, 3, 4, 5, 6, 7] s else dev_fn_check E dump b d 0 s))"

fun check_devs :: "'s pci_env \<Rightarrow> (u8 \<Rightarrow> 's bus \<Rightarrow> 's bus option) \<Rightarrow> u8 \<Rightarrow> u8 list \<Rightarrow> 's bus \<Rightarrow> 's bus option" where
  "check_devs E dump b [] s = Some s"
| "check_devs E dump b (d # ds) s = do { s1 \<leftarrow> check_dev E dump b d s; check_devs E dump b ds s1 }"

text \<open>The devices 0 to 30 of a bus.\<close>

definition bus_devices :: "u8 list" where
  "bus_devices = map of_nat [0..<31]"

fun dev_dump :: "'s pci_env \<Rightarrow> nat \<Rightarrow> u8 \<Rightarrow> 's bus \<Rightarrow> 's bus option" where
  "dev_dump E 0 b s = None"
| "dev_dump E (Suc n) b s = check_devs E (dev_dump E n) b bus_devices s"

definition bus_dump :: "'s pci_env \<Rightarrow> 's bus \<Rightarrow> 's bus option" where
  "bus_dump E s = dev_dump E 256 0 s"

subsection \<open>A configuration space\<close>

text \<open>The mechanism of the two ports: one selects a register, the other is the register. Of a register only the bits of a mask can be written.\<close>

record cfg =
  sel :: u32
  regs :: "u32 \<Rightarrow> u32"

definition cfg_ports :: "(u32 \<Rightarrow> u32) \<Rightarrow> cfg ports" where
  "cfg_ports wm = \<lparr>inb = (\<lambda>p s. (0, s)), outb = (\<lambda>p v s. s),
     inl = (\<lambda>p s. (if p = 0xcfc then regs s (sel s) else 0, s)),
     outl = (\<lambda>p v s. if p = 0xcf8 then s\<lparr>sel := v\<rparr>
       else if p = 0xcfc then s\<lparr>regs := (regs s)(sel s := (v AND wm (sel s)) OR (regs s (sel s) AND NOT (wm (sel s))))\<rparr> else s),
     ticks = (\<lambda>s. (0, s))\<rparr>"

lemma cfg_read_regs: "cfg_read (cfg_ports wm) a s = (regs s a, s\<lparr>sel := a\<rparr>)"
  by (simp add: cfg_read_def cfg_ports_def)

lemma cfg_write_regs: "regs (cfg_write (cfg_ports wm) a v s) = (regs s)(a := (v AND wm a) OR (regs s a AND NOT (wm a)))"
  by (simp add: cfg_write_def cfg_ports_def)

lemma masked_id: "(v AND m) OR (v AND NOT m) = (v :: 'a :: len word)"
  by (simp flip: bit.conj_disj_distrib)

lemma masked_back: "(v AND m) OR (((-1 AND m) OR (v AND NOT m)) AND NOT m) = (v :: 'a :: len word)"
    "(v AND m) OR ((m OR (v AND NOT m)) AND NOT m) = (v :: 'a :: len word)"
  by (rule bit_word_eqI; auto simp: bit_simps)+

text \<open>Measuring a register leaves the configuration space as it was.\<close>

lemma scanbar_restores:
  "regs (snd (scanbar (cfg_ports wm) b d f x s)) = regs s"
  "fst (scanbar (cfg_ports wm) b d f x s) = (let a = cfg_addr b d f (0x10 + push_bit 2 x); r = regs s a in
     (r, NOT (((-1 AND wm a) OR (r AND NOT (wm a))) AND (if r AND 1 \<noteq> 0 then 0xfffffffc else 0xfffffff0)) + 1))"
proof -
  have m: "(0xffffffff :: u32) = - 1" by simp
  show "regs (snd (scanbar (cfg_ports wm) b d f x s)) = regs s"
    unfolding scanbar_def m by (simp add: Let_def split_beta pci_readl_def pci_writel_def cfg_read_regs cfg_write_regs fun_eq_iff masked_back del: and_minus_minus_numerals)
  show "fst (scanbar (cfg_ports wm) b d f x s) = (let a = cfg_addr b d f (0x10 + push_bit 2 x); r = regs s a in
     (r, NOT (((-1 AND wm a) OR (r AND NOT (wm a))) AND (if r AND 1 \<noteq> 0 then 0xfffffffc else 0xfffffff0)) + 1))"
    unfolding scanbar_def m by (simp add: Let_def split_beta pci_readl_def pci_writel_def cfg_read_regs cfg_write_regs)
qed


text \<open>A register that maps \<open>2 ^ k\<close> bytes: the address bits from \<open>k\<close> on can be written, and below them are only the flags, two of an
  I/O register, four of a memory register.\<close>

definition flag_bits :: "u32 \<Rightarrow> nat" where
  "flag_bits r = (if r AND 1 \<noteq> 0 then 2 else 4)"

definition maps_bytes :: "u32 \<Rightarrow> u32 \<Rightarrow> nat \<Rightarrow> bool" where
  "maps_bytes wmask r k \<longleftrightarrow> wmask = NOT (mask k) \<and> flag_bits r \<le> k \<and> k < 32 \<and> r AND mask k AND NOT (mask (flag_bits r)) = 0"

lemma size_bits:
  assumes "maps_bytes w r k"
  shows "(w OR (r AND NOT w)) AND NOT (mask (flag_bits r)) = NOT (mask k)"
proof (rule bit_word_eqI)
  fix n assume n: "n < LENGTH(32)"
  have w: "w = NOT (mask k)" "flag_bits r \<le> k" using assms by (simp_all add: maps_bytes_def)
  have z: "\<not> bit (r AND mask k AND NOT (mask (flag_bits r))) n" using assms by (simp add: maps_bytes_def)
  show "bit ((w OR (r AND NOT w)) AND NOT (mask (flag_bits r))) n \<longleftrightarrow> bit (NOT (mask k) :: u32) n"
    using z w(2) n unfolding w(1) by (auto simp: bit_simps)
qed


text \<open>The registers of a card: 128 KB of memory at the first base address.\<close>

definition demo_cfg :: cfg where
  "demo_cfg = \<lparr>sel = 0, regs = (\<lambda>a. if a = 0x80001810 then 0xfebc0000 else 0)\<rparr>"


subsection \<open>The walk ends\<close>

lemma bit_enable: "bit (0x80000000 :: int) n \<longleftrightarrow> n = 31"
proof -
  have "bit (2 ^ 31 :: int) n \<longleftrightarrow> n = 31" by (simp only: bit_exp_iff) simp
  then show ?thesis by simp
qed

lemma cfg_addr_at: "(cfg_addr b d f 0 AND 0xffffff00) OR (ucast ofs AND NOT 3) = cfg_addr b d f ofs"
proof -
  have e: "(0xffffff00 :: u32) = NOT (mask 8)" by (simp add: mask_eq_exp_minus_1)
  show ?thesis unfolding cfg_addr_def e by (rule bit_word_eqI) (auto simp: bit_simps bit_enable)
qed

lemma cfg_addr_low: "cfg_addr b d f ofs AND 0xff = ucast ofs AND NOT 3"
proof -
  have e: "(0xff :: u32) = mask 8" by (simp add: mask_eq_exp_minus_1)
  show ?thesis unfolding cfg_addr_def e by (rule bit_word_eqI) (auto simp: bit_simps bit_enable dest: bit_imp_le_length)
qed

text \<open>The registers the walk is steered by: identification, class, header type and bus numbers.\<close>

definition hdr :: "cfg \<Rightarrow> u32 \<Rightarrow> u32" where
  "hdr s a = (if a AND 0xff \<in> {0, 8, 0xC, 0x18} then regs s a else 0)"

lemma hdr_regs: "regs s' = regs s \<Longrightarrow> hdr s' = hdr s"
  by (simp add: hdr_def fun_eq_iff)

definition scan_env :: "(u32 \<Rightarrow> u32) \<Rightarrow> (pci_block \<Rightarrow> cfg \<Rightarrow> cfg) \<Rightarrow> cfg pci_env" where
  "scan_env wm att = \<lparr>cports = cfg_ports wm, attach = att\<rparr>"

text \<open>Behind a bridge is a bus with a higher number.\<close>

definition buses_rise :: "(u32 \<Rightarrow> u32) \<Rightarrow> bool" where
  "buses_rise h \<longleftrightarrow> (\<forall>b d f. is_bridge (h (cfg_addr b d 0 0xC)) (h (cfg_addr b d f 8)) \<longrightarrow> b < ucast (drop_bit 8 (h (cfg_addr b d f 0x18))))"

definition walks :: "(u32 \<Rightarrow> u32) \<Rightarrow> (cfg bus \<Rightarrow> cfg bus option) \<Rightarrow> bool" where
  "walks h f \<longleftrightarrow> (\<forall>s. hdr (hws s) = h \<longrightarrow> (\<exists>s'. f s = Some s' \<and> hdr (hws s') = h))"

lemma on_read [simp]: "on_hw (pci_readl (cfg_ports wm) b d f ofs) s = (regs (hws s) (cfg_addr b d f ofs), s\<lparr>hws := (hws s)\<lparr>sel := cfg_addr b d f ofs\<rparr>\<rparr>)"
  by (simp add: on_hw_def pci_readl_def cfg_read_regs)

lemma on_read_at [simp]: "on_hw (pci_readl_at (cfg_ports wm) (cfg_addr b d f 0) ofs) s = (regs (hws s) (cfg_addr b d f ofs), s\<lparr>hws := (hws s)\<lparr>sel := cfg_addr b d f ofs\<rparr>\<rparr>)"
  unfolding on_hw_def pci_readl_at_def cfg_addr_at by (simp add: cfg_read_regs)

lemma hdr_sel [simp]: "hdr (c\<lparr>sel := a\<rparr>) = hdr c"
  by (simp add: hdr_def fun_eq_iff)

lemma hdr_read: "ofs \<in> {0, 8, 0xC, 0x18} \<Longrightarrow> regs s (cfg_addr b d f ofs) = hdr s (cfg_addr b d f ofs)"
  unfolding hdr_def cfg_addr_low by auto

lemma scan_bars_regs: "regs (snd (scan_bars (cfg_ports wm) b d f xs s)) = regs s"
  by (induction xs arbitrary: s) (simp_all add: split_beta scanbar_restores(1))

lemma walks_fn:
  assumes att: "\<And>dv s. hdr (att dv s) = hdr s" and rise: "buses_rise h" and dump: "\<And>b'. b < b' \<Longrightarrow> walks h (dump b')"
  shows "walks h (dev_fn_check (scan_env wm att) dump b d f)"
  unfolding walks_def
proof (intro allI impI)
  fix s :: "cfg bus" assume s: "hdr (hws s) = h"
  have r: "regs (hws s) (cfg_addr b d f' ofs) = h (cfg_addr b d f' ofs)" if "ofs \<in> {0, 8, 0xC, 0x18}" for f' ofs
    using hdr_read [OF that] s by simp
  show "\<exists>s'. dev_fn_check (scan_env wm att) dump b d f s = Some s' \<and> hdr (hws s') = h"
  proof (cases "is_bridge (h (cfg_addr b d 0 0xC)) (h (cfg_addr b d f 8))")
    case True
    let ?n = "ucast (drop_bit 8 (h (cfg_addr b d f 0x18))) :: u8"
    have "b < ?n" using rise True by (auto simp: buses_rise_def)
    from dump [OF this] show ?thesis using True s by (simp add: dev_fn_check_def scan_env_def Let_def r walks_def)
  next
    case False
    let ?E = "scan_env wm att" and ?s2 = "s\<lparr>hws := (hws s)\<lparr>sel := cfg_addr b d f 0x3C\<rparr>\<rparr>"
    let ?bs = "on_hw (scan_bars (cfg_ports wm) b d f [0, 1, 2, 3, 4, 5]) ?s2"
    have i: "hdr (hws (instance_pci ?E dv t)) = hdr (hws t)" for dv t by (simp add: instance_pci_def scan_env_def att)
    have q: "hdr (hws (snd ?bs)) = h" using s by (simp add: on_hw_def split_beta hdr_regs [OF scan_bars_regs] del: scan_bars.simps)
    have "dev_fn_check ?E dump b d f s = Some ?s2 \<or> (\<exists>dv. dev_fn_check ?E dump b d f s = Some (instance_pci ?E dv (snd ?bs)))"
      using False by (auto simp: dev_fn_check_def scan_env_def Let_def r split_beta simp del: scan_bars.simps)
    then show ?thesis using i q s by auto
  qed
qed

lemma walks_fns:
  assumes "\<And>f. walks h (dev_fn_check (scan_env wm att) dump b d f)"
  shows "walks h (check_fns (scan_env wm att) dump b d fs)"
proof (induction fs)
  case (Cons f fs)
  show ?case unfolding walks_def
  proof (intro allI impI)
    fix s :: "cfg bus" assume s: "hdr (hws s) = h"
    let ?s1 = "s\<lparr>hws := (hws s)\<lparr>sel := cfg_addr b d f 0\<rparr>\<rparr>"
    have "\<exists>s2. (if drop_bit 16 (regs (hws s) (cfg_addr b d f 0)) \<noteq> 0xffff then dev_fn_check (scan_env wm att) dump b d f ?s1 else Some ?s1) = Some s2
        \<and> hdr (hws s2) = h"
      using assms [of f] s by (simp add: walks_def)
    then obtain s2 where "(if drop_bit 16 (regs (hws s) (cfg_addr b d f 0)) \<noteq> 0xffff then dev_fn_check (scan_env wm att) dump b d f ?s1 else Some ?s1) = Some s2"
        "hdr (hws s2) = h" by blast
    moreover from Cons this(2) obtain s3 where "check_fns (scan_env wm att) dump b d fs s2 = Some s3" "hdr (hws s3) = h"
      by (auto simp: walks_def)
    ultimately show "\<exists>s'. check_fns (scan_env wm att) dump b d (f # fs) s = Some s' \<and> hdr (hws s') = h"
      by (auto simp: scan_env_def)
  qed
qed (simp add: walks_def)

lemma walks_dev:
  assumes "\<And>f. walks h (dev_fn_check (scan_env wm att) dump b d f)"
  shows "walks h (check_dev (scan_env wm att) dump b d)"
proof -
  have c: "cports (scan_env wm att) = cfg_ports wm" by (simp add: scan_env_def)
  show ?thesis using assms walks_fns [OF assms] by (simp add: walks_def check_dev_def c del: check_fns.simps)
qed

lemma walks_devs:
  assumes "\<And>d. walks h (check_dev E dump b d)"
  shows "walks h (check_devs E dump b ds)"
proof (induction ds)
  case (Cons d ds)
  then show ?case using assms [of d] by (fastforce simp: walks_def)
qed (simp add: walks_def)

lemma walks_dump:
  assumes att: "\<And>dv s. hdr (att dv s) = hdr s" and rise: "buses_rise h"
  shows "256 \<le> n + unat b \<Longrightarrow> walks h (dev_dump (scan_env wm att) n b)"
proof (induction n arbitrary: b)
  case 0
  have "unat b < 256" using unsigned_less [of b] by simp
  with 0 show ?case by simp
next
  case (Suc n)
  have "walks h (dev_dump (scan_env wm att) n b')" if "b < b'" for b'
    using Suc that by (intro Suc.IH) (simp add: word_less_nat_alt)
  then have "walks h (dev_fn_check (scan_env wm att) (dev_dump (scan_env wm att) n) b d f)" for d f by (rule walks_fn [OF att rise])
  then have "walks h (check_devs (scan_env wm att) (dev_dump (scan_env wm att) n) b bus_devices)" by (intro walks_devs walks_dev)
  then show ?case by (simp add: walks_def)
qed

text \<open>C29 Where the bus behind each bridge has a higher number than the bus the bridge is on, and the start of a driver leaves those registers alone, the walk from bus 0
  ends, at most 256 buses deep.\<close>

theorem bus_dump_ends:
  assumes "\<And>dv s. hdr (att dv s) = hdr s" "buses_rise (hdr (hws s))"
  shows "\<exists>s'. bus_dump (scan_env wm att) s = Some s' \<and> hdr (hws s') = hdr (hws s)"
  using walks_dump [OF assms, of 256 0 wm] by (simp add: bus_dump_def walks_def del: dev_dump.simps)

text \<open>A bridge that has not been set up says that bus 0 is behind it, and the walk goes round for ever.\<close>

definition unset_bridge :: cfg where
  "unset_bridge = \<lparr>sel = 0, regs = (\<lambda>a. if a = 0x80000008 then 0x06040000 else if a = 0x8000000C then 0x00010000 else if a = 0x80000000 then 0x12348086 else 0)\<rparr>"

lemma fn_bridge:
  "is_bridge (regs (hws s) (cfg_addr b d 0 0xC)) (regs (hws s) (cfg_addr b d f 8)) \<Longrightarrow>
    dev_fn_check (scan_env wm att) dump b d f s =
      dump (ucast (drop_bit 8 (regs (hws s) (cfg_addr b d f 0x18)))) (s\<lparr>hws := (hws s)\<lparr>sel := cfg_addr b d f 0x18\<rparr>\<rparr>)"
  by (simp add: dev_fn_check_def scan_env_def Let_def)

lemma check_devs_None: "check_dev E dump b d s = None \<Longrightarrow> check_devs E dump b (d # ds) s = None"
  by simp

lemma unset_bridge_loops: "regs (hws s) = regs unset_bridge \<Longrightarrow> dev_dump (scan_env wm att) n 0 s = None"
proof (induction n arbitrary: s)
  case (Suc n)
  have a: "cfg_addr 0 0 0 0 = 0x80000000" "cfg_addr 0 0 0 8 = 0x80000008" "cfg_addr 0 0 0 0xC = 0x8000000C" "cfg_addr 0 0 0 0x18 = 0x80000018"
    by (simp_all add: cfg_addr_def)
  have c: "cports (scan_env wm att) = cfg_ports wm" by (simp add: scan_env_def)
  have b: "bus_devices = 0 # map of_nat [1..<31]" by (simp add: bus_devices_def upt_conv_Cons)
  have "check_dev (scan_env wm att) (dev_dump (scan_env wm att) n) 0 0 s = None"
  proof -
    let ?t = "s\<lparr>hws := (hws s)\<lparr>sel := cfg_addr 0 0 0 0xC\<rparr>\<rparr>"
    have "is_bridge (regs (hws ?t) (cfg_addr 0 0 0 0xC)) (regs (hws ?t) (cfg_addr 0 0 0 8))"
      by (simp add: a Suc.prems unset_bridge_def is_bridge_def header_type_def)
    from fn_bridge [OF this, of wm att] have "dev_fn_check (scan_env wm att) (dev_dump (scan_env wm att) n) 0 0 0 ?t = None"
      by (simp add: a Suc.prems Suc.IH) (simp add: unset_bridge_def Suc.IH Suc.prems)
    moreover have "regs (hws s) (cfg_addr 0 0 0 0) AND 0xffff \<noteq> 0xffff" "\<not> bit (regs (hws s) (cfg_addr 0 0 0 0xC)) 23"
      by (simp_all add: a Suc.prems unset_bridge_def bit_simps)
    ultimately show ?thesis by (simp add: check_dev_def c)
  qed
  then show ?case unfolding dev_dump.simps b by (rule check_devs_None)
qed simp

text \<open>A bus with one card on it.\<close>

definition demo_bus :: "cfg bus" where
  "demo_bus = \<lparr>hws = \<lparr>sel = 0, regs = (\<lambda>a. if a = 0x80001800 then 0x100e8086 else if a = 0x80001808 then 0x02000003 else if a AND 0xff = 0 then 0xffffffff else 0)\<rparr>, ethdev = None\<rparr>"

lemma bus_dump_ends_witness:
  "\<exists>s'. bus_dump (scan_env (\<lambda>_. 0xfffe0000) (\<lambda>dv s. s)) demo_bus = Some s' \<and> hdr (hws s') = hdr (hws demo_bus)"
proof -
  have "buses_rise (hdr (hws demo_bus))" unfolding buses_rise_def
  proof (intro allI impI)
    fix b d f assume "is_bridge (hdr (hws demo_bus) (cfg_addr b d 0 0xC)) (hdr (hws demo_bus) (cfg_addr b d f 8))"
    moreover have "hdr (hws demo_bus) (cfg_addr b d 0 0xC) = 0"
      using cfg_addr_low [of b d 0 "0xC"] by (auto simp: hdr_def demo_bus_def)
    ultimately show "b < ucast (drop_bit 8 (hdr (hws demo_bus) (cfg_addr b d f 0x18)))" by (simp add: is_bridge_def header_type_def)
  qed
  then show ?thesis by (intro bus_dump_ends) simp_all
qed

end
