(* ===== verification/Tables.thy ===== *)
theory Tables
  imports Prelude
begin

text \<open>
  The descriptors of the processor's tables (\<open>src/kernel/i686/tables.cpp\<close>): segment descriptors with the kernel's global table, and
  the gates of interrupts. The structures are packed, with bit fields from the lowest bit on, so each is a word of 64 bits; \<open>seg_base\<close> and the
  following read such a word as the processor does.
\<close>

subsection \<open>Segments\<close>

record gdt_entry =
  limit_lo :: u16
  base_lo :: u16
  base_16 :: u8
  gtype :: "4 word"
  system :: "1 word"
  priv :: "2 word"
  present :: "1 word"
  limit_16 :: "4 word"
  gflags :: "4 word"
  base_24 :: u8

definition MkGDT :: "u32 \<Rightarrow> u32 \<Rightarrow> u8 \<Rightarrow> u8 \<Rightarrow> gdt_entry" where
  "MkGDT base lim t f = \<lparr>limit_lo = ucast (lim AND 0xffff), base_lo = ucast (base AND 0xffff), base_16 = ucast (drop_bit 16 base),
     gtype = ucast t, system = ucast (f AND 1), priv = ucast (drop_bit 1 f), present = ucast (drop_bit 3 f),
     limit_16 = ucast (drop_bit 16 lim), gflags = ucast (drop_bit 4 f), base_24 = ucast (drop_bit 24 base)\<rparr>"

text \<open>The entry as it lies in memory.\<close>

definition gdt_word :: "gdt_entry \<Rightarrow> u64" where
  "gdt_word g = ucast (limit_lo g) OR push_bit 16 (ucast (base_lo g)) OR push_bit 32 (ucast (base_16 g))
     OR push_bit 40 (ucast (gtype g)) OR push_bit 44 (ucast (system g)) OR push_bit 45 (ucast (priv g)) OR push_bit 47 (ucast (present g))
     OR push_bit 48 (ucast (limit_16 g)) OR push_bit 52 (ucast (gflags g)) OR push_bit 56 (ucast (base_24 g))"

definition TYPE_CODE :: u8 where "TYPE_CODE = 1"
definition PRESENT :: u8 where "PRESENT = 8"
definition SEG32 :: u8 where "SEG32 = 0x40"
definition GRAN_4K :: u8 where "GRAN_4K = 0x80"
definition T_CODE :: u8 where "T_CODE = 8"
definition T_READWRITE :: u8 where "T_READWRITE = 2"
definition T_EXECREAD :: u8 where "T_EXECREAD = 2"

definition gdt_data :: "gdt_entry list" where
  "gdt_data = [MkGDT 0 0 0 0,
     MkGDT 0 0xffffff T_READWRITE (TYPE_CODE OR PRESENT OR SEG32 OR GRAN_4K),
     MkGDT 0 0xffffff (T_CODE OR T_EXECREAD) (TYPE_CODE OR PRESENT OR SEG32 OR GRAN_4K)]"

text \<open>What the processor reads: bits 16 to 39 and 56 to 63 are the base, bits 0 to 15 and 48 to 51 the limit, which counts pages where bit 55 is set.\<close>

definition seg_base :: "u64 \<Rightarrow> u32" where
  "seg_base w = ucast (drop_bit 16 w AND 0xffffff) OR push_bit 24 (ucast (drop_bit 56 w))"

definition seg_limit :: "u64 \<Rightarrow> u32" where
  "seg_limit w = (let l = ucast (w AND 0xffff) OR push_bit 16 (ucast (drop_bit 48 w AND 0xf))
     in if bit w 55 then push_bit 12 l OR 0xfff else l)"

definition seg_access :: "u64 \<Rightarrow> u8" where
  "seg_access w = ucast (drop_bit 40 w)"

definition seg_mode :: "u64 \<Rightarrow> u8" where
  "seg_mode w = ucast (drop_bit 52 w AND 0xf)"

subsection \<open>Gates\<close>

record idt_entry =
  ofs_lo :: u16
  selector :: u16
  iflags :: "13 word"
  ipriv :: "2 word"
  ipresent :: "1 word"
  ofs_hi :: u16

definition idt_gate :: "u16 \<Rightarrow> u32 \<Rightarrow> u16 \<Rightarrow> u32 \<Rightarrow> idt_entry" where
  "idt_gate fl base seg p = \<lparr>ofs_lo = ucast (base AND 0xffff), selector = seg, iflags = ucast fl, ipriv = ucast p, ipresent = 1,
     ofs_hi = ucast (drop_bit 16 base)\<rparr>"

definition IDTTrap :: "u32 \<Rightarrow> u16 \<Rightarrow> u32 \<Rightarrow> idt_entry" where
  "IDTTrap = idt_gate 0x700"

definition IDTInt :: "u32 \<Rightarrow> u16 \<Rightarrow> u32 \<Rightarrow> idt_entry" where
  "IDTInt = idt_gate 0x600"

definition IDTTask :: "u16 \<Rightarrow> u32 \<Rightarrow> idt_entry" where
  "IDTTask seg p = \<lparr>ofs_lo = 0, selector = seg, iflags = 0x500, ipriv = ucast p, ipresent = 1, ofs_hi = 0\<rparr>"

definition idt_word :: "idt_entry \<Rightarrow> u64" where
  "idt_word g = ucast (ofs_lo g) OR push_bit 16 (ucast (selector g)) OR push_bit 32 (ucast (iflags g)) OR push_bit 45 (ucast (ipriv g))
     OR push_bit 47 (ucast (ipresent g)) OR push_bit 48 (ucast (ofs_hi g))"

definition gate_offset :: "u64 \<Rightarrow> u32" where
  "gate_offset w = ucast (w AND 0xffff) OR push_bit 16 (ucast (drop_bit 48 w))"

definition gate_type :: "u64 \<Rightarrow> u8" where
  "gate_type w = ucast (drop_bit 40 w AND 0xf)"

subsection \<open>Descriptors are read back\<close>

definition word_of :: "u32 \<Rightarrow> u32 \<Rightarrow> u8 \<Rightarrow> u8 \<Rightarrow> u64" where
  "word_of base lim t f = gdt_word (MkGDT base lim t f)"

lemma bit_field: "bit (push_bit k (ucast (x :: 'a :: len word)) :: u64) n \<longleftrightarrow> k \<le> n \<and> n < 64 \<and> bit x (n - k)"
  by (auto simp: bit_simps)

lemma bit_first: "bit (ucast (x :: u16) :: u64) n \<longleftrightarrow> bit x n"
  using bit_imp_le_length [of x n] by (auto simp: bit_simps)

lemma bit_cut: "bit (ucast (x :: 'a :: len word) :: 'b :: len word) n \<longleftrightarrow> n < LENGTH('b) \<and> bit x n"
  by (auto simp: bit_simps)

lemma bit_low16: "bit (x AND 0xffff :: u32) n \<longleftrightarrow> n < 16 \<and> bit x n"
proof -
  have e: "(0xffff :: u32) = mask 16" by (simp add: mask_eq_exp_minus_1)
  show ?thesis unfolding e by (auto simp: bit_simps dest: bit_imp_le_length)
qed

lemma bit_only0: "bit (f AND 1 :: u8) n \<longleftrightarrow> n = 0 \<and> bit f 0"
  by (auto simp: bit_simps bit_1_iff)

lemma bit_word_of: "bit (word_of base lim t f) n \<longleftrightarrow>
    n < 16 \<and> bit lim n
    \<or> 16 \<le> n \<and> n < 64 \<and> n - 16 < 16 \<and> bit base (n - 16)
    \<or> 32 \<le> n \<and> n < 64 \<and> n - 32 < 8 \<and> bit base (16 + (n - 32))
    \<or> 40 \<le> n \<and> n < 64 \<and> n - 40 < 4 \<and> bit t (n - 40)
    \<or> 44 \<le> n \<and> n < 64 \<and> n - 44 = 0 \<and> bit f 0
    \<or> 45 \<le> n \<and> n < 64 \<and> n - 45 < 2 \<and> bit f (1 + (n - 45))
    \<or> 47 \<le> n \<and> n < 64 \<and> n - 47 = 0 \<and> bit f (3 + (n - 47))
    \<or> 48 \<le> n \<and> n < 64 \<and> n - 48 < 4 \<and> bit lim (16 + (n - 48))
    \<or> 52 \<le> n \<and> n < 64 \<and> n - 52 < 4 \<and> bit f (4 + (n - 52))
    \<or> 56 \<le> n \<and> n < 64 \<and> n - 56 < 8 \<and> bit base (24 + (n - 56))"
  unfolding word_of_def gdt_word_def MkGDT_def gdt_entry.simps bit_or_iff bit_field bit_first bit_cut bit_low16 bit_only0 bit_drop_bit_eq comp_def
  by (simp add: conj_assoc)

lemma upt_two: "2 \<le> n \<Longrightarrow> [0..<n] = 0 # 1 # [2..<n]"
  by (simp add: upt_conv_Cons numeral_2_eq_2)

lemma word_of_bits: "map (bit (word_of base lim t f)) [0..<64] = map (bit lim) [0..<16] @ map (bit base) [0..<24] @ map (bit t) [0..<4]
    @ map (bit f) [0..<4] @ map (bit lim) [16..<20] @ map (bit f) [4..<8] @ map (bit base) [24..<32]"
  by (simp add: upt_two bit_word_of) (simp add: numeral_2_eq_2)

lemma bits_slice:
  assumes "map (bit w) [0..<64] = xs @ map (bit x) [j..<j + n] @ ys" "k = length xs" "i < n"
  shows "bit w (k + i) = bit x (j + i)"
proof -
  have l: "64 = length xs + n + length ys" using arg_cong [OF assms(1), of length] by simp
  have "(xs @ map (bit x) [j..<j + n] @ ys) ! (k + i) = bit x (j + i)" using assms(2,3) by (simp add: nth_append)
  moreover have "map (bit w) [0..<64] ! (k + i) = bit w (k + i)" using assms(2,3) l by (simp del: upt_Suc)
  ultimately show ?thesis using assms(1) by simp
qed

lemma word_of_fields:
  "n < 16 \<Longrightarrow> bit (word_of base lim t f) n = bit lim n"
  "n < 24 \<Longrightarrow> bit (word_of base lim t f) (16 + n) = bit base n"
  "n < 4 \<Longrightarrow> bit (word_of base lim t f) (40 + n) = bit t n"
  "n < 4 \<Longrightarrow> bit (word_of base lim t f) (44 + n) = bit f n"
  "n < 4 \<Longrightarrow> bit (word_of base lim t f) (48 + n) = bit lim (16 + n)"
  "n < 4 \<Longrightarrow> bit (word_of base lim t f) (52 + n) = bit f (4 + n)"
  "n < 8 \<Longrightarrow> bit (word_of base lim t f) (56 + n) = bit base (24 + n)"
proof -
  let ?w = "word_of base lim t f" and ?L = "map (bit lim)" and ?B = "map (bit base)" and ?T = "map (bit t)" and ?F = "map (bit f)"
  note b = word_of_bits [of base lim t f]
  show "n < 16 \<Longrightarrow> bit ?w n = bit lim n" using bits_slice [of ?w "[]" lim 0 16] b by simp
  show "n < 24 \<Longrightarrow> bit ?w (16 + n) = bit base n" using bits_slice [of ?w "?L [0..<16]" base 0 24] b by simp
  show "n < 4 \<Longrightarrow> bit ?w (40 + n) = bit t n" using bits_slice [of ?w "?L [0..<16] @ ?B [0..<24]" t 0 4] b by simp
  show "n < 4 \<Longrightarrow> bit ?w (44 + n) = bit f n" using bits_slice [of ?w "?L [0..<16] @ ?B [0..<24] @ ?T [0..<4]" f 0 4] b by simp
  show "n < 4 \<Longrightarrow> bit ?w (48 + n) = bit lim (16 + n)"
    using bits_slice [of ?w "?L [0..<16] @ ?B [0..<24] @ ?T [0..<4] @ ?F [0..<4]" lim 16 4] b by simp
  show "n < 4 \<Longrightarrow> bit ?w (52 + n) = bit f (4 + n)"
    using bits_slice [of ?w "?L [0..<16] @ ?B [0..<24] @ ?T [0..<4] @ ?F [0..<4] @ ?L [16..<20]" f 4 4] b by simp
  show "n < 8 \<Longrightarrow> bit ?w (56 + n) = bit base (24 + n)"
    using bits_slice [of ?w "?L [0..<16] @ ?B [0..<24] @ ?T [0..<4] @ ?F [0..<4] @ ?L [16..<20] @ ?F [4..<8]" base 24 8 "[]"] b by simp
qed

lemma segment_fields:
  "seg_base (word_of base lim t f) = base"
  "seg_limit (word_of base lim t f) = (if bit f 7 then push_bit 12 (lim AND 0xfffff) OR 0xfff else lim AND 0xfffff)"
  "seg_access (word_of base lim t f) = (t AND 0xf) OR push_bit 4 f"
  "seg_mode (word_of base lim t f) = drop_bit 4 f"
proof -
  let ?w = "word_of base lim t f"
  have m: "(0xffffff :: u64) = mask 24" "(0xffff :: u64) = mask 16" "(0xf :: u64) = mask 4" "(0xf :: u8) = mask 4" "(0xfffff :: u32) = mask 20"
    by (simp_all add: mask_eq_exp_minus_1)
  show "seg_base ?w = base" unfolding seg_base_def m
  proof (rule bit_word_eqI)
    fix n assume "n < LENGTH(32)"
    then have "n < 24 \<or> (\<exists>k < 8. n = 24 + k)" by simp presburger
    then show "bit (ucast (drop_bit 16 ?w AND mask 24) OR push_bit 24 (ucast (drop_bit 56 ?w)) :: u32) n = bit base n"
      by (elim disjE exE conjE) (simp_all add: bit_simps word_of_fields)
  qed
  have "ucast (?w AND mask 16) OR push_bit 16 (ucast (drop_bit 48 ?w AND mask 4)) = (lim AND mask 20)"
  proof (rule bit_word_eqI)
    fix n assume "n < LENGTH(32)"
    then have "n < 16 \<or> (\<exists>k < 4. n = 16 + k) \<or> (\<exists>k < 12. n = 20 + k)" by simp presburger
    then show "bit (ucast (?w AND mask 16) OR push_bit 16 (ucast (drop_bit 48 ?w AND mask 4)) :: u32) n = bit (lim AND mask 20) n"
      by (elim disjE exE conjE) (simp_all add: bit_simps word_of_fields)
  qed
  moreover have "bit ?w 55 = bit f 7" using word_of_fields(6) [of 3 base lim t f] by simp
  ultimately show "seg_limit ?w = (if bit f 7 then push_bit 12 (lim AND 0xfffff) OR 0xfff else lim AND 0xfffff)"
    unfolding seg_limit_def m Let_def by simp
  show "seg_access ?w = (t AND 0xf) OR push_bit 4 f" unfolding seg_access_def m
  proof (rule bit_word_eqI)
    fix n assume "n < LENGTH(8)"
    then have "n < 4 \<or> (\<exists>k < 4. n = 4 + k)" by simp presburger
    then show "bit (ucast (drop_bit 40 ?w) :: u8) n = bit ((t AND mask 4) OR push_bit 4 f) n"
      using word_of_fields(4) by (elim disjE exE conjE) (simp_all add: bit_simps word_of_fields)
  qed
  show "seg_mode ?w = drop_bit 4 f" unfolding seg_mode_def m
  proof (rule bit_word_eqI)
    fix n assume "n < LENGTH(8)"
    then have "n < 4 \<or> (\<exists>k < 4. n = 4 + k)" by simp presburger
    then show "bit (ucast (drop_bit 52 ?w AND mask 4) :: u8) n = bit (drop_bit 4 f) n"
      by (elim disjE exE conjE) (auto simp: bit_simps word_of_fields dest: bit_imp_le_length)
  qed
qed

text \<open>C31 A segment descriptor reads back as the base, the lower 20 bits of the limit (in pages when the granularity flag is set), the type and the flags
  it was made of.\<close>

theorem segment_read_back:
  "seg_base (gdt_word (MkGDT base lim t f)) = base \<and>
   seg_limit (gdt_word (MkGDT base lim t f)) = (if bit f 7 then push_bit 12 (lim AND 0xfffff) OR 0xfff else lim AND 0xfffff) \<and>
   seg_access (gdt_word (MkGDT base lim t f)) = (t AND 0xf) OR push_bit 4 f \<and>
   seg_mode (gdt_word (MkGDT base lim t f)) = drop_bit 4 f"
  unfolding word_of_def [symmetric] by (intro conjI segment_fields)

text \<open>The kernel's data and code segment cover the whole of the address space.\<close>

lemma flat_segments:
  "map (\<lambda>g. (seg_base (gdt_word g), seg_limit (gdt_word g), seg_access (gdt_word g), seg_mode (gdt_word g))) (tl gdt_data)
     = [(0, - 1, 0x92, 0xc), (0, - 1, 0x9a, 0xc)]"
  by code_simp

text \<open>A gate leads to the address it was made of.\<close>

lemma idt_low: "n < 16 \<Longrightarrow> bit (idt_word g) n = bit (ofs_lo g) n"
  unfolding idt_word_def bit_or_iff bit_field bit_first by simp

lemma idt_high: "n < 16 \<Longrightarrow> bit (idt_word g) (48 + n) = bit (ofs_hi g) n"
  unfolding idt_word_def bit_or_iff bit_field bit_first by (auto dest: bit_imp_le_length)

lemma gate_halves: "bit (ofs_lo (idt_gate fl base seg p)) n \<longleftrightarrow> n < 16 \<and> bit base n"
    "bit (ofs_hi (idt_gate fl base seg p)) n \<longleftrightarrow> n < 16 \<and> bit base (16 + n)"
  unfolding idt_gate_def idt_entry.simps bit_cut bit_low16 by (auto simp: bit_drop_bit_eq)

lemma gate_read_back: "gate_offset (idt_word (idt_gate fl base seg p)) = base"
proof -
  have m: "(0xffff :: u64) = mask 16" by (simp add: mask_eq_exp_minus_1)
  show ?thesis unfolding gate_offset_def m
  proof (rule bit_word_eqI)
    fix n assume "n < LENGTH(32)"
    then have "n < 16 \<or> (\<exists>k < 16. n = 16 + k)" by simp presburger
    then show "bit (ucast (idt_word (idt_gate fl base seg p) AND mask 16) OR push_bit 16 (ucast (drop_bit 48 (idt_word (idt_gate fl base seg p)))) :: u32) n = bit base n"
      by (elim disjE exE conjE) (simp_all add: bit_simps idt_low idt_high gate_halves)
  qed
qed

text \<open>The types of the gates are those of a 16-bit processor: 6 and 7 where a 32-bit handler needs 14 and 15.\<close>

lemma gates_are_16bit: "gate_type (idt_word (IDTInt 0 8 0)) = 6" "gate_type (idt_word (IDTTrap 0 8 0)) = 7"
  by code_simp+

end
