(* ===== verification/Large.thy ===== *)
theory Large
  imports Paging
begin

text \<open>
  Large pages of 2 MiB, as the frame buffer is mapped with (\<open>vmm_request\<close> with \<open>RQ_LARGE\<close> and a hint, \<open>src/kernel/memory.cpp\<close>): what a request
  makes the addresses of its range translate to.
\<close>

definition same_large :: "u32 \<Rightarrow> u32 \<Rightarrow> bool" where
  "same_large t u \<longleftrightarrow> unat t div 2097152 = unat u div 2097152"

lemma in_block: "0 < (c :: nat) \<Longrightarrow> m div c = k \<longleftrightarrow> k * c \<le> m \<and> m < k * c + c"
  using dividend_less_div_times [of c m] div_times_less_eq_dividend [of m c] div_nat_eqI [of c k m] by (auto simp: mult.commute add.commute)

lemma same_large_ofs: "same_large t u \<longleftrightarrow> ofs_dp t = ofs_dp u \<and> ofs_d t = ofs_d u"
proof -
  have s: "unat x div 2097152 = ofs_dp x * 512 + ofs_d x" for x :: u32
  proof -
    have "unat x div 2097152 = unat x div 4096 div 512" by (simp add: div_mult2_eq [symmetric])
    moreover have "unat x div 4096 div 512 = ofs_dp x * 512 + ofs_d x"
      unfolding in_block [OF zero_less_numeral] using page_split [of x] ofs_bounds(3) [of x] by (simp add: distrib_right mult.assoc)
    ultimately show ?thesis by simp
  qed
  have inj: "a = c \<and> b = d" if "a * 512 + b = c * 512 + d" "b < 512" "d < 512" for a b c d :: nat
  proof -
    have "(a * 512 + b) div 512 = a" "(c * 512 + d) div 512 = c" using that(2,3) by (simp_all only: in_block zero_less_numeral) simp_all
    then have "a = c" unfolding that(1) by (rule trans [OF sym])
    then show ?thesis using that(1) by simp
  qed
  show ?thesis unfolding same_large_def s using inj [of "ofs_dp t" "ofs_d t" "ofs_dp u" "ofs_d u"] ofs_bounds(2) [of t] ofs_bounds(2) [of u] by auto
qed

text \<open>The four directories are different pages, and no index or table is one of them.\<close>

definition own_dirs :: "mm \<Rightarrow> bool" where
  "own_dirs st \<longleftrightarrow> (\<forall>p \<in> {0..<4}. pgdir st p \<noteq> 0 \<and> (\<forall>q \<in> {0..<4}. (pgdir st p = pgdir st q \<longrightarrow> p = q) \<and> pgdir st p \<noteq> pgdir_idx st q
     \<and> (\<forall>d \<in> {0..<512}. idx_get (pgdir_idx st q) d st \<noteq> pgdir st p)))"

definition large_entry :: "u64 \<Rightarrow> u64 \<Rightarrow> u64" where
  "large_entry phy f = (phy AND 0x0007ffffffe00000) OR (Present OR Large OR (f AND (Writable OR Usermode)))"

lemma large_entry_bits:
  "large_entry phy f AND Present \<noteq> 0" "large_entry phy f AND Large \<noteq> 0"
  "large_entry phy f AND ucast (NOT 0x1fffff :: u32) = phy AND 0xffe00000"
proof -
  have "bit (large_entry phy f AND Present) 0" "bit (large_entry phy f AND Large) 7"
    by (simp_all add: large_entry_def Present_def Large_def bit_simps)
  then show "large_entry phy f AND Present \<noteq> 0" "large_entry phy f AND Large \<noteq> 0" by auto
  have m: "(ucast (NOT 0x1fffff :: u32) :: u64) = 0xffe00000" by simp
  have "Present AND 0xffe00000 = 0" "Large AND 0xffe00000 = 0" "Writable AND 0xffe00000 = 0" "Usermode AND 0xffe00000 = 0"
    "(0x0007ffffffe00000 :: u64) AND 0xffe00000 = 0xffe00000"
    by (simp_all add: Present_def Large_def Writable_def Usermode_def)
  then show "large_entry phy f AND ucast (NOT 0x1fffff :: u32) = phy AND 0xffe00000"
    unfolding m large_entry_def by (simp add: bit.conj_disj_distrib2 and.assoc)
qed

lemma map_page_large:
  assumes "own_dirs st" "f AND Large \<noteq> 0"
  shows "map_page phy t f st = Some (put_entry (pgdir st (ofs_dp t)) (ofs_d t) (large_entry phy f) st)"
proof -
  have n: "pgdir st (ofs_dp t) \<noteq> 0" using assms(1) ofs_bounds(1) [of t] by (simp add: own_dirs_def)
  have "bit (Present OR Large OR (f AND (Writable OR Usermode))) 7" by (simp add: Large_def Present_def bit_simps)
  then have "(Present OR Large OR (f AND (Writable OR Usermode))) AND Large \<noteq> 0"
    by (auto simp: Large_def bit_iff_and_push_bit_not_eq_0 push_bit_eq_mult)
  then show ?thesis using n assms(2) by (simp add: map_page_def Let_def dir_set_def large_entry_def)
qed

lemma translate_put_large:
  fixes t u phy f st
  defines "st' \<equiv> put_entry (pgdir st (ofs_dp t)) (ofs_d t) (large_entry phy f) st"
  assumes own: "own_dirs st"
  shows "own_dirs st'"
    and "translate_page u st' = (if same_large t u then (phy AND 0xffe00000) OR ucast (u AND 0x1fffff) else translate_page u st)"
proof -
  let ?D = "pgdir st (ofs_dp t)"
  have p: "pgdir st' = pgdir st" "pgdir_idx st' = pgdir_idx st" by (simp_all add: st'_def put_entry_def)
  have D: "?D \<noteq> pgdir_idx st q" if "q < 4" for q using own ofs_bounds(1) [of t] that by (simp add: own_dirs_def)
  have idx: "idx_get (pgdir_idx st q) d st' = idx_get (pgdir_idx st q) d st" if "q < 4" for q d
    using D [OF that] by (simp add: idx_get_def st'_def put_entry_def)
  show "own_dirs st'" using own unfolding own_dirs_def p by (simp add: idx)
  have tab: "table_of u st' = table_of u st" using idx [OF ofs_bounds(1)] by (simp add: table_of_def p)
  have "table_of u st \<noteq> ?D" using own ofs_bounds [of u] ofs_bounds(1) [of t] by (auto simp: own_dirs_def table_of_def)
  then have mem: "pmem st' (table_of u st) = pmem st (table_of u st)" by (simp add: st'_def put_entry_def)
  have ent: "pmem st' (pgdir st (ofs_dp u)) (ofs_d u) = (if same_large t u then large_entry phy f else pmem st (pgdir st (ofs_dp u)) (ofs_d u))"
  proof -
    have "pgdir st (ofs_dp u) = ?D \<longleftrightarrow> ofs_dp u = ofs_dp t" using own ofs_bounds(1) [of u] ofs_bounds(1) [of t] by (auto simp: own_dirs_def)
    then show ?thesis unfolding same_large_ofs st'_def put_entry_def by auto
  qed
  have n: "pgdir st (ofs_dp u) \<noteq> 0" using own ofs_bounds(1) [of u] by (simp add: own_dirs_def)
  show "translate_page u st' = (if same_large t u then (phy AND 0xffe00000) OR ucast (u AND 0x1fffff) else translate_page u st)"
  proof (cases "same_large t u")
    case True
    then show ?thesis unfolding translate_page_alt [of u st'] p tab ent by (simp only: Let_def large_entry_bits n if_True if_False simp_thms)
  next
    case False
    then show ?thesis unfolding translate_page_alt p tab ent mem by simp
  qed
qed

text \<open>A run of large pages.\<close>

lemma aligned_or:
  fixes phy :: u64 and u :: u32
  assumes "unat phy mod 2097152 = 0" "unat phy < 2 ^ 32"
  shows "unat ((phy AND 0xffe00000) OR ucast (u AND 0x1fffff)) = unat phy + unat u mod 2097152"
proof -
  have t: "take_bit 21 phy = 0" using assms(1) by (simp add: take_bit_eq_mod unat_eq_zero [symmetric] unat_mod_distrib)
  have h: "take_bit 32 phy = phy" using assms(2) by (simp add: take_bit_eq_mod word_unat_eq_iff unat_mod_distrib)
  have lo: "\<not> bit phy i" if "i < 21" for i using arg_cong [OF t, of "\<lambda>w. bit w i"] that by (simp add: bit_simps)
  have hi: "\<not> bit phy i" if "32 \<le> i" for i using arg_cong [OF h, of "\<lambda>w. bit w i"] that by (simp add: bit_simps)
  have mask: "(0xffe00000 :: u64) = push_bit 21 (mask 11)" "(0x1fffff :: u32) = mask 21" by (simp_all add: mask_eq_exp_minus_1)
  have "phy AND 0xffe00000 = phy"
  proof (rule bit_word_eqI)
    fix n assume "n < LENGTH(64)"
    show "bit (phy AND 0xffe00000) n = bit phy n" unfolding mask using lo [of n] hi [of n] by (cases "n < 21"; cases "32 \<le> n") (auto simp: bit_simps)
  qed
  moreover have d: "phy AND ucast (u AND 0x1fffff) = 0"
  proof (rule bit_word_eqI)
    fix n assume "n < LENGTH(64)"
    show "bit (phy AND ucast (u AND 0x1fffff)) n = bit 0 n" unfolding mask using lo [of n] by (cases "n < 21") (simp_all add: bit_simps)
  qed
  moreover have u: "unat (ucast (u AND 0x1fffff) :: u64) = unat u mod 2097152"
    using and_mask_nat [of u 21] by (simp add: mask unat_ucast_up)
  ultimately have "(phy AND 0xffe00000) OR ucast (u AND 0x1fffff) = phy + ucast (u AND 0x1fffff)"
    by (simp add: disjunctive_add_eq_or)
  moreover have "unat u mod 2097152 < 2097152" by simp
  ultimately show ?thesis using u assms(2) by (simp add: unat_word_ariths)
qed

lemma large_step:
  assumes "own_dirs st" "unat b mod 2097152 = 0" "unat phy mod 2097152 = 0" "unat phy + 2097152 \<le> 2 ^ 32" "unat b + 2097152 \<le> 2 ^ 32"
  shows "own_dirs (put_entry (pgdir st (ofs_dp b)) (ofs_d b) (large_entry phy f) st)"
    and "if unat b \<le> unat u \<and> unat u < unat b + 2097152
      then unat (translate_page u (put_entry (pgdir st (ofs_dp b)) (ofs_d b) (large_entry phy f) st)) = unat phy + (unat u - unat b)
      else translate_page u (put_entry (pgdir st (ofs_dp b)) (ofs_d b) (large_entry phy f) st) = translate_page u st"
proof -
  note t = translate_put_large [OF assms(1), where t = b and phy = phy and f = f]
  show "own_dirs (put_entry (pgdir st (ofs_dp b)) (ofs_d b) (large_entry phy f) st)" by (rule t(1))
  define k where "k = unat b div 2097152"
  have k: "unat b = k * 2097152" using div_mult_mod_eq [of "unat b" 2097152] unfolding assms(2) k_def by simp
  have same: "same_large b u \<longleftrightarrow> unat b \<le> unat u \<and> unat u < unat b + 2097152"
    unfolding same_large_def k using in_block [of 2097152 k "unat u"] by auto
  have off: "unat u mod 2097152 = unat u - unat b" if "same_large b u"
    using that unfolding same_large_def k by (simp add: minus_div_mult_eq_mod [symmetric])
  show "if unat b \<le> unat u \<and> unat u < unat b + 2097152
      then unat (translate_page u (put_entry (pgdir st (ofs_dp b)) (ofs_d b) (large_entry phy f) st)) = unat phy + (unat u - unat b)
      else translate_page u (put_entry (pgdir st (ofs_dp b)) (ofs_d b) (large_entry phy f) st) = translate_page u st"
    unfolding same [symmetric] using t(2) [where u = u] aligned_or [OF assms(3), of u] off assms(4) by simp
qed

lemma map_given_large:
  assumes "own_dirs st" "f AND Large \<noteq> 0" "unat b mod 2097152 = 0" "unat phy mod 2097152 = 0"
    "unat b + Suc n * 2097152 < 2 ^ 32" "unat phy + Suc n * 2097152 \<le> 2 ^ 32" "unat e = unat b + Suc n * 2097152"
  shows "\<exists>st'. map_given 0x200000 f phy b e st = Some st' \<and> own_dirs st' \<and>
    (\<forall>u. if unat b \<le> unat u \<and> unat u < unat e then unat (translate_page u st') = unat phy + (unat u - unat b)
         else translate_page u st' = translate_page u st)"
  using assms
proof (induction n arbitrary: b phy st)
  case 0
  have e: "b + 0x200000 = e" using 0 by (simp add: word_unat_eq_iff unat_word_ariths)
  then have "map_given 0x200000 f phy b e st = Some (put_entry (pgdir st (ofs_dp b)) (ofs_d b) (large_entry phy f) st)"
    using map_page_large [OF 0(1,2), of phy b] by (simp add: map_given.simps)
  then show ?case using large_step [OF 0(1,3,4)] 0 by auto
next
  case (Suc n)
  let ?st = "put_entry (pgdir st (ofs_dp b)) (ofs_d b) (large_entry phy f) st"
  note step = large_step [OF Suc.prems(1,3,4), where f = f]
  have b: "unat (b + 0x200000) = unat b + 2097152" using Suc.prems by (simp add: unat_word_ariths)
  have ph: "unat (phy + 0x200000) = unat phy + 2097152" using Suc.prems by (simp add: unat_word_ariths)
  have "b + 0x200000 < e" using Suc.prems b by (simp add: word_less_nat_alt)
  then have m: "map_given 0x200000 f phy b e st = map_given 0x200000 f (phy + 0x200000) (b + 0x200000) e ?st"
    using map_page_large [OF Suc.prems(1,2), of phy b] by (subst map_given.simps) simp
  obtain st' where r: "map_given 0x200000 f (phy + 0x200000) (b + 0x200000) e ?st = Some st'" "own_dirs st'"
    and u: "\<And>u. if unat b + 2097152 \<le> unat u \<and> unat u < unat e then unat (translate_page u st') = unat phy + 2097152 + (unat u - (unat b + 2097152))
         else translate_page u st' = translate_page u ?st"
    using Suc.IH [of ?st "b + 0x200000" "phy + 0x200000", unfolded b ph] step(1) Suc.prems by fastforce
  have "if unat b \<le> unat u \<and> unat u < unat e then unat (translate_page u st') = unat phy + (unat u - unat b)
         else translate_page u st' = translate_page u st" for u
    using u [of u] step(2) [where u = u] Suc.prems by (auto split: if_splits)
  then show ?case using m r by auto
qed
text \<open>A request for large pages at a given place (\<open>RQ_RW | RQ_LARGE | RQ_HINT\<close>) of a size and for memory that are multiples of 2 MiB: every
  address of the range then translates to its place in that memory and every other address as before.\<close>

lemma map_flags_large: "map_flags (RQ_RW OR RQ_LARGE OR RQ_HINT) AND Large \<noteq> 0"
proof -
  have "bit (map_flags (RQ_RW OR RQ_LARGE OR RQ_HINT)) 7" by (simp add: map_flags_def RQ_RW_def RQ_LARGE_def RQ_HINT_def Large_def Writable_def bit_simps)
  then show ?thesis by (auto simp: Large_def bit_iff_and_push_bit_not_eq_0 push_bit_eq_mult)
qed

lemma large_request:
  assumes "own_dirs st" "unat b mod 2097152 = 0" "unat phy mod 2097152 = 0" "0x10000 \<le> b"
    "unat b + Suc n * 2097152 < 2 ^ 32" "unat phy + Suc n * 2097152 \<le> 2 ^ 32"
    "unat sz = Suc n * 2097152" "set_extent (ucast b) (sz div PAGE_SIZE) MX_IO (vmm st) = Some v"
  shows "\<exists>st'. vmm_request (Suc k) sz b phy (RQ_RW OR RQ_LARGE OR RQ_HINT) st = Some (b, st') \<and> own_dirs st' \<and>
    (\<forall>u. if unat b \<le> unat u \<and> unat u < unat b + Suc n * 2097152 then unat (translate_page u st') = unat phy + (unat u - unat b)
         else translate_page u st' = translate_page u st)"
proof -
  let ?F = "RQ_RW OR RQ_LARGE OR RQ_HINT"
  have page: "x AND NOT (PAGE_SIZE - 1) = x" "x AND (PAGE_SIZE - 1) = 0" if "unat x mod 2097152 = 0" for x :: u32
  proof -
    have "2097152 dvd unat x" "(4096 :: nat) dvd 2097152" using that by (simp_all add: mod_eq_0_iff_dvd)
    then have "unat x mod 4096 = 0" using dvd_trans mod_eq_0_iff_dvd by blast
    then have t: "take_bit 12 x = 0" by (simp add: take_bit_eq_mod word_unat_eq_iff unat_mod_distrib)
    then show m: "x AND (PAGE_SIZE - 1) = 0" by (simp add: PAGE_SIZE_def take_bit_eq_mask mask_eq_exp_minus_1)
    show "x AND NOT (PAGE_SIZE - 1) = x"
    proof (rule bit_word_eqI)
      fix i assume "i < LENGTH(32)"
      show "bit (x AND NOT (PAGE_SIZE - 1)) i = bit x i" using arg_cong [OF m, of "\<lambda>w. bit w i"] bit_imp_le_length [of x i] by (auto simp: bit_simps)
    qed
  qed
  have szm: "unat sz mod 2097152 = 0" unfolding assms(7) by simp
  define e where "e = b + sz"
  have e: "unat e = unat b + Suc n * 2097152" using assms(5,7) by (simp add: e_def unat_word_ariths)
  have lt: "\<not> e \<le> b" using e by (simp add: word_le_nat_alt)
  have fl: "?F AND RQ_ALLOC = 0" "?F AND RQ_HINT \<noteq> 0" "?F AND RQ_LARGE \<noteq> 0"
    by (simp_all add: RQ_ALLOC_def RQ_HINT_def RQ_LARGE_def RQ_RW_def)
  have range: "choose_range (vmm_request k) sz b ?F st = Some (Some (b, e), st\<lparr>vmm := v\<rparr>)"
    using fl lt assms(4,8) page [OF assms(2)] page [OF szm] by (simp add: choose_range_def Let_def e_def)
  have own: "own_dirs (st\<lparr>vmm := v\<rparr>)" using assms(1) by (simp add: own_dirs_def idx_get_def)
  have fields: "pgdir (st\<lparr>vmm := v\<rparr>) = pgdir st" "pgdir_idx (st\<lparr>vmm := v\<rparr>) = pgdir_idx st" "pmem (st\<lparr>vmm := v\<rparr>) = pmem st" by simp_all
  have same: "translate_page u (st\<lparr>vmm := v\<rparr>) = translate_page u st" for u unfolding translate_page_def idx_get_def fields ..
  obtain st' where "map_given 0x200000 (map_flags ?F) phy b e (st\<lparr>vmm := v\<rparr>) = Some st'" "own_dirs st'"
    "\<forall>u. if unat b \<le> unat u \<and> unat u < unat e then unat (translate_page u st') = unat phy + (unat u - unat b)
         else translate_page u st' = translate_page u (st\<lparr>vmm := v\<rparr>)"
    using map_given_large [OF own map_flags_large assms(2,3,5,6) e] by blast
  then show ?thesis using range fl unfolding same e by (simp add: vmm_request_with_def Let_def)
qed
end
