(* ===== verification/Refs.thy ===== *)
theory Refs
  imports Pool
begin

text \<open>
  The counting references of \<open>src/kernel/ktypes.hpp\<close> (\<open>template Ref\<close>): every constructor, the destructor and the assignments, on references that lie
  at places of memory, and the law they keep: a packet's count is the number of references to it.
\<close>

subsection \<open>References and their operations\<close>

text \<open>\<open>places\<close> maps the places that hold a constructed reference to its pointer. \<open>None\<close> is a constructor on a place that is in use, another
  operation on one that is not, or the pointer constructor with the null pointer, which it follows.\<close>

record store =
  packets :: "packet list"
  places :: "nat \<Rightarrow> nat option option"

datatype ref_op =
    Default nat | OfPtr nat "nat option" | CopyNew nat nat | MoveNew nat nat | Destroy nat
  | ResetTo nat "nat option" | AssignCopy nat nat | AssignMove nat nat

definition held_by :: "store \<Rightarrow> nat \<Rightarrow> nat option" where
  "held_by s h = (case places s h of None \<Rightarrow> None | Some p \<Rightarrow> p)"

text \<open>The place \<open>h\<close> comes to hold \<open>x\<close>, and the counts change from \<open>old\<close> to \<open>new\<close>.\<close>

definition put_ref :: "nat \<Rightarrow> nat option option \<Rightarrow> nat option \<Rightarrow> nat option \<Rightarrow> store \<Rightarrow> store" where
  "put_ref h x old new s = s\<lparr>packets := ref_reset old new (packets s), places := (places s)(h := x)\<rparr>"

text \<open>The assignments return a copy of the reference, which is destroyed.\<close>

definition returned :: "nat \<Rightarrow> store \<Rightarrow> store" where
  "returned h s = s\<lparr>packets := ref_reset (held_by s h) None (ref_reset None (held_by s h) (packets s))\<rparr>"

definition live :: "store \<Rightarrow> nat \<Rightarrow> bool" where
  "live s h \<longleftrightarrow> \<not> Option.is_none (places s h)"

fun ref_step :: "ref_op \<Rightarrow> store \<Rightarrow> store option" where
  "ref_step (Default h) s = (if live s h then None else Some (put_ref h (Some None) None None s))"
| "ref_step (OfPtr h p) s = (if live s h \<or> p = None then None else Some (put_ref h (Some p) None p s))"
| "ref_step (CopyNew h g) s =
    (if live s h \<or> \<not> live s g then None else Some (put_ref h (Some (held_by s g)) None (held_by s g) s))"
| "ref_step (MoveNew h g) s =
    (if live s h \<or> \<not> live s g then None
     else Some (put_ref g (Some None) None None (put_ref h (Some (held_by s g)) None None s)))"
| "ref_step (Destroy h) s = (if live s h then Some (put_ref h None (held_by s h) None s) else None)"
| "ref_step (ResetTo h p) s = (if live s h then Some (put_ref h (Some p) (held_by s h) p s) else None)"
| "ref_step (AssignCopy h g) s =
    (if live s h \<and> live s g then Some (returned h (put_ref h (Some (held_by s g)) (held_by s h) (held_by s g) s)) else None)"
| "ref_step (AssignMove h g) s =
    (if live s h \<and> live s g
     then Some (returned h (put_ref g (Some None) None None (put_ref h (Some (held_by s g)) (held_by s h) None s))) else None)"

fun ref_run :: "ref_op list \<Rightarrow> store \<Rightarrow> store option" where
  "ref_run [] s = Some s"
| "ref_run (r # rs) s = do { s1 \<leftarrow> ref_step r s; ref_run rs s1 }"

fun names_packet :: "nat \<Rightarrow> ref_op \<Rightarrow> bool" where
  "names_packet n (OfPtr h (Some p)) = (p < n)"
| "names_packet n (ResetTo h (Some p)) = (p < n)"
| "names_packet n r = True"

subsection \<open>Counting\<close>

definition holders :: "(nat \<Rightarrow> nat option option) \<Rightarrow> nat \<Rightarrow> nat" where
  "holders m i = card {h. m h = Some (Some i)}"

abbreviation one_if :: "bool \<Rightarrow> nat" where
  "one_if b \<equiv> (if b then 1 else 0)"

lemma holders_upd:
  assumes "finite (dom m)"
  shows "holders (m(h := x)) i + one_if (m h = Some (Some i)) = holders m i + one_if (x = Some (Some i))"
proof -
  let ?A = "{g. m g = Some (Some i)}"
  have f: "finite ?A" using assms by (rule finite_subset [rotated]) auto
  have e: "{g. (m(h := x)) g = Some (Some i)} = (if x = Some (Some i) then insert h (?A - {h}) else ?A - {h})" by auto
  have out: "card ?A = card (?A - {h}) + one_if (m h = Some (Some i))"
    using f card_Suc_Diff1 [OF f, of h] by (cases "m h = Some (Some i)") simp_all
  have "card (insert h (?A - {h})) = card (?A - {h}) + 1" using f by (subst card_insert_disjoint) auto
  then have ins: "card (if b then insert h (?A - {h}) else ?A - {h}) = card (?A - {h}) + one_if b" for b by (simp only: if_True if_False split: if_split) simp
  show ?thesis unfolding holders_def e ins by (subst out) (rule add.commute [THEN trans], simp only: ac_simps)
qed

lemma ref_reset_count:
  "i < length ps \<Longrightarrow>
    refs (ref_reset old new ps ! i) = refs (ps ! i) + of_nat (one_if (new = Some i)) - of_nat (one_if (old = Some i))"
  by (auto simp: ref_reset_def addref_def deref_def Let_def nth_list_update split: option.splits)

lemma ref_reset_length [simp]: "length (ref_reset old new ps) = length ps"
  by (simp add: ref_reset_def addref_def deref_def Let_def split: option.splits)

text \<open>The law: \<open>K\<close> is what is counted beside the references at places.\<close>

definition exact :: "(nat \<Rightarrow> u32) \<Rightarrow> store \<Rightarrow> bool" where
  "exact K s \<longleftrightarrow> finite (dom (places s)) \<and> (\<forall>h i. places s h = Some (Some i) \<longrightarrow> i < length (packets s))
     \<and> (\<forall>i < length (packets s). refs (packets s ! i) = K i + of_nat (holders (places s) i))"

lemma count_word: "a + p = b + q \<Longrightarrow> r + n + p = k + b + u + q \<Longrightarrow> r' = r + n - u \<Longrightarrow> r' = k + (a :: u32)"
proof -
  assume h: "a + p = b + q" "r + n + p = k + b + u + q" "r' = r + n - u"
  have "r + n = k + (b + q) + u - p" unfolding eq_diff_eq using h(2) by (simp add: ac_simps)
  then show "r' = k + a" unfolding h(1) [symmetric] h(3) by simp
qed

lemma exact_put:
  assumes "finite (dom (places s))" "\<And>i. x = Some (Some i) \<Longrightarrow> i < length (packets s)"
    and "\<And>h i. places s h = Some (Some i) \<Longrightarrow> i < length (packets s)"
    and "\<And>i. i < length (packets s) \<Longrightarrow>
       refs (packets s ! i) + of_nat (one_if (new = Some i)) + of_nat (one_if (places s h = Some (Some i)))
         = K i + of_nat (holders (places s) i) + of_nat (one_if (old = Some i)) + of_nat (one_if (x = Some (Some i)))"
  shows "exact K (put_ref h x old new s)"
proof -
  have "refs (ref_reset old new (packets s) ! i) = K i + of_nat (holders ((places s)(h := x)) i)" if i: "i < length (packets s)" for i
  proof -
    have "(of_nat (holders ((places s)(h := x)) i + one_if (places s h = Some (Some i))) :: u32) = of_nat (holders (places s) i + one_if (x = Some (Some i)))"
      by (simp only: holders_upd [OF assms(1)])
    then have "(of_nat (holders ((places s)(h := x)) i) :: u32) + of_nat (one_if (places s h = Some (Some i)))
        = of_nat (holders (places s) i) + of_nat (one_if (x = Some (Some i)))" by (simp only: of_nat_add)
    from count_word [OF this assms(4) [OF i] ref_reset_count [OF i]] show ?thesis .
  qed
  then show ?thesis using assms(1-3) by (auto simp: exact_def put_ref_def)
qed

lemma exact_copy:
  assumes "exact K s" "x = Some new" "old = held_by s h" "\<And>i. new = Some i \<Longrightarrow> i < length (packets s)"
  shows "exact K (put_ref h x old new s)"
  by (rule exact_put) (use assms in \<open>auto simp: exact_def held_by_def split: option.splits\<close>)

lemma exact_returned: "exact K s \<Longrightarrow> exact K (returned h s)"
proof -
  assume e: "exact K s"
  have "refs (packets (returned h s) ! i) = refs (packets s ! i)" if "i < length (packets s)" for i
    using that by (simp add: returned_def ref_reset_count)
  then show ?thesis using e by (simp add: exact_def) (simp add: returned_def)
qed

lemma reset_through: "(\<And>i. v = Some i \<Longrightarrow> i < length ps) \<Longrightarrow> ref_reset v None (ref_reset old v ps) = ref_reset old None ps"
  by (cases v; cases old) (auto simp: ref_reset_def addref_def deref_def Let_def list_update_swap nth_list_update)

lemma exact_bound: "exact K s \<Longrightarrow> held_by s h = Some i \<Longrightarrow> i < length (packets s)"
  by (auto simp: exact_def held_by_def split: option.splits)

lemma put_ref_length [simp]: "length (packets (put_ref h x old new s)) = length (packets s)" "length (packets (returned h s)) = length (packets s)"
  by (simp_all add: put_ref_def returned_def)

lemma held_put: "held_by (put_ref h x old new s) g = (if g = h then (case x of None \<Rightarrow> None | Some p \<Rightarrow> p) else held_by s g)"
  by (simp add: held_by_def put_ref_def)

lemma exact_moved:
  assumes "exact K s" "old = held_by s h" "v = held_by s g"
  shows "exact K (put_ref g (Some None) None None (put_ref h (Some v) old None s))"
proof (cases "g = h")
  case True
  have r: "ref_reset None None ps = ps" for ps by (simp add: ref_reset_def)
  have "put_ref g (Some None) None None (put_ref h (Some v) old None s) = put_ref h (Some None) old None s" using True by (simp add: put_ref_def r)
  then show ?thesis using exact_copy [OF assms(1) refl assms(2), of None] by simp
next
  case False
  have b: "\<And>i. v = Some i \<Longrightarrow> i < length (packets s)" using assms(1,3) exact_bound by metis
  have r: "ref_reset None None ps = ps" for ps by (simp add: ref_reset_def)
  have "put_ref g (Some None) None None (put_ref h (Some v) old None s) = put_ref g (Some None) v None (put_ref h (Some v) old v s)"
    using reset_through [of v "packets s" old, OF b] by (simp add: put_ref_def r)
  moreover have "exact K (put_ref h (Some v) old v s)" using exact_copy [OF assms(1) refl assms(2) b] .
  then have "exact K (put_ref g (Some None) v None (put_ref h (Some v) old v s))"
    by (rule exact_copy) (use False assms(3) in \<open>simp_all add: held_put\<close>)
  ultimately show ?thesis by simp
qed

lemma not_live: "\<not> live s h \<Longrightarrow> held_by s h = None"
  by (auto simp: live_def held_by_def Option.is_none_def split: option.splits)

lemma exact_destroy:
  assumes "exact K s"
  shows "exact K (put_ref h None (held_by s h) None s)"
  by (rule exact_put) (use assms in \<open>auto simp: exact_def held_by_def split: option.splits\<close>)

lemma ref_step_exact:
  assumes "exact K s" "names_packet (length (packets s)) r" "ref_step r s = Some s1"
  shows "exact K s1 \<and> length (packets s1) = length (packets s)"
proof (cases r)
  case (Default h)
  then show ?thesis using assms not_live [of s h] exact_copy [OF assms(1), of "Some None" None None h] by (auto split: if_splits)
next
  case (OfPtr h p)
  then show ?thesis using assms not_live [of s h] exact_copy [OF assms(1), of "Some p" p None h] by (auto split: if_splits)
next
  case (CopyNew h g)
  then show ?thesis using assms not_live [of s h] exact_copy [OF assms(1), of "Some (held_by s g)" "held_by s g" None h] exact_bound [OF assms(1), of g]
    by (auto split: if_splits)
next
  case (MoveNew h g)
  then show ?thesis using assms not_live [of s h] exact_moved [OF assms(1), of None h "held_by s g" g] by (auto split: if_splits)
next
  case (Destroy h)
  then show ?thesis using assms exact_destroy [OF assms(1)] by (auto split: if_splits)
next
  case (ResetTo h p)
  have "exact K (put_ref h (Some p) (held_by s h) p s)"
    by (rule exact_copy [OF assms(1) refl refl]) (use ResetTo assms(2) in simp)
  then show ?thesis using assms ResetTo by (auto split: if_splits)
next
  case (AssignCopy h g)
  then show ?thesis using assms exact_returned [OF exact_copy [OF assms(1) refl refl exact_bound [OF assms(1)]]] by (auto split: if_splits)
next
  case (AssignMove h g)
  then show ?thesis using assms exact_returned [OF exact_moved [OF assms(1) refl refl]] by (auto split: if_splits)
qed

text \<open>Whatever references are made, copied, moved, assigned (to themselves too) and destroyed, each packet's count stays the number of references to it;
  when all are destroyed, only what was counted beside them is left.\<close>

theorem references_counted:
  assumes "exact K s" "\<forall>r \<in> set rs. names_packet (length (packets s)) r" "ref_run rs s = Some s1"
  shows "exact K s1 \<and> (dom (places s1) = {} \<longrightarrow> (\<forall>i < length (packets s1). refs (packets s1 ! i) = K i))"
proof -
  have "exact K s1 \<and> length (packets s1) = length (packets s)" using assms
  proof (induction rs arbitrary: s)
    case (Cons r rs)
    obtain s2 where s2: "ref_step r s = Some s2" "ref_run rs s2 = Some s1" using Cons.prems(3) by (auto split: bind_splits)
    note step = ref_step_exact [OF Cons.prems(1) _ s2(1)]
    show ?case using Cons.IH [OF _ _ s2(2)] step Cons.prems(2) by simp
  qed simp
  then show ?thesis by (auto simp: exact_def holders_def)
qed

theorem references_counted_witness:
  "\<exists>s1. ref_run [OfPtr 0 (Some 0), CopyNew 1 0, AssignMove 0 1, AssignCopy 0 0, Destroy 0, Destroy 1]
      \<lparr>packets = [\<lparr>refs = 0, pbuf = (\<lambda>_. 0), psize = 0\<rparr>], places = (\<lambda>_. None)\<rparr> = Some s1 \<and> refs (packets s1 ! 0) = 0"
proof -
  let ?s = "\<lparr>packets = [\<lparr>refs = 0, pbuf = (\<lambda>_. 0), psize = 0\<rparr>], places = (\<lambda>_. None)\<rparr> :: store"
  let ?rs = "[OfPtr 0 (Some 0), CopyNew 1 0, AssignMove 0 1, AssignCopy 0 0, Destroy 0, Destroy 1]"
  have e: "exact (\<lambda>_. 0) ?s" by (simp add: exact_def holders_def)
  have n: "\<forall>r \<in> set ?rs. names_packet (length (packets ?s)) r" by simp
  obtain s1 where r: "ref_run ?rs ?s = Some s1" "places s1 0 = None" "places s1 1 = None" "\<forall>h. h \<noteq> 0 \<longrightarrow> h \<noteq> 1 \<longrightarrow> places s1 h = None"
      "length (packets s1) = 1"
    by (simp add: live_def put_ref_def returned_def)
  have "dom (places s1) = {}" using r(2-4) by (auto simp: dom_def) (metis One_nat_def neq0_conv)
  then show ?thesis using references_counted [OF e n r(1)] r by auto
qed

end
