(* ===== verification/Shell.thy ===== *)
theory Shell
  imports KLib Ps2Run "HOL-Library.Monad_Syntax"
begin

text \<open>
  The command line of the kernel (\<open>handle_key\<close> of \<open>src/kernel/kmain.cpp\<close>): the line being typed, the command it stands for when it is
  ended. The code seems to mean an empty line to bring back the one before; the length it restores is reset right after (\<open>empty_line\<close> below).

  A key leads to a list of actions, in the order the code takes them: what is printed and which part of the kernel is called. A command is compared
  with the bytes of the line by \<open>memeq\<close>; \<open>cmd\<close> is that memory and holds what earlier lines left behind. The texts of the literals lie at
  \<open>TEXT\<close> and up in the model's memory.
\<close>

subsection \<open>State and actions\<close>

definition cmdlen :: nat where
  "cmdlen = 4096"

record shell =
  cmdx :: nat
  cmdl :: nat
  cmd :: "u8 list"
  nxf :: u32
  flk :: bool

text \<open>\<open>Debug n\<close> is \<open>mem::debug(n)\<close>; \<open>Eth\<close> and \<open>Acpi\<close> carry the length given to the called function, which gets the address behind the name.\<close>

datatype action =
    Echo u8 | Render | RunTasks | Debug nat | TimerCount | TickCount | ApicCount | SendTest | Random
  | DebugArp | DebugPackets | Die | Eth int | Acpi int | ToggleSerial | Cursor | Blink bool | Dot u32

definition chars :: "string \<Rightarrow> u8 list" where
  "chars s = map (\<lambda>c. of_char c) s"

text \<open>\<open>!memeq(cmd, name, n)\<close> for a literal of \<open>n\<close> bytes: the line's memory with the literal behind it.\<close>

definition TEXT :: nat where
  "TEXT = 8192"

definition line_mem :: "u8 list \<Rightarrow> u8 list \<Rightarrow> bytes" where
  "line_mem line name a = (if a < length line then line ! a else if TEXT \<le> a \<and> a < TEXT + length name then name ! (a - TEXT) else 0)"

definition is_cmd :: "u8 list \<Rightarrow> string \<Rightarrow> bool" where
  "is_cmd line name \<longleftrightarrow> memeq (line_mem line (chars name)) 0 TEXT (length name) = 0"

text \<open>The commands of one letter.\<close>

definition letter :: "u8 \<Rightarrow> action list" where
  "letter c =
    (if c = 0x21 then [RunTasks]
     else if c = 0x44 then [Debug 4]
     else if c = 0x64 then [Debug 0]
     else if c = 0x54 then [TimerCount]
     else if c = 0x74 then [TickCount]
     else if c = 0x61 then [ApicCount]
     else if c = 0x77 then [SendTest]
     else if c = 0x70 then [Debug 1]
     else if c = 0x76 then [Debug 2]
     else if c = 0x72 then [Random]
     else [])"

text \<open>The commands with a name. \<open>n\<close> is \<open>cmdx\<close>.\<close>

definition named :: "u8 list \<Rightarrow> nat \<Rightarrow> action list" where
  "named line n =
     (if is_cmd line ''arp'' then [DebugArp] else [])
     @ (if is_cmd line ''pkt'' then [DebugPackets] else [])
     @ (if is_cmd line ''die'' then [Die] else [])
     @ (if is_cmd line ''eth'' then [Eth (int n - 3)] else [])
     @ (if is_cmd line ''acpi'' then [Acpi (int n - 4)] else [])
     @ (if n = 6 \<and> is_cmd line ''serial'' then [ToggleSerial] else [])
     @ (if n = 6 \<and> is_cmd line ''/debug'' then [Debug 2] else [])"

definition put_char :: "u8 \<Rightarrow> shell \<Rightarrow> shell" where
  "put_char c s = (if cmdx s < cmdlen then s\<lparr>cmd := (cmd s)[cmdx s := c], cmdx := cmdx s + 1\<rparr> else s)"

text \<open>The end of the line.\<close>

definition end_line :: "shell \<Rightarrow> action list \<times> shell" where
  "end_line s = (let
     (as, n) = (if cmdx s = 0 then ([], cmdl s)
       else if cmdx s = 1 then (letter (cmd s ! 0), 1)
       else if 3 \<le> cmdx s then (named (cmd s) (cmdx s), cmdx s)
       else ([], cmdx s))
     in (as, s\<lparr>cmdl := n, cmdx := 0\<rparr>))"

text \<open>One key; \<open>f\<close> is the tick count \<open>_iv_int_f\<close> and \<open>fb\<close> whether there is a graphical console.\<close>

definition handle_char :: "u32 \<Rightarrow> bool \<Rightarrow> u8 \<Rightarrow> shell \<Rightarrow> action list \<times> shell" where
  "handle_char f fb ch s = (let
     (as, s1) = (if ch \<noteq> 10 then ((if fb then [Render] else []), put_char ch s) else end_line s)
     in (Echo ch # as @ (if fb then [Cursor] else []), s1\<lparr>nxf := f + 100, flk := True\<rparr>))"

definition handle_key :: "u32 \<Rightarrow> bool \<Rightarrow> keyboard \<Rightarrow> shell \<Rightarrow> action list \<times> keyboard \<times> shell" where
  "handle_key f fb kb s = (let (k, kb) = pop_key kb; ch = mapchar k (mods kb) in
     if ch = 0 then ([], kb, s)
     else (case handle_char f fb ch s of (as, s1) \<Rightarrow> (as, kb, s1)))"

text \<open>\<open>if(kb1->has_key()) handle_key();\<close> of \<open>n\<close> passes of the loop.\<close>

definition next_key :: "u32 \<Rightarrow> bool \<Rightarrow> keyboard \<Rightarrow> shell \<Rightarrow> action list \<times> keyboard \<times> shell" where
  "next_key f fb kb s = (if has_key kb then handle_key f fb kb s else ([], kb, s))"

fun handle_keys :: "u32 \<Rightarrow> bool \<Rightarrow> nat \<Rightarrow> keyboard \<Rightarrow> shell \<Rightarrow> action list \<times> keyboard \<times> shell" where
  "handle_keys f fb 0 kb s = ([], kb, s)"
| "handle_keys f fb (Suc n) kb s = (case next_key f fb kb s of (as, kb1, s1) \<Rightarrow>
     (case handle_keys f fb n kb1 s1 of (bs, kb2, s2) \<Rightarrow> (as @ bs, kb2, s2)))"

text \<open>The cursor, and the trace the mouse leaves in the video memory: \<open>vid\<close> is the length of a line in bytes when there is one.\<close>

definition blink :: "u32 \<Rightarrow> bool \<Rightarrow> shell \<Rightarrow> action list \<times> shell" where
  "blink f fb s =
    (if f > nxf s then ((if fb then [Blink (\<not> flk s)] else []), s\<lparr>nxf := f + 250, flk := \<not> flk s\<rparr>) else ([], s))"

definition mouse_dot :: "u32 option \<Rightarrow> mouse \<Rightarrow> action list \<times> mouse" where
  "mouse_dot vid mo =
    (if mstatus mo AND 0x80 \<noteq> 0
     then ((case vid of None \<Rightarrow> [] | Some stride \<Rightarrow> [Dot (stride div 4 * my mo + mx mo)]), mo\<lparr>mstatus := mstatus mo AND 0x7f\<rparr>)
     else ([], mo))"

definition mouse_and_key :: "u32 \<Rightarrow> bool \<Rightarrow> u32 option \<Rightarrow> ps2 \<Rightarrow> shell \<Rightarrow> action list \<times> ps2 \<times> shell" where
  "mouse_and_key f fb vid d s = (case mouse_dot vid (mou d) of (as, mo) \<Rightarrow>
     (case next_key f fb (kbd d) s of (bs, kb, s1) \<Rightarrow> (as @ bs, d\<lparr>mou := mo, kbd := kb\<rparr>, s1)))"

text \<open>One pass of \<open>kernel_cli_loop\<close>, up to its wait for interrupts.\<close>

definition cli_start :: "u32 \<Rightarrow> shell \<Rightarrow> shell" where
  "cli_start f s = s\<lparr>nxf := f + 40\<rparr>"

definition cli_pass :: "'s ps2_env \<Rightarrow> u32 \<Rightarrow> bool \<Rightarrow> u32 option \<Rightarrow> 's drv \<Rightarrow> shell \<Rightarrow> (action list \<times> 's drv outcome \<times> shell) option" where
  "cli_pass E f fb vid ds s = (case blink f fb s of (as, s1) \<Rightarrow>
     (case ps2_handle E ds of None \<Rightarrow> None
      | Some (Halted ds1) \<Rightarrow> Some (as, Halted ds1, s1)
      | Some (Running ds1) \<Rightarrow> (case ps2_waiting E ds1 of (w, ds2) \<Rightarrow>
        (case (if w then ps2_handle E ds2 else Some (Running ds2)) of None \<Rightarrow> None
         | Some (Halted ds3) \<Rightarrow> Some (as, Halted ds3, s1)
         | Some (Running ds3) \<Rightarrow> (case mouse_and_key f fb vid (fst ds3) s1 of (bs, d, s2) \<Rightarrow>
             Some (as @ bs, Running (d, snd ds3), s2))))))"

fun keys_typed :: "u32 \<Rightarrow> bool \<Rightarrow> u8 list \<Rightarrow> shell \<Rightarrow> action list \<times> shell" where
  "keys_typed f fb [] s = ([], s)"
| "keys_typed f fb (c # cs) s = (case handle_char f fb c s of (as, s1) \<Rightarrow> (case keys_typed f fb cs s1 of (bs, s2) \<Rightarrow> (as @ bs, s2)))"

subsection \<open>The line is kept in its buffer\<close>

definition shell_ok :: "shell \<Rightarrow> bool" where
  "shell_ok s \<longleftrightarrow> length (cmd s) = cmdlen \<and> cmdx s \<le> cmdlen \<and> cmdl s \<le> cmdlen"

lemma handle_char_ok: "shell_ok s \<Longrightarrow> shell_ok (snd (handle_char f fb c s))"
  by (auto simp: shell_ok_def handle_char_def put_char_def end_line_def Let_def)

lemma keys_typed_ok: "shell_ok s \<Longrightarrow> shell_ok (snd (keys_typed f fb cs s))"
proof (induction cs arbitrary: s)
  case (Cons c cs)
  then show ?case using handle_char_ok [OF Cons.prems, of f fb c] by (simp add: split_beta)
qed simp

text \<open>A pass of the loop keeps the line in its buffer too.\<close>

lemma next_key_ok: "shell_ok s \<Longrightarrow> shell_ok (snd (snd (next_key f fb kb s)))"
  using handle_char_ok [of s f fb] by (auto simp: next_key_def handle_key_def split_beta Let_def)

lemma blink_ok: "shell_ok s \<Longrightarrow> shell_ok (snd (blink f fb s))"
  by (simp add: blink_def shell_ok_def)

lemma cli_pass_ok: "shell_ok s \<Longrightarrow> cli_pass E f fb vid ds s = Some (as, r, s') \<Longrightarrow> shell_ok s'"
  using blink_ok [of s f fb] next_key_ok [of "snd (blink f fb s)" f fb]
  by (auto simp: cli_pass_def mouse_and_key_def split_beta split: option.splits outcome.splits if_splits)

subsection \<open>A line runs its command\<close>

text \<open>What a line is to do: a letter alone, or every command whose name the line begins with; two of them want the line to be the name.\<close>

definition starts :: "string \<Rightarrow> u8 list \<Rightarrow> bool" where
  "starts name line \<longleftrightarrow> take (length name) line = chars name"

definition line_runs :: "u8 list \<Rightarrow> action list" where
  "line_runs xs = (case xs of
      [] \<Rightarrow> []
    | [c] \<Rightarrow> letter c
    | [c, d] \<Rightarrow> []
    | _ \<Rightarrow> [DebugArp. _ \<leftarrow> [()], starts ''arp'' xs] @ [DebugPackets. _ \<leftarrow> [()], starts ''pkt'' xs] @ [Die. _ \<leftarrow> [()], starts ''die'' xs]
        @ [Eth (int (length xs) - 3). _ \<leftarrow> [()], starts ''eth'' xs] @ [Acpi (int (length xs) - 4). _ \<leftarrow> [()], starts ''acpi'' xs]
        @ [ToggleSerial. _ \<leftarrow> [()], xs = chars ''serial''] @ [Debug 2. _ \<leftarrow> [()], xs = chars ''/debug''])"

lemma length_chars [simp]: "length (chars n) = length n"
  by (simp add: chars_def)

lemma is_cmd_take:
  assumes "length name \<le> length line" "length line \<le> TEXT"
  shows "is_cmd line name \<longleftrightarrow> take (length name) line = chars name"
proof -
  have a: "map (line_mem line (chars name)) [0..<length name] = take (length name) line"
    using assms by (intro nth_equalityI) (simp_all add: line_mem_def)
  have b: "map (line_mem line (chars name)) [TEXT..<TEXT + length name] = chars name"
    using assms by (intro nth_equalityI) (simp_all add: line_mem_def)
  show ?thesis unfolding is_cmd_def memeq_compares using a b by simp
qed

lemma put_char_typed:
  "shell_ok s \<Longrightarrow> cmdx s + length cs \<le> cmdlen \<Longrightarrow>
    fold put_char cs s = s\<lparr>cmd := take (cmdx s) (cmd s) @ cs @ drop (cmdx s + length cs) (cmd s), cmdx := cmdx s + length cs\<rparr>"
proof (induction cs arbitrary: s)
  case (Cons c cs)
  have l: "cmdx s < cmdlen" "length (cmd s) = cmdlen" using Cons.prems by (simp_all add: shell_ok_def)
  have ok: "shell_ok (put_char c s)" using Cons.prems by (simp add: shell_ok_def put_char_def)
  have "take (Suc (cmdx s)) ((cmd s)[cmdx s := c]) = take (cmdx s) (cmd s) @ [c]" using l by (simp add: take_Suc_conv_app_nth)
  then show ?case using Cons.IH [OF ok] Cons.prems(2) l by (simp add: put_char_def)
qed simp

text \<open>The calls among the actions, without what is only printed.\<close>

fun is_call :: "action \<Rightarrow> bool" where
  "is_call (Echo c) = False"
| "is_call Render = False"
| "is_call Cursor = False"
| "is_call (Blink b) = False"
| "is_call (Dot p) = False"
| "is_call _ = True"

lemma put_char_timer: "put_char c (t\<lparr>nxf := n, flk := k\<rparr>) = (put_char c t)\<lparr>nxf := n, flk := k\<rparr>"
  by (simp add: put_char_def)

lemma fold_put_char_timer: "fold put_char cs (t\<lparr>nxf := n, flk := k\<rparr>) = (fold put_char cs t)\<lparr>nxf := n, flk := k\<rparr>"
  by (induction cs arbitrary: t) (simp_all only: fold_simps put_char_timer)

lemma keys_of_line:
  "10 \<notin> set cs \<Longrightarrow> \<exists>as n k. keys_typed f fb cs s = (as, (fold put_char cs s)\<lparr>nxf := n, flk := k\<rparr>) \<and> filter is_call as = []"
proof (induction cs arbitrary: s)
  case Nil
  show ?case by (rule exI [of _ "[]"], rule exI [of _ "nxf s"], rule exI [of _ "flk s"]) simp
next
  case (Cons c cs)
  let ?s1 = "(put_char c s)\<lparr>nxf := f + 100, flk := True\<rparr>"
  obtain as n k where r: "keys_typed f fb cs ?s1 = (as, (fold put_char cs ?s1)\<lparr>nxf := n, flk := k\<rparr>)" "filter is_call as = []"
    using Cons by fastforce
  show ?case using Cons.prems r by (auto simp: handle_char_def Let_def fold_put_char_timer)
qed

lemma keys_typed_append:
  "keys_typed f fb (cs @ ds) s = (case keys_typed f fb cs s of (as, s1) \<Rightarrow> (case keys_typed f fb ds s1 of (bs, s2) \<Rightarrow> (as @ bs, s2)))"
  by (induction cs arbitrary: s) (simp_all add: split_beta)

lemma calls_of_letter [simp]: "filter is_call (letter c) = letter c"
  by (simp add: letter_def)

lemma calls_of_named [simp]: "filter is_call (named l n) = named l n"
  by (simp add: named_def)

lemma named_runs:
  assumes "4 \<le> length cs" "length (cs @ old) = cmdlen"
  shows "named (cs @ old) (length cs) = line_runs cs"
proof -
  have pre: "is_cmd (cs @ old) name \<longleftrightarrow> starts name cs" if "length name \<le> length cs" for name
    using is_cmd_take [of name "cs @ old"] that assms(2) by (simp add: starts_def TEXT_def cmdlen_def)
  have six: "length cs = 6 \<and> is_cmd (cs @ old) name \<longleftrightarrow> cs = chars name" if "length name = 6" for name
    using pre [of name] that by (auto simp: starts_def)
  obtain a b c d ds where cs: "cs = a # b # c # d # ds" using assms(1) by (auto simp: numeral_eq_Suc Suc_le_length_iff)
  show ?thesis using assms(1) pre [of "''arp''"] pre [of "''pkt''"] pre [of "''die''"] pre [of "''eth''"] pre [of "''acpi''"] six [of "''serial''"] six [of "''/debug''"]
    unfolding named_def line_runs_def cs by simp
qed

subsection \<open>From the key buffer to the line\<close>

definition key_chars :: "u32 \<Rightarrow> u32 list \<Rightarrow> u8 list" where
  "key_chars m ks = filter (\<lambda>c. c \<noteq> 0) (map (\<lambda>k. mapchar k m) ks)"

lemma pop_key_mods [simp]: "mods (snd (pop_key kb)) = mods kb"
  by (simp add: pop_key_def Let_def)

lemma handle_keys_stored:
  assumes "kb_ok kb" "kb_stored kb = ks"
  shows "\<exists>kb'. handle_keys f fb (length ks) kb s =
      (fst (keys_typed f fb (key_chars (mods kb) ks) s), kb', snd (keys_typed f fb (key_chars (mods kb) ks) s)) \<and> kb_ok kb' \<and> kb_stored kb' = []"
  using assms
proof (induction ks arbitrary: kb s)
  case Nil
  then show ?case by (simp add: key_chars_def)
next
  case (Cons k ks)
  have h: "has_key kb" using kbq.empty_iff [of kb] Cons.prems by auto
  obtain kb1 where p: "pop_key kb = (k, kb1)" and s1: "kb_stored kb1 = ks" and ok: "kb_ok kb1"
    using kbq.stored_deq [of kb] kbq.invar_deq [of kb] h Cons.prems by (cases "pop_key kb") auto
  have m: "mods kb1 = mods kb" using pop_key_mods [of kb] p by simp
  let ?c = "mapchar k (mods kb)"
  show ?case
  proof (cases "?c = 0")
    case True
    then have "handle_key f fb kb s = ([], kb1, s)" using p m by (simp add: handle_key_def)
    then show ?thesis using Cons.IH [OF ok s1, of s] True h m by (auto simp: next_key_def key_chars_def)
  next
    case False
    obtain as s2 where c: "handle_char f fb ?c s = (as, s2)" by fastforce
    then have "handle_key f fb kb s = (as, kb1, s2)" using p m False by (simp add: handle_key_def)
    then show ?thesis using Cons.IH [OF ok s1, of s2] False h m c by (auto simp: next_key_def key_chars_def split_beta)
  qed
qed

text \<open>A line that is typed from its beginning and ended runs what it is to run, and nothing else is called, whatever earlier lines have left in the buffer.
  A line of three bytes is left out: it is compared with a name of four.\<close>

lemma line_calls:
  assumes "shell_ok s" "cmdx s = 0" "10 \<notin> set cs" "length cs \<le> cmdlen" "length cs \<noteq> 3"
  shows "filter is_call (fst (keys_typed f fb (cs @ [10]) s)) = line_runs cs \<and> cmdx (snd (keys_typed f fb (cs @ [10]) s)) = 0"
proof -
  let ?t = "fold put_char cs s"
  obtain as n k where r: "keys_typed f fb cs s = (as, ?t\<lparr>nxf := n, flk := k\<rparr>)" "filter is_call as = []"
    using keys_of_line [OF assms(3)] by blast
  have t: "?t = s\<lparr>cmd := cs @ drop (length cs) (cmd s), cmdx := length cs\<rparr>" using put_char_typed [of s cs] assms by simp
  have l: "length (cs @ drop (length cs) (cmd s)) = cmdlen" using assms by (simp add: shell_ok_def)
  let ?s = "?t\<lparr>nxf := n, flk := k\<rparr>"
  have st: "cmdx ?s = length cs" "cmd ?s = cs @ drop (length cs) (cmd s)" by (simp_all add: t)
  have "filter is_call (line_runs cs) = line_runs cs \<and> (\<exists>m. end_line ?s = (line_runs cs, ?s\<lparr>cmdl := m, cmdx := 0\<rparr>))"
  proof (cases "4 \<le> length cs")
    case True
    have c: "filter is_call (line_runs cs) = line_runs cs" unfolding named_runs [OF True l, symmetric] by (rule calls_of_named)
    have "named (cmd ?s) (length cs) = line_runs cs" using named_runs [OF True l] st by simp
    moreover have n: "(length cs = 0) = False" "(length cs = 1) = False" "(3 \<le> length cs) = True" using True by auto
    ultimately have "end_line ?s = (line_runs cs, ?s\<lparr>cmdl := length cs, cmdx := 0\<rparr>)" unfolding end_line_def st(1) by (simp only: n if_False if_True prod.case Let_def)
    then show ?thesis using c by blast
  next
    case False
    then consider "cs = []" | c where "cs = [c]" | c d where "cs = [c, d]"
      using assms(5) by (cases cs; cases "tl cs"; cases "tl (tl cs)"; cases "tl (tl (tl cs))") auto
    then show ?thesis using st unfolding end_line_def by cases (auto simp: line_runs_def intro: exI [of _ "cmdl s"])
  qed
  then obtain m where c: "filter is_call (line_runs cs) = line_runs cs" and e: "end_line ?s = (line_runs cs, ?s\<lparr>cmdl := m, cmdx := 0\<rparr>)"
    by blast
  show ?thesis unfolding keys_typed_append r(1) using r(2) c by (simp add: handle_char_def e)
qed


definition serial_keys :: "key_event list" where
  "serial_keys = [Make 0x1b, Break 0x1b, Make 0x24, Break 0x24, Make 0x2d, Break 0x2d, Make 0x43, Break 0x43, Make 0x1c, Break 0x1c, Make 0x4b, Break 0x4b, Make 0x5a]"


text \<open>A line of three bytes is compared with the name of four: after the line \<open>acpi\<close> the line \<open>acp\<close> is the command again, and its text has
  the length minus one.\<close>

lemma stale_acpi:
  assumes "length old = 4092"
  shows "Acpi (- 1) \<in> set (fst (end_line \<lparr>cmdx = 3, cmdl = 4, cmd = chars ''acp'' @ of_char CHR ''i'' # old, nxf = n, flk = k\<rparr>))"
proof -
  have "is_cmd (chars ''acp'' @ of_char CHR ''i'' # old) ''acpi''"
    using is_cmd_take [of "''acpi''" "chars ''acp'' @ of_char CHR ''i'' # old"] assms by (simp add: TEXT_def chars_def)
  then show ?thesis by (simp add: end_line_def named_def)
qed

text \<open>An empty line calls nothing and is the line that is then kept: the length that \<open>cmdx = cmdl\<close> brings back is reset two lines below.\<close>

lemma empty_line: "cmdx s = 0 \<Longrightarrow> end_line s = ([], s)"
  by (simp add: end_line_def)

text \<open>A character to be rubbed out is only rubbed out on the screen: its key is one more character of the line.\<close>

lemma rubout_stored: "cmdx s < cmdlen \<Longrightarrow> length (cmd s) = cmdlen \<Longrightarrow> cmdx (snd (handle_char f fb 8 s)) = cmdx s + 1 \<and> cmd (snd (handle_char f fb 8 s)) ! cmdx s = 8"
  by (simp add: handle_char_def put_char_def)

end
