(* ===== verification/Video.thy ===== *)
theory Video
  imports Large Framebuf Shell
begin

text \<open>
  The set-up of the graphical console (\<open>_kernel_main\<close> of \<open>src/kernel/kmain.cpp\<close>, from the mode information of the boot loader on): the frame
  buffer is mapped with large pages at \<open>VIDEO\<close>, cleared, and the consoles are placed in it; the virtual terminal in the middle of the screen.

  The set-up takes the pixels to have four bytes and the screen to be at least as large as the terminal. The boot loader also picks modes with
  1024 by 768 pixels or with two bytes (\<open>narrow_screen\<close> and \<open>two_byte_pixels\<close> below).
\<close>

subsection \<open>The mode and the set-up\<close>

record vbe =
  x_res :: u16
  y_res :: u16
  bits_per_pixel :: u8
  phys_base :: u32

definition vbe_at :: "bytes \<Rightarrow> nat \<Rightarrow> vbe" where
  "vbe_at m a = \<lparr>x_res = ld16 m (a + 18), y_res = ld16 m (a + 20), bits_per_pixel = m (a + 25), phys_base = ld32 m (a + 40)\<rparr>"

definition VIDEO :: u32 where
  "VIDEO = 0xd0000000"

definition VIDEO_SIZE :: u32 where
  "VIDEO_SIZE = 0x800000"

definition vid_stride :: "vbe \<Rightarrow> u32" where
  "vid_stride v = ucast (x_res v) * (ucast (bits_per_pixel v) div 8)"

definition clear_video :: "vbe \<Rightarrow> bytes \<Rightarrow> bytes" where
  "clear_video v m = fold (\<lambda>y m. st32 m (unat (VIDEO + 4 * of_nat y)) 0x00040a) [0 ..< unat (ucast (x_res v) * ucast (y_res v) :: u32)] m"

record display =
  fbt :: fbtext
  fbt_status :: fbtext

text \<open>\<open>g\<close> and \<open>h\<close> are the memory the two consoles are made in.\<close>

definition place_consoles :: "vbe \<Rightarrow> vterm \<Rightarrow> fbtext \<Rightarrow> fbtext \<Rightarrow> display" where
  "place_consoles v vt g h = (let
     ulr = center_align \<lparr>vx = ucast (width vt) * 6, vy = ucast (height vt) * 8\<rparr> \<lparr>vx = ucast (x_res v), vy = ucast (y_res v)\<rparr>
     in \<lparr>fbt = fb_setoffset (vx ulr) (vy ulr) (fb_new VIDEO (vid_stride v) (bits_per_pixel v) g),
         fbt_status = fb_setoffset (vx ulr) 0 (fb_new VIDEO (vid_stride v) (bits_per_pixel v) h)\<rparr>)"

definition video_init :: "nat \<Rightarrow> vbe \<Rightarrow> vterm \<Rightarrow> fbtext \<Rightarrow> fbtext \<Rightarrow> mm \<Rightarrow> bytes \<Rightarrow> (display option \<times> mm \<times> bytes) option" where
  "video_init k v vt g h st m =
    (if phys_base v = 0 then Some (None, st, m)
     else do {
       (p, st1) \<leftarrow> vmm_request k VIDEO_SIZE VIDEO (ucast (phys_base v)) (RQ_RW OR RQ_LARGE OR RQ_HINT) st;
       Some (Some (place_consoles v vt g h), st1, clear_video v m) })"

text \<open>The terminal of the kernel has 200 by 96 cells.\<close>

definition kernel_term :: "vterm \<Rightarrow> bool" where
  "kernel_term vt \<longleftrightarrow> width vt = 200 \<and> height vt = 96"

subsection \<open>The screen is cleared\<close>

lemma clear_run:
  assumes "unat VIDEO + 4 * n < 2 ^ 32"
  shows "(\<forall>a. a < unat VIDEO \<or> unat VIDEO + 4 * n \<le> a \<longrightarrow> fold (\<lambda>y m. st32 m (unat (VIDEO + 4 * of_nat y)) c) [0 ..< n] m a = m a)
    \<and> (\<forall>i < n. ld32 (fold (\<lambda>y m. st32 m (unat (VIDEO + 4 * of_nat y)) c) [0 ..< n] m) (unat VIDEO + 4 * i) = c)"
  using assms
proof (induction n)
  case (Suc n)
  let ?m = "fold (\<lambda>y m. st32 m (unat (VIDEO + 4 * of_nat y)) c) [0 ..< n] m"
  have p: "unat (VIDEO + 4 * of_nat n) = unat VIDEO + 4 * n"
    using Suc.prems by (simp add: unat_word_ariths unat_of_nat VIDEO_def)
  have r: "fold (\<lambda>y m. st32 m (unat (VIDEO + 4 * of_nat y)) c) [0 ..< Suc n] m = st32 ?m (unat VIDEO + 4 * n) c" by (simp add: p)
  note IH = Suc.IH [OF Suc_lessD]
  have IH: "\<forall>a. a < unat VIDEO \<or> unat VIDEO + 4 * n \<le> a \<longrightarrow> ?m a = m a" "\<forall>i < n. ld32 ?m (unat VIDEO + 4 * i) = c"
    using Suc.IH Suc.prems by simp_all
  have "ld32 (st32 ?m (unat VIDEO + 4 * n) c) (unat VIDEO + 4 * i) = c" if "i < Suc n" for i
  proof (cases "i = n")
    case False
    then have "ld32 (st32 ?m (unat VIDEO + 4 * n) c) (unat VIDEO + 4 * i) = ld32 ?m (unat VIDEO + 4 * i)"
      using that by (intro ld32_cong st32_other) linarith
    then show ?thesis using IH(2) that False by simp
  qed simp
  then show ?case unfolding r using IH(1) by (simp add: st32_other)
qed simp

subsection \<open>The terminal is on the screen\<close>

definition mode_ok :: "vbe \<Rightarrow> bool" where
  "mode_ok v \<longleftrightarrow> bits_per_pixel v = 32 \<and> 1200 \<le> x_res v \<and> 768 \<le> y_res v \<and> unat (x_res v) * unat (y_res v) \<le> 0x200000"

lemma half_minus:
  fixes x :: u16
  assumes "unat k * 2 \<le> unat x"
  shows "unat (drop_bit 1 (ucast x) - k :: u32) = unat x div 2 - unat k"
proof -
  have "unat (drop_bit 1 (ucast x) :: u32) = unat x div 2" by (simp add: drop_bit_eq_div unat_ucast_up unat_div_distrib)
  moreover have "k \<le> drop_bit 1 (ucast x)" using assms calculation by (simp add: word_le_nat_alt)
  ultimately show ?thesis by (simp add: unat_sub)
qed

lemma placed:
  fixes g h
  assumes "mode_ok v" "kernel_term vt"
  defines "f \<equiv> fbt (place_consoles v vt g h)"
  shows "fbb f = VIDEO" "unat (pitch f) = 4 * unat (x_res v)" "unat (vx (origin f)) = unat (x_res v) div 2 - 600"
    "unat (vy (origin f)) = unat (y_res v) div 2 - 384"
proof -
  have x: "1200 \<le> unat (x_res v)" "768 \<le> unat (y_res v)" using assms(1) by (simp_all add: mode_ok_def word_le_nat_alt)
  have lt: "unat (x_res v) < 65536" using unsigned_less [of "x_res v", where ?'a = nat] by simp
  show "fbb f = VIDEO" by (simp add: f_def place_consoles_def Let_def fb_setoffset_def fb_new_def)
  have "pitch f = ucast (x_res v) * 4" using assms(1) by (simp add: f_def place_consoles_def Let_def fb_setoffset_def fb_new_def vid_stride_def mode_ok_def)
  then show "unat (pitch f) = 4 * unat (x_res v)" using lt by (simp add: unat_word_ariths unat_ucast_up)
  have "vx (origin f) = drop_bit 1 (ucast (x_res v)) - 600" "vy (origin f) = drop_bit 1 (ucast (y_res v)) - 384"
    using assms(2) by (simp_all add: f_def place_consoles_def Let_def fb_setoffset_def fb_new_def center_align_def uvec_minus_def uvec_shr_def kernel_term_def)
  then show "unat (vx (origin f)) = unat (x_res v) div 2 - 600" "unat (vy (origin f)) = unat (y_res v) div 2 - 384"
    using half_minus [of 600 "x_res v"] half_minus [of 384 "y_res v"] x by simp_all
qed

lemma in_video: "n \<le> 0x200000 \<Longrightarrow> unat VIDEO + 4 * n < 2 ^ 32"
  by (simp add: VIDEO_def)

lemma placed_fits:
  assumes "mode_ok v" "kernel_term vt"
  shows "fits_screen (fbt (place_consoles v vt g h)) 200 96"
proof -
  have x: "1200 \<le> unat (x_res v)" "768 \<le> unat (y_res v)" "unat (x_res v) * unat (y_res v) \<le> 0x200000"
    using assms(1) by (simp_all add: mode_ok_def word_le_nat_alt)
  have "unat (x_res v) * (unat (y_res v) div 2 - 384 + 8 * 96) \<le> unat (x_res v) * unat (y_res v)"
    using x(2) by (intro mult_le_mono) simp_all
  then have "unat VIDEO + 4 * unat (x_res v) * (unat (y_res v) div 2 - 384 + 8 * 96) < 2 ^ 32"
    unfolding mult.assoc using x(3) by (intro in_video) (rule order_trans)
  moreover have "4 * (unat (x_res v) div 2 - 600) + 24 * 200 \<le> 4 * unat (x_res v)" using x(1) by linarith
  ultimately show ?thesis unfolding fits_screen_def placed [OF assms] by blast
qed

text \<open>C19 For a mode with four bytes for a pixel that is at least as large as the terminal and fits the mapped memory, the terminal is in the middle
  of the screen: the memory at \<open>phys_base\<close> that a pixel of a cell is written to is that pixel of the frame buffer, counted by lines of the
  screen from its first one. The screen is black before, and what \<open>line_shown\<close> needs of the console holds.\<close>

theorem screen_centred:
  assumes "mode_ok v" "kernel_term vt" "own_dirs st" "set_extent (ucast VIDEO) 0x800 MX_IO (vmm st) = Some w"
    and "phys_base v \<noteq> 0" "unat (phys_base v) mod 2097152 = 0" "unat (phys_base v) + 0x800000 \<le> 2 ^ 32"
  shows "\<exists>d st' m'. video_init (Suc k) v vt g h st m = Some (Some d, st', m') \<and> fits_screen (fbt d) 200 96 \<and>
    (\<forall>y < 768. \<forall>x < 200. \<forall>i < 6. let a = pixel_at (fbt d) y x i in
       ld32 m' a = 0x00040a \<and>
       unat (translate_page (of_nat a) st') =
         unat (phys_base v) + 4 * (unat (x_res v) * (unat (y_res v) div 2 - 384 + y) + (unat (x_res v) div 2 - 600 + 6 * x + i)))"
proof -
  let ?X = "unat (x_res v)" and ?Y = "unat (y_res v)" and ?f = "fbt (place_consoles v vt g h)"
  have x: "1200 \<le> ?X" "768 \<le> ?Y" "?X * ?Y \<le> 0x200000" using assms(1) by (simp_all add: mode_ok_def word_le_nat_alt)
  have ph: "unat (ucast (phys_base v) :: u64) = unat (phys_base v)" by (simp add: unat_ucast_up)
  have V: "unat VIDEO mod 2097152 = 0" "0x10000 \<le> VIDEO" "unat VIDEO + Suc 3 * 2097152 < 2 ^ 32" "unat VIDEO_SIZE = Suc 3 * 2097152"
    "VIDEO_SIZE div PAGE_SIZE = 0x800"
    by (simp_all add: VIDEO_def VIDEO_SIZE_def PAGE_SIZE_def)
  obtain st' where r: "vmm_request (Suc k) VIDEO_SIZE VIDEO (ucast (phys_base v)) (RQ_RW OR RQ_LARGE OR RQ_HINT) st = Some (VIDEO, st')"
    and tr: "\<And>u. unat VIDEO \<le> unat u \<and> unat u < unat VIDEO + Suc 3 * 2097152 \<Longrightarrow> unat (translate_page u st') = unat (phys_base v) + (unat u - unat VIDEO)"
    using large_request [OF assms(3) V(1) _ V(2,3) _ V(4), of "ucast (phys_base v)" w k] assms(4,6,7) unfolding ph V(5) by fastforce
  have n: "unat (ucast (x_res v) * ucast (y_res v) :: u32) = ?X * ?Y" using x(3) by (subst unat_mult_no_wrap) (simp_all add: unat_ucast_up)
  have clear: "\<forall>i < ?X * ?Y. ld32 (clear_video v m) (unat VIDEO + 4 * i) = 0x00040a"
    unfolding clear_video_def n using clear_run [of "?X * ?Y"] x(3) by (simp add: VIDEO_def)
  have px: "ld32 (clear_video v m) (pixel_at ?f y x i) = 0x00040a \<and> unat (translate_page (of_nat (pixel_at ?f y x i)) st') =
         unat (phys_base v) + 4 * (?X * (?Y div 2 - 384 + y) + (?X div 2 - 600 + 6 * x + i))" if y: "y < 768" "x < 200" "i < 6" for y x i
  proof -
    define n where "n = ?X * (?Y div 2 - 384 + y) + (?X div 2 - 600 + 6 * x + i)"
    have a: "pixel_at ?f y x i = unat VIDEO + 4 * n"
      unfolding pixel_at_def placed [OF assms(1,2)] n_def by (simp add: algebra_simps)
    have "?X div 2 - 600 + 6 * x + i < ?X" using x(1) y by linarith
    then have "n < ?X * Suc (?Y div 2 - 384 + y)" unfolding n_def by simp
    also have "\<dots> \<le> ?X * ?Y" using x(2) y by (intro mult_le_mono) linarith+
    finally have n: "n < ?X * ?Y" .
    have "unat (of_nat (unat VIDEO + 4 * n) :: u32) = unat VIDEO + 4 * n" using n x(3) by (subst unat_of_nat) (simp add: VIDEO_def)
    then have "unat (translate_page (of_nat (unat VIDEO + 4 * n)) st') = unat (phys_base v) + 4 * n"
      using tr [of "of_nat (unat VIDEO + 4 * n)"] n x(3) by simp
    moreover have "ld32 (clear_video v m) (unat VIDEO + 4 * n) = 0x00040a" using clear n by blast
    ultimately show ?thesis unfolding a n_def by (rule conjI [rotated])
  qed
  have "video_init (Suc k) v vt g h st m = Some (Some (place_consoles v vt g h), st', clear_video v m)"
    using r assms(5) by (simp add: video_init_def)
  then show ?thesis using placed_fits [OF assms(1,2), of g h] px unfolding Let_def by blast
qed

definition sample_mode :: vbe where
  "sample_mode = \<lparr>x_res = 1280, y_res = 1024, bits_per_pixel = 32, phys_base = 0xe0000000\<rparr>"

definition sample_term :: vterm where
  "sample_term = \<lparr>col = 0, row = 0, buffer = replicate 19200 \<lparr>code = 0, attr = 0\<rparr>, height = 96, width = 200, cattr = 0\<rparr>"

definition sample_fb :: fbtext where
  "sample_fb = \<lparr>fbb = 0, pitch = 0, bitmode = 0, fcol = 0, frow = 0, hlim = 0, vlim = 0, fgcolor = 0, bgcolor = 0, origin = \<lparr>vx = 0, vy = 0\<rparr>\<rparr>"

lemma sample_own_dirs: "own_dirs (sample_mm\<lparr>vmm := small_pa\<rparr>)"
  unfolding own_dirs_def all_below_4 by (auto simp: sample_mm_def idx_get_def)

lemma screen_centred_witness:
  "\<exists>d st' m'. video_init 1 sample_mode sample_term sample_fb sample_fb (sample_mm\<lparr>vmm := small_pa\<rparr>) (\<lambda>_. 0) = Some (Some d, st', m') \<and>
    unat (translate_page (of_nat (pixel_at (fbt d) 0 0 0)) st') = 0xe00a00a0"
proof -
  have ok: "mode_ok sample_mode" "kernel_term sample_term" "phys_base sample_mode \<noteq> 0" "unat (phys_base sample_mode) mod 2097152 = 0"
    "unat (phys_base sample_mode) + 0x800000 \<le> 2 ^ 32"
    by (simp_all add: mode_ok_def kernel_term_def sample_mode_def sample_term_def)
  have "real_class MX_IO" "range_ok (ucast VIDEO) 0x800" "pa_ok small_pa"
    using small_in_use by (simp_all add: real_class_def range_ok_def VIDEO_def in_use_def)
  moreover have "settable (ucast VIDEO) 0x800 small_pa"
  proof -
    let ?e = "\<lparr>mx_flags = MX_FREE, mx_base = 0x100000, mx_length = 0x100\<rparr> :: extent"
    have "set (ext_list small_pa) \<subseteq> insert ?e (set (replicate max_ext unset_extent))" unfolding small_list by (rule set_update_subset_insert)
    then have all: "e = ?e \<or> e = unset_extent" if "e \<in> set (ext_list small_pa)" for e using that by auto
    have "\<not> covers ?e n" "\<not> covers unset_extent n" if "page_of (ucast VIDEO) \<le> n" for n
      using that by (simp_all add: covers_def page_of_def VIDEO_def unset_extent_def)
    then have "class_of (ext_list small_pa) n = None" if "page_of (ucast VIDEO) \<le> n" for n
      using that all unfolding class_of_def by (metis first_index_None option.map(1))
    then show ?thesis unfolding settable_def by simp
  qed
  ultimately obtain w where w: "set_extent (ucast VIDEO) 0x800 MX_IO small_pa = Some w" using set_extent_spec [OF _ _ _ _ small_holes] by blast
  have w: "set_extent (ucast VIDEO) 0x800 MX_IO (vmm (sample_mm\<lparr>vmm := small_pa\<rparr>)) = Some w" using w by simp
  note all = screen_centred [OF ok(1,2) sample_own_dirs w ok(3,4,5), of 0 sample_fb sample_fb "\<lambda>_. 0", unfolded Let_def]
  obtain d st' m' where r: "video_init (Suc 0) sample_mode sample_term sample_fb sample_fb (sample_mm\<lparr>vmm := small_pa\<rparr>) (\<lambda>_. 0) = Some (Some d, st', m')"
    and px: "\<forall>y < 768. \<forall>x < 200. \<forall>i < 6. ld32 m' (pixel_at (fbt d) y x i) = 0x00040a \<and>
       unat (translate_page (of_nat (pixel_at (fbt d) y x i)) st') = unat (phys_base sample_mode) +
         4 * (unat (x_res sample_mode) * (unat (y_res sample_mode) div 2 - 384 + y) + (unat (x_res sample_mode) div 2 - 600 + 6 * x + i))"
    using all by blast
  have "unat (translate_page (of_nat (pixel_at (fbt d) 0 0 0)) st') = 0xe00a00a0"
    using px [rule_format, of 0 0 0] by (simp add: sample_mode_def)
  then show ?thesis using r by (metis One_nat_def)
qed

text \<open>The other modes of the boot loader. With 1024 pixels in a line the first pixel is 88 pixels before the frame buffer, in memory that is not mapped;
  with two bytes for a pixel the lines of the terminal do not fit those of the screen.\<close>

lemma narrow_screen:
  fixes g h
  assumes "x_res v = 1024" "y_res v = 768" "bits_per_pixel v = 32" "kernel_term vt"
  defines "f \<equiv> fbt (place_consoles v vt g h)"
  shows "fbb f + pitch f * vy (origin f) + vx (origin f) * 4 = VIDEO - 352" "\<not> fits_screen f 200 96"
  using assms(1-4) by (simp_all add: f_def place_consoles_def Let_def fb_setoffset_def fb_new_def vid_stride_def center_align_def uvec_minus_def
      uvec_shr_def kernel_term_def fits_screen_def VIDEO_def)

lemma two_byte_pixels:
  assumes "x_res v \<le> 1440" "bits_per_pixel v = 16"
  shows "\<not> fits_screen (fbt (place_consoles v vt g h)) 200 96"
proof -
  have "unat (x_res v) \<le> 1440" using assms(1) by (simp add: word_le_nat_alt)
  moreover have "pitch (fbt (place_consoles v vt g h)) = ucast (x_res v) * 2"
    using assms(2) by (simp add: place_consoles_def Let_def fb_setoffset_def fb_new_def vid_stride_def)
  ultimately have "unat (pitch (fbt (place_consoles v vt g h))) \<le> 2880" by (simp add: unat_word_ariths unat_ucast_up)
  then show ?thesis by (simp add: fits_screen_def)
qed

subsection \<open>The mouse draws on the screen\<close>

definition place_mouse :: "vbe \<Rightarrow> mouse \<Rightarrow> mouse" where
  "place_mouse v mo = (let xl = ucast (x_res v) - 1; yl = ucast (y_res v) - 1
     in mo\<lparr>xlim := xl, ylim := yl, mx := xl div 2, my := yl div 2\<rparr>)"

lemma in_rows: "(a :: nat) \<le> w - 1 \<Longrightarrow> b \<le> h - 1 \<Longrightarrow> 0 < w \<Longrightarrow> 0 < h \<Longrightarrow> w * b + a < w * h"
proof -
  assume h: "a \<le> w - 1" "b \<le> h - 1" "0 < w" "0 < h"
  then have "w * b + a < w * Suc b" by simp
  also have "\<dots> \<le> w * h" using h by (intro mult_le_mono2) simp
  finally show ?thesis .
qed

lemma unat_mult_add_le: "unat (a * b + c) \<le> unat a * unat b + unat (c :: u32)"
proof -
  have "unat (a * b + c) \<le> unat (a * b) + unat c" by (simp add: unat_word_ariths)
  moreover have "unat (a * b) \<le> unat a * unat b" by (simp add: unat_word_ariths)
  ultimately show ?thesis by simp
qed

text \<open>Whatever packets come from the mouse, its trace is left on the screen.\<close>

lemma dot_on_screen:
  assumes "mode_ok v" "fst (mouse_dot (Some (vid_stride v)) (mouse_feed ds (place_mouse v mo))) = [Dot p]"
  shows "unat p < unat (x_res v) * unat (y_res v)"
proof -
  let ?X = "unat (x_res v)" and ?Y = "unat (y_res v)" and ?m = "mouse_feed ds (place_mouse v mo)"
  have x: "1200 \<le> ?X" "768 \<le> ?Y" "?X * ?Y \<le> 0x200000" using assms(1) by (simp_all add: mode_ok_def word_le_nat_alt)
  have lt: "?X < 65536" "?Y < 65536" using unsigned_less [of "x_res v", where ?'a = nat] unsigned_less [of "y_res v", where ?'a = nat] by simp_all
  have one: "(1 :: u32) \<le> ucast (x_res v)" "(1 :: u32) \<le> ucast (y_res v)" using x by (simp_all add: word_le_nat_alt unat_ucast_up)
  have l: "unat (xlim (place_mouse v mo)) = ?X - 1" "unat (ylim (place_mouse v mo)) = ?Y - 1"
    using one by (simp_all add: place_mouse_def Let_def unat_sub unat_ucast_up)
  have half: "w div 2 \<le> (w :: u32)" for w by (simp add: word_le_nat_alt unat_div)
  have "mouse_ok (place_mouse v mo)" 
  proof -
    have "n - 1 + 255 < 2 ^ 32" if "n < 65536" for n :: nat using that by simp
    then have "?X - 1 + 255 < 2 ^ 32" "?Y - 1 + 255 < 2 ^ 32" using lt by blast+
    moreover have "mx (place_mouse v mo) \<le> xlim (place_mouse v mo)" "my (place_mouse v mo) \<le> ylim (place_mouse v mo)"
      using half by (simp_all add: place_mouse_def Let_def)
    ultimately show ?thesis unfolding mouse_ok_def l by blast
  qed
  then have "mx ?m \<le> xlim (place_mouse v mo)" "my ?m \<le> ylim (place_mouse v mo)" using mouse_stays by blast+
  then have m: "unat (mx ?m) \<le> ?X - 1" "unat (my ?m) \<le> ?Y - 1" unfolding word_le_nat_alt l by simp_all
  have st: "vid_stride v = ucast (x_res v) * 4" using assms(1) by (simp add: vid_stride_def mode_ok_def)
  have "unat (vid_stride v) = ?X * 4" using lt st by (simp add: unat_word_ariths unat_ucast_up)
  then have s4: "unat (vid_stride v div 4) = ?X" by (simp add: unat_div)
  have in_range: "?X * unat (my ?m) + unat (mx ?m) < ?X * ?Y"
    by (rule in_rows [OF m]) (use x(1,2) in simp_all)
  have "p = vid_stride v div 4 * my ?m + mx ?m" using assms(2) by (simp add: mouse_dot_def split: if_splits)
  then have "unat p \<le> ?X * unat (my ?m) + unat (mx ?m)" using unat_mult_add_le [of "vid_stride v div 4"] unfolding s4 by simp
  then show ?thesis using in_range by simp
qed

end
